(* ===== verification/Skynet_Prelude.thy ===== *)
theory Skynet_Prelude
  imports Main "HOL-Library.Word" "HOL-Library.Multiset" "HOL-Library.Monad_Syntax"
begin

text \<open>
  Shared vocabulary of the development: the widths of the C integers, the convention for
  failures, and the lemmas on lists, options and words that the component theories use.

  A C++ \<open>assert\<close> that fails and the dereference of a null pointer abort the process. Operations
  that contain one return an option: \<open>None\<close> is the aborted process, \<open>Some\<close> the result.
\<close>

unbundle bit_operations_syntax

type_synonym u8 = "8 word"
type_synonym u16 = "16 word"
type_synonym u32 = "32 word"
type_synonym u64 = "64 word"

text \<open>A heap buffer of the C++ code: its bytes.\<close>

type_synonym bytes = "u8 list"

text \<open>\<open>assert(c)\<close> of the source.\<close>

definition c_assert :: "bool \<Rightarrow> unit option" where
  "c_assert c = (if c then Some () else None)"

lemma c_assert_Some [simp]: "c_assert c = Some u \<longleftrightarrow> c"
  by (simp add: c_assert_def)

lemma c_assert_bind [simp]: "Option.bind (c_assert c) f = (if c then f () else None)"
  by (simp add: c_assert_def)


subsection \<open>Lists\<close>

lemma map_upt_Suc_append: "map f [0..<Suc n] = map f [0..<n] @ [f n]"
  by simp

lemma nth_update_neq_map:
  assumes "\<And>i. i < n \<Longrightarrow> g i \<noteq> k"
  shows "map (\<lambda>i. xs[k := v] ! g i) [0..<n] = map (\<lambda>i. xs ! g i) [0..<n]"
  using assms by (simp add: nth_list_update_neq [OF not_sym])

lemma mod_add_inj:
  fixes a b h c :: nat
  assumes "a < c" and "b < c" and "(h + a) mod c = (h + b) mod c"
  shows "a = b"
proof -
  have aux: "x = y" if "x \<le> y" "y < c" "(h + x) mod c = (h + y) mod c" for x y :: nat
  proof -
    from that have "c dvd (h + y) - (h + x)"
      by (metis mod_eq_dvd_iff_nat nat_add_left_cancel_le)
    with that show ?thesis
      by (metis add_diff_cancel_left dvd_imp_le le_neq_implies_less less_imp_diff_less
          linorder_not_less zero_less_diff)
  qed
  show ?thesis
    using aux [of a b] aux [of b a] assms by (metis nat_le_linear)
qed

text \<open>The cells of a ring buffer, read from its head: a store at the tail and a step of the head.\<close>

lemma ring_cells_store:
  assumes "n < c" and "t = (h + n) mod c"
  shows "map (\<lambda>i. (f(t := v)) ((h + i) mod c)) [0..<Suc n]
         = map (\<lambda>i. f ((h + i) mod c)) [0..<n] @ [v]"
proof -
  have "(h + i) mod c \<noteq> t" if "i < n" for i
    using mod_add_inj [of i c n h] that assms by auto
  with assms show ?thesis by simp
qed

lemma ring_cells_Cons:
  assumes "h < c" and h': "h' = (if Suc h \<ge> c then 0 else Suc h)"
  shows "map (\<lambda>i. f ((h + i) mod c)) [0..<Suc n] = f h # map (\<lambda>i. f ((h' + i) mod c)) [0..<n]"
proof -
  have "(h + Suc i) mod c = (h' + i) mod c" for i
  proof (cases "Suc h < c")
    case False
    with assms have c: "c = Suc h" "h' = 0" by simp_all
    have "(h + Suc i) mod c = (c + i) mod c" by (simp add: c)
    also have "\<dots> = i mod c" by simp
    finally show ?thesis using c(2) by (simp only: add_0)
  qed (use h' in simp)
  then show ?thesis
    using \<open>h < c\<close> by (simp add: upt_conv_Cons flip: map_Suc_upt del: upt_Suc)
qed

subsection \<open>Words\<close>

lemma unat_drop_bit: "unat (drop_bit k x) = unat (x :: 'a::len word) div 2 ^ k"
  by (subst unat_drop_bit_eq) (rule drop_bit_eq_div)

lemma unat_and_mask: "unat (x AND mask k) = unat (x :: 'a::len word) mod 2 ^ k"
  by (metis take_bit_eq_mask take_bit_eq_mod unsigned_take_bit_eq)

lemma unat_drop_bit_and_mask:
  "unat (drop_bit k x AND mask j) = unat (x :: 'a::len word) div 2 ^ k mod 2 ^ j"
  by (simp only: unat_and_mask unat_drop_bit)

text \<open>Masking with a power of two less one, as hash tables and ring buffers do.\<close>

lemma and_size_mask: "sz = 2 ^ k \<Longrightarrow> (h :: nat) AND (sz - 1) = h mod sz"
  by (metis mask_eq_exp_minus_1 take_bit_eq_mask take_bit_eq_mod)

lemma fold_range_cong:
  assumes "\<And>t. a \<le> t \<Longrightarrow> t < b \<Longrightarrow> f t = g t"
  shows "fold f [a..<b] = fold g [a..<b]"
  using assms by (intro ext fold_cong) auto

lemma u32_less: "unat (x :: u32) < 2 ^ 32"
  using unsigned_less [of x] by simp

lemma less_4: "(i :: nat) < 4 \<longleftrightarrow> i = 0 \<or> i = 1 \<or> i = 2 \<or> i = 3"
  by presburger

end
