(* ===== verification/Mq.thy ===== *)
theory Mq
  imports Skynet_Prelude
begin

text \<open>
  The private message queue of a service (\<open>skynet-src/mq/mq_private.cpp\<close>): a growable ring
  buffer of \<open>service_message\<close>, with the overload threshold that the dispatcher reports. The
  ring is \<open>queue_\<close> with the indices \<open>head_\<close> and \<open>tail_\<close>; the theory abstracts it to the list of
  the messages it holds and shows that the operations are the operations of a FIFO list.
\<close>

subsection \<open>Messages\<close>

text \<open>
  A service handle is a \<open>uint32_t\<close>; the code masks it, compares it and counts it up below
  \<open>HANDLE_MASK\<close>, so it is a natural number here.
\<close>

type_synonym handle = nat

datatype service_message_type =
    SERVICE_MSG_TYPE_TEXT
  | SERVICE_MSG_TYPE_RESPONSE
  | SERVICE_MSG_TYPE_MULTICAST
  | SERVICE_MSG_TYPE_CLIENT
  | SERVICE_MSG_TYPE_SYSTEM
  | SERVICE_MSG_TYPE_SOCKET
  | SERVICE_MSG_TYPE_ERROR
  | SERVICE_MSG_TYPE_RESERVED_QUEUE
  | SERVICE_MSG_TYPE_RESERVED_DEBUG
  | SERVICE_MSG_TYPE_RESERVED_LUA
  | SERVICE_MSG_TYPE_RESERVED_SNAX

fun msg_type_code :: "service_message_type \<Rightarrow> nat" where
  "msg_type_code SERVICE_MSG_TYPE_TEXT = 0"
| "msg_type_code SERVICE_MSG_TYPE_RESPONSE = 1"
| "msg_type_code SERVICE_MSG_TYPE_MULTICAST = 2"
| "msg_type_code SERVICE_MSG_TYPE_CLIENT = 3"
| "msg_type_code SERVICE_MSG_TYPE_SYSTEM = 4"
| "msg_type_code SERVICE_MSG_TYPE_SOCKET = 5"
| "msg_type_code SERVICE_MSG_TYPE_ERROR = 6"
| "msg_type_code SERVICE_MSG_TYPE_RESERVED_QUEUE = 7"
| "msg_type_code SERVICE_MSG_TYPE_RESERVED_DEBUG = 8"
| "msg_type_code SERVICE_MSG_TYPE_RESERVED_LUA = 9"
| "msg_type_code SERVICE_MSG_TYPE_RESERVED_SNAX = 10"

definition MESSAGE_TAG_DONT_COPY :: nat where
  "MESSAGE_TAG_DONT_COPY = 0x10000"

definition MESSAGE_TAG_ALLOC_SESSION :: nat where
  "MESSAGE_TAG_ALLOC_SESSION = 0x20000"

text \<open>\<open>SIZE_MAX >> 8\<close> and \<open>(sizeof(size_t) - 1) * 8\<close> for a 64 bit \<open>size_t\<close>.\<close>

definition MESSAGE_TYPE_MASK :: u64 where
  "MESSAGE_TYPE_MASK = drop_bit 8 (- 1)"

definition MESSAGE_TYPE_SHIFT :: nat where
  "MESSAGE_TYPE_SHIFT = (8 - 1) * 8"

text \<open>The data pointer is modelled by the buffer it points to; \<open>None\<close> is \<open>nullptr\<close>.\<close>

record service_message =
  src_svc_handle :: handle
  session_id :: int
  data_ptr :: "bytes option"
  data_size :: u64

definition empty_message :: service_message where
  "empty_message = \<lparr>src_svc_handle = 0, session_id = 0, data_ptr = None, data_size = 0\<rparr>"

subsection \<open>The private queue and its operations\<close>

definition DEFAULT_QUEUE_CAPACITY :: nat where
  "DEFAULT_QUEUE_CAPACITY = 64"

definition DEFAULT_OVERLOAD_THRESHOLD :: nat where
  "DEFAULT_OVERLOAD_THRESHOLD = 1024"

text \<open>The link field \<open>next_\<close> points to another queue, identified by its number in the heap.\<close>

type_synonym qid = nat

record mq_private =
  mq_svc_handle :: handle
  mq_is_release :: bool
  mq_is_in_global :: bool
  mq_overload :: nat
  mq_overload_threshold :: nat
  mq_cap :: nat
  mq_head :: nat
  mq_tail :: nat
  mq_queue :: "service_message list"
  mq_next :: "qid option"

definition mq_create :: "handle \<Rightarrow> mq_private" where
  "mq_create h =
     \<lparr>mq_svc_handle = h, mq_is_release = False, mq_is_in_global = True, mq_overload = 0,
      mq_overload_threshold = DEFAULT_OVERLOAD_THRESHOLD,
      mq_cap = DEFAULT_QUEUE_CAPACITY, mq_head = 0, mq_tail = 0,
      mq_queue = replicate DEFAULT_QUEUE_CAPACITY empty_message, mq_next = None\<rparr>"

text \<open>
  \<open>_expand_queue\<close>: a ring of twice the size whose first \<open>cap_\<close> cells are the old messages in
  order; the other cells hold default messages.
\<close>

definition expand_queue :: "mq_private \<Rightarrow> mq_private" where
  "expand_queue q =
     q\<lparr>mq_queue := map (\<lambda>i. mq_queue q ! ((mq_head q + i) mod mq_cap q)) [0..<mq_cap q]
                  @ replicate (mq_cap q) empty_message,
       mq_head := 0,
       mq_tail := mq_cap q,
       mq_cap := mq_cap q * 2\<rparr>"

text \<open>
  The part of \<open>push\<close> that works on the ring: store at the tail, advance it round the ring, and
  expand when it has caught up with the head. (The hand-over to the global queue is in the
  theory of the global queue.)
\<close>

definition ring_push :: "service_message \<Rightarrow> mq_private \<Rightarrow> mq_private" where
  "ring_push m q =
     (let q1 = q\<lparr>mq_queue := (mq_queue q)[mq_tail q := m]\<rparr>;
          t = Suc (mq_tail q);
          q2 = q1\<lparr>mq_tail := (if t \<ge> mq_cap q then 0 else t)\<rparr>
      in if mq_head q2 = mq_tail q2 then expand_queue q2 else q2)"

text \<open>
  The loop \<open>while (length > overload_threshold_)\<close> of \<open>pop\<close>. The recursion also tests that the
  threshold is positive, which makes it total; the queue invariant keeps the threshold above
  zero, so that this test never decides (lemma \<open>raise_threshold_unfold\<close>).
\<close>

function raise_threshold :: "nat \<Rightarrow> nat \<times> nat \<Rightarrow> nat \<times> nat" where
  "raise_threshold len (ov, th) =
     (if len > th \<and> th > 0 then raise_threshold len (len, th * 2) else (ov, th))"
  by pat_completeness auto
termination
  by (relation "measure (\<lambda>(len, ov, th). len - th)") auto

declare raise_threshold.simps [simp del]

lemma raise_threshold_unfold:
  "th > 0 \<Longrightarrow>
   raise_threshold len (ov, th) =
     (if len > th then raise_threshold len (len, th * 2) else (ov, th))"
  by (subst raise_threshold.simps) simp

text \<open>
  \<open>pop\<close>: the result is \<open>true\<close> when the queue was empty; otherwise the message is written to the
  caller's variable.
\<close>

definition ring_pop :: "mq_private \<Rightarrow> (bool \<times> service_message option) \<times> mq_private" where
  "ring_pop q =
     (if mq_head q \<noteq> mq_tail q then
        let m = mq_queue q ! mq_head q;
            head1 = Suc (mq_head q);
            head2 = (if head1 \<ge> mq_cap q then 0 else head1);
            len0 = int (mq_tail q) - int head2;
            len = nat (if len0 < 0 then len0 + int (mq_cap q) else len0);
            (ov, th) = raise_threshold len (mq_overload q, mq_overload_threshold q)
        in ((False, Some m),
            q\<lparr>mq_head := head2, mq_overload := ov, mq_overload_threshold := th\<rparr>)
      else
        ((True, None),
         q\<lparr>mq_overload_threshold := DEFAULT_OVERLOAD_THRESHOLD, mq_is_in_global := False\<rparr>))"

definition mq_length :: "mq_private \<Rightarrow> nat" where
  "mq_length q =
     (if mq_head q \<le> mq_tail q then mq_tail q - mq_head q else mq_tail q + mq_cap q - mq_head q)"

text \<open>\<open>overload\<close> reads the overload mark and resets it.\<close>

definition mq_private_overload :: "mq_private \<Rightarrow> nat \<times> mq_private" where
  "mq_private_overload q =
     (if mq_overload q \<noteq> 0 then (mq_overload q, q\<lparr>mq_overload := 0\<rparr>) else (0, q))"

subsection \<open>Invariant and abstraction\<close>

definition mq_inv :: "mq_private \<Rightarrow> bool" where
  "mq_inv q \<longleftrightarrow>
     length (mq_queue q) = mq_cap q \<and> mq_head q < mq_cap q \<and> mq_tail q < mq_cap q \<and>
     0 < mq_overload_threshold q"

definition mq_contents :: "mq_private \<Rightarrow> service_message list" where
  "mq_contents q = map (\<lambda>i. mq_queue q ! ((mq_head q + i) mod mq_cap q)) [0..<mq_length q]"

lemma length_mq_contents [simp]: "length (mq_contents q) = mq_length q"
  by (simp add: mq_contents_def)

lemma mq_length_less: "mq_inv q \<Longrightarrow> mq_length q < mq_cap q"
  by (auto simp: mq_inv_def mq_length_def)

lemma tail_eq_mod: "mq_inv q \<Longrightarrow> mq_tail q = (mq_head q + mq_length q) mod mq_cap q"
  by (auto simp: mq_inv_def mq_length_def)

lemma mq_length_eq_0_iff: "mq_inv q \<Longrightarrow> mq_length q = 0 \<longleftrightarrow> mq_head q = mq_tail q"
  by (auto simp: mq_inv_def mq_length_def)

lemma mq_inv_create [simp]: "mq_inv (mq_create h)"
  by (simp add: mq_inv_def mq_create_def DEFAULT_QUEUE_CAPACITY_def
      DEFAULT_OVERLOAD_THRESHOLD_def)

lemma mq_create_fields [simp]:
  "\<not> mq_is_release (mq_create h)" "mq_is_in_global (mq_create h)" "mq_next (mq_create h) = None"
  "mq_svc_handle (mq_create h) = h"
  by (simp_all add: mq_create_def)

lemma mq_next_None_update: "mq_next x = None \<Longrightarrow> x\<lparr>mq_next := None\<rparr> = x"
  by (cases x) simp

lemma mq_contents_create [simp]: "mq_contents (mq_create h) = []"
  by (simp add: mq_contents_def mq_create_def mq_length_def)

subsection \<open>Pushing\<close>

text \<open>The ring after the store and the tail step, before a possible expansion.\<close>

definition ring_store :: "service_message \<Rightarrow> mq_private \<Rightarrow> mq_private" where
  "ring_store m q =
     q\<lparr>mq_queue := (mq_queue q)[mq_tail q := m],
       mq_tail := (if Suc (mq_tail q) \<ge> mq_cap q then 0 else Suc (mq_tail q))\<rparr>"

lemma ring_push_alt:
  "ring_push m q =
     (if mq_head q = mq_tail (ring_store m q) then expand_queue (ring_store m q)
      else ring_store m q)"
  by (simp add: ring_push_def ring_store_def Let_def)

lemma mq_inv_ring_store: "mq_inv q \<Longrightarrow> mq_inv (ring_store m q)"
  by (auto simp: mq_inv_def ring_store_def)

text \<open>The stored ring, read from the head for one cell more than before.\<close>

lemma ring_store_cells:
  assumes "mq_inv q"
  shows "map (\<lambda>i. mq_queue (ring_store m q) ! ((mq_head q + i) mod mq_cap q)) [0..<Suc (mq_length q)]
         = mq_contents q @ [m]"
proof -
  have len: "mq_length q < mq_cap q" and q: "length (mq_queue q) = mq_cap q"
    using assms by (auto simp: mq_length_less mq_inv_def)
  have tl: "mq_tail q = (mq_head q + mq_length q) mod mq_cap q"
    using assms by (rule tail_eq_mod)
  have "(mq_head q + i) mod mq_cap q \<noteq> mq_tail q" if "i < mq_length q" for i
    using mod_add_inj [of i "mq_cap q" "mq_length q" "mq_head q"] that len tl by auto
  then have "map (\<lambda>i. mq_queue (ring_store m q) ! ((mq_head q + i) mod mq_cap q)) [0..<mq_length q]
             = mq_contents q"
    unfolding mq_contents_def ring_store_def by (simp add: nth_update_neq_map)
  moreover have "mq_queue (ring_store m q) ! ((mq_head q + mq_length q) mod mq_cap q) = m"
    using assms q by (simp add: ring_store_def mq_inv_def flip: tl)
  ultimately show ?thesis by simp
qed

lemma ring_store_full:
  assumes "mq_inv q"
  shows "mq_head q = mq_tail (ring_store m q) \<longleftrightarrow> Suc (mq_length q) = mq_cap q"
  using assms by (auto simp: mq_inv_def ring_store_def mq_length_def)

lemma ring_store_length:
  assumes "mq_inv q" and "mq_head q \<noteq> mq_tail (ring_store m q)"
  shows "mq_length (ring_store m q) = Suc (mq_length q)"
  using assms by (auto simp: mq_inv_def ring_store_def mq_length_def split: if_splits)

lemma mq_inv_expand: "mq_inv q \<Longrightarrow> mq_inv (expand_queue q)"
  by (auto simp: mq_inv_def expand_queue_def)

lemma mq_contents_expand:
  assumes "0 < mq_cap q"
  shows "mq_contents (expand_queue q) =
         map (\<lambda>i. mq_queue q ! ((mq_head q + i) mod mq_cap q)) [0..<mq_cap q]"
  using assms by (auto simp: mq_contents_def expand_queue_def mq_length_def nth_append)

lemma ring_push_inv: "mq_inv q \<Longrightarrow> mq_inv (ring_push m q)"
  by (simp add: ring_push_alt mq_inv_ring_store mq_inv_expand)

lemma ring_push_contents:
  assumes "mq_inv q"
  shows "mq_contents (ring_push m q) = mq_contents q @ [m]"
proof (cases "mq_head q = mq_tail (ring_store m q)")
  case True
  then have full: "Suc (mq_length q) = mq_cap q"
    using assms by (simp add: ring_store_full)
  have "0 < mq_cap (ring_store m q)" and "mq_cap (ring_store m q) = mq_cap q"
    and "mq_head (ring_store m q) = mq_head q"
    using assms by (auto simp: mq_inv_def ring_store_def)
  then show ?thesis
    using True ring_store_cells [OF assms, of m]
    by (simp add: ring_push_alt mq_contents_expand full del: upt_Suc)
next
  case False
  have "mq_head (ring_store m q) = mq_head q" and "mq_cap (ring_store m q) = mq_cap q"
    by (simp_all add: ring_store_def)
  with False show ?thesis
    using ring_store_cells [OF assms, of m] ring_store_length [OF assms False]
    by (simp add: ring_push_alt mq_contents_def del: upt_Suc)
qed

subsection \<open>Popping\<close>

lemma raise_threshold_props:
  "0 < th \<Longrightarrow> raise_threshold len (ov, th) = (ov', th') \<Longrightarrow>
   th \<le> th' \<and> len \<le> th' \<and> (ov' = (if th < len then len else ov))"
proof (induction len "(ov, th)" arbitrary: ov th rule: raise_threshold.induct)
  case (1 len ov th)
  show ?case
  proof (cases "len > th")
    case True
    with "1.prems" have "raise_threshold len (len, th * 2) = (ov', th')"
      by (simp add: raise_threshold_unfold)
    then have "th * 2 \<le> th' \<and> len \<le> th' \<and> ov' = (if th * 2 < len then len else len)"
      using "1.hyps" "1.prems"(1) True by simp
    with True show ?thesis by simp
  next
    case False
    with 1 show ?thesis by (simp add: raise_threshold_unfold)
  qed
qed

lemma ring_pop_length_eq:
  assumes "mq_inv q" and "mq_head q \<noteq> mq_tail q"
  defines "h \<equiv> (if Suc (mq_head q) \<ge> mq_cap q then 0 else Suc (mq_head q))"
  shows "nat (if int (mq_tail q) - int h < 0 then int (mq_tail q) - int h + int (mq_cap q)
              else int (mq_tail q) - int h) = mq_length q - 1"
  using assms by (auto simp: mq_inv_def mq_length_def)

lemma ring_pop_inv:
  assumes "mq_inv q"
  shows "mq_inv (snd (ring_pop q))"
proof (cases "mq_head q = mq_tail q")
  case True
  with assms show ?thesis
    by (simp add: ring_pop_def mq_inv_def DEFAULT_OVERLOAD_THRESHOLD_def)
next
  case False
  obtain ov th where r: "raise_threshold (mq_length q - 1) (mq_overload q, mq_overload_threshold q)
      = (ov, th)" by fastforce
  have "0 < th"
    using raise_threshold_props [OF _ r] assms by (simp add: mq_inv_def)
  with False r assms show ?thesis
    using ring_pop_length_eq [OF assms False]
    by (auto simp: ring_pop_def Let_def mq_inv_def)
qed

lemma mq_contents_Cons:
  assumes "mq_inv q" and "mq_head q \<noteq> mq_tail q"
    and h: "h = (if Suc (mq_head q) \<ge> mq_cap q then 0 else Suc (mq_head q))"
    and q': "mq_queue q' = mq_queue q" "mq_cap q' = mq_cap q" "mq_tail q' = mq_tail q" "mq_head q' = h"
  shows "mq_contents q = (mq_queue q ! mq_head q) # mq_contents q'"
proof -
  have len: "mq_length q = Suc (mq_length q')"
    using assms by (auto simp: mq_inv_def mq_length_def)
  have head: "mq_head q < mq_cap q" using assms by (simp add: mq_inv_def)
  show ?thesis
    using ring_cells_Cons [OF head h, of "(!) (mq_queue q)" "mq_length q'"] q'
    by (simp add: mq_contents_def len del: upt_Suc)
qed

lemma ring_pop_contents:
  assumes "mq_inv q"
  shows "ring_pop q = (r, q') \<Longrightarrow>
    (case mq_contents q of
       [] \<Rightarrow> r = (True, None) \<and> mq_contents q' = [] \<and> \<not> mq_is_in_global q'
     | m # ms \<Rightarrow> r = (False, Some m) \<and> mq_contents q' = ms
                  \<and> mq_is_in_global q' = mq_is_in_global q)"
proof (cases "mq_head q = mq_tail q")
  case True
  assume "ring_pop q = (r, q')"
  moreover have "mq_contents q = []"
    using True assms by (simp add: mq_contents_def mq_length_eq_0_iff)
  ultimately show ?thesis
    using True by (auto simp: ring_pop_def mq_contents_def mq_length_def)
next
  case False
  assume pop: "ring_pop q = (r, q')"
  from False pop have r: "r = (False, Some (mq_queue q ! mq_head q))"
    and q': "mq_queue q' = mq_queue q" "mq_cap q' = mq_cap q" "mq_tail q' = mq_tail q"
      "mq_head q' = (if Suc (mq_head q) \<ge> mq_cap q then 0 else Suc (mq_head q))"
      "mq_is_in_global q' = mq_is_in_global q"
    by (auto simp: ring_pop_def Let_def split: prod.splits)
  show ?thesis
    using mq_contents_Cons [OF assms False refl q'(1-4)] r q'(5) by simp
qed

subsection \<open>The queue interface\<close>

text \<open>\<open>drain\<close> pops up to \<open>n\<close> messages, as the dispatcher does for one queue.\<close>

fun drain :: "('q \<Rightarrow> (bool \<times> 'm option) \<times> 'q) \<Rightarrow> nat \<Rightarrow> 'q \<Rightarrow> 'm list \<times> 'q" where
  "drain pop 0 q = ([], q)"
| "drain pop (Suc n) q =
     (case pop q of
        ((False, Some m), q') \<Rightarrow> (let (ms, q'') = drain pop n q' in (m # ms, q''))
      | (_, q') \<Rightarrow> ([], q'))"

text \<open>
  What the dispatcher and the senders rely on: the queue is a first-in first-out list of
  messages, and popping an empty queue reports that it is empty.
\<close>

locale message_queue =
  fixes push :: "'m \<Rightarrow> 'q \<Rightarrow> 'q"
    and pop :: "'q \<Rightarrow> (bool \<times> 'm option) \<times> 'q"
    and contents :: "'q \<Rightarrow> 'm list"
    and inv :: "'q \<Rightarrow> bool"
  assumes push_inv: "inv q \<Longrightarrow> inv (push m q)"
    and push_contents: "inv q \<Longrightarrow> contents (push m q) = contents q @ [m]"
    and pop_inv: "inv q \<Longrightarrow> inv (snd (pop q))"
    and pop_nil: "inv q \<Longrightarrow> contents q = [] \<Longrightarrow>
          fst (pop q) = (True, None) \<and> contents (snd (pop q)) = []"
    and pop_cons: "inv q \<Longrightarrow> contents q = m # ms \<Longrightarrow>
          fst (pop q) = (False, Some m) \<and> contents (snd (pop q)) = ms"
begin

lemma fold_push:
  "inv q \<Longrightarrow> inv (fold push ms q) \<and> contents (fold push ms q) = contents q @ ms"
  by (induction ms arbitrary: q) (auto simp: push_inv push_contents)

lemma drain_take:
  "inv q \<Longrightarrow> fst (drain pop n q) = take n (contents q) \<and>
     inv (snd (drain pop n q)) \<and> contents (snd (drain pop n q)) = drop n (contents q)"
proof (induction n arbitrary: q)
  case 0
  then show ?case by simp
next
  case (Suc n)
  obtain b mo q' where p: "pop q = ((b, mo), q')" by (metis prod.exhaust)
  show ?case
  proof (cases "contents q")
    case Nil
    with Suc.prems p show ?thesis
      using pop_nil [of q] pop_inv [of q] by simp
  next
    case (Cons m ms)
    with Suc.prems p have "b = False" "mo = Some m" "contents q' = ms" "inv q'"
      using pop_cons [of q m ms] pop_inv [of q] by auto
    with Suc.IH [of q'] p Cons show ?thesis
      by (auto split: prod.splits)
  qed
qed

lemma fifo:
  assumes "inv q" and "contents q = []"
  shows "fst (drain pop n (fold push ms q)) = take n ms"
  using drain_take [of "fold push ms q" n] fold_push [OF assms(1), of ms] assms(2) by simp

end

interpretation ring: message_queue ring_push ring_pop mq_contents mq_inv
proof unfold_locales
  fix q m ms
  assume i: "mq_inv q"
  show "mq_inv (ring_push m q)" using i by (rule ring_push_inv)
  show "mq_contents (ring_push m q) = mq_contents q @ [m]" using i by (rule ring_push_contents)
  show "mq_inv (snd (ring_pop q))" using i by (rule ring_pop_inv)
  show "fst (ring_pop q) = (True, None) \<and> mq_contents (snd (ring_pop q)) = []"
    if "mq_contents q = []"
    using ring_pop_contents [OF i, of "fst (ring_pop q)" "snd (ring_pop q)"] that by simp
  show "fst (ring_pop q) = (False, Some m) \<and> mq_contents (snd (ring_pop q)) = ms"
    if "mq_contents q = m # ms"
    using ring_pop_contents [OF i, of "fst (ring_pop q)" "snd (ring_pop q)"] that by simp
qed

subsection \<open>What the ring operations leave alone\<close>

lemma ring_push_fields [simp]:
  "mq_is_in_global (ring_push m x) = mq_is_in_global x" "mq_is_release (ring_push m x) = mq_is_release x"
  "mq_next (ring_push m x) = mq_next x" "mq_svc_handle (ring_push m x) = mq_svc_handle x"
  by (simp_all add: ring_push_alt ring_store_def expand_queue_def)

lemma ring_pop_fields [simp]:
  "mq_next (snd (ring_pop x)) = mq_next x" "mq_is_release (snd (ring_pop x)) = mq_is_release x"
  "mq_svc_handle (snd (ring_pop x)) = mq_svc_handle x"
  by (auto simp: ring_pop_def Let_def split: prod.splits)

lemma mq_inv_flag [simp]:
  "mq_inv (x\<lparr>mq_is_in_global := b\<rparr>) = mq_inv x" "mq_inv (x\<lparr>mq_is_release := b\<rparr>) = mq_inv x"
  "mq_inv (x\<lparr>mq_next := p\<rparr>) = mq_inv x"
  "mq_contents (x\<lparr>mq_is_in_global := b\<rparr>) = mq_contents x"
  "mq_contents (x\<lparr>mq_is_release := b\<rparr>) = mq_contents x"
  "mq_contents (x\<lparr>mq_next := p\<rparr>) = mq_contents x"
  by (simp_all add: mq_inv_def mq_contents_def mq_length_def)

subsection \<open>Property\<close>


end
