(* ===== verification/Mq_Global.thy ===== *)
theory Mq_Global
  imports Mq
begin

text \<open>
  The global message queue (\<open>skynet-src/mq/mq_global.cpp\<close>), a singly linked list of the private
  queues that have work, and the operations of \<open>mq_private.cpp\<close> that move a private queue in and
  out of it. The private queues live in a heap; a pointer to one is its number, and \<open>next_\<close> links
  them. Each operation runs under the mutex of its queue, so it is one atomic step.
\<close>

subsection \<open>The heap of queues\<close>

record mq_state =
  mq_heap :: "qid \<rightharpoonup> mq_private"
  g_head :: "qid option"
  g_tail :: "qid option"

definition mq_modify ::
  "qid \<Rightarrow> (mq_private \<Rightarrow> mq_private) \<Rightarrow> 'a mq_state_scheme \<Rightarrow> 'a mq_state_scheme option" where
  "mq_modify q f s =
     do { x \<leftarrow> mq_heap s q; Some (s\<lparr>mq_heap := (mq_heap s)(q \<mapsto> f x)\<rparr>) }"

text \<open>\<open>mq_global::push\<close>.\<close>

definition mq_global_push :: "qid \<Rightarrow> 'a mq_state_scheme \<Rightarrow> 'a mq_state_scheme option" where
  "mq_global_push q s =
     do {
       x \<leftarrow> mq_heap s q;
       c_assert (mq_next x = None);
       (case g_tail s of
          Some t \<Rightarrow>
            do { s1 \<leftarrow> mq_modify t (mq_next_update (\<lambda>_. Some q)) s;
                 Some (s1\<lparr>g_tail := Some q\<rparr>) }
        | None \<Rightarrow> Some (s\<lparr>g_head := Some q, g_tail := Some q\<rparr>))
     }"

text \<open>\<open>mq_global::pop\<close>.\<close>

definition mq_global_pop :: "'a mq_state_scheme \<Rightarrow> (qid option \<times> 'a mq_state_scheme) option" where
  "mq_global_pop s =
     (case g_head s of
        None \<Rightarrow> Some (None, s)
      | Some q \<Rightarrow>
          do {
            x \<leftarrow> mq_heap s q;
            s1 \<leftarrow> (if mq_next x = None then
                     do { c_assert (Some q = g_tail s); Some (s\<lparr>g_head := None, g_tail := None\<rparr>) }
                   else Some (s\<lparr>g_head := mq_next x\<rparr>));
            s2 \<leftarrow> mq_modify q (mq_next_update (\<lambda>_. None)) s1;
            Some (Some q, s2)
          })"

text \<open>\<open>mq_private::push\<close>: into the ring, then into the global queue when it is in neither.\<close>

definition mq_push ::
  "qid \<Rightarrow> service_message \<Rightarrow> 'a mq_state_scheme \<Rightarrow> 'a mq_state_scheme option" where
  "mq_push q m s =
     do {
       x \<leftarrow> mq_heap s q;
       s1 \<leftarrow> mq_modify q (ring_push m) s;
       (if \<not> mq_is_in_global x then
          do { s2 \<leftarrow> mq_modify q (mq_is_in_global_update (\<lambda>_. True)) s1;
               mq_global_push q s2 }
        else Some s1)
     }"

text \<open>\<open>mq_private::pop\<close>.\<close>

definition mq_pop ::
  "qid \<Rightarrow> 'a mq_state_scheme \<Rightarrow> ((bool \<times> service_message option) \<times> 'a mq_state_scheme) option" where
  "mq_pop q s =
     do {
       x \<leftarrow> mq_heap s q;
       Some (fst (ring_pop x), s\<lparr>mq_heap := (mq_heap s)(q \<mapsto> snd (ring_pop x))\<rparr>)
     }"

text \<open>\<open>mq_private::mark_release\<close>. It does not set \<open>is_in_global_\<close>.\<close>

definition mq_mark_release :: "qid \<Rightarrow> 'a mq_state_scheme \<Rightarrow> 'a mq_state_scheme option" where
  "mq_mark_release q s =
     do {
       x \<leftarrow> mq_heap s q;
       c_assert (\<not> mq_is_release x);
       s1 \<leftarrow> mq_modify q (mq_is_release_update (\<lambda>_. True)) s;
       (if \<not> mq_is_in_global x then mq_global_push q s1 else Some s1)
     }"

text \<open>
  \<open>mq_private::_drop_queue\<close>: pop every message, pass it to the drop callback, then delete the
  queue. The callback may change the state (it sends error messages), so the loop is a partial
  function; \<open>None\<close> is an aborted process or a loop that does not end.
\<close>

partial_function (option) mq_drop_loop ::
  "(service_message \<Rightarrow> 'a mq_state_scheme \<Rightarrow> 'a mq_state_scheme option) \<Rightarrow> qid \<Rightarrow>
   'a mq_state_scheme \<Rightarrow> 'a mq_state_scheme option" where
  "mq_drop_loop drop_func q s =
     Option.bind (mq_pop q s) (\<lambda>(r, s1).
       case snd r of
         None \<Rightarrow> Some s1
       | Some m \<Rightarrow> Option.bind (drop_func m s1) (\<lambda>s2. mq_drop_loop drop_func q s2))"

definition mq_drop_queue ::
  "(service_message \<Rightarrow> 'a mq_state_scheme \<Rightarrow> 'a mq_state_scheme option) \<Rightarrow> qid \<Rightarrow>
   'a mq_state_scheme \<Rightarrow> 'a mq_state_scheme option" where
  "mq_drop_queue drop_func q s =
     do {
       s1 \<leftarrow> mq_drop_loop drop_func q s;
       x \<leftarrow> mq_heap s1 q;
       c_assert (mq_next x = None);
       Some (s1\<lparr>mq_heap := (mq_heap s1)(q := None)\<rparr>)
     }"

text \<open>\<open>mq_private::release\<close>.\<close>

definition mq_release ::
  "(service_message \<Rightarrow> 'a mq_state_scheme \<Rightarrow> 'a mq_state_scheme option) \<Rightarrow> qid \<Rightarrow>
   'a mq_state_scheme \<Rightarrow> 'a mq_state_scheme option" where
  "mq_release drop_func q s =
     do {
       x \<leftarrow> mq_heap s q;
       (if mq_is_release x then mq_drop_queue drop_func q s else mq_global_push q s)
     }"

subsection \<open>The linked list and its abstraction\<close>

text \<open>\<open>chain h p qs\<close>: following \<open>next_\<close> from the pointer \<open>p\<close> visits exactly \<open>qs\<close>.\<close>

fun chain :: "(qid \<rightharpoonup> mq_private) \<Rightarrow> qid option \<Rightarrow> qid list \<Rightarrow> bool" where
  "chain h p [] \<longleftrightarrow> p = None"
| "chain h p (q # qs) \<longleftrightarrow>
     p = Some q \<and> (case h q of None \<Rightarrow> False | Some x \<Rightarrow> chain h (mq_next x) qs)"

definition gq_inv :: "'a mq_state_scheme \<Rightarrow> qid list \<Rightarrow> bool" where
  "gq_inv s qs \<longleftrightarrow>
     chain (mq_heap s) (g_head s) qs \<and> distinct qs \<and>
     g_tail s = (if qs = [] then None else Some (last qs)) \<and>
     (\<forall>q x. mq_heap s q = Some x \<longrightarrow> q \<notin> set qs \<longrightarrow> mq_next x = None)"

lemma chain_frame: "q \<notin> set qs \<Longrightarrow> chain (h(q := v)) p qs \<longleftrightarrow> chain h p qs"
  by (induction qs arbitrary: p) (auto split: option.splits)

lemma chain_in_heap: "chain h p qs \<Longrightarrow> q \<in> set qs \<Longrightarrow> \<exists>x. h q = Some x"
  by (induction qs arbitrary: p) (auto split: option.splits)

text \<open>A change that keeps the link field keeps the chain.\<close>

lemma chain_same_next:
  assumes "h q = Some x" and "mq_next x' = mq_next x"
  shows "chain (h(q \<mapsto> x')) p qs \<longleftrightarrow> chain h p qs"
  using assms by (induction qs arbitrary: p) (auto split: option.splits)

lemma chain_last_next:
  "chain h p qs \<Longrightarrow> qs \<noteq> [] \<Longrightarrow> \<exists>x. h (last qs) = Some x \<and> mq_next x = None"
  by (induction qs arbitrary: p) (auto split: option.splits list.splits)

text \<open>Linking a fresh element behind the last one.\<close>

lemma chain_snoc:
  assumes "chain h p qs" and "qs \<noteq> []" and "distinct qs" and "q \<notin> set qs"
    and "h (last qs) = Some x" and "h q = Some y" and "mq_next y = None"
  shows "chain (h(last qs \<mapsto> x\<lparr>mq_next := Some q\<rparr>)) p (qs @ [q])"
  using assms
proof (induction qs arbitrary: p)
  case Nil
  then show ?case by simp
next
  case (Cons a qs)
  show ?case
  proof (cases "qs = []")
    case True
    with Cons.prems show ?thesis by auto
  next
    case False
    from Cons.prems obtain z where z: "h a = Some z" and tl: "chain h (mq_next z) qs"
      and p: "p = Some a"
      by (auto split: option.splits)
    have "a \<noteq> last qs" using Cons.prems False by auto
    moreover have "chain (h(last qs \<mapsto> x\<lparr>mq_next := Some q\<rparr>)) (mq_next z) (qs @ [q])"
      using Cons.IH [OF tl False] Cons.prems False by (simp del: fun_upd_apply)
    ultimately show ?thesis using z p False by (simp add: fun_upd_def)
  qed
qed

lemma gq_inv_same_next:
  assumes "gq_inv s qs" and "mq_heap s q = Some x" and "mq_next x' = mq_next x"
  shows "gq_inv (s\<lparr>mq_heap := (mq_heap s)(q \<mapsto> x')\<rparr>) qs"
  using assms by (auto simp: gq_inv_def chain_same_next)

lemma gq_inv_delete:
  assumes "gq_inv s qs" and "q \<notin> set qs"
  shows "gq_inv (s\<lparr>mq_heap := (mq_heap s)(q := None)\<rparr>) qs"
  using assms by (auto simp: gq_inv_def chain_frame)

text \<open>The state of a queue apart from its link.\<close>

definition mq_body :: "'a mq_state_scheme \<Rightarrow> qid \<Rightarrow> mq_private option" where
  "mq_body s p = map_option (mq_next_update (\<lambda>_. None)) (mq_heap s p)"

lemma mq_body_SomeD:
  "mq_body s' p = mq_body s p \<Longrightarrow> mq_heap s p = Some x \<Longrightarrow>
   \<exists>x'. mq_heap s' p = Some x' \<and> x'\<lparr>mq_next := None\<rparr> = x\<lparr>mq_next := None\<rparr>"
  by (auto simp: mq_body_def)

text \<open>Pushing appends to the list; the assertion of the code holds.\<close>

lemma mq_global_push_correct:
  assumes inv: "gq_inv s qs" and fresh: "q \<notin> set qs" and x: "mq_heap s q = Some x"
  obtains s' where "mq_global_push q s = Some s'" and "gq_inv s' (qs @ [q])"
    and "mq_body s' = mq_body s" and "mq_state.more s' = mq_state.more s"
proof (cases "qs = []")
  case True
  let ?s = "s\<lparr>g_head := Some q, g_tail := Some q\<rparr>"
  have "mq_global_push q s = Some ?s"
    using assms True by (simp add: mq_global_push_def gq_inv_def)
  moreover have "gq_inv ?s (qs @ [q])"
    using assms True by (auto simp: gq_inv_def)
  ultimately show ?thesis by (rule that) (auto simp: mq_body_def)
next
  case False
  obtain y where y: "mq_heap s (last qs) = Some y" and "mq_next y = None"
    using inv False chain_last_next by (force simp: gq_inv_def)
  let ?h = "(mq_heap s)(last qs \<mapsto> y\<lparr>mq_next := Some q\<rparr>)"
  let ?s = "s\<lparr>mq_heap := ?h, g_tail := Some q\<rparr>"
  have "mq_next x = None" using assms by (auto simp: gq_inv_def)
  then have "mq_global_push q s = Some ?s"
    using inv False x y by (simp add: mq_global_push_def mq_modify_def gq_inv_def)
  moreover have "chain ?h (g_head s) (qs @ [q])"
    using inv fresh False x y \<open>mq_next x = None\<close> by (intro chain_snoc) (auto simp: gq_inv_def)
  then have "gq_inv ?s (qs @ [q])"
    using inv fresh False by (auto simp: gq_inv_def)
  ultimately show ?thesis
    using y by (rule_tac that [of ?s]) (auto simp: mq_body_def fun_eq_iff)
qed

text \<open>Popping takes the first element and unlinks it.\<close>

lemma mq_global_pop_empty:
  assumes "gq_inv s []"
  shows "mq_global_pop s = Some (None, s)"
  using assms by (simp add: mq_global_pop_def gq_inv_def)

lemma mq_global_pop_correct:
  assumes inv: "gq_inv s (q # qs)"
  obtains s' x where "mq_heap s q = Some x"
    and "mq_global_pop s = Some (Some q, s')" and "gq_inv s' qs"
    and "mq_body s' = mq_body s" and "mq_state.more s' = mq_state.more s"
    and "mq_heap s' = (mq_heap s)(q \<mapsto> x\<lparr>mq_next := None\<rparr>)"
proof -
  from inv obtain x where x: "mq_heap s q = Some x"
    and tl: "chain (mq_heap s) (mq_next x) qs" and hd: "g_head s = Some q"
    and d: "q \<notin> set qs" "distinct qs"
    by (auto simp: gq_inv_def split: option.splits)
  let ?h = "(mq_heap s)(q \<mapsto> x\<lparr>mq_next := None\<rparr>)"
  show ?thesis
  proof (cases "qs = []")
    case True
    let ?s = "s\<lparr>mq_heap := ?h, g_head := None, g_tail := None\<rparr>"
    have "mq_global_pop s = Some (Some q, ?s)"
      using True inv x hd tl by (simp add: mq_global_pop_def mq_modify_def gq_inv_def)
    moreover have "gq_inv ?s qs" using True inv by (auto simp: gq_inv_def)
    ultimately show ?thesis
      using x by (rule_tac that [of x ?s]) (auto simp: mq_body_def fun_eq_iff)
  next
    case False
    then obtain p where p: "mq_next x = Some p" using tl by (cases qs) auto
    let ?s = "s\<lparr>mq_heap := ?h, g_head := Some p\<rparr>"
    have "mq_global_pop s = Some (Some q, ?s)"
      using x hd p by (simp add: mq_global_pop_def mq_modify_def)
    moreover have "gq_inv ?s qs"
      using False inv d tl p by (auto simp: gq_inv_def chain_frame)
    ultimately show ?thesis
      using x by (rule_tac that [of x ?s]) (auto simp: mq_body_def fun_eq_iff)
  qed
qed

end
