(* ===== verification/Name_Table.thy ===== *)
theory Name_Table
  imports Skynet_Prelude "HOL-Library.List_Lexorder" "HOL-Library.Char_ord"
begin

text \<open>
  The table of service names of \<open>service_manager.cpp\<close>: an array with a capacity, sorted by name,
  searched by bisection. The theory shows that it implements a finite map from names to handles.
\<close>

subsection \<open>Data\<close>

record handle_name =
  svc_name :: string
  svc_handle_of :: nat

definition empty_name :: handle_name where
  "empty_name = \<lparr>svc_name = [], svc_handle_of = 0\<rparr>"

record name_table =
  name_cap :: nat
  name_count :: nat
  name_arr :: "handle_name list"

definition MAX_SLOT_SIZE :: nat where "MAX_SLOT_SIZE = 0x40000000"

definition name_init :: name_table where
  "name_init = \<lparr>name_cap = 2, name_count = 0, name_arr = replicate 2 empty_name\<rparr>"

subsection \<open>Operations\<close>

text \<open>\<open>std::string::compare\<close>: bytes compared as unsigned, then the lengths.\<close>

fun str_compare :: "string \<Rightarrow> string \<Rightarrow> int" where
  "str_compare [] [] = 0"
| "str_compare [] (y # ys) = - 1"
| "str_compare (x # xs) [] = 1"
| "str_compare (x # xs) (y # ys) =
     (if (of_char x :: nat) < of_char y then - 1
      else if (of_char y :: nat) < of_char x then 1 else str_compare xs ys)"

text \<open>
  The bisection loop that \<open>find_by_name\<close> and \<open>_insert_name\<close> share: \<open>Inr mid\<close> when the name is at
  \<open>mid\<close>, otherwise \<open>Inl begin\<close> with the final value of \<open>begin\<close>.
\<close>

function name_search :: "handle_name list \<Rightarrow> string \<Rightarrow> int \<Rightarrow> int \<Rightarrow> int + nat" where
  "name_search arr s b e =
     (if b \<le> e then
        let mid = (b + e) div 2; c = str_compare (svc_name (arr ! nat mid)) s in
        if c = 0 then Inr (nat mid)
        else if c < 0 then name_search arr s (mid + 1) e
        else name_search arr s b (mid - 1)
      else Inl b)"
  by pat_completeness auto
termination
  by (relation "measure (\<lambda>(arr, s, b, e). nat (e - b + 1))") auto

declare name_search.simps [simp del]

definition find_by_name :: "name_table \<Rightarrow> string \<Rightarrow> nat" where
  "find_by_name t s =
     (case name_search (name_arr t) s 0 (int (name_count t) - 1) of
        Inr mid \<Rightarrow> svc_handle_of (name_arr t ! mid)
      | Inl _ \<Rightarrow> 0)"

text \<open>The two copy loops of \<open>_insert_name_before\<close> into a new array, and the shift in place.\<close>

definition copy_grown :: "handle_name list \<Rightarrow> nat \<Rightarrow> nat \<Rightarrow> nat \<Rightarrow> handle_name list" where
  "copy_grown arr before cnt cap =
     fold (\<lambda>i n. n[Suc i := arr ! i]) [before..<cnt]
       (fold (\<lambda>i n. n[i := arr ! i]) [0..<before] (replicate cap empty_name))"

definition shift_right :: "handle_name list \<Rightarrow> nat \<Rightarrow> nat \<Rightarrow> handle_name list" where
  "shift_right arr before cnt = fold (\<lambda>i n. n[i := n ! (i - 1)]) (rev [Suc before..<Suc cnt]) arr"

definition insert_name_before ::
  "string \<Rightarrow> nat \<Rightarrow> nat \<Rightarrow> name_table \<Rightarrow> (string option \<times> name_table) option" where
  "insert_name_before s h before t =
     do {
       t1 \<leftarrow> (if name_count t \<ge> name_cap t then
                do {
                  c_assert (name_cap t * 2 \<le> MAX_SLOT_SIZE);
                  Some (t\<lparr>name_cap := name_cap t * 2,
                          name_arr := copy_grown (name_arr t) before (name_count t) (name_cap t * 2)\<rparr>)
                }
              else Some (t\<lparr>name_arr := shift_right (name_arr t) before (name_count t)\<rparr>));
       Some (Some s,
             t1\<lparr>name_arr := (name_arr t1)[before := \<lparr>svc_name = s, svc_handle_of = h\<rparr>],
                name_count := name_count t1 + 1\<rparr>)
     }"

definition insert_name :: "string \<Rightarrow> nat \<Rightarrow> name_table \<Rightarrow> (string option \<times> name_table) option" where
  "insert_name s h t =
     (case name_search (name_arr t) s 0 (int (name_count t) - 1) of
        Inr _ \<Rightarrow> Some (None, t)
      | Inl b \<Rightarrow> insert_name_before s h (nat b) t)"

text \<open>The compaction loop of \<open>unregister_service\<close>, which drops all the names of a handle.\<close>

fun compact_names :: "nat \<Rightarrow> nat list \<Rightarrow> nat \<Rightarrow> handle_name list \<Rightarrow> nat \<times> handle_name list" where
  "compact_names h [] j arr = (j, arr)"
| "compact_names h (i # is) j arr =
     (if svc_handle_of (arr ! i) = h then compact_names h is j arr
      else if i \<noteq> j then compact_names h is (j + 1) (arr[j := arr ! i])
      else compact_names h is (j + 1) arr)"

definition remove_names :: "nat \<Rightarrow> name_table \<Rightarrow> name_table" where
  "remove_names h t =
     (let (j, arr) = compact_names h [0..<name_count t] 0 (name_arr t)
      in t\<lparr>name_arr := arr, name_count := j\<rparr>)"

subsection \<open>Invariant and abstraction\<close>

definition name_entries :: "name_table \<Rightarrow> handle_name list" where
  "name_entries t = take (name_count t) (name_arr t)"

definition names_inv :: "name_table \<Rightarrow> bool" where
  "names_inv t \<longleftrightarrow>
     name_count t \<le> name_cap t \<and> length (name_arr t) = name_cap t \<and> 0 < name_cap t \<and>
     sorted_wrt (<) (map svc_name (name_entries t))"

definition name_map :: "name_table \<Rightarrow> string \<rightharpoonup> nat" where
  "name_map t = map_of (map (\<lambda>n. (svc_name n, svc_handle_of n)) (name_entries t))"

lemma str_compare_less: "str_compare xs ys < 0 \<longleftrightarrow> xs < ys"
  by (induction xs ys rule: str_compare.induct) (auto simp: less_char_def)

lemma str_compare_eq: "str_compare xs ys = 0 \<longleftrightarrow> xs = ys"
  by (induction xs ys rule: str_compare.induct) (auto simp: less_char_def dest: of_char_eq_iff [THEN iffD1])

text \<open>Bisection finds the name, or the place where it belongs.\<close>

lemma name_search_correct:
  assumes "sorted_wrt (<) (map svc_name (take n arr))" and "n \<le> length arr"
    and "0 \<le> b" and "b \<le> e + 1" and "e < int n"
    and "\<And>i. i < nat b \<Longrightarrow> svc_name (arr ! i) < s"
    and "\<And>i. nat (e + 1) \<le> i \<Longrightarrow> i < n \<Longrightarrow> s < svc_name (arr ! i)"
  shows "case name_search arr s b e of
           Inr i \<Rightarrow> i < n \<and> svc_name (arr ! i) = s
         | Inl p \<Rightarrow> 0 \<le> p \<and> p \<le> int n \<and> (\<forall>i < nat p. svc_name (arr ! i) < s) \<and>
                    (\<forall>i. nat p \<le> i \<longrightarrow> i < n \<longrightarrow> s < svc_name (arr ! i))"
  using assms
proof (induction arr s b e rule: name_search.induct)
  case (1 arr s b e)
  have mono: "svc_name (arr ! i) < svc_name (arr ! j)" if "i < j" "j < n" for i j
    using that 1(3,4) by (simp add: sorted_wrt_iff_nth_less)
  show ?case
  proof (cases "b \<le> e")
    case False
    then have "name_search arr s b e = Inl b" by (subst name_search.simps) simp
    then show ?thesis using False 1(3-) by auto
  next
    case True
    let ?m = "(b + e) div 2"
    let ?c = "str_compare (svc_name (arr ! nat ?m)) s"
    have m: "b \<le> ?m" "?m \<le> e" "nat ?m < n" using True 1(5,7) by linarith+
    consider "?c = 0" | "?c < 0" | "0 < ?c" by linarith
    then show ?thesis
    proof cases
      case 1
      then have "name_search arr s b e = Inr (nat ?m)"
        using True by (subst name_search.simps) simp
      then show ?thesis using 1 m by (simp add: str_compare_eq)
    next
      case c: 2
      then have eq: "name_search arr s b e = name_search arr s (?m + 1) e"
        using True by (subst name_search.simps) (simp add: Let_def)
      have lt: "svc_name (arr ! nat ?m) < s" using c by (simp add: str_compare_less)
      have below: "svc_name (arr ! i) < s" if "i < nat (?m + 1)" for i
      proof (cases "i = nat ?m")
        case False
        with that m 1(5) have "i < nat ?m" by linarith
        then show ?thesis using mono [of i "nat ?m"] m lt by simp
      qed (simp add: lt)
      show ?thesis unfolding eq
        using c by (intro "1.IH"(1) [OF True refl refl _ _ "1.prems"(1,2)])
          (use True m 1(5,7) below "1.prems"(7) in auto)
    next
      case c: 3
      then have eq: "name_search arr s b e = name_search arr s b (?m - 1)"
        using True by (subst name_search.simps) (simp add: Let_def)
      have gt: "s < svc_name (arr ! nat ?m)"
        using c str_compare_less [of "svc_name (arr ! nat ?m)" s] str_compare_eq [of "svc_name (arr ! nat ?m)" s]
        by (metis linorder_neqE order_less_asym order_less_irrefl)
      have above: "s < svc_name (arr ! i)" if "nat (?m - 1 + 1) \<le> i" "i < n" for i
      proof (cases "i = nat ?m")
        case False
        with that have "nat ?m < i" by simp
        then show ?thesis using mono [of "nat ?m" i] that gt by (meson order.strict_trans)
      qed (simp add: gt)
      show ?thesis unfolding eq
        using c by (intro "1.IH"(2) [OF True refl refl _ _ "1.prems"(1,2)])
          (use True m 1(5,7) above "1.prems"(6) in auto)
    qed
  qed
qed

lemma search_entries:
  assumes "names_inv t"
  shows "case name_search (name_arr t) s 0 (int (name_count t) - 1) of
           Inr i \<Rightarrow> i < name_count t \<and> svc_name (name_arr t ! i) = s
         | Inl p \<Rightarrow> nat p \<le> name_count t \<and> (\<forall>i < nat p. svc_name (name_arr t ! i) < s) \<and>
                    (\<forall>i. nat p \<le> i \<longrightarrow> i < name_count t \<longrightarrow> s < svc_name (name_arr t ! i))"
  using name_search_correct [of "name_count t" "name_arr t" 0 "int (name_count t) - 1" s] assms
  by (auto simp: names_inv_def name_entries_def split: sum.splits)

lemma entries_mem:
  assumes "names_inv t"
  shows "x \<in> set (name_entries t) \<longleftrightarrow> (\<exists>i < name_count t. x = name_arr t ! i)"
  using assms by (auto simp: names_inv_def name_entries_def in_set_conv_nth)

lemma name_map_eq_Some:
  assumes "names_inv t"
  shows "name_map t s = Some h \<longleftrightarrow>
     (\<exists>i < name_count t. svc_name (name_arr t ! i) = s \<and> svc_handle_of (name_arr t ! i) = h)"
proof -
  have "distinct (map svc_name (name_entries t))"
    using assms by (simp add: names_inv_def strict_sorted_iff)
  then have "name_map t s = Some h \<longleftrightarrow> (s, h) \<in> set (map (\<lambda>n. (svc_name n, svc_handle_of n)) (name_entries t))"
    unfolding name_map_def by (intro map_of_eq_Some_iff) (simp add: o_def)
  also have "\<dots> \<longleftrightarrow> (\<exists>i < name_count t. svc_name (name_arr t ! i) = s \<and> svc_handle_of (name_arr t ! i) = h)"
    by (auto simp: image_iff Bex_def entries_mem [OF assms])
  finally show ?thesis .
qed

lemma name_map_eq_None:
  assumes "names_inv t"
  shows "name_map t s = None \<longleftrightarrow> (\<forall>i < name_count t. svc_name (name_arr t ! i) \<noteq> s)"
  using name_map_eq_Some [OF assms, of s] by (metis not_None_eq)

lemma search_found:
  assumes "names_inv t" and "name_search (name_arr t) s 0 (int (name_count t) - 1) = Inr i"
  shows "name_map t s = Some (svc_handle_of (name_arr t ! i))"
  using search_entries [OF assms(1), of s] assms(2) by (auto simp: name_map_eq_Some [OF assms(1)])

lemma search_missing:
  assumes "names_inv t" and "name_search (name_arr t) s 0 (int (name_count t) - 1) = Inl p"
  shows "name_map t s = None"
proof -
  have p: "i < nat p \<Longrightarrow> svc_name (name_arr t ! i) < s"
      "nat p \<le> i \<Longrightarrow> i < name_count t \<Longrightarrow> s < svc_name (name_arr t ! i)" for i
    using search_entries [OF assms(1), of s] assms(2) by simp_all
  have "svc_name (name_arr t ! i) \<noteq> s" if "i < name_count t" for i
    using p [of i] that by (cases "i < nat p") auto
  then show ?thesis unfolding name_map_eq_None [OF assms(1)] by simp
qed

lemma find_by_name_map:
  assumes "names_inv t"
  shows "find_by_name t s = (case name_map t s of None \<Rightarrow> 0 | Some h \<Rightarrow> h)"
  using search_found [OF assms] search_missing [OF assms]
  by (auto simp: find_by_name_def split: sum.splits)

subsection \<open>The array loops\<close>

lemma copy_prefix:
  assumes "b \<le> length n"
  shows "length (fold (\<lambda>i n. n[i := arr ! i]) [0..<b] n) = length n"
    and "k < length n \<Longrightarrow>
      fold (\<lambda>i n. n[i := arr ! i]) [0..<b] n ! k = (if k < b then arr ! k else n ! k)"
  using assms by (induction b) (auto simp: nth_list_update)

lemma copy_suffix:
  assumes "b \<le> c" and "c < length n"
  shows "length (fold (\<lambda>i n. n[Suc i := arr ! i]) [b..<c] n) = length n"
    and "k < length n \<Longrightarrow> fold (\<lambda>i n. n[Suc i := arr ! i]) [b..<c] n ! k =
      (if b < k \<and> k \<le> c then arr ! (k - 1) else n ! k)"
  using assms by (induction c rule: dec_induct) (auto simp: nth_list_update)

lemma copy_grown_nth:
  assumes "b \<le> c" and "c < cap" and "k < cap"
  shows "length (copy_grown arr b c cap) = cap"
    and "k < b \<Longrightarrow> copy_grown arr b c cap ! k = arr ! k"
    and "b < k \<Longrightarrow> k \<le> c \<Longrightarrow> copy_grown arr b c cap ! k = arr ! (k - 1)"
  using assms by (auto simp: copy_grown_def copy_prefix copy_suffix)

lemma shift_right_nth:
  assumes "b \<le> c" and "c < length arr"
  shows "length (shift_right arr b c) = length arr"
    and "k < length arr \<Longrightarrow>
      shift_right arr b c ! k = (if b < k \<and> k \<le> c then arr ! (k - 1) else arr ! k)"
  using assms
proof (induction c arbitrary: arr rule: dec_induct)
  case base
  {
    case 1
    then show ?case by (simp add: shift_right_def)
  next
    case 2
    then show ?case by (auto simp: shift_right_def)
  }
next
  case (step c)
  have eq: "shift_right arr b (Suc c) = shift_right (arr[Suc c := arr ! c]) b c" for arr
    using step.hyps by (simp add: shift_right_def)
  {
    case 1
    then show ?case using step.IH(1) [of "arr[Suc c := arr ! c]"] by (simp add: eq)
  next
    case 2
    then show ?case
      using step.IH(2) [of "arr[Suc c := arr ! c]"] step.hyps by (auto simp: eq nth_list_update)
  }
qed

text \<open>Both ways of inserting make room at the same place.\<close>

lemma insert_name_before_entries:
  assumes inv: "names_inv t" and b: "b \<le> name_count t"
    and r: "insert_name_before s h b t = Some (res, t')"
  shows "res = Some s" and "name_count t' \<le> name_cap t'" and "length (name_arr t') = name_cap t'"
    and "0 < name_cap t'"
    and "name_entries t' =
      take b (name_entries t) @ \<lparr>svc_name = s, svc_handle_of = h\<rparr> # drop b (name_entries t)"
proof -
  let ?x = "\<lparr>svc_name = s, svc_handle_of = h\<rparr>" and ?n = "name_count t"
  define arr where "arr = (if name_count t \<ge> name_cap t
    then copy_grown (name_arr t) b (name_count t) (name_cap t * 2)
    else shift_right (name_arr t) b (name_count t))"
  define cap where "cap = (if name_count t \<ge> name_cap t then name_cap t * 2 else name_cap t)"
  have t': "res = Some s" "t' = t\<lparr>name_cap := cap, name_arr := arr[b := ?x], name_count := ?n + 1\<rparr>"
    using r by (auto simp: insert_name_before_def arr_def cap_def c_assert_def split: if_splits)
  have I: "?n \<le> name_cap t" "length (name_arr t) = name_cap t" "0 < name_cap t"
    using inv by (auto simp: names_inv_def)
  have n: "?n < cap" using I by (auto simp: cap_def)
  have len: "length arr = cap"
    using I b copy_grown_nth(1) [of b ?n "name_cap t * 2" 0]
    by (auto simp: arr_def cap_def shift_right_nth)
  have lo: "arr ! k = name_arr t ! k" if "k < b" for k
    using that I b by (auto simp: arr_def copy_grown_nth shift_right_nth)
  have hi: "arr ! k = name_arr t ! (k - 1)" if "b < k" "k \<le> ?n" for k
    using that I b by (auto simp: arr_def copy_grown_nth shift_right_nth)
  show "res = Some s" "name_count t' \<le> name_cap t'" "length (name_arr t') = name_cap t'"
    "0 < name_cap t'" using t' n len by simp_all
  show "name_entries t' = take b (name_entries t) @ ?x # drop b (name_entries t)"
  proof (rule nth_equalityI)
    show "length (name_entries t') = length (take b (name_entries t) @ ?x # drop b (name_entries t))"
      using t' n len I b by (simp add: name_entries_def)
    fix k assume "k < length (name_entries t')"
    then have k: "k < Suc ?n" using t' by (simp add: name_entries_def)
    consider "k < b" | "k = b" | "b < k" by linarith
    then show "name_entries t' ! k = (take b (name_entries t) @ ?x # drop b (name_entries t)) ! k"
      using t' n len I b k lo [of k] hi [of k]
      by cases (auto simp: name_entries_def nth_append min_def nth_Cons')
  qed
qed

lemma insert_name_before_returns:
  assumes "name_cap t * 2 \<le> MAX_SLOT_SIZE \<or> name_count t < name_cap t"
  shows "\<exists>r. insert_name_before s h b t = Some r"
  using assms by (auto simp: insert_name_before_def c_assert_def)

lemma sorted_insert_at:
  fixes x :: "'a::linorder"
  assumes "sorted_wrt (<) xs" and "p \<le> length xs" and "\<And>i. i < p \<Longrightarrow> xs ! i < x"
    and "\<And>i. p \<le> i \<Longrightarrow> i < length xs \<Longrightarrow> x < xs ! i"
  shows "sorted_wrt (<) (take p xs @ x # drop p xs)"
proof -
  have "y < x" if "y \<in> set (take p xs)" for y
    using that assms(2,3) by (auto simp: in_set_conv_nth)
  moreover have "x < y" if "y \<in> set (drop p xs)" for y
    using that assms(2,4) by (auto simp: in_set_conv_nth)
  moreover have "sorted_wrt (<) (take p xs)" "sorted_wrt (<) (drop p xs)"
    using assms(1) by (simp_all add: sorted_wrt_take sorted_wrt_drop)
  ultimately show ?thesis by (auto simp: sorted_wrt_append dest: order_less_trans)
qed

lemma map_of_insert_at:
  assumes "map_of xs k = None"
  shows "map_of (take p xs @ (k, v) # drop p xs) = (map_of xs)(k \<mapsto> v)"
proof -
  have "map_of xs = map_of (drop p xs) ++ map_of (take p xs)"
    by (metis append_take_drop_id map_of_append)
  moreover from this assms have "map_of (take p xs) k = None" by (simp add: map_add_None)
  ultimately show ?thesis by (auto simp: map_add_def fun_eq_iff split: option.splits)
qed

lemma insert_name_correct:
  assumes inv: "names_inv t"
  shows "name_map t s \<noteq> None \<Longrightarrow> insert_name s h t = Some (None, t)"
    and "name_map t s = None \<Longrightarrow> insert_name s h t = Some (res, t') \<Longrightarrow>
      res = Some s \<and> names_inv t' \<and> name_map t' = (name_map t)(s \<mapsto> h)"
    and "name_map t s = None \<Longrightarrow> name_count t < MAX_SLOT_SIZE div 2 \<Longrightarrow>
      insert_name s h t \<noteq> None"
proof -
  let ?S = "name_search (name_arr t) s 0 (int (name_count t) - 1)"
  note S = search_entries [OF inv, of s]
  have len: "length (name_entries t) = name_count t"
    using inv by (simp add: names_inv_def name_entries_def)
  have nth: "name_entries t ! i = name_arr t ! i" if "i < name_count t" for i
    using that by (simp add: name_entries_def)
  show "insert_name s h t = Some (None, t)" if "name_map t s \<noteq> None"
    using that search_missing [OF inv] by (cases ?S) (auto simp: insert_name_def)
  assume None: "name_map t s = None"
  obtain p where p: "?S = Inl p"
    using S None by (cases ?S) (auto simp: name_map_eq_None [OF inv])
  then have P: "nat p \<le> name_count t" "\<And>i. i < nat p \<Longrightarrow> svc_name (name_entries t ! i) < s"
    "\<And>i. nat p \<le> i \<Longrightarrow> i < name_count t \<Longrightarrow> s < svc_name (name_entries t ! i)"
    using S nth by auto
  have eq: "insert_name s h t = insert_name_before s h (nat p) t" by (simp add: insert_name_def p)
  {
    assume "insert_name s h t = Some (res, t')"
    note R = insert_name_before_entries [OF inv P(1) this [unfolded eq]]
    have srt: "sorted_wrt (<) (map svc_name (take (nat p) (name_entries t))
        @ s # map svc_name (drop (nat p) (name_entries t)))"
      using sorted_insert_at [of "map svc_name (name_entries t)" "nat p" s] P inv len
      by (simp add: names_inv_def take_map drop_map)
    have "names_inv t'" using R srt by (simp add: names_inv_def)
    moreover have "name_map t' = (name_map t)(s \<mapsto> h)"
      using map_of_insert_at [of "map (\<lambda>n. (svc_name n, svc_handle_of n)) (name_entries t)" s "nat p" h]
        None R(5) by (simp add: name_map_def take_map drop_map)
    ultimately show "res = Some s \<and> names_inv t' \<and> name_map t' = (name_map t)(s \<mapsto> h)"
      using R(1) by simp
  }
  show "insert_name s h t \<noteq> None" if "name_count t < MAX_SLOT_SIZE div 2"
  proof -
    have "name_cap t * 2 \<le> MAX_SLOT_SIZE \<or> name_count t < name_cap t"
      using that by linarith
    from insert_name_before_returns [OF this] show ?thesis by (auto simp: eq)
  qed
qed

lemma map_of_filter_values:
  assumes "distinct (map fst xs)"
  shows "map_of (filter (\<lambda>(k, v). v \<noteq> h) xs) k = (if map_of xs k = Some h then None else map_of xs k)"
  using assms
proof (induction xs)
  case (Cons x xs)
  then have "map_of xs (fst x) = None" by (simp add: map_of_eq_None_iff)
  with Cons show ?case by (cases x) auto
qed simp

lemma compact_names_correct:
  assumes "j \<le> i" and "i \<le> n" and "n \<le> length arr" and "compact_names h [i..<n] j arr = (j', arr')"
  shows "j' \<le> n \<and> length arr' = length arr \<and>
     take j' arr' = take j arr @ filter (\<lambda>x. svc_handle_of x \<noteq> h) (drop i (take n arr))"
  using assms
proof (induction "n - i" arbitrary: i j arr)
  case 0
  then show ?case by simp
next
  case (Suc k)
  then have lt: "i < n" and up: "[i..<n] = i # [Suc i..<n]" by (simp_all add: upt_conv_Cons)
  have dr: "drop i (take n arr) = arr ! i # drop (Suc i) (take n arr)"
    using lt Suc.prems(3) by (simp add: Cons_nth_drop_Suc [symmetric])
  show ?case
  proof (cases "svc_handle_of (arr ! i) = h")
    case True
    then show ?thesis using Suc.hyps(1) [of "Suc i" j arr] Suc.hyps(2) Suc.prems lt by (simp add: up dr)
  next
    case False
    define arr1 where "arr1 = (if i \<noteq> j then arr[j := arr ! i] else arr)"
    have "take (Suc j) arr1 = take j arr @ [arr ! i]"
      using Suc.prems lt by (auto simp: arr1_def take_Suc_conv_app_nth)
    moreover have "drop (Suc i) (take n arr1) = drop (Suc i) (take n arr)"
      using Suc.prems lt by (auto simp: arr1_def take_update_swap)
    moreover have "length arr1 = length arr" by (simp add: arr1_def)
    moreover have "compact_names h [Suc i..<n] (Suc j) arr1 = (j', arr')"
      using Suc.prems(4) False by (simp add: up arr1_def split: if_splits)
    ultimately show ?thesis
      using Suc.hyps(1) [of "Suc i" "Suc j" arr1] Suc.hyps(2) Suc.prems(1-3) lt False by (simp add: dr)
  qed
qed

lemma remove_names_correct:
  assumes inv: "names_inv t"
  shows "names_inv (remove_names h t)"
    and "name_map (remove_names h t) s = (if name_map t s = Some h then None else name_map t s)"
proof -
  obtain j arr where c: "compact_names h [0..<name_count t] 0 (name_arr t) = (j, arr)"
    by (metis surj_pair)
  have I: "name_count t \<le> name_cap t" "length (name_arr t) = name_cap t"
    using inv by (simp_all add: names_inv_def)
  note C = compact_names_correct [OF _ _ _ c]
  have e: "name_entries (remove_names h t) = filter (\<lambda>x. svc_handle_of x \<noteq> h) (name_entries t)"
    using C I by (simp add: remove_names_def c name_entries_def)
  have srt: "sorted_wrt (<) (map svc_name (name_entries t))" using inv by (simp add: names_inv_def)
  then have "sorted_wrt (<) (map svc_name (name_entries (remove_names h t)))"
    unfolding e by (induction "name_entries t" rule: list.induct) (auto simp: sorted_wrt_map intro: sorted_wrt_filter)
  then show "names_inv (remove_names h t)"
    using inv C I by (auto simp: names_inv_def remove_names_def c)
  let ?f = "\<lambda>n. (svc_name n, svc_handle_of n)"
  have d: "distinct (map fst (map ?f (name_entries t)))"
    using srt by (simp add: o_def strict_sorted_iff)
  have "map ?f (name_entries (remove_names h t)) = filter (\<lambda>(k, v). v \<noteq> h) (map ?f (name_entries t))"
    unfolding e by (simp add: filter_map o_def)
  then show "name_map (remove_names h t) s = (if name_map t s = Some h then None else name_map t s)"
    using map_of_filter_values [OF d] by (simp add: name_map_def)
qed

subsection \<open>The interface\<close>

text \<open>
  What the rest of the system relies on: a name service stores a partial map from names to handles.
  \<open>add\<close> binds a name that is free and refuses one that is taken, \<open>look\<close> returns the handle or 0, and
  \<open>drop_all\<close> forgets every name of a handle.
\<close>

locale name_service =
  fixes look :: "'t \<Rightarrow> 'k \<Rightarrow> nat"
    and add :: "'k \<Rightarrow> nat \<Rightarrow> 't \<Rightarrow> ('k option \<times> 't) option"
    and drop_all :: "nat \<Rightarrow> 't \<Rightarrow> 't"
    and binding :: "'t \<Rightarrow> 'k \<rightharpoonup> nat"
    and inv :: "'t \<Rightarrow> bool"
  assumes look: "inv t \<Longrightarrow> look t s = (case binding t s of None \<Rightarrow> 0 | Some h \<Rightarrow> h)"
    and add_taken: "inv t \<Longrightarrow> binding t s \<noteq> None \<Longrightarrow> add s h t = Some (None, t)"
    and add_free: "inv t \<Longrightarrow> binding t s = None \<Longrightarrow> add s h t = Some (res, t') \<Longrightarrow>
      res = Some s \<and> inv t' \<and> binding t' = (binding t)(s \<mapsto> h)"
    and inv_drop_all: "inv t \<Longrightarrow> inv (drop_all h t)"
    and drop_all: "inv t \<Longrightarrow>
      binding (drop_all h t) s = (if binding t s = Some h then None else binding t s)"
begin

lemma add_inv:
  assumes "inv t" and "add s h t = Some (res, t')"
  shows "inv t'"
  using assms add_taken [of t s h] add_free [of t s h res t'] by (cases "binding t s") auto

lemma look_add:
  assumes "inv t" and "look t s = 0" and "0 \<notin> ran (binding t)" and "add s h t = Some (res, t')"
  shows "look t' s' = (if s' = s then h else look t s')"
proof -
  have "binding t s = None"
    using assms(2,3) look [OF assms(1), of s] by (auto simp: ran_def split: option.splits)
  from add_free [OF assms(1) this assms(4)] show ?thesis using look assms(1) by auto
qed

lemma look_drop_all:
  assumes "inv t"
  shows "look (drop_all h t) s = (if look t s = h then 0 else look t s)"
  using look [OF assms] look [OF inv_drop_all [OF assms]] drop_all [OF assms]
  by (auto split: option.splits)

end

interpretation names: name_service find_by_name insert_name remove_names name_map names_inv
  using find_by_name_map insert_name_correct(1,2) remove_names_correct
  by unfold_locales blast+

lemma names_inv_init: "names_inv name_init"
  by (simp add: names_inv_def name_init_def name_entries_def)

lemma name_map_init: "name_map name_init = Map.empty"
  by (simp add: name_map_def name_init_def name_entries_def)

subsection \<open>Properties\<close>

text \<open>
  Registering a name and finding it by bisection agree: after \<open>_insert_name\<close> of a name that had no
  handle, \<open>find_by_name\<close> returns the new handle for it and the old answer for every other name, the
  table is sorted without duplicates as bisection needs, and the call does not fail below the
  capacity limit.
\<close>

theorem insert_then_find:
  assumes "names_inv t" and "find_by_name t s = 0" and "0 \<notin> ran (name_map t)"
    and "name_count t < MAX_SLOT_SIZE div 2"
  shows "\<exists>t'. insert_name s h t = Some (Some s, t') \<and> names_inv t' \<and>
     (\<forall>s'. find_by_name t' s' = (if s' = s then h else find_by_name t s'))"
proof -
  have None: "name_map t s = None"
    using assms(1-3) by (auto simp: names.look ran_def split: option.splits)
  then obtain res t' where r: "insert_name s h t = Some (res, t')"
    using insert_name_correct(3) [OF assms(1) None assms(4), of h] by auto
  then show ?thesis
    using names.add_free [OF assms(1) None r] names.look_add [OF assms(1-3) r] by auto
qed

theorem insert_then_find_witness:
  "\<exists>t'. insert_name ''logger'' 7 name_init = Some (Some ''logger'', t') \<and> names_inv t' \<and>
     (\<forall>s'. find_by_name t' s' = (if s' = ''logger'' then 7 else find_by_name name_init s'))"
proof (rule insert_then_find [OF names_inv_init])
  show "find_by_name name_init ''logger'' = 0" "0 \<notin> ran (name_map name_init)"
    by (simp_all add: name_map_init names.look names_inv_init)
  show "name_count name_init < MAX_SLOT_SIZE div 2"
    by (simp add: name_init_def MAX_SLOT_SIZE_def)
qed

definition demo_names :: name_table where
  "demo_names = \<lparr>name_cap = 2, name_count = 2, name_arr =
     [\<lparr>svc_name = ''launcher'', svc_handle_of = 7\<rparr>, \<lparr>svc_name = ''logger'', svc_handle_of = 3\<rparr>]\<rparr>"

lemma names_inv_demo: "names_inv demo_names"
  by (simp add: names_inv_def demo_names_def name_entries_def less_char_def)

text \<open>
  The compaction loop of \<open>unregister_service\<close> removes every name of the handle and no other: after it
  \<open>find_by_name\<close> answers 0 for those names and as before for the rest.
\<close>

theorem removed_names_are_gone:
  assumes "names_inv t"
  shows "names_inv (remove_names h t) \<and>
     find_by_name (remove_names h t) s = (if find_by_name t s = h then 0 else find_by_name t s)"
  using names.inv_drop_all [OF assms] names.look_drop_all [OF assms] by simp

theorem removed_names_are_gone_witness:
  "names_inv (remove_names 7 demo_names) \<and>
   find_by_name (remove_names 7 demo_names) ''launcher'' = 0 \<and>
   find_by_name (remove_names 7 demo_names) ''logger'' = 3"
proof -
  have "find_by_name demo_names ''launcher'' = 7" "find_by_name demo_names ''logger'' = 3"
    using names.look [OF names_inv_demo]
    by (simp_all add: name_map_def name_entries_def demo_names_def)
  then show ?thesis
    using removed_names_are_gone [OF names_inv_demo, of 7 "''launcher''"]
      removed_names_are_gone [OF names_inv_demo, of 7 "''logger''"] by simp
qed

text \<open>
  A name is never rebound: inserting a name that is taken returns the null pointer and changes
  nothing.
\<close>

theorem insert_taken_name:
  assumes "names_inv t" and "find_by_name t s \<noteq> 0"
  shows "insert_name s h t = Some (None, t)"
  using names.add_taken [OF assms(1), of s h] names.look [OF assms(1), of s] assms(2)
  by (auto split: option.splits)

theorem insert_taken_name_witness:
  "insert_name ''logger'' 9 demo_names = Some (None, demo_names)"
proof (rule insert_taken_name [OF names_inv_demo])
  show "find_by_name demo_names ''logger'' \<noteq> 0"
    using names.look [OF names_inv_demo]
    by (simp add: name_map_def name_entries_def demo_names_def)
qed

end
