(* ===== verification/Registry.thy ===== *)
theory Registry
  imports Mq_Global Name_Table
begin

text \<open>
  Service contexts and the registry of \<open>service_manager.cpp\<close>: the hash table of slots in which a
  service is found by its handle, the handle allocator, the reference counts, and the delivery of
  a message to the queue of a service. Contexts live in a heap; a pointer to one is its number.
  The operations hold the lock of the manager, so each is one atomic step.
\<close>

subsection \<open>State\<close>

type_synonym cid = nat

text \<open>
  \<open>session_id_\<close> is a 32 bit \<open>int\<close> that counts up and wraps round. The callback is represented by
  whether it is set.
\<close>

record service_context =
  svc_handle :: handle
  svc_session_id :: u32
  svc_ref :: int
  svc_queue :: "qid option"
  svc_has_callback :: bool
  svc_is_init :: bool
  svc_is_blocked :: bool
  svc_message_count :: nat
  svc_profile :: bool
  svc_cpu_cost :: u64
  svc_cpu_start :: u64
  svc_log_open :: bool
  svc_cmd_result :: string

text \<open>
  \<open>next_cid\<close> and \<open>next_qid\<close> stand for the allocator: the addresses of the next context and queue.
  \<open>log_svc_handle\<close> is the static variable of \<open>_log\<close>.
\<close>

record svc_state = mq_state +
  ctx_heap :: "cid \<rightharpoonup> service_context"
  slots :: "cid option list"
  slot_size :: nat
  handle_seed :: nat
  names :: name_table
  svc_count :: int
  log_svc_handle :: handle
  next_cid :: cid
  next_qid :: qid

definition HANDLE_MASK :: nat where "HANDLE_MASK = 0x00FFFFFF"
definition DEFAULT_SLOT_SIZE :: nat where "DEFAULT_SLOT_SIZE = 4"

text \<open>\<open>service_manager::init\<close>, on an empty heap.\<close>

definition manager_init :: svc_state where
  "manager_init =
     \<lparr>mq_heap = Map.empty, g_head = None, g_tail = None, ctx_heap = Map.empty,
      slots = replicate DEFAULT_SLOT_SIZE None, slot_size = DEFAULT_SLOT_SIZE, handle_seed = 1,
      names = name_init, svc_count = 0, log_svc_handle = 0, next_cid = 0, next_qid = 0\<rparr>"

subsection \<open>Operations of a context\<close>

definition new_session :: "service_context \<Rightarrow> int \<times> service_context" where
  "new_session x =
     (let s = svc_session_id x + 1 in
      if sint s \<le> 0 then (1, x\<lparr>svc_session_id := 1\<rparr>) else (sint s, x\<lparr>svc_session_id := s\<rparr>))"

definition ctx_grab :: "service_context \<Rightarrow> service_context" where
  "ctx_grab x = x\<lparr>svc_ref := svc_ref x + 1\<rparr>"

definition set_callback :: "bool \<Rightarrow> service_context \<Rightarrow> service_context" where
  "set_callback cb x = x\<lparr>svc_has_callback := cb\<rparr>"

subsection \<open>The slot table\<close>

text \<open>The probing loop of \<open>register_service\<close>: at most \<open>n\<close> handles from \<open>h\<close> on.\<close>

fun probe_slots :: "cid option list \<Rightarrow> nat \<Rightarrow> nat \<Rightarrow> handle \<Rightarrow> handle option" where
  "probe_slots sl sz 0 h = None"
| "probe_slots sl sz (Suc n) h =
     (let h' = (if h > HANDLE_MASK then 1 else h) in
      if sl ! (h' AND (sz - 1)) = None then Some h'
      else probe_slots sl sz n (Suc h'))"

text \<open>The loop that moves every context into a table of twice the size.\<close>

fun rehash_slots ::
  "(cid \<rightharpoonup> service_context) \<Rightarrow> nat \<Rightarrow> cid option list \<Rightarrow> cid option list \<Rightarrow> cid option list option" where
  "rehash_slots heap sz [] new_slot = Some new_slot"
| "rehash_slots heap sz (sc # scs) new_slot =
     do {
       c \<leftarrow> sc;
       x \<leftarrow> heap c;
       let hash = svc_handle x AND (sz * 2 - 1);
       c_assert (new_slot ! hash = None);
       rehash_slots heap sz scs (new_slot[hash := Some c])
     }"

text \<open>
  \<open>register_service\<close>: probe, and on failure double the table and probe again. It only puts the
  context into its slot; the caller stores the handle in the context.
\<close>

partial_function (option) register_service :: "cid \<Rightarrow> svc_state \<Rightarrow> (handle \<times> svc_state) option" where
  "register_service c s =
     (case probe_slots (slots s) (slot_size s) (slot_size s) (handle_seed s) of
        Some h \<Rightarrow>
          Some (h, s\<lparr>slots := (slots s)[h AND (slot_size s - 1) := Some c], handle_seed := h + 1\<rparr>)
      | None \<Rightarrow>
          do {
            c_assert (slot_size s * 2 - 1 \<le> HANDLE_MASK);
            new_slot \<leftarrow> rehash_slots (ctx_heap s) (slot_size s) (slots s)
                          (replicate (slot_size s * 2) None);
            register_service c (s\<lparr>slots := new_slot, slot_size := slot_size s * 2\<rparr>)
          })"

text \<open>The slot of a handle, when it holds a context with that handle.\<close>

definition slot_lookup :: "svc_state \<Rightarrow> handle \<Rightarrow> cid option" where
  "slot_lookup s h =
     do {
       c \<leftarrow> slots s ! (h AND (slot_size s - 1));
       x \<leftarrow> ctx_heap s c;
       (if svc_handle x = h then Some c else None)
     }"

definition grab :: "handle \<Rightarrow> svc_state \<Rightarrow> cid option \<times> svc_state" where
  "grab h s =
     (case slot_lookup s h of
        None \<Rightarrow> (None, s)
      | Some c \<Rightarrow> (Some c, s\<lparr>ctx_heap := (ctx_heap s)(c := map_option ctx_grab (ctx_heap s c))\<rparr>))"

text \<open>
  \<open>release_service\<close>: give up a reference; the last one marks the queue for release and deletes the
  context. (The module's \<open>release_func_\<close> deletes the service object, which is not part of the state.)
\<close>

definition release_service :: "cid \<Rightarrow> svc_state \<Rightarrow> (cid option \<times> svc_state) option" where
  "release_service c s =
     do {
       x \<leftarrow> ctx_heap s c;
       (if svc_ref x - 1 = 0 then
          do {
            q \<leftarrow> svc_queue x;
            s1 \<leftarrow> mq_mark_release q s;
            Some (None, s1\<lparr>ctx_heap := (ctx_heap s1)(c := None), svc_count := svc_count s1 - 1\<rparr>)
          }
        else Some (Some c, s\<lparr>ctx_heap := (ctx_heap s)(c \<mapsto> x\<lparr>svc_ref := svc_ref x - 1\<rparr>)\<rparr>))
     }"

definition unregister_service :: "handle \<Rightarrow> svc_state \<Rightarrow> (nat \<times> svc_state) option" where
  "unregister_service h s =
     (case slot_lookup s h of
        None \<Rightarrow> Some (0, s)
      | Some c \<Rightarrow>
          do {
            (_, s1) \<leftarrow> release_service c
               (s\<lparr>slots := (slots s)[h AND (slot_size s - 1) := None], names := remove_names h (names s)\<rparr>);
            Some (1, s1)
          })"

definition process_blocked_service :: "handle \<Rightarrow> svc_state \<Rightarrow> svc_state option" where
  "process_blocked_service h s =
     (case grab h s of
        (None, s1) \<Rightarrow> Some s1
      | (Some c, s1) \<Rightarrow>
          do {
            x \<leftarrow> ctx_heap s1 c;
            (_, s2) \<leftarrow> release_service c
               (s1\<lparr>ctx_heap := (ctx_heap s1)(c \<mapsto> x\<lparr>svc_is_blocked := True\<rparr>)\<rparr>);
            Some s2
          })"

definition push_service_message :: "handle \<Rightarrow> service_message \<Rightarrow> svc_state \<Rightarrow> (int \<times> svc_state) option" where
  "push_service_message h m s =
     (case grab h s of
        (None, s1) \<Rightarrow> Some (- 1, s1)
      | (Some c, s1) \<Rightarrow>
          do {
            x \<leftarrow> ctx_heap s1 c;
            q \<leftarrow> svc_queue x;
            s2 \<leftarrow> mq_push q m s1;
            (_, s3) \<leftarrow> release_service c s2;
            Some (0, s3)
          })"

text \<open>One pass of \<open>unregister_service_all\<close> over the slots, and the passes until none is left.\<close>

fun unregister_pass :: "nat list \<Rightarrow> nat \<Rightarrow> svc_state \<Rightarrow> (nat \<times> svc_state) option" where
  "unregister_pass [] n s = Some (n, s)"
| "unregister_pass (i # is) n s =
     (let h = (case slots s ! i of None \<Rightarrow> 0
               | Some c \<Rightarrow> (case ctx_heap s c of None \<Rightarrow> 0 | Some x \<Rightarrow> svc_handle x))
      in if h \<noteq> 0 then
           do { (r, s1) \<leftarrow> unregister_service h s; unregister_pass is (n + r) s1 }
         else unregister_pass is n s)"

partial_function (option) unregister_service_all :: "svc_state \<Rightarrow> svc_state option" where
  "unregister_service_all s =
     Option.bind (unregister_pass [0..<slot_size s] 0 s)
       (\<lambda>(n, s1). if n = 0 then Some s1 else unregister_service_all s1)"


subsection \<open>Invariant of the registry\<close>

text \<open>
  The table has a power of two many slots; the context in a slot exists, and its handle is valid
  and hashes to that slot.
\<close>

definition slots_ok :: "(cid \<rightharpoonup> service_context) \<Rightarrow> nat \<Rightarrow> cid option list \<Rightarrow> bool" where
  "slots_ok heap sz sl \<longleftrightarrow>
     length sl = sz \<and>
     (\<forall>i < sz. \<forall>c. sl ! i = Some c \<longrightarrow>
        (\<exists>x. heap c = Some x \<and> svc_handle x AND (sz - 1) = i \<and>
             0 < svc_handle x \<and> svc_handle x \<le> HANDLE_MASK))"

definition registry_inv :: "svc_state \<Rightarrow> bool" where
  "registry_inv s \<longleftrightarrow>
     (\<exists>k. 2 \<le> k \<and> k \<le> 24 \<and> slot_size s = 2 ^ k) \<and>
     slots_ok (ctx_heap s) (slot_size s) (slots s) \<and>
     1 \<le> handle_seed s \<and> handle_seed s \<le> HANDLE_MASK + 1"

lemma set_update_free:
  assumes "i < length xs" and "xs ! i = None"
  shows "Some d \<in> set (xs[i := Some c]) \<longleftrightarrow> d = c \<or> Some d \<in> set xs"
proof
  assume "Some d \<in> set (xs[i := Some c])"
  then show "d = c \<or> Some d \<in> set xs"
    using set_update_subset_insert [of xs i "Some c"] by auto
next
  assume "d = c \<or> Some d \<in> set xs"
  then show "Some d \<in> set (xs[i := Some c])"
  proof
    assume "Some d \<in> set xs"
    then obtain j where "j < length xs" "xs ! j = Some d" by (auto simp: in_set_conv_nth)
    with assms have "xs[i := Some c] ! j = Some d" "j < length (xs[i := Some c])"
      by (cases "j = i"; simp)+
    then show ?thesis by (metis nth_mem)
  qed (simp add: assms(1) set_update_memI)
qed

lemma and_size_less: "sz = 2 ^ k \<Longrightarrow> (h :: nat) AND (sz - 1) < sz"
  by (simp only: and_size_mask) simp

lemma slots_okD:
  assumes "slots_ok heap sz sl" and "Some c \<in> set sl"
  obtains x where "heap c = Some x" and "svc_handle x AND (sz - 1) < sz"
    and "sl ! (svc_handle x AND (sz - 1)) = Some c" and "0 < svc_handle x" and "svc_handle x \<le> HANDLE_MASK"
proof -
  from assms obtain i where i: "i < sz" "sl ! i = Some c"
    by (auto simp: slots_ok_def in_set_conv_nth)
  with assms(1) obtain x where "heap c = Some x" "svc_handle x AND (sz - 1) = i"
      "0 < svc_handle x" "svc_handle x \<le> HANDLE_MASK"
    unfolding slots_ok_def by blast
  with i that show ?thesis by simp
qed

lemma slots_ok_place':
  assumes ok: "slots_ok heap sz sl" and same: "\<And>d. Some d \<in> set sl \<Longrightarrow> heap' d = heap d"
    and c: "heap' c = Some x" "svc_handle x = h" "0 < h" "h \<le> HANDLE_MASK"
  shows "slots_ok heap' sz (sl[h AND (sz - 1) := Some c])"
  unfolding slots_ok_def
proof (intro conjI allI impI)
  show "length (sl[h AND (sz - 1) := Some c]) = sz" using ok by (simp add: slots_ok_def)
  fix j d assume j: "j < sz" and d: "sl[h AND (sz - 1) := Some c] ! j = Some d"
  show "\<exists>y. heap' d = Some y \<and> svc_handle y AND (sz - 1) = j \<and> 0 < svc_handle y \<and> svc_handle y \<le> HANDLE_MASK"
  proof (cases "j = h AND (sz - 1)")
    case True
    then show ?thesis using d c j ok by (simp add: slots_ok_def)
  next
    case False
    then have dj: "sl ! j = Some d" using d by simp
    have "Some d \<in> set sl" using dj j ok by (metis nth_mem slots_ok_def)
    then show ?thesis using ok j dj same unfolding slots_ok_def by simp
  qed
qed

lemmas slots_ok_place = slots_ok_place' [OF _ refl]

lemma slot_lookup_Some:
  assumes "slots_ok (ctx_heap s) (slot_size s) (slots s)" and "slot_size s = 2 ^ k"
  shows "slot_lookup s h = Some c \<longleftrightarrow>
     Some c \<in> set (slots s) \<and> (\<exists>x. ctx_heap s c = Some x \<and> svc_handle x = h)" (is "?L \<longleftrightarrow> ?R")
proof
  have lt: "h AND (slot_size s - 1) < length (slots s)"
    using and_size_less [OF assms(2)] assms(1) by (simp add: slots_ok_def)
  assume ?L
  then have "slots s ! (h AND (slot_size s - 1)) = Some c" and "\<exists>x. ctx_heap s c = Some x \<and> svc_handle x = h"
    by (auto simp: slot_lookup_def split: bind_splits if_splits)
  with lt show ?R by (metis nth_mem)
next
  assume R: ?R
  with assms(1) obtain x where "ctx_heap s c = Some x" "slots s ! (svc_handle x AND (slot_size s - 1)) = Some c"
    by (meson slots_okD)
  with R show ?L by (auto simp: slot_lookup_def)
qed

text \<open>The probing loop finds a free slot if one of the probed handles has one.\<close>

lemma probe_slots_Some:
  assumes "probe_slots sl sz n h = Some h'" and "1 \<le> h"
  shows "sl ! (h' AND (sz - 1)) = None" and "1 \<le> h'" and "h' \<le> HANDLE_MASK"
  using assms by (induction sl sz n h rule: probe_slots.induct)
    (auto simp: Let_def HANDLE_MASK_def split: if_splits)

lemma probe_slots_None:
  assumes "probe_slots sl sz n h = None" and "1 \<le> h" and "h + n \<le> HANDLE_MASK + 1" and "i < n"
  shows "sl ! ((h + i) AND (sz - 1)) \<noteq> None"
  using assms
proof (induction n arbitrary: h i)
  case (Suc n)
  then have le: "h \<le> HANDLE_MASK" by simp
  show ?case
  proof (cases i)
    case 0
    then show ?thesis using Suc.prems(1) le by (auto simp: Let_def split: if_splits)
  next
    case (Suc j)
    then show ?thesis
      using Suc.IH [of "Suc h" j] Suc.prems le by (auto simp: Let_def split: if_splits)
  qed
qed simp

lemma residue_reached:
  fixes h j sz :: nat
  assumes "j < sz"
  shows "(h + (j + (sz - h mod sz)) mod sz) mod sz = j"
proof -
  have "h mod sz < sz" using assms by simp
  moreover have "h = sz * (h div sz) + h mod sz" by simp
  ultimately have "h + (j + (sz - h mod sz)) = j + sz * Suc (h div sz)"
    unfolding mult_Suc_right by linarith
  then have "(h + (j + (sz - h mod sz))) mod sz = j" using assms by (simp only: mod_mult_self2 mod_less)
  then show ?thesis by (simp only: mod_add_right_eq)
qed

lemma probe_all_full:
  assumes "probe_slots sl sz sz h = None" and "1 \<le> h" and "h + sz \<le> HANDLE_MASK + 1"
    and sz: "sz = 2 ^ k" and j: "j < sz"
  shows "sl ! j \<noteq> None"
proof -
  let ?i = "(j + (sz - h mod sz)) mod sz"
  have "?i < sz" using j by simp
  from probe_slots_None [OF assms(1-3) this] show ?thesis
    unfolding and_size_mask [OF sz] residue_reached [OF j] .
qed

subsection \<open>Doubling the table\<close>

abbreviation handle_in :: "(cid \<rightharpoonup> service_context) \<Rightarrow> cid option \<Rightarrow> handle" where
  "handle_in heap sc \<equiv> svc_handle (the (heap (the sc)))"

lemma rehash_slots_correct:
  assumes sz: "sz = 2 ^ k"
    and scs: "\<And>sc. sc \<in> set scs \<Longrightarrow> \<exists>c x. sc = Some c \<and> heap c = Some x \<and>
               0 < svc_handle x \<and> svc_handle x \<le> HANDLE_MASK"
    and "distinct (map (\<lambda>sc. handle_in heap sc mod sz) scs)"
    and "slots_ok heap (sz * 2) new"
    and "\<And>c. Some c \<in> set new \<Longrightarrow>
           handle_in heap (Some c) mod sz \<notin> (\<lambda>sc. handle_in heap sc mod sz) ` set scs"
  shows "\<exists>new'. rehash_slots heap sz scs new = Some new' \<and> slots_ok heap (sz * 2) new' \<and>
           (\<forall>c. Some c \<in> set new' \<longleftrightarrow> Some c \<in> set new \<or> Some c \<in> set scs)"
  using assms(2-)
proof (induction scs arbitrary: new)
  case Nil
  then show ?case by simp
next
  case (Cons sc scs)
  obtain c x where c: "sc = Some c" "heap c = Some x" "0 < svc_handle x" "svc_handle x \<le> HANDLE_MASK"
    using Cons.prems(1) [of sc] by auto
  have sz2: "sz * 2 = 2 ^ Suc k" using sz by simp
  let ?i = "svc_handle x AND (sz * 2 - 1)"
  have i: "?i < length new" using and_size_less [OF sz2] Cons.prems(3) by (simp add: slots_ok_def)
  have free: "new ! ?i = None"
  proof (rule ccontr)
    assume "new ! ?i \<noteq> None"
    then obtain d where d: "new ! ?i = Some d" by blast
    then have mem: "Some d \<in> set new" using i by (metis nth_mem)
    obtain y where y: "heap d = Some y" "svc_handle y AND (sz * 2 - 1) = ?i"
      using Cons.prems(3) d i unfolding slots_ok_def by metis
    then have "svc_handle y mod (sz * 2) mod sz = svc_handle x mod (sz * 2) mod sz"
      by (simp only: and_size_mask [OF sz2])
    then have "svc_handle y mod sz = svc_handle x mod sz" by (simp add: mod_mod_cancel)
    with Cons.prems(4) [OF mem] y c show False by simp
  qed
  let ?new = "new[?i := Some c]"
  have mem: "Some d \<in> set ?new \<longleftrightarrow> d = c \<or> Some d \<in> set new" for d
    by (rule set_update_free [OF i free])
  have ok: "slots_ok heap (sz * 2) ?new"
    by (rule slots_ok_place [OF Cons.prems(3) c(2) refl c(3,4)])
  have "handle_in heap (Some d) mod sz \<notin> (\<lambda>sc. handle_in heap sc mod sz) ` set scs"
    if "Some d \<in> set ?new" for d
    using that Cons.prems(2,4) c unfolding mem by auto
  from Cons.IH [OF _ _ ok this] Cons.prems(1,2) obtain new' where new':
      "rehash_slots heap sz scs ?new = Some new'" "slots_ok heap (sz * 2) new'"
      "\<forall>d. Some d \<in> set new' \<longleftrightarrow> Some d \<in> set ?new \<or> Some d \<in> set scs"
    by auto
  have "Some d \<in> set new' \<longleftrightarrow> d = c \<or> Some d \<in> set new \<or> Some d \<in> set scs" for d
    using new'(3) unfolding mem by blast
  moreover have "rehash_slots heap sz (sc # scs) new = Some new'"
    using c free new'(1) by (simp add: Let_def)
  ultimately show ?case using new'(2) c(1) by auto
qed


lemma slots_ok_empty: "slots_ok heap sz (replicate sz None)"
  by (simp add: slots_ok_def)

lemma rehash_full:
  assumes ok: "slots_ok heap sz sl" and sz: "sz = 2 ^ k" and full: "\<And>j. j < sz \<Longrightarrow> sl ! j \<noteq> None"
  obtains new where "rehash_slots heap sz sl (replicate (sz * 2) None) = Some new"
    and "slots_ok heap (sz * 2) new" and "\<And>c. Some c \<in> set new \<longleftrightarrow> Some c \<in> set sl"
proof -
  have len: "length sl = sz" using ok by (simp add: slots_ok_def)
  have scs: "\<exists>c x. sc = Some c \<and> heap c = Some x \<and> 0 < svc_handle x \<and> svc_handle x \<le> HANDLE_MASK"
    if sc: "sc \<in> set sl" for sc
  proof -
    obtain c where c: "sc = Some c" using sc full len by (metis in_set_conv_nth option.exhaust)
    with ok sc obtain x where "heap c = Some x" "0 < svc_handle x" "svc_handle x \<le> HANDLE_MASK"
      by (metis slots_okD)
    with c show ?thesis by blast
  qed
  have "handle_in heap (sl ! i) mod sz = i" if i: "i < sz" for i
  proof -
    obtain c where c: "sl ! i = Some c" using full [OF i] by blast
    with ok i obtain x where "heap c = Some x" "svc_handle x AND (sz - 1) = i"
      unfolding slots_ok_def by metis
    with c show ?thesis using and_size_mask [OF sz, of "svc_handle x"] by simp
  qed
  then have "map (\<lambda>sc. handle_in heap sc mod sz) sl = [0..<sz]"
    by (intro nth_equalityI) (simp_all add: len)
  then have "distinct (map (\<lambda>sc. handle_in heap sc mod sz) sl)" by (simp only: distinct_upt)
  from rehash_slots_correct [OF sz scs this slots_ok_empty] show ?thesis
    by (auto intro: that)
qed

text \<open>A table of twice the size that holds the contexts of a full one is not full.\<close>

lemma doubled_not_full:
  assumes ok: "slots_ok heap sz sl" and sz: "sz = 2 ^ k" and ok2: "slots_ok heap (sz * 2) new"
    and mem: "\<And>c. Some c \<in> set new \<longleftrightarrow> Some c \<in> set sl"
  obtains j where "j < sz * 2" and "new ! j = None"
proof (rule ccontr)
  assume no: "\<not> thesis"
  have sz2: "sz * 2 = 2 ^ Suc k" using sz by simp
  have pos: "0 < sz" using sz by simp
  have len: "length new = sz * 2" using ok2 by (simp add: slots_ok_def)
  have full: "\<exists>c. new ! j = Some c" if "j < sz * 2" for j
    using no \<open>\<And>j. j < sz * 2 \<Longrightarrow> new ! j = None \<Longrightarrow> thesis\<close> [OF that] by blast
  obtain c where c: "new ! 0 = Some c" using full [of 0] pos by auto
  obtain d where d: "new ! sz = Some d" using full [of sz] pos by auto
  have at: "\<exists>x. heap a = Some x \<and> svc_handle x mod (sz * 2) = j" if "j < sz * 2" "new ! j = Some a" for j a
    using ok2 that unfolding slots_ok_def and_size_mask [OF sz2] by blast
  obtain x where x: "heap c = Some x" "svc_handle x mod (sz * 2) = 0" using at [of 0 c] c pos by auto
  obtain y where y: "heap d = Some y" "svc_handle y mod (sz * 2) = sz" using at [of sz d] d pos by auto
  have "Some c \<in> set sl" "Some d \<in> set sl"
    using mem c d len pos nth_mem [of 0 new] nth_mem [of sz new] by auto
  moreover have "svc_handle x mod sz = 0" "svc_handle y mod sz = 0"
    using mod_mod_cancel [of sz "sz * 2" "svc_handle x"] mod_mod_cancel [of sz "sz * 2" "svc_handle y"]
    by (simp_all add: x(2) y(2))
  moreover have "sl ! (svc_handle x mod sz) = Some c" if "Some c \<in> set sl"
    using slots_okD [OF ok that] x(1) unfolding and_size_mask [OF sz] by auto
  moreover have "sl ! (svc_handle y mod sz) = Some d" if "Some d \<in> set sl"
    using slots_okD [OF ok that] y(1) unfolding and_size_mask [OF sz] by auto
  ultimately have "c = d" by simp
  with x y pos show False by simp
qed

text \<open>
  \<open>register_service\<close> returns a fresh handle, and with the handle stored in the context the registry is
  in order again and finds the new context besides the old ones.
\<close>

definition set_handle :: "cid \<Rightarrow> handle \<Rightarrow> svc_state \<Rightarrow> svc_state" where
  "set_handle c h s =
     s\<lparr>ctx_heap := (ctx_heap s)(c := map_option (svc_handle_update (\<lambda>_. h)) (ctx_heap s c))\<rparr>"

lemma place_context:
  assumes inv: "registry_inv s" and x: "ctx_heap s c = Some x" and new: "Some c \<notin> set (slots s)"
    and h: "probe_slots (slots s) (slot_size s) n (handle_seed s) = Some h"
  defines "s' \<equiv> set_handle c h (s\<lparr>slots := (slots s)[h AND (slot_size s - 1) := Some c], handle_seed := h + 1\<rparr>)"
  shows "registry_inv s'" and "slot_lookup s' = (slot_lookup s)(h \<mapsto> c)" and "slot_lookup s h = None"
    and "0 < h" and "h \<le> HANDLE_MASK"
proof -
  obtain k where k: "2 \<le> k" "k \<le> 24" "slot_size s = 2 ^ k" and ok: "slots_ok (ctx_heap s) (slot_size s) (slots s)"
    and seed: "1 \<le> handle_seed s"
    using inv by (auto simp: registry_inv_def)
  note P = probe_slots_Some [OF h seed]
  let ?i = "h AND (slot_size s - 1)"
  have i: "?i < slot_size s" by (rule and_size_less [OF k(3)])
  have len: "length (slots s) = slot_size s" using ok by (simp add: slots_ok_def)
  have S: "slots s' = (slots s)[?i := Some c]" "slot_size s' = slot_size s" "handle_seed s' = h + 1"
    "ctx_heap s' = (ctx_heap s)(c \<mapsto> x\<lparr>svc_handle := h\<rparr>)"
    using x by (simp_all add: s'_def set_handle_def)
  have mem: "Some d \<in> set (slots s') \<longleftrightarrow> d = c \<or> Some d \<in> set (slots s)" for d
    unfolding S using set_update_free [OF _ P(1)] i len by simp
  have ok': "slots_ok (ctx_heap s') (slot_size s') (slots s')"
    unfolding S
  proof (rule slots_ok_place' [OF ok])
    show "((ctx_heap s)(c \<mapsto> x\<lparr>svc_handle := h\<rparr>)) d = ctx_heap s d" if "Some d \<in> set (slots s)" for d
      using that new by auto
  qed (use P in auto)
  show "registry_inv s'" using k ok' P by (auto simp: registry_inv_def S(2,3))
  show "slot_lookup s h = None" using P(1) by (simp add: slot_lookup_def)
  show "0 < h" "h \<le> HANDLE_MASK" using P by simp_all
  have k': "slot_size s' = 2 ^ k" using S k by simp
  have "slot_lookup s' g = Some d \<longleftrightarrow> ((slot_lookup s)(h \<mapsto> c)) g = Some d" for g d
  proof (cases "d = c")
    case True
    have "slot_lookup s g \<noteq> Some c" using new slot_lookup_Some [OF ok k(3)] by blast
    then show ?thesis using True slot_lookup_Some [OF ok' k', of g d] mem [of c] by (auto simp: S(4))
  next
    case False
    then show ?thesis
      using slot_lookup_Some [OF ok' k', of g d] slot_lookup_Some [OF ok k(3), of g d] mem [of d]
        \<open>slot_lookup s h = None\<close> by (auto simp: S(4))
  qed
  then show "slot_lookup s' = (slot_lookup s)(h \<mapsto> c)"
    by (intro ext) (metis not_None_eq)
qed


lemma register_service_correct:
  assumes inv: "registry_inv s" and x: "ctx_heap s c = Some x" and new: "Some c \<notin> set (slots s)"
    and room: "handle_seed s + 2 * slot_size s \<le> HANDLE_MASK + 1"
  obtains h s' where "register_service c s = Some (h, s')"
    and "registry_inv (set_handle c h s')" and "slot_lookup (set_handle c h s') = (slot_lookup s)(h \<mapsto> c)"
    and "slot_lookup s h = None" and "0 < h" and "h \<le> HANDLE_MASK"
    and "\<exists>sl sz sd. s' = s\<lparr>slots := sl, slot_size := sz, handle_seed := sd\<rparr>"
proof (cases "probe_slots (slots s) (slot_size s) (slot_size s) (handle_seed s)")
  case (Some h)
  let ?s' = "s\<lparr>slots := (slots s)[h AND (slot_size s - 1) := Some c], handle_seed := h + 1\<rparr>"
  have "register_service c s = Some (h, ?s')" using Some by (subst register_service.simps) simp
  moreover have "?s' = s\<lparr>slots := (slots s)[h AND (slot_size s - 1) := Some c],
      slot_size := slot_size s, handle_seed := h + 1\<rparr>" by simp
  ultimately show ?thesis using place_context [OF inv x new Some] by (intro that) blast+
next
  case None
  obtain k where k: "2 \<le> k" "k \<le> 24" "slot_size s = 2 ^ k" and ok: "slots_ok (ctx_heap s) (slot_size s) (slots s)"
    and seed: "1 \<le> handle_seed s" "handle_seed s \<le> HANDLE_MASK + 1"
    using inv by (auto simp: registry_inv_def)
  have full: "slots s ! j \<noteq> None" if "j < slot_size s" for j
    using probe_all_full [OF None seed(1) _ k(3) that] room by simp
  obtain nw where nw: "rehash_slots (ctx_heap s) (slot_size s) (slots s)
        (replicate (slot_size s * 2) None) = Some nw"
      "slots_ok (ctx_heap s) (slot_size s * 2) nw" "\<And>d. Some d \<in> set nw \<longleftrightarrow> Some d \<in> set (slots s)"
    using rehash_full [OF ok k(3) full] by blast
  let ?s1 = "s\<lparr>slots := nw, slot_size := slot_size s * 2\<rparr>"
  have sz2: "slot_size s * 2 = 2 ^ Suc k" using k by simp
  have "(2::nat) ^ Suc k \<le> 2 ^ 24" using room seed(1) sz2 by (simp add: HANDLE_MASK_def)
  then have "Suc k \<le> 24" by (simp only: power_increasing_iff one_less_numeral_iff semiring_norm)
  then have "2 \<le> Suc k \<and> Suc k \<le> 24 \<and> slot_size ?s1 = 2 ^ Suc k" using k(1) sz2 by simp
  then have inv1: "registry_inv ?s1" using nw(2) seed
    by (simp only: registry_inv_def) (intro conjI exI [of _ "Suc k"]; simp add: mult.commute)
  have look: "slot_lookup ?s1 = slot_lookup s"
  proof
    fix g
    have "slot_lookup ?s1 g = Some d \<longleftrightarrow> slot_lookup s g = Some d" for d
      using slot_lookup_Some [of ?s1 "Suc k" g d] slot_lookup_Some [OF ok k(3), of g d] nw(2,3) sz2
      by (simp add: mult.commute)
    then show "slot_lookup ?s1 g = slot_lookup s g" by (metis not_None_eq)
  qed
  obtain h where h: "probe_slots nw (slot_size s * 2) (slot_size s * 2) (handle_seed s) = Some h"
  proof (cases "probe_slots nw (slot_size s * 2) (slot_size s * 2) (handle_seed s)")
    case None
    obtain j where "j < slot_size s * 2" "nw ! j = None"
      using doubled_not_full [OF ok k(3) nw(2,3)] by blast
    then show ?thesis using probe_all_full [OF None seed(1) _ sz2] room by (simp add: mult.commute)
  qed blast
  have eq: "register_service c s = register_service c ?s1"
  proof -
    have "slot_size s * 2 - 1 \<le> HANDLE_MASK" using room seed(1) by linarith
    then show ?thesis using None nw(1) by (subst register_service.simps) simp
  qed
  have "Some c \<notin> set (slots ?s1)" using new nw(3) by simp
  note pl = place_context [OF inv1 _ this, of x "slot_size s * 2" h]
  let ?s' = "?s1\<lparr>slots := (slots ?s1)[h AND (slot_size ?s1 - 1) := Some c], handle_seed := h + 1\<rparr>"
  have "register_service c s = Some (h, ?s')"
    unfolding eq by (subst register_service.simps) (simp add: h)
  moreover have "\<exists>sl sz sd. ?s' = s\<lparr>slots := sl, slot_size := sz, handle_seed := sd\<rparr>"
    by (intro exI [of _ "nw[h AND (slot_size s * 2 - 1) := Some c]"] exI [of _ "slot_size s * 2"]
        exI [of _ "h + 1"]) simp
  moreover note pl look
  ultimately show ?thesis using x h by (intro that [of h ?s']) auto
qed

end
