(* ===== verification/Delivery.thy ===== *)
theory Delivery
  imports Registry
begin

text \<open>
  The delivery of messages and the life time of services: the invariant that ties the contexts, the
  slot table and the queues together, and what \<open>grab\<close>, \<open>release_service\<close>, \<open>push_service_message\<close>
  and \<open>unregister_service\<close> do under it.
\<close>

subsection \<open>Pushing into a queue that may have to enter the global queue\<close>

lemma in_global_idem: "mq_is_in_global y \<Longrightarrow> y\<lparr>mq_is_in_global := True\<rparr> = y"
  by (cases y) simp

lemma mq_body_upd:
  "mq_heap s' = (mq_heap s)(q \<mapsto> y) \<Longrightarrow> mq_body s' = (mq_body s)(q \<mapsto> y\<lparr>mq_next := None\<rparr>)"
  by (auto simp: mq_body_def fun_eq_iff)

lemma mq_push_correct:
  assumes inv: "gq_inv s qs" and x: "mq_heap s q = Some x"
    and out: "\<not> mq_is_in_global x \<Longrightarrow> q \<notin> set qs"
  obtains s' qs' where "mq_push q m s = Some s'" and "gq_inv s' qs'"
    and "set qs' = (if mq_is_in_global x then set qs else insert q (set qs))"
    and "mq_state.more s' = mq_state.more s"
    and "mq_body s' = (mq_body s)(q \<mapsto> (ring_push m x)\<lparr>mq_is_in_global := True, mq_next := None\<rparr>)"
proof (cases "mq_is_in_global x")
  case True
  let ?s = "s\<lparr>mq_heap := (mq_heap s)(q \<mapsto> ring_push m x)\<rparr>"
  have "mq_push q m s = Some ?s" using x True by (simp add: mq_push_def mq_modify_def)
  moreover have "gq_inv ?s qs" by (rule gq_inv_same_next [OF inv x]) simp
  moreover have "mq_body ?s = (mq_body s)(q \<mapsto> (ring_push m x)\<lparr>mq_is_in_global := True, mq_next := None\<rparr>)"
  proof -
    have "(ring_push m x)\<lparr>mq_is_in_global := True\<rparr> = ring_push m x" by (rule in_global_idem) (simp add: True)
    then show ?thesis using mq_body_upd [of ?s s q "ring_push m x"] by (metis mq_state.select_convs(1) mq_state.surjective mq_state.update_convs(1))
  qed
  ultimately show ?thesis using True by (intro that [of ?s qs]) auto
next
  case False
  let ?y = "(ring_push m x)\<lparr>mq_is_in_global := True\<rparr>"
  let ?s = "s\<lparr>mq_heap := (mq_heap s)(q \<mapsto> ?y)\<rparr>"
  have "gq_inv ?s qs" by (rule gq_inv_same_next [OF inv x]) simp
  then obtain s' where s': "mq_global_push q ?s = Some s'" "gq_inv s' (qs @ [q])"
      "mq_body s' = mq_body ?s" "mq_state.more s' = mq_state.more ?s"
    by (rule mq_global_push_correct [OF _ out [OF False], where x = ?y]) simp
  have "mq_push q m s = Some s'" using x False s'(1) by (simp add: mq_push_def mq_modify_def)
  moreover have "mq_body s' = (mq_body s)(q \<mapsto> (ring_push m x)\<lparr>mq_is_in_global := True, mq_next := None\<rparr>)"
    using s'(3) mq_body_upd [of ?s s q ?y] by simp
  ultimately show ?thesis using s' False by (intro that [of s' "qs @ [q]"]) auto
qed

lemma mq_mark_release_correct:
  assumes inv: "gq_inv s qs" and x: "mq_heap s q = Some x" and rel: "\<not> mq_is_release x"
    and out: "\<not> mq_is_in_global x \<Longrightarrow> q \<notin> set qs"
  obtains s' qs' where "mq_mark_release q s = Some s'" and "gq_inv s' qs'"
    and "set qs' = (if mq_is_in_global x then set qs else insert q (set qs))"
    and "mq_state.more s' = mq_state.more s"
    and "mq_body s' = (mq_body s)(q \<mapsto> x\<lparr>mq_is_release := True, mq_next := None\<rparr>)"
proof -
  let ?y = "x\<lparr>mq_is_release := True\<rparr>"
  let ?s = "s\<lparr>mq_heap := (mq_heap s)(q \<mapsto> ?y)\<rparr>"
  have gq: "gq_inv ?s qs" by (rule gq_inv_same_next [OF inv x]) simp
  have body: "mq_body ?s = (mq_body s)(q \<mapsto> x\<lparr>mq_is_release := True, mq_next := None\<rparr>)"
    using mq_body_upd [of ?s s q ?y] by simp
  show ?thesis
  proof (cases "mq_is_in_global x")
    case True
    have "mq_mark_release q s = Some ?s" using x rel True by (simp add: mq_mark_release_def mq_modify_def)
    then show ?thesis using gq body True by (intro that [of ?s qs]) auto
  next
    case False
    obtain s' where s': "mq_global_push q ?s = Some s'" "gq_inv s' (qs @ [q])"
        "mq_body s' = mq_body ?s" "mq_state.more s' = mq_state.more ?s"
      by (rule mq_global_push_correct [OF gq out [OF False], where x = ?y]) simp
    have "mq_mark_release q s = Some s'"
      using x rel False s'(1) by (simp add: mq_mark_release_def mq_modify_def)
    then show ?thesis using s' body False by (intro that [of s' "qs @ [q]"]) auto
  qed
qed

subsection \<open>The invariant\<close>

text \<open>
  The queues are in order and a queue in the global list is marked as such or released; every
  context is referenced and owns a queue of its own that is not released.
\<close>

definition queues_ok :: "'a mq_state_scheme \<Rightarrow> bool" where
  "queues_ok s \<longleftrightarrow>
     (\<exists>qs. gq_inv s qs \<and>
        (\<forall>q m. q \<in> set qs \<longrightarrow> mq_body s q = Some m \<longrightarrow> mq_is_in_global m \<or> mq_is_release m)) \<and>
     (\<forall>q m. mq_body s q = Some m \<longrightarrow> mq_inv m)"

definition context_ok :: "svc_state \<Rightarrow> service_context \<Rightarrow> bool" where
  "context_ok s x \<longleftrightarrow>
     1 \<le> svc_ref x \<and>
     (\<exists>q m. svc_queue x = Some q \<and> mq_body s q = Some m \<and> \<not> mq_is_release m \<and>
            mq_svc_handle m = svc_handle x)"

definition svc_inv :: "svc_state \<Rightarrow> bool" where
  "svc_inv s \<longleftrightarrow>
     registry_inv s \<and> names_inv (names s) \<and> queues_ok s \<and>
     (\<forall>c x. ctx_heap s c = Some x \<longrightarrow> context_ok s x) \<and>
     (\<forall>c c' x x'. ctx_heap s c = Some x \<longrightarrow> ctx_heap s c' = Some x' \<longrightarrow>
        svc_queue x = svc_queue x' \<longrightarrow> c = c')"

lemma svc_more_eq:
  assumes "mq_state.more s' = mq_state.more s"
  shows "ctx_heap s' = ctx_heap s" and "slots s' = slots s" and "slot_size s' = slot_size s"
    and "handle_seed s' = handle_seed s" and "names s' = names s" and "svc_count s' = svc_count s"
    and "log_svc_handle s' = log_svc_handle s" and "next_cid s' = next_cid s" and "next_qid s' = next_qid s"
  using assms by (cases s; cases s'; simp)+

lemma mq_body_heap:
  assumes "mq_body s q = Some m"
  obtains x where "mq_heap s q = Some x" and "m = x\<lparr>mq_next := None\<rparr>"
  using assms by (auto simp: mq_body_def)

text \<open>A change of one queue that is pushed into the global list if it was not marked as in it.\<close>

lemma queues_ok_change:
  assumes ok: "queues_ok s" and gq: "gq_inv s qs"
    and mem: "\<And>p n. p \<in> set qs \<Longrightarrow> mq_body s p = Some n \<Longrightarrow> mq_is_in_global n \<or> mq_is_release n"
    and gq': "gq_inv s' qs'" and sub: "set qs' \<subseteq> insert q (set qs)"
    and body: "mq_body s' = (mq_body s)(q \<mapsto> y)" and y: "mq_inv y" "mq_is_in_global y \<or> mq_is_release y"
  shows "queues_ok s'"
  unfolding queues_ok_def body
proof (intro conjI exI [of _ qs'] allI impI gq')
  fix p n assume "p \<in> set qs'" and "((mq_body s)(q \<mapsto> y)) p = Some n"
  then show "mq_is_in_global n \<or> mq_is_release n" using sub mem y(2) by (auto split: if_splits)
next
  fix p n assume "((mq_body s)(q \<mapsto> y)) p = Some n"
  then show "mq_inv n" using ok y(1) by (auto simp: queues_ok_def split: if_splits)
qed

text \<open>A queue that waits in the global list.\<close>

definition queued :: "'a mq_state_scheme \<Rightarrow> qid \<Rightarrow> bool" where
  "queued s q \<longleftrightarrow> (\<exists>qs. gq_inv s qs \<and> q \<in> set qs)"

lemma chain_unique: "chain h p qs \<Longrightarrow> chain h p ps \<Longrightarrow> qs = ps"
proof (induction qs arbitrary: p ps)
  case Nil
  then show ?case by (cases ps) auto
next
  case (Cons q qs)
  then show ?case by (cases ps) (auto split: option.splits)
qed

lemma queued_iff: "gq_inv s qs \<Longrightarrow> queued s q \<longleftrightarrow> q \<in> set qs"
  unfolding queued_def gq_inv_def by (metis chain_unique)

lemma queues_ok_push:
  assumes ok: "queues_ok s" and b: "mq_body s q = Some b" and rel: "\<not> mq_is_release b"
  obtains s' y where "mq_push q m s = Some s'" and "queues_ok s'" and "mq_state.more s' = mq_state.more s"
    and "mq_body s' = (mq_body s)(q \<mapsto> y)" and "mq_contents y = mq_contents b @ [m]"
    and "mq_is_in_global y" and "\<not> mq_is_release y" and "mq_svc_handle y = mq_svc_handle b"
    and "queued s' = (\<lambda>p. queued s p \<or> p = q \<and> \<not> mq_is_in_global b)"
proof -
  obtain qs where gq: "gq_inv s qs"
    and mem: "\<And>p n. p \<in> set qs \<Longrightarrow> mq_body s p = Some n \<Longrightarrow> mq_is_in_global n \<or> mq_is_release n"
    using ok by (auto simp: queues_ok_def)
  obtain x where x: "mq_heap s q = Some x" "b = x\<lparr>mq_next := None\<rparr>" using b by (rule mq_body_heap)
  have "mq_inv b" using ok b by (auto simp: queues_ok_def)
  then have i: "mq_inv x" using x(2) by simp
  have out: "q \<notin> set qs" if "\<not> mq_is_in_global x" using mem [OF _ b] rel that x by auto
  let ?y = "(ring_push m x)\<lparr>mq_is_in_global := True, mq_next := None\<rparr>"
  obtain s' qs' where s': "mq_push q m s = Some s'" "gq_inv s' qs'"
      "set qs' = (if mq_is_in_global x then set qs else insert q (set qs))"
      "mq_state.more s' = mq_state.more s" "mq_body s' = (mq_body s)(q \<mapsto> ?y)"
    by (rule mq_push_correct [OF gq x(1) out])
  have "queues_ok s'"
    using i by (intro queues_ok_change [OF ok gq mem s'(2) _ s'(5)]) (auto simp: s'(3) ring.push_inv)
  moreover have "queued s' = (\<lambda>p. queued s p \<or> p = q \<and> \<not> mq_is_in_global b)"
    using x(2) by (auto simp: fun_eq_iff queued_iff [OF gq] queued_iff [OF s'(2)] s'(3))
  ultimately show ?thesis
    using s' i x rel by (intro that [of s' ?y]) (simp_all add: ring.push_contents)
qed

lemma queues_ok_mark_release:
  assumes ok: "queues_ok s" and b: "mq_body s q = Some b" and rel: "\<not> mq_is_release b"
  obtains s' where "mq_mark_release q s = Some s'" and "queues_ok s'"
    and "mq_state.more s' = mq_state.more s"
    and "mq_body s' = (mq_body s)(q \<mapsto> b\<lparr>mq_is_release := True\<rparr>)"
    and "mq_is_in_global b \<longrightarrow> queued s' = queued s"
proof -
  obtain qs where gq: "gq_inv s qs"
    and mem: "\<And>p n. p \<in> set qs \<Longrightarrow> mq_body s p = Some n \<Longrightarrow> mq_is_in_global n \<or> mq_is_release n"
    using ok by (auto simp: queues_ok_def)
  obtain x where x: "mq_heap s q = Some x" "b = x\<lparr>mq_next := None\<rparr>" using b by (rule mq_body_heap)
  have "mq_inv b" using ok b by (auto simp: queues_ok_def)
  then have i: "mq_inv x" using x(2) by simp
  have out: "q \<notin> set qs" if "\<not> mq_is_in_global x" using mem [OF _ b] rel that x by auto
  have relx: "\<not> mq_is_release x" using rel x by simp
  let ?y = "x\<lparr>mq_is_release := True, mq_next := None\<rparr>"
  obtain s' qs' where s': "mq_mark_release q s = Some s'" "gq_inv s' qs'"
      "set qs' = (if mq_is_in_global x then set qs else insert q (set qs))"
      "mq_state.more s' = mq_state.more s" "mq_body s' = (mq_body s)(q \<mapsto> ?y)"
    by (rule mq_mark_release_correct [OF gq x(1) relx out])
  have "queues_ok s'"
    using i by (intro queues_ok_change [OF ok gq mem s'(2) _ s'(5)]) (auto simp: s'(3))
  moreover have "?y = b\<lparr>mq_is_release := True\<rparr>" using x by (cases x) simp
  moreover have "mq_is_in_global b \<longrightarrow> queued s' = queued s"
    using s'(3) x by (simp add: fun_eq_iff queued_iff [OF gq] queued_iff [OF s'(2)])
  ultimately show ?thesis using s'(1,4,5) by (intro that [of s']) metis+
qed

subsection \<open>Delivering a message\<close>

lemma svc_invD:
  assumes "svc_inv s"
  shows "registry_inv s" and "names_inv (names s)" and "queues_ok s"
    and "ctx_heap s c = Some x \<Longrightarrow> context_ok s x"
    and "ctx_heap s c = Some x \<Longrightarrow> ctx_heap s c' = Some x' \<Longrightarrow> svc_queue x = svc_queue x' \<Longrightarrow> c = c'"
  using assms unfolding svc_inv_def by blast+

lemma slot_lookup_context:
  assumes "slot_lookup s h = Some c"
  obtains x where "ctx_heap s c = Some x" and "svc_handle x = h"
  using assms by (auto simp: slot_lookup_def split: bind_splits if_splits)

lemma context_queue:
  assumes "svc_inv s" and "ctx_heap s c = Some x"
  obtains q b where "svc_queue x = Some q" and "mq_body s q = Some b" and "\<not> mq_is_release b"
    and "mq_svc_handle b = svc_handle x" and "1 \<le> svc_ref x"
  using svc_invD(4) [OF assms] by (auto simp: context_ok_def)

lemma mq_body_ctx_heap [simp]:
  "mq_body (s\<lparr>ctx_heap := f\<rparr>) = mq_body s"
  by (simp add: mq_body_def fun_eq_iff)

lemma queues_ok_ctx_heap [simp]: "queues_ok (s\<lparr>ctx_heap := f\<rparr>) = queues_ok s"
  by (simp add: queues_ok_def gq_inv_def)

lemma gq_inv_ctx_heap [simp]: "gq_inv (s\<lparr>ctx_heap := f\<rparr>) qs = gq_inv s qs"
  by (simp add: gq_inv_def)

lemma queued_ctx_heap [simp]: "queued (s\<lparr>ctx_heap := f\<rparr>) = queued s"
  by (simp add: queued_def fun_eq_iff)

text \<open>
  The registry and the contexts look only at the context heap and the slot table; the contexts
  also at which queues exist and are live.
\<close>

lemma registry_inv_same:
  assumes "registry_inv s" and "ctx_heap s' = ctx_heap s" "slots s' = slots s" "slot_size s' = slot_size s"
    "handle_seed s' = handle_seed s"
  shows "registry_inv s'"
  using assms by (simp add: registry_inv_def)

lemma slot_lookup_same:
  assumes "ctx_heap s' = ctx_heap s" "slots s' = slots s" "slot_size s' = slot_size s"
  shows "slot_lookup s' = slot_lookup s"
  using assms by (simp add: slot_lookup_def fun_eq_iff)

lemma push_service_message_unknown:
  assumes "slot_lookup s h = None"
  shows "push_service_message h m s = Some (- 1, s)"
  using assms by (simp add: push_service_message_def grab_def)

lemma push_service_message_correct:
  assumes inv: "svc_inv s" and look: "slot_lookup s h = Some c" and x: "ctx_heap s c = Some x"
    and q: "svc_queue x = Some q" and b: "mq_body s q = Some b"
  obtains s' y where "push_service_message h m s = Some (0, s')" and "svc_inv s'"
    and "mq_state.more s' = mq_state.more s" and "mq_body s' = (mq_body s)(q \<mapsto> y)"
    and "mq_contents y = mq_contents b @ [m]" and "mq_is_in_global y" and "\<not> mq_is_release y"
    and "queued s' = (\<lambda>p. queued s p \<or> p = q \<and> \<not> mq_is_in_global b)"
proof -
  have ctx: "1 \<le> svc_ref x" "\<not> mq_is_release b" "mq_svc_handle b = svc_handle x"
    using svc_invD(4) [OF inv x] q b by (simp_all add: context_ok_def)
  let ?s1 = "s\<lparr>ctx_heap := (ctx_heap s)(c \<mapsto> ctx_grab x)\<rparr>"
  have g: "grab h s = (Some c, ?s1)" by (simp add: grab_def look x)
  have ok1: "queues_ok ?s1" and b1: "mq_body ?s1 q = Some b" using svc_invD(3) [OF inv] b by simp_all
  obtain s2 y where s2: "mq_push q m ?s1 = Some s2" "queues_ok s2"
      "mq_state.more s2 = mq_state.more ?s1" "mq_body s2 = (mq_body ?s1)(q \<mapsto> y)"
      "mq_contents y = mq_contents b @ [m]" "mq_is_in_global y" "\<not> mq_is_release y"
      "mq_svc_handle y = mq_svc_handle b" "queued s2 = (\<lambda>p. queued ?s1 p \<or> p = q \<and> \<not> mq_is_in_global b)"
    by (rule queues_ok_push [OF ok1 b1 ctx(2), of m])
  note more2 = svc_more_eq [OF s2(3)]
  let ?s3 = "s2\<lparr>ctx_heap := ctx_heap s\<rparr>"
  have restored: "(ctx_heap s2)(c \<mapsto> ctx_grab x\<lparr>svc_ref := svc_ref (ctx_grab x) - 1\<rparr>) = ctx_heap s"
    using x by (cases x) (simp add: more2 ctx_grab_def fun_upd_idem)
  have rel: "release_service c s2 = Some (Some c, ?s3)"
    using ctx(1) restored by (simp add: release_service_def more2(1) ctx_grab_def)
  have push: "push_service_message h m s = Some (0, ?s3)"
    using q s2(1) rel by (simp add: push_service_message_def g ctx_grab_def)
  have more: "mq_state.more ?s3 = mq_state.more s"
    using s2(3) by (cases s; cases s2) simp
  note more3 = svc_more_eq [OF more]
  have body: "mq_body ?s3 = (mq_body s)(q \<mapsto> y)" using s2(4) by simp
  have ctxs: "context_ok ?s3 x'" if d: "ctx_heap s d = Some x'" for d x'
  proof -
    obtain q' b' where "svc_queue x' = Some q'" "mq_body s q' = Some b'" "\<not> mq_is_release b'"
        "mq_svc_handle b' = svc_handle x'" "1 \<le> svc_ref x'"
      by (rule context_queue [OF inv d])
    then show ?thesis using s2(7,8) b unfolding context_ok_def body by (cases "q' = q") auto
  qed
  have "svc_inv ?s3"
    unfolding svc_inv_def
  proof (intro conjI allI impI)
    show "registry_inv ?s3" by (rule registry_inv_same [OF svc_invD(1) [OF inv] more3(1-4)])
    show "names_inv (names ?s3)" using svc_invD(2) [OF inv] more3(5) by metis
    show "queues_ok ?s3" using s2(2) by simp
    show "context_ok ?s3 x'" if "ctx_heap ?s3 d = Some x'" for d x' using ctxs [of d] that by simp
    show "d = d'" if "ctx_heap ?s3 d = Some z" "ctx_heap ?s3 d' = Some z'" "svc_queue z = svc_queue z'"
      for d d' z z' using svc_invD(5) [OF inv, of d z d' z'] that by simp
  qed
  moreover have "queued ?s3 = (\<lambda>p. queued s p \<or> p = q \<and> \<not> mq_is_in_global b)" using s2(9) by simp
  ultimately show ?thesis using push more body s2(5-7) by (intro that [of ?s3 y])
qed

subsection \<open>Releasing and unregistering\<close>

text \<open>
  The state in which a context has been taken out of its slot and still has one reference for it.
\<close>

lemma release_service_correct:
  assumes inv: "svc_inv s" and x: "ctx_heap s c = Some x" and out: "Some c \<notin> set (slots s)"
    and q: "svc_queue x = Some q" and b: "mq_body s q = Some b"
  obtains r s' where "release_service c s = Some (r, s')" and "svc_inv s'"
    and "slot_lookup s' = slot_lookup s" and "names s' = names s"
    and "ctx_heap s' = (ctx_heap s)(c := if svc_ref x = 1 then None else Some (x\<lparr>svc_ref := svc_ref x - 1\<rparr>))"
    and "mq_body s' = (if svc_ref x = 1 then (mq_body s)(q \<mapsto> b\<lparr>mq_is_release := True\<rparr>) else mq_body s)"
    and "mq_is_in_global b \<longrightarrow> queued s' = queued s"
proof -
  have qb: "svc_queue x = Some q" "mq_body s q = Some b" "\<not> mq_is_release b"
      "mq_svc_handle b = svc_handle x" "1 \<le> svc_ref x"
    using svc_invD(4) [OF inv x] q b by (simp_all add: context_ok_def)
  define v where "v = (if svc_ref x = 1 then None else Some (x\<lparr>svc_ref := svc_ref x - 1\<rparr>))"
  obtain s' where s': "release_service c s = Some (if svc_ref x = 1 then None else Some c, s')"
      "ctx_heap s' = (ctx_heap s)(c := v)" "slots s' = slots s" "slot_size s' = slot_size s"
      "handle_seed s' = handle_seed s" "names s' = names s" "queues_ok s'"
      "mq_body s' = (if svc_ref x = 1 then (mq_body s)(q \<mapsto> b\<lparr>mq_is_release := True\<rparr>) else mq_body s)"
      "mq_is_in_global b \<longrightarrow> queued s' = queued s"
  proof (cases "svc_ref x = 1")
    case True
    obtain s1 where s1: "mq_mark_release q s = Some s1" "queues_ok s1"
        "mq_state.more s1 = mq_state.more s" "mq_body s1 = (mq_body s)(q \<mapsto> b\<lparr>mq_is_release := True\<rparr>)"
        "mq_is_in_global b \<longrightarrow> queued s1 = queued s"
      by (rule queues_ok_mark_release [OF svc_invD(3) [OF inv] qb(2,3)])
    let ?s' = "s1\<lparr>ctx_heap := (ctx_heap s1)(c := None), svc_count := svc_count s1 - 1\<rparr>"
    have "release_service c s = Some (None, ?s')"
      using x True qb(1) s1(1) by (simp add: release_service_def)
    moreover have "queues_ok ?s'" "mq_body ?s' = mq_body s1" "queued ?s' = queued s1"
      using s1(2) by (simp_all add: queues_ok_def gq_inv_def mq_body_def queued_def fun_eq_iff)
    ultimately show ?thesis
      using that [of ?s'] svc_more_eq [OF s1(3)] s1(4,5) True by (simp add: v_def)
  next
    case False
    let ?s' = "s\<lparr>ctx_heap := (ctx_heap s)(c := v)\<rparr>"
    have "release_service c s = Some (Some c, ?s')" using x False by (simp add: release_service_def v_def)
    then show ?thesis using that [of ?s'] svc_invD(3) [OF inv] False by simp
  qed
  have heap: "ctx_heap s' d = ctx_heap s d" if "Some d \<in> set (slots s)" for d
    using that out s'(2) by auto
  obtain k where k: "2 \<le> k" "k \<le> 24" "slot_size s = 2 ^ k" and ok: "slots_ok (ctx_heap s) (slot_size s) (slots s)"
    using svc_invD(1) [OF inv] by (auto simp: registry_inv_def)
  have ok': "slots_ok (ctx_heap s') (slot_size s') (slots s')"
    using ok heap nth_mem unfolding slots_ok_def s'(3,4) by metis
  have reg: "registry_inv s'"
    using svc_invD(1) [OF inv] ok' s'(4,5) by (simp add: registry_inv_def)
  have look: "slot_lookup s' g = slot_lookup s g" for g
  proof -
    have "slot_lookup s' g = Some d \<longleftrightarrow> slot_lookup s g = Some d" for d
      using slot_lookup_Some [OF ok', of k g d] slot_lookup_Some [OF ok k(3), of g d] k(3) s'(3,4) heap by auto
    then show ?thesis by (metis not_None_eq)
  qed
  have ctxs: "context_ok s' y" if d: "ctx_heap s' d = Some y" for d y
  proof (cases "d = c")
    case True
    then have "svc_ref x \<noteq> 1" "y = x\<lparr>svc_ref := svc_ref x - 1\<rparr>" using d s'(2) by (auto simp: v_def split: if_splits)
    then show ?thesis using qb s'(8) by (simp add: context_ok_def)
  next
    case False
    then have y: "ctx_heap s d = Some y" using d s'(2) by simp
    have "svc_queue y \<noteq> Some q" using svc_invD(5) [OF inv y x] False qb(1) by auto
    then show ?thesis
      using svc_invD(4) [OF inv y] s'(8) by (auto simp: context_ok_def)
  qed
  have inj: "d = d'" if "ctx_heap s' d = Some z" "ctx_heap s' d' = Some z'" "svc_queue z = svc_queue z'" for d d' z z'
    using that s'(2) svc_invD(5) [OF inv] x by (auto simp: v_def split: if_splits)
  have "svc_inv s'"
    using reg svc_invD(2) [OF inv] s'(6,7) ctxs inj unfolding svc_inv_def by auto
  then show ?thesis
    using that [OF s'(1)] look s'(2,6,8,9) by (auto simp: v_def)
qed

text \<open>Taking a context out of its slot.\<close>

lemma clear_slot:
  assumes inv: "svc_inv s" and look: "slot_lookup s h = Some c"
  defines "s1 \<equiv> s\<lparr>slots := (slots s)[h AND (slot_size s - 1) := None], names := remove_names h (names s)\<rparr>"
  shows "svc_inv s1" and "Some c \<notin> set (slots s1)" and "slot_lookup s1 = (slot_lookup s)(h := None)"
    and "mq_body s1 = mq_body s" and "queued s1 = queued s"
proof -
  show "queued s1 = queued s" by (simp add: s1_def queued_def gq_inv_def fun_eq_iff)
  obtain k where k: "2 \<le> k" "k \<le> 24" "slot_size s = 2 ^ k" and ok: "slots_ok (ctx_heap s) (slot_size s) (slots s)"
    and seed: "1 \<le> handle_seed s" "handle_seed s \<le> HANDLE_MASK + 1"
    using svc_invD(1) [OF inv] by (auto simp: registry_inv_def)
  let ?i = "h AND (slot_size s - 1)"
  have i: "?i < slot_size s" by (rule and_size_less [OF k(3)])
  have len: "length (slots s) = slot_size s" using ok by (simp add: slots_ok_def)
  obtain x where x: "ctx_heap s c = Some x" "svc_handle x = h" using look by (rule slot_lookup_context)
  have c: "slots s ! ?i = Some c" using look by (auto simp: slot_lookup_def split: bind_splits if_splits)
  have at: "j = ?i" if "j < slot_size s" "slots s ! j = Some d" "ctx_heap s d = Some y" "svc_handle y = h" for j d y
    using ok that unfolding slots_ok_def by auto
  have mem: "Some d \<in> set (slots s1) \<longleftrightarrow> d \<noteq> c \<and> Some d \<in> set (slots s)" for d
  proof
    assume "Some d \<in> set (slots s1)"
    then obtain j where j: "j < slot_size s" "(slots s)[?i := None] ! j = Some d"
      by (auto simp: s1_def in_set_conv_nth len)
    then have "j \<noteq> ?i" "slots s ! j = Some d" using i len by (auto simp: nth_list_update split: if_splits)
    then show "d \<noteq> c \<and> Some d \<in> set (slots s)" using at [OF j(1) _ x] j(1) len by (metis nth_mem)
  next
    assume d: "d \<noteq> c \<and> Some d \<in> set (slots s)"
    then obtain j where j: "j < slot_size s" "slots s ! j = Some d" by (auto simp: in_set_conv_nth len)
    then have "j \<noteq> ?i" using c d by auto
    then have "(slots s)[?i := None] ! j = Some d" using j by simp
    then show "Some d \<in> set (slots s1)" using j(1) len nth_mem [of j "slots s1"] by (simp add: s1_def)
  qed
  show "Some c \<notin> set (slots s1)" by (simp add: mem)
  have ok1: "slots_ok (ctx_heap s1) (slot_size s1) (slots s1)"
    using ok i len unfolding slots_ok_def s1_def by (auto simp: nth_list_update)
  show lk: "slot_lookup s1 = (slot_lookup s)(h := None)"
  proof
    fix g
    have k1: "slot_size s1 = 2 ^ k" using k(3) by (simp add: s1_def)
    have "slot_lookup s1 g = Some d \<longleftrightarrow> ((slot_lookup s)(h := None)) g = Some d" for d
    proof -
      have h1: "ctx_heap s1 = ctx_heap s" by (simp add: s1_def)
      have 1: "slot_lookup s1 g = Some d \<longleftrightarrow> d \<noteq> c \<and> slot_lookup s g = Some d"
        using slot_lookup_Some [OF ok1 k1, of g d] slot_lookup_Some [OF ok k(3), of g d] mem [of d] h1 by simp
      have 2: "g = h" if "slot_lookup s g = Some c"
        using slot_lookup_Some [OF ok k(3), of g c] that x by auto
      show ?thesis
      proof (cases "g = h")
        case True
        then show ?thesis unfolding 1 using look by auto
      next
        case False
        then show ?thesis unfolding 1 using 2 by (simp add: False) blast
      qed
    qed
    then show "slot_lookup s1 g = ((slot_lookup s)(h := None)) g" by (metis not_None_eq)
  qed
  show body: "mq_body s1 = mq_body s" by (simp add: s1_def mq_body_def fun_eq_iff)
  have reg: "registry_inv s1" using k seed ok1 by (auto simp: registry_inv_def s1_def)
  have qok: "queues_ok s1" using svc_invD(3) [OF inv] by (simp add: s1_def queues_ok_def gq_inv_def mq_body_def)
  have "context_ok s1 y" if "ctx_heap s1 d = Some y" for d y
    using svc_invD(4) [OF inv, of d y] that body by (simp add: s1_def context_ok_def)
  moreover have "d = d'" if "ctx_heap s1 d = Some z" "ctx_heap s1 d' = Some z'" "svc_queue z = svc_queue z'" for d d' z z'
    using svc_invD(5) [OF inv, of d z d' z'] that by (simp add: s1_def)
  moreover have "names_inv (names s1)"
    using names.inv_drop_all [OF svc_invD(2) [OF inv]] by (simp add: s1_def)
  ultimately show "svc_inv s1" using reg qok unfolding svc_inv_def by blast
qed

lemma unregister_service_correct:
  assumes inv: "svc_inv s" and look: "slot_lookup s h = Some c" and x: "ctx_heap s c = Some x"
    and q: "svc_queue x = Some q" and b: "mq_body s q = Some b"
  obtains s' where "unregister_service h s = Some (1, s')" and "svc_inv s'"
    and "slot_lookup s' = (slot_lookup s)(h := None)" and "names s' = remove_names h (names s)"
    and "ctx_heap s' = (ctx_heap s)(c := if svc_ref x = 1 then None else Some (x\<lparr>svc_ref := svc_ref x - 1\<rparr>))"
    and "mq_body s' = (if svc_ref x = 1 then (mq_body s)(q \<mapsto> b\<lparr>mq_is_release := True\<rparr>) else mq_body s)"
    and "mq_is_in_global b \<longrightarrow> queued s' = queued s"
proof -
  let ?s1 = "s\<lparr>slots := (slots s)[h AND (slot_size s - 1) := None], names := remove_names h (names s)\<rparr>"
  note S = clear_slot [OF inv look]
  have x1: "ctx_heap ?s1 c = Some x" using x by simp
  have b1: "mq_body ?s1 q = Some b" using b S(4) by simp
  obtain r s' where s': "release_service c ?s1 = Some (r, s')" "svc_inv s'"
      "slot_lookup s' = slot_lookup ?s1" "names s' = names ?s1"
      "ctx_heap s' = (ctx_heap ?s1)(c := if svc_ref x = 1 then None else Some (x\<lparr>svc_ref := svc_ref x - 1\<rparr>))"
      "mq_body s' = (if svc_ref x = 1 then (mq_body ?s1)(q \<mapsto> b\<lparr>mq_is_release := True\<rparr>) else mq_body ?s1)"
      "mq_is_in_global b \<longrightarrow> queued s' = queued ?s1"
    by (rule release_service_correct [OF S(1) x1 S(2) q b1])
  have "unregister_service h s = Some (1, s')"
    using s'(1) by (simp add: unregister_service_def look)
  then show ?thesis
    using s'(2-7) S(3-5) by (intro that [of s']) simp_all
qed

subsection \<open>The interface to the senders\<close>

text \<open>
  What the timer, the logger and \<open>send\<close> rely on: posting to a known handle appends to the inbox of
  that handle, to any other handle it reports \<open>- 1\<close> and changes nothing. \<open>post_all\<close> posts a list.
\<close>

fun post_all :: "('h \<Rightarrow> 'm \<Rightarrow> 's \<Rightarrow> (int \<times> 's) option) \<Rightarrow> ('h \<times> 'm) list \<Rightarrow> 's \<Rightarrow> 's option" where
  "post_all post [] s = Some s"
| "post_all post ((h, m) # ds) s = do { (_, s1) \<leftarrow> post h m s; post_all post ds s1 }"

locale message_delivery =
  fixes post :: "'h \<Rightarrow> 'm \<Rightarrow> 's \<Rightarrow> (int \<times> 's) option"
    and known :: "'s \<Rightarrow> 'h set"
    and inbox :: "'s \<Rightarrow> 'h \<Rightarrow> 'm list"
    and inv :: "'s \<Rightarrow> bool"
  assumes post_unknown: "inv s \<Longrightarrow> h \<notin> known s \<Longrightarrow> post h m s = Some (- 1, s)"
    and post_known: "inv s \<Longrightarrow> h \<in> known s \<Longrightarrow>
      \<exists>s'. post h m s = Some (0, s') \<and> inv s' \<and> known s' = known s \<and>
           inbox s' = (inbox s)(h := inbox s h @ [m])"
begin

lemma post_all_correct:
  assumes "inv s"
  shows "\<exists>s'. post_all post ds s = Some s' \<and> inv s' \<and> known s' = known s \<and>
     (\<forall>h \<in> known s. inbox s' h = inbox s h @ map snd (filter (\<lambda>d. fst d = h) ds)) \<and>
     (\<forall>h. h \<notin> known s \<longrightarrow> inbox s' h = inbox s h)"
  using assms
proof (induction ds arbitrary: s)
  case (Cons d ds)
  obtain g m where d: "d = (g, m)" by (cases d)
  show ?case
  proof (cases "g \<in> known s")
    case True
    from post_known [OF Cons.prems True, of m] obtain s1 where s1: "post g m s = Some (0, s1)" "inv s1"
        "known s1 = known s" "inbox s1 = (inbox s)(g := inbox s g @ [m])" by blast
    from Cons.IH [OF s1(2)] show ?thesis using s1 d True by auto
  next
    case False
    from Cons.IH [OF Cons.prems] show ?thesis
      using post_unknown [OF Cons.prems False, of m] d False by auto
  qed
qed simp

end

definition known_handles :: "svc_state \<Rightarrow> handle set" where
  "known_handles s = dom (slot_lookup s)"

definition inbox :: "svc_state \<Rightarrow> handle \<Rightarrow> service_message list" where
  "inbox s h =
     (case do { c \<leftarrow> slot_lookup s h; x \<leftarrow> ctx_heap s c; q \<leftarrow> svc_queue x; mq_body s q } of
        None \<Rightarrow> [] | Some b \<Rightarrow> mq_contents b)"

lemma slot_lookup_inj:
  "slot_lookup s h = Some c \<Longrightarrow> slot_lookup s g = Some c \<Longrightarrow> g = h"
  by (metis option.inject slot_lookup_context)

interpretation services: message_delivery push_service_message known_handles inbox svc_inv
proof unfold_locales
  fix s h m
  assume inv: "svc_inv s"
  show "push_service_message h m s = Some (- 1, s)" if "h \<notin> known_handles s"
    using that by (intro push_service_message_unknown) (auto simp: known_handles_def)
  assume "h \<in> known_handles s"
  then obtain c where look: "slot_lookup s h = Some c" by (auto simp: known_handles_def)
  obtain x where x: "ctx_heap s c = Some x" "svc_handle x = h" using look by (rule slot_lookup_context)
  obtain q b where qb: "svc_queue x = Some q" "mq_body s q = Some b" by (rule context_queue [OF inv x(1)])
  obtain s' y where s': "push_service_message h m s = Some (0, s')" "svc_inv s'"
      "mq_state.more s' = mq_state.more s" "mq_body s' = (mq_body s)(q \<mapsto> y)"
      "mq_contents y = mq_contents b @ [m]"
    by (rule push_service_message_correct [OF inv look x(1) qb])
  note more = svc_more_eq [OF s'(3)]
  have lk: "slot_lookup s' = slot_lookup s" by (rule slot_lookup_same [OF more(1-3)])
  have "inbox s' g = ((inbox s)(h := inbox s h @ [m])) g" for g
  proof (cases "g = h")
    case True
    then show ?thesis using look x qb s'(4,5) by (simp add: inbox_def lk more(1))
  next
    case False
    have "svc_queue y \<noteq> Some q" if "slot_lookup s g = Some d" "ctx_heap s d = Some y" for d y
      using svc_invD(5) [OF inv that(2) x(1)] qb(1) that(1) look slot_lookup_inj [of s h c g] False by auto
    then show ?thesis
      using False by (auto simp: inbox_def lk more(1) s'(4) bind_eq_Some_conv split: option.splits bind_splits)
  qed
  then show "\<exists>s'. push_service_message h m s = Some (0, s') \<and> svc_inv s' \<and> known_handles s' = known_handles s \<and>
      inbox s' = (inbox s)(h := inbox s h @ [m])"
    using s'(1,2) lk by (intro exI [of _ s']) (auto simp: known_handles_def)
qed

subsection \<open>A running service\<close>

definition demo_ctx :: "handle \<Rightarrow> qid \<Rightarrow> service_context" where
  "demo_ctx h q =
     \<lparr>svc_handle = h, svc_session_id = 0, svc_ref = 1, svc_queue = Some q, svc_has_callback = True,
      svc_is_init = True, svc_is_blocked = False, svc_message_count = 0, svc_profile = False,
      svc_cpu_cost = 0, svc_cpu_start = 0, svc_log_open = False, svc_cmd_result = []\<rparr>"

definition demo_state :: svc_state where
  "demo_state = manager_init\<lparr>mq_heap := [0 \<mapsto> (mq_create 1)\<lparr>mq_is_in_global := False\<rparr>],
     ctx_heap := [0 \<mapsto> demo_ctx 1 0], slots := [None, Some 0, None, None], handle_seed := 2,
     svc_count := 1, next_cid := 1, next_qid := 1\<rparr>"

lemma probe_four: "probe_slots sl sz 4 h = probe_slots sl sz (Suc (Suc (Suc (Suc 0)))) h"
proof -
  have "(4 :: nat) = Suc (Suc (Suc (Suc 0)))" by simp
  then show ?thesis by (simp only:)
qed

lemma small_and: "Suc (Suc 0) AND 3 = (2 :: nat)" "Suc (Suc (Suc 0)) AND 3 = (3 :: nat)"
proof -
  have "(2 :: nat) AND 3 = 2" "(3 :: nat) AND 3 = 3" by simp_all
  then show "Suc (Suc 0) AND 3 = (2 :: nat)" "Suc (Suc (Suc 0)) AND 3 = (3 :: nat)"
    by (simp_all only: numeral_2_eq_2 numeral_3_eq_3)
qed

lemma demo_registry: "registry_inv demo_state"
proof -
  have "slots_ok (ctx_heap demo_state) 4 (slots demo_state)"
    by (auto simp: slots_ok_def demo_state_def demo_ctx_def manager_init_def HANDLE_MASK_def less_4)
  moreover have "slot_size demo_state = 2 ^ 2" "slot_size demo_state = 4" "handle_seed demo_state = 2"
    by (simp_all add: demo_state_def manager_init_def DEFAULT_SLOT_SIZE_def)
  ultimately show ?thesis unfolding registry_inv_def
    by (intro conjI exI [of _ 2]) (simp_all add: HANDLE_MASK_def)
qed

lemma demo_inv: "svc_inv demo_state"
proof -
  have "gq_inv demo_state []" by (simp add: gq_inv_def demo_state_def manager_init_def)
  moreover have "mq_body demo_state q = Some m \<Longrightarrow> mq_inv m" for q m
    by (auto simp: mq_body_def demo_state_def split: if_splits)
  ultimately have "queues_ok demo_state" 
    unfolding queues_ok_def by (intro conjI exI [of _ "[]"]) auto
  moreover have "names_inv (names demo_state)"
    by (simp add: demo_state_def manager_init_def names_inv_init)
  moreover have "context_ok demo_state x" if "ctx_heap demo_state c = Some x" for c x
    using that by (auto simp: context_ok_def demo_state_def demo_ctx_def mq_body_def split: if_splits)
  moreover have "c = c'" if "ctx_heap demo_state c = Some x" "ctx_heap demo_state c' = Some x'" for c c' x x'
    using that by (auto simp: demo_state_def split: if_splits)
  ultimately show ?thesis using demo_registry unfolding svc_inv_def by blast
qed

lemma demo_lookup: "slot_lookup demo_state h = (if h = 1 then Some 0 else None)"
proof -
  have fields: "slot_size demo_state = 2 ^ 2" "slots demo_state = [None, Some 0, None, None]"
      "ctx_heap demo_state = [0 \<mapsto> demo_ctx 1 0]"
    by (simp_all add: demo_state_def manager_init_def DEFAULT_SLOT_SIZE_def)
  have "slots_ok (ctx_heap demo_state) (slot_size demo_state) (slots demo_state)"
    using demo_registry by (simp add: registry_inv_def)
  from slot_lookup_Some [OF this fields(1), of h]
  have "slot_lookup demo_state h = Some c \<longleftrightarrow> c = 0 \<and> h = 1" for c
    by (auto simp: fields(2,3) demo_ctx_def)
  then show ?thesis by (metis not_None_eq)
qed

lemma demo_known: "known_handles demo_state = {1}"
  by (auto simp: known_handles_def demo_lookup split: if_splits)

lemma registry_inv_new_context:
  assumes "registry_inv s" and "Some c \<notin> set (slots s)"
  shows "registry_inv (s\<lparr>ctx_heap := (ctx_heap s)(c \<mapsto> y)\<rparr>)"
proof -
  have "slots s ! i \<noteq> Some c" if "i < length (slots s)" for i using assms(2) that nth_mem by metis
  then show ?thesis using assms(1) unfolding registry_inv_def slots_ok_def by auto
qed

subsection \<open>Properties\<close>



text \<open>
  When the counter wraps during the search, \<open>register_service\<close> can abort although a slot is free: the
  search goes from \<open>HANDLE_MASK\<close> to 1 and so skips the slot of the handles divisible by the table
  size. If that is the only free slot, the table counts as full, and the rehashing loop dereferences
  its null entry.
\<close>

theorem register_aborts_on_wrap:
  "\<exists>s c. registry_inv s \<and> (\<exists>i < slot_size s. slots s ! i = None) \<and> Some c \<notin> set (slots s) \<and>
     ctx_heap s c \<noteq> None \<and> register_service c s = None"
proof -
  let ?s = "manager_init\<lparr>ctx_heap := [0 \<mapsto> demo_ctx 1 0, 1 \<mapsto> demo_ctx 2 1, 2 \<mapsto> demo_ctx 3 2, 3 \<mapsto> demo_ctx 0 3],
     slots := [None, Some 0, Some 1, Some 2], handle_seed := HANDLE_MASK\<rparr>"
  have sz: "slot_size ?s = 4" by (simp add: manager_init_def DEFAULT_SLOT_SIZE_def)
  have "slots_ok (ctx_heap ?s) 4 (slots ?s)"
    by (auto simp: slots_ok_def demo_ctx_def HANDLE_MASK_def less_4)
  then have "registry_inv ?s" using sz unfolding registry_inv_def
    by (intro conjI exI [of _ 2]) (simp_all add: HANDLE_MASK_def)
  moreover have "probe_slots (slots ?s) 4 4 (handle_seed ?s) = None"
    by (simp add: probe_four Let_def HANDLE_MASK_def small_and)
  then have "register_service 3 ?s = None"
    using sz by (subst register_service.simps) (simp del: probe_slots.simps)
  ultimately show ?thesis using sz by (intro exI [of _ ?s] exI [of _ 3]) (auto intro: exI [of _ 0])
qed

text \<open>
  C14. Delivery is exact: a message pushed to a registered handle is appended to the inbox of that service,
  no other inbox changes, the reference that was taken is given back, and the invariant of the
  service manager holds again; a message to any other handle is refused with \<open>- 1\<close> and nothing
  changes. The operation never aborts.
\<close>

theorem push_service_message_exact:
  assumes "svc_inv s"
  shows "if h \<in> known_handles s
     then \<exists>s'. push_service_message h m s = Some (0, s') \<and> svc_inv s' \<and> ctx_heap s' = ctx_heap s \<and>
            inbox s' = (inbox s)(h := inbox s h @ [m])
     else push_service_message h m s = Some (- 1, s)"
proof (cases "h \<in> known_handles s")
  case True
  then obtain c where look: "slot_lookup s h = Some c" by (auto simp: known_handles_def)
  obtain x where x: "ctx_heap s c = Some x" using look by (rule slot_lookup_context)
  obtain q b where qb: "svc_queue x = Some q" "mq_body s q = Some b" by (rule context_queue [OF assms x])
  obtain s' where s': "push_service_message h m s = Some (0, s')" "mq_state.more s' = mq_state.more s"
    by (rule push_service_message_correct [OF assms look x qb])
  then show ?thesis using services.post_known [OF assms True, of m] svc_more_eq [OF s'(2)] True by auto
next
  case False
  then show ?thesis using services.post_unknown [OF assms] by simp
qed

theorem push_service_message_exact_witness:
  "\<exists>s'. push_service_message 1 empty_message demo_state = Some (0, s') \<and> svc_inv s' \<and>
     inbox s' 1 = inbox demo_state 1 @ [empty_message]"
  using push_service_message_exact [OF demo_inv, of 1 empty_message] by (auto simp: demo_known)

text \<open>
  C21. Unregistering a service takes it and all of its names away and nothing else: its handle and its
  names are not found any more, every other handle and name is found as before. If the table held
  the last reference, the context is deleted and its queue is marked for release; otherwise the
  context stays, with one reference less, for those who hold one.
\<close>

theorem unregister_service_exact:
  assumes "svc_inv s" and "slot_lookup s h = Some c" and "ctx_heap s c = Some x"
  shows "\<exists>s'. unregister_service h s = Some (1, s') \<and> svc_inv s' \<and>
     slot_lookup s' = (slot_lookup s)(h := None) \<and>
     (\<forall>n. find_by_name (names s') n =
        (if find_by_name (names s) n = h then 0 else find_by_name (names s) n)) \<and>
     ctx_heap s' = (ctx_heap s)(c := if svc_ref x = 1 then None else Some (x\<lparr>svc_ref := svc_ref x - 1\<rparr>)) \<and>
     (\<forall>q b. svc_queue x = Some q \<longrightarrow> svc_ref x = 1 \<longrightarrow> mq_body s' q = Some b \<longrightarrow> mq_is_release b)"
proof -
  obtain q b where qb: "svc_queue x = Some q" "mq_body s q = Some b" by (rule context_queue [OF assms(1,3)])
  obtain s' where s': "unregister_service h s = Some (1, s')" "svc_inv s'"
      "slot_lookup s' = (slot_lookup s)(h := None)" "names s' = remove_names h (names s)"
      "ctx_heap s' = (ctx_heap s)(c := if svc_ref x = 1 then None else Some (x\<lparr>svc_ref := svc_ref x - 1\<rparr>))"
      "mq_body s' = (if svc_ref x = 1 then (mq_body s)(q \<mapsto> b\<lparr>mq_is_release := True\<rparr>) else mq_body s)"
    by (rule unregister_service_correct [OF assms qb])
  then show ?thesis
    using names.look_drop_all [OF svc_invD(2) [OF assms(1)], of h] qb(1)
    by (intro exI [of _ s'] conjI) auto
qed

theorem unregister_service_exact_witness:
  "\<exists>s'. unregister_service 1 demo_state = Some (1, s') \<and> svc_inv s' \<and> slot_lookup s' = Map.empty \<and>
     ctx_heap s' 0 = None"
proof -
  have x: "ctx_heap demo_state 0 = Some (demo_ctx 1 0)" by (simp add: demo_state_def)
  have look: "slot_lookup demo_state 1 = Some 0" by (simp add: demo_lookup)
  have e: "(slot_lookup demo_state)(1 := None) = Map.empty" by (auto simp: demo_lookup)
  show ?thesis
    using unregister_service_exact [OF demo_inv look x] unfolding e by (auto simp: demo_ctx_def)
qed

end
