(* ===== verification/C_Text.thy ===== *)
theory C_Text
  imports Skynet_Prelude
begin

text \<open>
  Numbers as text, the way the C library prints and reads them: \<open>%d\<close>, \<open>%u\<close>, \<open>%x\<close>, \<open>%X\<close>, \<open>%0nx\<close>,
  \<open>strtoul\<close> and \<open>strtol\<close>; and that reading undoes printing.
\<close>

subsection \<open>Printing\<close>

fun digits :: "nat \<Rightarrow> nat \<Rightarrow> nat list" where
  "digits b n = (if b < 2 \<or> n < b then [n] else digits b (n div b) @ [n mod b])"

declare digits.simps [simp del]

definition lower_digit :: "nat \<Rightarrow> char" where
  "lower_digit d = ''0123456789abcdef'' ! (d mod 16)"

definition hex_digit :: "nat \<Rightarrow> char" where
  "hex_digit n = ''0123456789ABCDEF'' ! (n mod 16)"

text \<open>\<open>%u\<close>, \<open>%d\<close>, \<open>%x\<close> and \<open>%X\<close>.\<close>

definition show_dec :: "nat \<Rightarrow> string" where
  "show_dec n = map lower_digit (digits 10 n)"

definition show_int :: "int \<Rightarrow> string" where
  "show_int i = (if i < 0 then CHR ''-'' # show_dec (nat (- i)) else show_dec (nat i))"

definition show_hex :: "nat \<Rightarrow> string" where
  "show_hex n = map lower_digit (digits 16 n)"

definition show_HEX :: "nat \<Rightarrow> string" where
  "show_HEX n = map hex_digit (digits 16 n)"

text \<open>A width with leading zeros.\<close>

definition zero_pad :: "nat \<Rightarrow> string \<Rightarrow> string" where
  "zero_pad w s = replicate (w - length s) (CHR ''0'') @ s"

text \<open>\<open>%lf\<close> of a number of microseconds divided by a million (exact below 2 to the 52 microseconds).\<close>

definition show_seconds :: "nat \<Rightarrow> string" where
  "show_seconds us = show_dec (us div 1000000) @ ''.'' @ zero_pad 6 (show_dec (us mod 1000000))"

subsection \<open>Reading\<close>

definition is_space :: "char \<Rightarrow> bool" where
  "is_space c \<longleftrightarrow> of_char c = (32 :: nat) \<or> (9 \<le> (of_char c :: nat) \<and> (of_char c :: nat) \<le> 13)"

definition hex_value :: "char \<Rightarrow> nat option" where
  "hex_value c =
     (let n = of_char c :: nat in
      if 48 \<le> n \<and> n \<le> 57 then Some (n - 48)
      else if 65 \<le> n \<and> n \<le> 70 then Some (n - 55)
      else if 97 \<le> n \<and> n \<le> 102 then Some (n - 87)
      else None)"

text \<open>The number in base \<open>b\<close> that the digits at the front of a text spell.\<close>

fun read_digits :: "nat \<Rightarrow> nat \<Rightarrow> string \<Rightarrow> nat" where
  "read_digits b acc [] = acc"
| "read_digits b acc (c # cs) =
     (case hex_value c of
        None \<Rightarrow> acc
      | Some d \<Rightarrow> if d < b then read_digits b (acc * b + d) cs else acc)"

text \<open>White space, a sign, and for base 16 an optional \<open>0x\<close> before a digit.\<close>

definition skip_sign :: "string \<Rightarrow> bool \<times> string" where
  "skip_sign s =
     (let s1 = dropWhile is_space s in
      (s1 \<noteq> [] \<and> hd s1 = CHR ''-'',
       if s1 \<noteq> [] \<and> (hd s1 = CHR ''-'' \<or> hd s1 = CHR ''+'') then tl s1 else s1))"

definition has_0x :: "string \<Rightarrow> bool" where
  "has_0x s = (case s of
      z # x # d # _ \<Rightarrow> z = CHR ''0'' \<and> (x = CHR ''x'' \<or> x = CHR ''X'') \<and> hex_value d \<noteq> None
    | _ \<Rightarrow> False)"

text \<open>\<open>strtoul(s, nullptr, 16)\<close> of a 64 bit \<open>unsigned long\<close>: the largest value on overflow.\<close>

definition strtoul16 :: "string \<Rightarrow> u64" where
  "strtoul16 s =
     (let (neg, s1) = skip_sign s;
          v = read_digits 16 0 (if has_0x s1 then drop 2 s1 else s1)
      in if v \<ge> 2 ^ 64 then - 1 else if neg then - of_nat v else of_nat v)"

text \<open>\<open>strtol\<close> of a 64 bit \<open>long\<close> in base 10, and in base 0, where the prefix chooses the base.\<close>

definition clamp_long :: "bool \<Rightarrow> nat \<Rightarrow> int" where
  "clamp_long neg v = (if neg then max (- (2 ^ 63)) (- int v) else min (2 ^ 63 - 1) (int v))"

definition strtol10 :: "string \<Rightarrow> int" where
  "strtol10 s = (let (neg, s1) = skip_sign s in clamp_long neg (read_digits 10 0 s1))"

definition strtol0 :: "string \<Rightarrow> int" where
  "strtol0 s =
     (let (neg, s1) = skip_sign s in
      clamp_long neg
        (if has_0x s1 then read_digits 16 0 (drop 2 s1)
         else if s1 \<noteq> [] \<and> hd s1 = CHR ''0'' then read_digits 8 0 s1
         else read_digits 10 0 s1))"

text \<open>The conversion of a \<open>long\<close> to a 32 bit \<open>int\<close>.\<close>

definition to_int32 :: "int \<Rightarrow> int" where
  "to_int32 i = sint (of_int i :: u32)"

subsection \<open>Reading undoes printing\<close>

lemma hex_value_char:
  "hex_value (hex_digit n) = Some (n mod 16)" "hex_value (lower_digit n) = Some (n mod 16)"
proof -
  have "\<forall>k \<in> set [0..<16]. hex_value (''0123456789ABCDEF'' ! k) = Some k \<and>
      hex_value (''0123456789abcdef'' ! k) = Some k" by code_simp
  then show "hex_value (hex_digit n) = Some (n mod 16)" "hex_value (lower_digit n) = Some (n mod 16)"
    by (simp_all add: hex_digit_def lower_digit_def)
qed

lemma plain_char:
  "\<not> is_space (hex_digit n)" "hex_digit n \<noteq> CHR ''-''" "hex_digit n \<noteq> CHR ''+''"
  "hex_digit n \<noteq> CHR ''x''" "hex_digit n \<noteq> CHR ''X''"
  "\<not> is_space (lower_digit n)" "lower_digit n \<noteq> CHR ''-''" "lower_digit n \<noteq> CHR ''+''"
  "lower_digit n \<noteq> CHR ''x''" "lower_digit n \<noteq> CHR ''X''"
proof -
  have "\<forall>k \<in> set [0..<16]. \<not> is_space (''0123456789ABCDEF'' ! k) \<and> \<not> is_space (''0123456789abcdef'' ! k) \<and>
      ''0123456789ABCDEF'' ! k \<notin> {CHR ''-'', CHR ''+'', CHR ''x'', CHR ''X''} \<and>
      ''0123456789abcdef'' ! k \<notin> {CHR ''-'', CHR ''+'', CHR ''x'', CHR ''X''}" by code_simp
  moreover have "n mod 16 \<in> set [0..<16]" by simp
  ultimately show "\<not> is_space (hex_digit n)" "hex_digit n \<noteq> CHR ''-''" "hex_digit n \<noteq> CHR ''+''"
    "hex_digit n \<noteq> CHR ''x''" "hex_digit n \<noteq> CHR ''X''"
    "\<not> is_space (lower_digit n)" "lower_digit n \<noteq> CHR ''-''" "lower_digit n \<noteq> CHR ''+''"
    "lower_digit n \<noteq> CHR ''x''" "lower_digit n \<noteq> CHR ''X''"
    unfolding hex_digit_def lower_digit_def by blast+
qed

lemma digits_not_Nil [simp]: "digits b n \<noteq> []"
  by (subst digits.simps) simp

lemma digits_less: "2 \<le> b \<Longrightarrow> d \<in> set (digits b n) \<Longrightarrow> d < b"
proof (induction b n rule: digits.induct)
  case (1 b n)
  then show ?case
    using "1.prems" by (subst (asm) (2) digits.simps) (auto split: if_splits)
qed

definition from_digits :: "nat \<Rightarrow> nat \<Rightarrow> nat list \<Rightarrow> nat" where
  "from_digits b = foldl (\<lambda>a d. a * b + d)"

lemma from_digits_digits: "2 \<le> b \<Longrightarrow> from_digits b 0 (digits b n) = n"
proof (induction b n rule: digits.induct)
  case (1 b n)
  then show ?case by (subst digits.simps) (auto simp: from_digits_def mult.commute)
qed

lemma read_digits_append:
  assumes "\<And>d. d \<in> set ds \<Longrightarrow> hex_value (f d) = Some d" and "\<And>d. d \<in> set ds \<Longrightarrow> d < b"
    and "\<And>c r. rest = c # r \<Longrightarrow> hex_value c = None"
  shows "read_digits b acc (map f ds @ rest) = from_digits b acc ds"
  using assms(1,2)
proof (induction ds arbitrary: acc)
  case Nil
  then show ?case using assms(3) by (cases rest) (auto simp: from_digits_def)
qed (simp add: from_digits_def)

lemma read_show_dec:
  assumes "\<And>c r. rest = c # r \<Longrightarrow> hex_value c = None"
  shows "read_digits 10 0 (show_dec n @ rest) = n"
proof -
  have "hex_value (lower_digit d) = Some d" "d < 10" if "d \<in> set (digits 10 n)" for d
    using digits_less [OF _ that] by (simp_all add: hex_value_char)
  then have "read_digits 10 0 (map lower_digit (digits 10 n) @ rest) = from_digits 10 0 (digits 10 n)"
    by (rule read_digits_append [OF _ _ assms])
  then show ?thesis by (simp add: show_dec_def from_digits_digits)
qed

lemma skip_sign_plain:
  assumes "s \<noteq> []" "\<not> is_space (hd s)" "hd s \<noteq> CHR ''-''" "hd s \<noteq> CHR ''+''"
  shows "skip_sign (s @ rest) = (False, s @ rest)"
  using assms by (cases s) (simp_all add: skip_sign_def)

lemma skip_sign_lower: "ds \<noteq> [] \<Longrightarrow> skip_sign (map lower_digit ds @ rest) = (False, map lower_digit ds @ rest)"
  by (rule skip_sign_plain) (simp_all add: hd_map plain_char)

lemma has_0x_lower: "ds \<noteq> [] \<Longrightarrow> \<not> has_0x (map lower_digit ds)"
  by (cases ds rule: remdups_adj.cases) (auto simp: has_0x_def plain_char split: list.splits)

lemma strtoul16_show_hex:
  assumes "n < 2 ^ 64"
  shows "strtoul16 (show_hex n) = of_nat n"
proof -
  have h: "hex_value (lower_digit d) = Some d" "d < 16" if "d \<in> set (digits 16 n)" for d
    using digits_less [OF _ that] by (simp_all add: hex_value_char)
  have "read_digits 16 0 (map lower_digit (digits 16 n) @ []) = from_digits 16 0 (digits 16 n)"
    by (rule read_digits_append) (simp_all add: h)
  then show ?thesis
    using assms skip_sign_lower [of "digits 16 n" "[]"] has_0x_lower [of "digits 16 n"]
    by (simp add: strtoul16_def show_hex_def from_digits_digits)
qed

lemma strtol10_show_int:
  assumes "- (2 ^ 63) \<le> i" and "i < 2 ^ 63" and "\<And>c r. rest = c # r \<Longrightarrow> hex_value c = None"
  shows "strtol10 (show_int i @ rest) = i"
proof (cases "i < 0")
  case True
  have "\<not> is_space (CHR ''-'')" by (simp add: is_space_def)
  then have "skip_sign (show_int i @ rest) = (True, show_dec (nat (- i)) @ rest)"
    using True by (simp add: skip_sign_def show_int_def)
  then show ?thesis using True assms by (simp add: strtol10_def read_show_dec [OF assms(3)] clamp_long_def)
next
  case False
  then have "skip_sign (show_int i @ rest) = (False, show_dec (nat i) @ rest)"
    using skip_sign_lower [of "digits 10 (nat i)" rest] by (simp add: show_int_def show_dec_def)
  then show ?thesis using False assms by (simp add: strtol10_def read_show_dec [OF assms(3)] clamp_long_def)
qed

subsection \<open>Lengths\<close>

lemma digits_length: "n < b ^ k \<Longrightarrow> 2 \<le> b \<Longrightarrow> length (digits b n) \<le> max 1 k"
proof (induction k arbitrary: n)
  case 0
  then show ?case by (subst digits.simps) simp
next
  case (Suc k)
  then have "n div b < b ^ k" by (simp add: div_less_iff_less_mult mult.commute)
  then show ?case using Suc.IH [of "n div b"] Suc.prems(2) by (subst digits.simps) (cases k; auto simp: div_eq_0_iff)
qed

lemma show_dec_length: "n < 10 ^ k \<Longrightarrow> length (show_dec n) \<le> max 1 k"
  using digits_length [of n 10 k] by (simp add: show_dec_def)

lemma show_int32_length: "length (show_int (sint (w :: u32))) \<le> 11"
proof -
  have "- (2 ^ 31) \<le> sint w" "sint w < 2 ^ 31" using sint_ge [of w] sint_lt [of w] by simp_all
  then have "nat (sint w) < 10 ^ 10" "nat (- sint w) < 10 ^ 10" by simp_all
  then have "length (show_dec (nat (sint w))) \<le> 10" "length (show_dec (nat (- sint w))) \<le> 10"
    using show_dec_length [of _ 10] by simp_all
  then show ?thesis by (simp add: show_int_def)
qed

end
