(* ===== verification/Service_Manager.thy ===== *)
theory Service_Manager
  imports Delivery C_Text
begin

text \<open>
  Sending, logging, naming and launching services: the rest of \<open>service_manager.cpp\<close>, with
  \<open>log.cpp\<close> and the conversions of handles to and from text that \<open>service_command.cpp\<close> uses.
\<close>

subsection \<open>Handles as text\<close>

text \<open>\<open>_id_to_hex\<close>: a colon and eight digits; without the colon it is the format \<open>{:08X}\<close>.\<close>

definition hex08 :: "u32 \<Rightarrow> string" where
  "hex08 i = map (\<lambda>k. hex_digit (unat (drop_bit ((7 - k) * 4) i AND 0xf))) [0..<8]"

definition id_to_hex :: "u32 \<Rightarrow> string" where
  "id_to_hex i = CHR '':'' # hex08 i"

text \<open>The code stores the result of \<open>strtoul\<close> in a \<open>uint32_t\<close>.\<close>

definition parse_handle :: "string \<Rightarrow> handle" where
  "parse_handle s = unat (ucast (strtoul16 s) :: u32)"

subsection \<open>Logging\<close>

datatype log_level = LOG_LEVEL_TRACE | LOG_LEVEL_DEBUG | LOG_LEVEL_INFO | LOG_LEVEL_WARN | LOG_LEVEL_ERROR

fun log_level_code :: "log_level \<Rightarrow> u8" where
  "log_level_code LOG_LEVEL_TRACE = 0"
| "log_level_code LOG_LEVEL_DEBUG = 1"
| "log_level_code LOG_LEVEL_INFO = 2"
| "log_level_code LOG_LEVEL_WARN = 3"
| "log_level_code LOG_LEVEL_ERROR = 4"

definition MAX_LOG_MSG_SIZE :: nat where "MAX_LOG_MSG_SIZE = 64 * 1024"

definition str_bytes :: "string \<Rightarrow> bytes" where
  "str_bytes s = map of_char s"

text \<open>The handle of the context that a pointer, possibly null, refers to; \<open>None\<close> when it dangles.\<close>

definition handle_of :: "cid option \<Rightarrow> svc_state \<Rightarrow> handle option" where
  "handle_of c s = (case c of None \<Rightarrow> Some 0 | Some i \<Rightarrow> map_option svc_handle (ctx_heap s i))"

text \<open>
  \<open>_log\<close>: the message is the level, an \<open>int\<close> in little-endian order, then the text with its
  terminator. The buffer has \<open>actual_len + 1\<close> bytes, and the copy of the text must fit.
\<close>

definition log_msg :: "cid option \<Rightarrow> log_level \<Rightarrow> string \<Rightarrow> svc_state \<Rightarrow> svc_state option" where
  "log_msg c level msg s =
     (let lh = (if log_svc_handle s = 0 then find_by_name (names s) ''logger'' else log_svc_handle s);
          s1 = s\<lparr>log_svc_handle := lh\<rparr>
      in if lh = 0 \<or> length msg = 0 then Some s1
         else let actual_len = min (4 + length msg) MAX_LOG_MSG_SIZE in
         do {
           c_assert (4 + (length msg + 1) \<le> actual_len + 1);
           src \<leftarrow> handle_of c s1;
           (_, s2) \<leftarrow> push_service_message lh
             \<lparr>src_svc_handle = src, session_id = 0,
              data_ptr = Some ([log_level_code level, 0, 0, 0] @ str_bytes msg @ [0]),
              data_size = of_nat actual_len OR
                push_bit MESSAGE_TYPE_SHIFT (of_nat (msg_type_code SERVICE_MSG_TYPE_TEXT))\<rparr> s1;
           Some s2
         })"

subsection \<open>Sending\<close>

definition set_handle_by_name :: "string \<Rightarrow> handle \<Rightarrow> svc_state \<Rightarrow> (string option \<times> svc_state) option" where
  "set_handle_by_name n h s =
     do { (r, t) \<leftarrow> insert_name n h (names s); Some (r, s\<lparr>names := t\<rparr>) }"

definition query_by_name :: "cid option \<Rightarrow> string \<Rightarrow> svc_state \<Rightarrow> (handle \<times> svc_state) option" where
  "query_by_name c n s =
     (case n of
        ch # rest \<Rightarrow>
          if ch = CHR '':'' then Some (parse_handle rest, s)
          else if ch = CHR ''.'' then Some (find_by_name (names s) rest, s)
          else do { s1 \<leftarrow> log_msg c LOG_LEVEL_ERROR (''Don't support query global name '' @ n) s; Some (0, s1) }
      | [] \<Rightarrow>
          do { s1 \<leftarrow> log_msg c LOG_LEVEL_ERROR (''Don't support query global name '' @ n) s; Some (0, s1) })"

text \<open>The session of a message: as given, or a new one of the sender.\<close>

definition alloc_session :: "bool \<Rightarrow> cid option \<Rightarrow> int \<Rightarrow> svc_state \<Rightarrow> (int \<times> svc_state) option" where
  "alloc_session need c session s =
     (if need then
        do {
          c_assert (session = 0);
          i \<leftarrow> c;
          x \<leftarrow> ctx_heap s i;
          let (n, x') = new_session x;
          Some (n, s\<lparr>ctx_heap := (ctx_heap s)(i \<mapsto> x')\<rparr>)
        }
      else Some (session, s))"

definition copy_data :: "bool \<Rightarrow> bytes option \<Rightarrow> u64 \<Rightarrow> bytes option option" where
  "copy_data need_copy msg sz =
     (case msg of
        None \<Rightarrow> Some None
      | Some d \<Rightarrow>
          if need_copy then do { c_assert (unat sz \<le> length d); Some (Some (take (unat sz) d @ [0])) }
          else Some (Some d))"

definition send ::
  "cid option \<Rightarrow> handle \<Rightarrow> handle \<Rightarrow> nat \<Rightarrow> int \<Rightarrow> bytes option \<Rightarrow> u64 \<Rightarrow> svc_state \<Rightarrow> (int \<times> svc_state) option" where
  "send c src dst mtype session msg sz s =
     (if sz AND MESSAGE_TYPE_MASK \<noteq> sz then
        do { s1 \<leftarrow> log_msg c LOG_LEVEL_ERROR (''The message to '' @ hex08 (of_nat dst) @ '' is too large'') s;
             Some (- 2, s1) }
      else
        do {
          let need_copy = (mtype AND MESSAGE_TAG_DONT_COPY = 0);
          let need_alloc_session = (mtype AND MESSAGE_TAG_ALLOC_SESSION \<noteq> 0);
          let mtype1 = mtype AND 0xff;
          (session1, s1) \<leftarrow> alloc_session need_alloc_session c session s;
          msg1 \<leftarrow> copy_data need_copy msg sz;
          let sz1 = sz OR push_bit MESSAGE_TYPE_SHIFT (of_nat mtype1);
          (if dst = 0 then
             (if msg1 \<noteq> None then
                do { s2 \<leftarrow> log_msg c LOG_LEVEL_ERROR ''Destination service handle can't be 0'' s1;
                     Some (- 1, s2) }
              else Some (session1, s1))
           else
             do {
               src1 \<leftarrow> (if src = 0 then do { i \<leftarrow> c; map_option svc_handle (ctx_heap s1 i) } else Some src);
               (r, s2) \<leftarrow> push_service_message dst
                  \<lparr>src_svc_handle = src1, session_id = session1, data_ptr = msg1, data_size = sz1\<rparr> s1;
               (if r \<noteq> 0 then Some (- 1, s2) else Some (session1, s2))
             })
        })"

definition send_by_name ::
  "cid option \<Rightarrow> handle \<Rightarrow> string \<Rightarrow> nat \<Rightarrow> int \<Rightarrow> bytes option \<Rightarrow> u64 \<Rightarrow> svc_state \<Rightarrow> (int \<times> svc_state) option" where
  "send_by_name c src dst_name mtype session msg sz s =
     do {
       src1 \<leftarrow> (if src = 0 then do { i \<leftarrow> c; map_option svc_handle (ctx_heap s i) } else Some src);
       (case dst_name of
          ch # rest \<Rightarrow>
            if ch = CHR '':'' then send c src1 (parse_handle rest) mtype session msg sz s
            else if ch = CHR ''.'' then
              (let des = find_by_name (names s) rest in
               if des = 0 then Some (- 1, s) else send c src1 des mtype session msg sz s)
            else send c src1 0 mtype session msg sz s
        | [] \<Rightarrow> send c src1 0 mtype session msg sz s)
     }"

subsection \<open>Launching\<close>

text \<open>The context that \<open>create_service\<close> fills in before it is registered.\<close>

definition new_context :: "bool \<Rightarrow> service_context" where
  "new_context profile =
     \<lparr>svc_handle = 0, svc_session_id = 0, svc_ref = 2, svc_queue = None, svc_has_callback = False,
      svc_is_init = False, svc_is_blocked = False, svc_message_count = 0, svc_profile = profile,
      svc_cpu_cost = 0, svc_cpu_start = 0, svc_log_open = False, svc_cmd_result = []\<rparr>"

definition ctx_update :: "cid \<Rightarrow> (service_context \<Rightarrow> service_context) \<Rightarrow> svc_state \<Rightarrow> svc_state" where
  "ctx_update c f s = s\<lparr>ctx_heap := (ctx_heap s)(c := map_option f (ctx_heap s c))\<rparr>"

text \<open>
  The first part of \<open>create_service\<close>: allocate the context, register it, store the handle, and
  give it a queue.
\<close>

definition create_context :: "bool \<Rightarrow> svc_state \<Rightarrow> (cid \<times> qid \<times> svc_state) option" where
  "create_context profile s =
     do {
       let c = next_cid s;
       (h, s1) \<leftarrow> register_service c
          (s\<lparr>ctx_heap := (ctx_heap s)(c \<mapsto> new_context profile), next_cid := c + 1\<rparr>);
       let s2 = set_handle c h s1;
       let q = next_qid s2;
       Some (c, q,
         ctx_update c (svc_queue_update (\<lambda>_. Some q))
           (s2\<lparr>mq_heap := (mq_heap s2)(q \<mapsto> mq_create h), next_qid := q + 1, svc_count := svc_count s2 + 1\<rparr>))
     }"

text \<open>
  \<open>create_service\<close>. The module is a plug-in: \<open>has_instance\<close> says that it was found or loaded and
  that its \<open>create_func_\<close> returned an object, \<open>init\<close> is the \<open>init\<close> method of that object.
\<close>

definition create_service ::
  "bool \<Rightarrow> bool \<Rightarrow> (cid \<Rightarrow> svc_state \<Rightarrow> (bool \<times> svc_state) option) \<Rightarrow> string \<Rightarrow> string \<Rightarrow> svc_state \<Rightarrow>
   (cid option \<times> svc_state) option" where
  "create_service profile has_instance init svc_nm svc_args s =
     (if \<not> has_instance then Some (None, s)
      else
        do {
          (c, q, s3) \<leftarrow> create_context profile s;
          (ok, s4) \<leftarrow> init c s3;
          (if ok then
             do {
               (r, s5) \<leftarrow> release_service c s4;
               let s6 = (if r \<noteq> None then ctx_update c (svc_is_init_update (\<lambda>_. True)) s5 else s5);
               s7 \<leftarrow> mq_global_push q s6;
               s8 \<leftarrow> (if r \<noteq> None then log_msg r LOG_LEVEL_INFO (''LAUNCH '' @ svc_nm @ '' '' @ svc_args) s7
                      else Some s7);
               Some (r, s8)
             }
           else
             do {
               s5 \<leftarrow> log_msg (Some c) LOG_LEVEL_ERROR (''FAILED launch '' @ svc_nm) s4;
               x \<leftarrow> ctx_heap s5 c;
               (_, s6) \<leftarrow> release_service c s5;
               (_, s7) \<leftarrow> unregister_service (svc_handle x) s6;
               Some (None, s7)
             })
        })"

subsection \<open>Handles as text: the round trip\<close>

lemma hex_digits_map:
  "read_digits 16 acc (map (\<lambda>k. hex_digit (x div 16 ^ (n - 1 - k) mod 16)) [0..<n]) = acc * 16 ^ n + x mod 16 ^ n"
proof (induction n arbitrary: acc)
  case (Suc n)
  have "map (\<lambda>k. hex_digit (x div 16 ^ (Suc n - 1 - k) mod 16)) [0..<Suc n] =
      hex_digit (x div 16 ^ n mod 16) # map (\<lambda>k. hex_digit (x div 16 ^ (n - 1 - k) mod 16)) [0..<n]"
    by (simp only: upt_conv_Cons zero_less_Suc list.map flip: map_Suc_upt) (simp add: o_def)
  then have "read_digits 16 acc (map (\<lambda>k. hex_digit (x div 16 ^ (Suc n - 1 - k) mod 16)) [0..<Suc n]) =
      (acc * 16 + x div 16 ^ n mod 16) * 16 ^ n + x mod 16 ^ n"
    by (simp only: read_digits.simps hex_value_char option.case Suc.IH mod_mod_trivial mod_less_divisor zero_less_numeral if_True)
  also have "\<dots> = acc * 16 ^ Suc n + x mod 16 ^ Suc n"
    using mod_mult2_eq [of x "16 ^ n" 16] by (simp add: algebra_simps)
  finally show ?case .
qed simp

lemma hex08_alt: "hex08 i = map (\<lambda>k. hex_digit (unat i div 16 ^ (8 - 1 - k) mod 16)) [0..<8]"
proof -
  have "unat (drop_bit (n * 4) i AND 0xf) = unat i div 16 ^ n mod 16" for n
  proof -
    have "(0xf :: u32) = mask 4" by (simp add: mask_eq_exp_minus_1)
    then have "unat (drop_bit (n * 4) i AND 0xf) = unat i div 2 ^ (n * 4) mod 2 ^ 4"
      by (metis (no_types) unat_and_mask unat_drop_bit)
    moreover have "(2 :: nat) ^ (n * 4) = 16 ^ n" unfolding mult.commute [of n] power_mult by simp
    ultimately show ?thesis by simp
  qed
  then show ?thesis by (simp only: hex08_def) simp
qed

lemma parse_hex08: "parse_handle (hex08 i) = unat i"
proof -
  define ds where "ds = map (\<lambda>k. unat i div 16 ^ (8 - 1 - k) mod 16) [0..<8]"
  have s: "hex08 i = map hex_digit ds" by (simp only: hex08_alt ds_def map_map o_def)
  obtain a b c rest where d: "ds = a # b # c # rest"
    by (simp add: ds_def upt_rec [of 0] upt_rec [of "Suc 0"] upt_rec [of "Suc (Suc 0)"])
  have v: "read_digits 16 0 (hex08 i) = unat i"
    using hex_digits_map [of 0 "unat i" 8] u32_less [of i] by (simp add: hex08_alt)
  have "strtoul16 (hex08 i) = of_nat (unat i)"
    using u32_less [of i] v
    by (simp add: strtoul16_def skip_sign_def has_0x_def s d plain_char Let_def)
  moreover have "ucast (ucast i :: u64) = i" by (rule bit_word_eqI) (auto simp: bit_simps)
  ultimately show ?thesis by (simp add: parse_handle_def)
qed

subsection \<open>Sessions\<close>

lemma new_session_range: "0 < fst (new_session x) \<and> fst (new_session x) < 2 ^ 31"
  using sint_lt [of "svc_session_id x + 1"] by (auto simp: new_session_def Let_def)

lemma new_session_fields [simp]:
  "svc_handle (snd (new_session x)) = svc_handle x" "svc_ref (snd (new_session x)) = svc_ref x"
  "svc_queue (snd (new_session x)) = svc_queue x"
  by (simp_all add: new_session_def Let_def)

subsection \<open>Changes that the invariant does not see\<close>

lemma svc_inv_log_handle [simp]:
  "svc_inv (s\<lparr>log_svc_handle := h\<rparr>) = svc_inv s" "inbox (s\<lparr>log_svc_handle := h\<rparr>) = inbox s"
  "known_handles (s\<lparr>log_svc_handle := h\<rparr>) = known_handles s"
proof -
  have l: "slot_lookup (s\<lparr>log_svc_handle := h\<rparr>) = slot_lookup s" by (rule slot_lookup_same) simp_all
  have b: "mq_body (s\<lparr>log_svc_handle := h\<rparr>) = mq_body s" by (simp add: mq_body_def fun_eq_iff)
  show "svc_inv (s\<lparr>log_svc_handle := h\<rparr>) = svc_inv s"
    by (simp add: svc_inv_def registry_inv_def queues_ok_def gq_inv_def context_ok_def b)
  show "inbox (s\<lparr>log_svc_handle := h\<rparr>) = inbox s" "known_handles (s\<lparr>log_svc_handle := h\<rparr>) = known_handles s"
    by (simp_all add: fun_eq_iff inbox_def known_handles_def l b)
qed

lemma queued_log_handle [simp]: "queued (s\<lparr>log_svc_handle := h\<rparr>) = queued s"
  by (simp add: queued_def gq_inv_def fun_eq_iff)

lemma slot_lookup_cong:
  assumes "slots s' = slots s" "slot_size s' = slot_size s"
    and "\<And>c. map_option svc_handle (ctx_heap s' c) = map_option svc_handle (ctx_heap s c)"
  shows "slot_lookup s' = slot_lookup s"
proof
  fix h
  have alt: "slot_lookup t h = do { c \<leftarrow> slots t ! (h AND (slot_size t - 1));
      g \<leftarrow> map_option svc_handle (ctx_heap t c); if g = h then Some c else None }" for t
    by (simp add: slot_lookup_def bind_map_option o_def)
  show "slot_lookup s' h = slot_lookup s h" unfolding alt by (simp only: assms)
qed

lemma same_identity:
  assumes x: "ctx_heap s c = Some x"
    and same: "svc_handle x' = svc_handle x" "svc_queue x' = svc_queue x"
  defines "s' \<equiv> s\<lparr>ctx_heap := (ctx_heap s)(c \<mapsto> x')\<rparr>"
  shows "slot_lookup s' = slot_lookup s" and "known_handles s' = known_handles s"
    and "inbox s' = inbox s" and "svc_inv s \<Longrightarrow> 1 \<le> svc_ref x' \<Longrightarrow> svc_inv s'"
proof -
  show l: "slot_lookup s' = slot_lookup s"
    using x same by (auto simp: s'_def slot_lookup_def fun_eq_iff bind_eq_Some_conv split: bind_splits)
  then show "known_handles s' = known_handles s" by (simp add: known_handles_def)
  have "Option.bind (ctx_heap s' d) svc_queue = Option.bind (ctx_heap s d) svc_queue" for d
    using x same by (simp add: s'_def)
  moreover have "mq_body s' = mq_body s" by (simp add: s'_def)
  ultimately show "inbox s' = inbox s"
    by (simp add: inbox_def l fun_eq_iff flip: Option.bind_assoc)
  assume inv: "svc_inv s" and ref: "1 \<le> svc_ref x'"
  have "registry_inv s'"
    using svc_invD(1) [OF inv] x same unfolding registry_inv_def slots_ok_def s'_def by auto
  moreover have "context_ok s' y" if "ctx_heap s' d = Some y" for d y
    using svc_invD(4) [OF inv, of d] svc_invD(4) [OF inv x] that same ref
    by (cases "d = c") (auto simp: s'_def context_ok_def)
  moreover have "d = d'" if "ctx_heap s' d = Some z" "ctx_heap s' d' = Some z'" "svc_queue z = svc_queue z'" for d d' z z'
    using svc_invD(5) [OF inv] that x same by (auto simp: s'_def split: if_splits)
  moreover have "queues_ok s'" "names_inv (names s')" using svc_invD(2,3) [OF inv] by (simp_all add: s'_def)
  ultimately show "svc_inv s'" unfolding svc_inv_def by blast
qed

subsection \<open>Logging\<close>

text \<open>The logger that \<open>_log\<close> addresses: the remembered handle, or the one registered under the name.\<close>

definition logger_handle :: "svc_state \<Rightarrow> handle" where
  "logger_handle s = (if log_svc_handle s = 0 then find_by_name (names s) ''logger'' else log_svc_handle s)"

text \<open>A context pointer that may be passed to \<open>_log\<close>: null, or a live context.\<close>

definition ctx_ptr_ok :: "cid option \<Rightarrow> svc_state \<Rightarrow> bool" where
  "ctx_ptr_ok c s \<longleftrightarrow> (case c of None \<Rightarrow> True | Some i \<Rightarrow> ctx_heap s i \<noteq> None)"

lemma log_msg_correct:
  assumes inv: "svc_inv s" and c: "ctx_ptr_ok c s" and len: "4 + length msg \<le> MAX_LOG_MSG_SIZE"
  shows "\<exists>s'. log_msg c level msg s = Some s' \<and> svc_inv s' \<and> ctx_heap s' = ctx_heap s \<and>
     known_handles s' = known_handles s \<and> slot_lookup s' = slot_lookup s \<and>
     (\<forall>h. h \<noteq> logger_handle s \<longrightarrow> inbox s' h = inbox s h) \<and> Collect (queued s) \<subseteq> Collect (queued s') \<and>
     names s' = names s"
proof -
  let ?h = "logger_handle s"
  let ?s1 = "s\<lparr>log_svc_handle := ?h\<rparr>"
  have lk: "slot_lookup ?s1 = slot_lookup s" by (rule slot_lookup_same) simp_all
  have inv1: "svc_inv ?s1" using inv by simp
  obtain src where src: "handle_of c ?s1 = Some src"
    using c by (auto simp: ctx_ptr_ok_def handle_of_def split: option.splits)
  let ?m = "\<lparr>src_svc_handle = src, session_id = 0,
      data_ptr = Some ([log_level_code level, 0, 0, 0] @ str_bytes msg @ [0]),
      data_size = of_nat (4 + length msg) OR
        push_bit MESSAGE_TYPE_SHIFT (of_nat (msg_type_code SERVICE_MSG_TYPE_TEXT))\<rparr>"
  show ?thesis
  proof (cases "?h = 0 \<or> length msg = 0")
    case True
    then have "log_msg c level msg s = Some ?s1" by (auto simp: log_msg_def logger_handle_def Let_def)
    then show ?thesis using inv1 lk by simp
  next
    case False
    then have eq: "log_msg c level msg s =
        Option.bind (push_service_message ?h ?m ?s1) (\<lambda>(_, s2). Some s2)"
      using len src by (simp add: log_msg_def logger_handle_def Let_def min_absorb1 del: msg_type_code.simps)
    show ?thesis
    proof (cases "?h \<in> known_handles ?s1")
      case True
      then obtain d where look: "slot_lookup ?s1 ?h = Some d" by (auto simp: known_handles_def)
      obtain x where x: "ctx_heap ?s1 d = Some x" using look by (rule slot_lookup_context)
      obtain q b where qb: "svc_queue x = Some q" "mq_body ?s1 q = Some b" by (rule context_queue [OF inv1 x])
      obtain s2 where s2: "push_service_message ?h ?m ?s1 = Some (0, s2)" "mq_state.more s2 = mq_state.more ?s1"
          "queued s2 = (\<lambda>p. queued ?s1 p \<or> p = q \<and> \<not> mq_is_in_global b)"
        by (rule push_service_message_correct [OF inv1 look x qb])
      note more = svc_more_eq [OF s2(2)]
      from services.post_known [OF inv1 True, of ?m] s2(1)
      have "svc_inv s2" "inbox s2 = (inbox s)(?h := inbox s ?h @ [?m])" by auto
      moreover have "slot_lookup s2 = slot_lookup s" using slot_lookup_same [OF more(1-3)] lk by simp
      moreover have "Collect (queued s) \<subseteq> Collect (queued s2)" using s2(3) by auto
      ultimately show ?thesis using s2(1) more by (simp add: eq known_handles_def)
    next
      case False
      then show ?thesis
        using services.post_unknown [OF inv1 False, of ?m] inv1 lk by (simp add: eq)
    qed
  qed
qed

subsection \<open>Sending\<close>

lemma alloc_session_correct:
  assumes inv: "svc_inv s" and a: "alloc_session need c session s = Some (n, s1)"
  shows "svc_inv s1" and "known_handles s1 = known_handles s" and "inbox s1 = inbox s"
    and "slot_lookup s1 = slot_lookup s" and "need \<Longrightarrow> 0 < n \<and> n < 2 ^ 31" and "\<not> need \<Longrightarrow> n = session"
    and "map_option svc_handle (ctx_heap s1 d) = map_option svc_handle (ctx_heap s d)"
proof -
  have "svc_inv s1 \<and> known_handles s1 = known_handles s \<and> inbox s1 = inbox s \<and> slot_lookup s1 = slot_lookup s \<and>
    (need \<longrightarrow> 0 < n \<and> n < 2 ^ 31) \<and> (\<not> need \<longrightarrow> n = session) \<and>
    map_option svc_handle (ctx_heap s1 d) = map_option svc_handle (ctx_heap s d)"
  proof (cases need)
    case True
    then obtain i x where x: "c = Some i" "ctx_heap s i = Some x"
        and s1: "n = fst (new_session x)" "s1 = s\<lparr>ctx_heap := (ctx_heap s)(i \<mapsto> snd (new_session x))\<rparr>"
      using a by (auto simp: alloc_session_def split_def Let_def split: bind_splits if_splits)
    show ?thesis
      unfolding s1 using same_identity [OF x(2), of "snd (new_session x)"] inv new_session_range [of x] True x(2)
        svc_invD(4) [OF inv x(2)] by (simp add: context_ok_def)
  next
    case False
    then show ?thesis using a inv by (simp add: alloc_session_def)
  qed
  then show "svc_inv s1" "known_handles s1 = known_handles s" "inbox s1 = inbox s"
    "slot_lookup s1 = slot_lookup s" "need \<Longrightarrow> 0 < n \<and> n < 2 ^ 31" "\<not> need \<Longrightarrow> n = session"
    "map_option svc_handle (ctx_heap s1 d) = map_option svc_handle (ctx_heap s d)" by auto
qed

lemma message_size_decodes:
  fixes sz :: u64
  assumes "sz AND MESSAGE_TYPE_MASK = sz" and "t < 256"
  shows "drop_bit MESSAGE_TYPE_SHIFT (sz OR push_bit MESSAGE_TYPE_SHIFT (of_nat t)) = of_nat t"
    and "(sz OR push_bit MESSAGE_TYPE_SHIFT (of_nat t)) AND MESSAGE_TYPE_MASK = sz"
proof -
  have m: "MESSAGE_TYPE_MASK = mask 56" unfolding MESSAGE_TYPE_MASK_def
    by (rule bit_word_eqI) (auto simp: bit_simps)
  have sz: "bit sz i \<Longrightarrow> i < 56" for i
    using assms(1) unfolding m by (metis bit_and_iff bit_mask_iff)
  have t: "bit (of_nat t :: u64) i \<Longrightarrow> i < 8" for i
  proof -
    assume b: "bit (of_nat t :: u64) i"
    have "take_bit 8 (of_nat t :: u64) = of_nat t"
      using assms(2) by (simp add: take_bit_eq_mod word_unat_eq_iff unat_mod unat_of_nat)
    with b show "i < 8" by (metis bit_take_bit_iff)
  qed
  show "drop_bit MESSAGE_TYPE_SHIFT (sz OR push_bit MESSAGE_TYPE_SHIFT (of_nat t)) = of_nat t"
    by (rule bit_word_eqI) (use sz t in \<open>auto simp: bit_simps MESSAGE_TYPE_SHIFT_def\<close>)
  show "(sz OR push_bit MESSAGE_TYPE_SHIFT (of_nat t)) AND MESSAGE_TYPE_MASK = sz"
    unfolding m by (rule bit_word_eqI) (use sz in \<open>auto simp: bit_simps MESSAGE_TYPE_SHIFT_def\<close>)
qed

text \<open>The message that \<open>send\<close> builds.\<close>

definition sent_message :: "handle \<Rightarrow> int \<Rightarrow> bytes option \<Rightarrow> u64 \<Rightarrow> nat \<Rightarrow> service_message" where
  "sent_message src session msg sz mtype =
     \<lparr>src_svc_handle = src, session_id = session, data_ptr = msg,
      data_size = sz OR push_bit MESSAGE_TYPE_SHIFT (of_nat (mtype AND 0xff))\<rparr>"

definition sender :: "cid option \<Rightarrow> handle \<Rightarrow> svc_state \<Rightarrow> handle option" where
  "sender c src s = (if src = 0 then do { i \<leftarrow> c; map_option svc_handle (ctx_heap s i) } else Some src)"

lemma send_correct:
  assumes inv: "svc_inv s" and sz: "sz AND MESSAGE_TYPE_MASK = sz" and dst: "dst \<noteq> 0"
    and a: "alloc_session (mtype AND MESSAGE_TAG_ALLOC_SESSION \<noteq> 0) c session s = Some (n, s1)"
    and d: "copy_data (mtype AND MESSAGE_TAG_DONT_COPY = 0) msg sz = Some msg1"
    and src: "sender c src s = Some src1"
  shows "dst \<notin> known_handles s \<Longrightarrow> send c src dst mtype session msg sz s = Some (- 1, s1)"
    and "dst \<in> known_handles s \<Longrightarrow>
      \<exists>s'. send c src dst mtype session msg sz s = Some (n, s') \<and> svc_inv s' \<and> known_handles s' = known_handles s \<and>
           inbox s' = (inbox s)(dst := inbox s dst @ [sent_message src1 n msg1 sz mtype])"
proof -
  note A = alloc_session_correct [OF inv a]
  let ?m = "sent_message src1 n msg1 sz mtype"
  have src': "(if src = 0 then do { i \<leftarrow> c; map_option svc_handle (ctx_heap s1 i) } else Some src) = Some src1"
    using src A(7) by (auto simp: sender_def split: if_splits)
  have eq: "send c src dst mtype session msg sz s =
      Option.bind (push_service_message dst ?m s1) (\<lambda>(r, s2). if r \<noteq> 0 then Some (- 1, s2) else Some (n, s2))"
    using sz dst a d src' by (simp add: send_def Let_def sent_message_def)
  show "send c src dst mtype session msg sz s = Some (- 1, s1)" if "dst \<notin> known_handles s"
    using services.post_unknown [OF A(1), of dst ?m] that A(2) by (simp add: eq)
  show "\<exists>s'. send c src dst mtype session msg sz s = Some (n, s') \<and> svc_inv s' \<and> known_handles s' = known_handles s \<and>
           inbox s' = (inbox s)(dst := inbox s dst @ [?m])" if "dst \<in> known_handles s"
    using services.post_known [OF A(1), of dst ?m] that A(2,3) by (auto simp: eq)
qed

subsection \<open>Launching\<close>

lemma mq_global_push_queues_ok:
  assumes gq: "gq_inv s qs" and fresh: "q \<notin> set qs" and b: "mq_body s q = Some b" and g: "mq_is_in_global b"
    and ok: "queues_ok s"
    and mem: "\<And>p n. p \<in> set qs \<Longrightarrow> mq_body s p = Some n \<Longrightarrow> mq_is_in_global n \<or> mq_is_release n"
  obtains s' where "mq_global_push q s = Some s'" and "queues_ok s'" and "gq_inv s' (qs @ [q])"
    and "mq_body s' = mq_body s" and "mq_state.more s' = mq_state.more s"
proof -
  obtain x where x: "mq_heap s q = Some x" using b by (rule mq_body_heap)
  obtain s' where s': "mq_global_push q s = Some s'" "gq_inv s' (qs @ [q])" "mq_body s' = mq_body s"
      "mq_state.more s' = mq_state.more s"
    by (rule mq_global_push_correct [OF gq fresh x])
  have "mq_body s' = (mq_body s)(q \<mapsto> b)" using s'(3) b by auto
  moreover have "mq_inv b" using ok b by (auto simp: queues_ok_def)
  ultimately have "queues_ok s'"
    using g by (intro queues_ok_change [OF ok gq mem s'(2)]) auto
  with s' show ?thesis by (intro that)
qed

text \<open>The allocator hands out addresses that are not in use.\<close>

definition alloc_ok :: "svc_state \<Rightarrow> bool" where
  "alloc_ok s \<longleftrightarrow> ctx_heap s (next_cid s) = None \<and> mq_heap s (next_qid s) = None"

lemma fresh_cid_no_slot:
  assumes "registry_inv s" and "ctx_heap s c = None"
  shows "Some c \<notin> set (slots s)"
proof
  assume "Some c \<in> set (slots s)"
  moreover have "slots_ok (ctx_heap s) (slot_size s) (slots s)" using assms(1) by (simp add: registry_inv_def)
  ultimately obtain x where "ctx_heap s c = Some x" by (metis slots_okD)
  with assms(2) show False by simp
qed

text \<open>
  The state when \<open>init\<close> is called: the new context is registered, with two references and a queue
  that is marked as if it were in the global queue but is not in it.
\<close>

lemma slot_lookup_new_context:
  assumes "registry_inv s" and "ctx_heap s c = None"
  shows "slot_lookup (s\<lparr>ctx_heap := (ctx_heap s)(c \<mapsto> x), next_cid := n\<rparr>) = slot_lookup s"
proof
  fix h
  obtain k where k: "slot_size s = 2 ^ k" and ok: "slots_ok (ctx_heap s) (slot_size s) (slots s)"
    using assms(1) by (auto simp: registry_inv_def)
  have "h AND (slot_size s - 1) < length (slots s)"
    using and_size_less [OF k] ok by (simp add: slots_ok_def)
  then have "slots s ! (h AND (slot_size s - 1)) \<noteq> Some c"
    using fresh_cid_no_slot [OF assms] by (metis nth_mem)
  then show "slot_lookup (s\<lparr>ctx_heap := (ctx_heap s)(c \<mapsto> x), next_cid := n\<rparr>) h = slot_lookup s h"
    by (cases "slots s ! (h AND (slot_size s - 1))") (simp_all add: slot_lookup_def)
qed

text \<open>A new context with a new queue of its own.\<close>

lemma svc_inv_add_context:
  assumes inv: "svc_inv s" and free: "ctx_heap s c = None" "mq_heap s q = None"
    and f: "ctx_heap s3 = (ctx_heap s)(c \<mapsto> x)" "mq_heap s3 = (mq_heap s)(q \<mapsto> mq_create h)"
      "g_head s3 = g_head s" "g_tail s3 = g_tail s" "names s3 = names s"
    and x: "svc_queue x = Some q" "1 \<le> svc_ref x" "svc_handle x = h"
    and reg: "registry_inv s3"
  shows "svc_inv s3"
proof -
  have body: "mq_body s3 = (mq_body s)(q \<mapsto> mq_create h)"
    using mq_body_upd [OF f(2)] mq_next_None_update [of "mq_create h"] by simp
  obtain qs where gq: "gq_inv s qs"
      "\<And>p n. p \<in> set qs \<Longrightarrow> mq_body s p = Some n \<Longrightarrow> mq_is_in_global n \<or> mq_is_release n"
    using svc_invD(3) [OF inv] by (auto simp: queues_ok_def)
  have qn: "q \<notin> set qs" using chain_in_heap gq(1) free(2) by (fastforce simp: gq_inv_def)
  have "gq_inv s3 qs" using gq(1) qn unfolding gq_inv_def f(2-4) by (auto simp: chain_frame)
  then have qok: "queues_ok s3"
    using gq(2) svc_invD(3) [OF inv] qn unfolding queues_ok_def body by (auto split: if_splits)
  have ctxs: "context_ok s3 y" if y: "ctx_heap s3 d = Some y" for d y
  proof (cases "d = c")
    case True
    then have "y = x" using y by (simp add: f(1))
    then show ?thesis using x by (simp add: context_ok_def body)
  next
    case False
    then have yd: "ctx_heap s d = Some y" using y by (simp add: f(1))
    obtain p b where pb: "svc_queue y = Some p" "mq_body s p = Some b" "\<not> mq_is_release b"
      "mq_svc_handle b = svc_handle y" "1 \<le> svc_ref y" by (rule context_queue [OF inv yd])
    then have "p \<noteq> q" using free(2) by (auto simp: mq_body_def)
    then show ?thesis using pb by (simp add: context_ok_def body)
  qed
  have other: "svc_queue y \<noteq> Some q" if "ctx_heap s d = Some y" for d y
    using svc_invD(4) [OF inv that] free(2) by (auto simp: context_ok_def mq_body_def)
  have inj: "d = d'" if z: "ctx_heap s3 d = Some z" "ctx_heap s3 d' = Some z'" and eqq: "svc_queue z = svc_queue z'"
    for d d' z z'
  proof (rule ccontr)
    assume ne: "d \<noteq> d'"
    have old: "ctx_heap s e = Some y" if "ctx_heap s3 e = Some y" "e \<noteq> c" for e y using that by (simp add: f(1))
    have new: "svc_queue y = Some q" if "ctx_heap s3 c = Some y" for y
    proof -
      have "y = x" using that by (simp add: f(1))
      then show ?thesis using x by simp
    qed
    show False
    proof (cases "d = c")
      case True
      then show ?thesis using ne new [of z] z eqq other [OF old [OF z(2)]] by auto
    next
      case d: False
      show ?thesis
      proof (cases "d' = c")
        case True
        then show ?thesis using new [of z'] z eqq other [OF old [OF z(1) d]] by auto
      next
        case False
        then show ?thesis using svc_invD(5) [OF inv old [OF z(1) d] old [OF z(2)]] eqq ne by auto
      qed
    qed
  qed
  show ?thesis unfolding svc_inv_def f(5) using reg svc_invD(2) [OF inv] qok ctxs inj by blast
qed

lemma not_queued_fresh:
  assumes inv: "svc_inv s" and free: "mq_heap s q = None"
    and f: "mq_heap s3 = (mq_heap s)(q \<mapsto> mq_create h)" "g_head s3 = g_head s" "g_tail s3 = g_tail s"
  shows "\<not> queued s3 q"
proof -
  obtain qs where gq: "gq_inv s qs" using svc_invD(3) [OF inv] by (auto simp: queues_ok_def)
  have qn: "q \<notin> set qs" using chain_in_heap gq free by (fastforce simp: gq_inv_def)
  have "gq_inv s3 qs" using gq qn unfolding gq_inv_def f by (auto simp: chain_frame)
  then show ?thesis using qn by (simp add: queued_iff)
qed

lemma create_context_correct:
  assumes inv: "svc_inv s" and al: "alloc_ok s"
    and room: "handle_seed s + 2 * slot_size s \<le> HANDLE_MASK + 1"
  defines "c \<equiv> next_cid s" and "q \<equiv> next_qid s"
  obtains h s3 where "create_context profile s = Some (c, q, s3)"
    and "svc_inv s3" and "slot_lookup s3 = (slot_lookup s)(h \<mapsto> c)" and "slot_lookup s h = None"
    and "ctx_heap s3 = (ctx_heap s)(c \<mapsto> (new_context profile)\<lparr>svc_handle := h, svc_queue := Some q\<rparr>)"
    and "mq_heap s3 = (mq_heap s)(q \<mapsto> mq_create h)"
    and "g_head s3 = g_head s" and "g_tail s3 = g_tail s"
    and "names s3 = names s" and "log_svc_handle s3 = log_svc_handle s" and "0 < h" and "\<not> queued s3 q"
proof -
  let ?x0 = "new_context profile"
  let ?s0 = "s\<lparr>ctx_heap := (ctx_heap s)(c \<mapsto> ?x0), next_cid := c + 1\<rparr>"
  have free: "ctx_heap s c = None" "mq_heap s q = None" using al by (simp_all add: alloc_ok_def c_def q_def)
  have out: "Some c \<notin> set (slots s)" by (rule fresh_cid_no_slot [OF svc_invD(1) [OF inv] free(1)])
  have look0: "slot_lookup ?s0 = slot_lookup s"
    by (rule slot_lookup_new_context [OF svc_invD(1) [OF inv] free(1)])
  have reg0: "registry_inv ?s0"
    using registry_inv_new_context [OF svc_invD(1) [OF inv] out] by (simp add: registry_inv_def)
  have x0: "ctx_heap ?s0 c = Some ?x0" and out0: "Some c \<notin> set (slots ?s0)"
    and room0: "handle_seed ?s0 + 2 * slot_size ?s0 \<le> HANDLE_MASK + 1"
    using out room by simp_all
  obtain h s1 where s1: "register_service c ?s0 = Some (h, s1)" "registry_inv (set_handle c h s1)"
      "slot_lookup (set_handle c h s1) = (slot_lookup ?s0)(h \<mapsto> c)" "slot_lookup ?s0 h = None"
      "0 < h" "h \<le> HANDLE_MASK" "\<exists>sl sz sd. s1 = ?s0\<lparr>slots := sl, slot_size := sz, handle_seed := sd\<rparr>"
    by (rule register_service_correct [OF reg0 x0 out0 room0])
  obtain sl sz sd where e1: "s1 = ?s0\<lparr>slots := sl, slot_size := sz, handle_seed := sd\<rparr>" using s1(7) by blast
  let ?s2 = "set_handle c h s1"
  let ?x3 = "?x0\<lparr>svc_handle := h, svc_queue := Some q\<rparr>"
  have q2: "next_qid ?s2 = q" by (simp add: set_handle_def e1 q_def)
  define s3 where "s3 = ctx_update c (svc_queue_update (\<lambda>_. Some q))
           (?s2\<lparr>mq_heap := (mq_heap ?s2)(q \<mapsto> mq_create h), next_qid := q + 1, svc_count := svc_count ?s2 + 1\<rparr>)"
  have eq: "create_context profile s = Some (c, q, s3)"
    using s1(1) q2 by (simp add: create_context_def Let_def c_def [symmetric] s3_def)
  have f: "ctx_heap s3 = (ctx_heap s)(c \<mapsto> ?x3)" "mq_heap s3 = (mq_heap s)(q \<mapsto> mq_create h)"
      "g_head s3 = g_head s" "g_tail s3 = g_tail s" "names s3 = names s" "log_svc_handle s3 = log_svc_handle s"
    by (simp_all add: s3_def ctx_update_def set_handle_def e1)
  have h2: "ctx_heap ?s2 = (ctx_heap s)(c \<mapsto> ?x0\<lparr>svc_handle := h\<rparr>)" by (simp add: set_handle_def e1)
  have sl3: "slots s3 = slots ?s2" "slot_size s3 = slot_size ?s2" "handle_seed s3 = handle_seed ?s2"
    by (simp_all add: s3_def ctx_update_def)
  have lk: "slot_lookup s3 = slot_lookup ?s2"
    by (rule slot_lookup_cong) (simp_all only: sl3 f(1) h2, simp)
  have reg: "registry_inv s3"
    using s1(2) unfolding registry_inv_def slots_ok_def sl3 f(1) h2 by auto
  have "svc_inv s3"
    by (rule svc_inv_add_context [OF inv free f(1-5) _ _ _ reg]) (simp_all add: new_context_def)
  moreover have "\<not> queued s3 q" by (rule not_queued_fresh [OF inv free(2) f(2-4)])
  ultimately show ?thesis
    using that [OF eq] lk s1(3-5) look0 f by simp
qed

text \<open>The \<open>init\<close> of a service that accepts: it sets the callback, as all services of the system do.\<close>

definition accept_init :: "cid \<Rightarrow> svc_state \<Rightarrow> (bool \<times> svc_state) option" where
  "accept_init c s = Some (True, ctx_update c (set_callback True) s)"

definition refuse_init :: "cid \<Rightarrow> svc_state \<Rightarrow> (bool \<times> svc_state) option" where
  "refuse_init c s = Some (False, s)"

lemma ctx_update_Some: "ctx_heap s c = Some x \<Longrightarrow> ctx_update c f s = s\<lparr>ctx_heap := (ctx_heap s)(c \<mapsto> f x)\<rparr>"
  by (simp add: ctx_update_def)

lemma release_not_last:
  assumes "ctx_heap s c = Some x" and "svc_ref x \<noteq> 1"
  shows "release_service c s = Some (Some c, s\<lparr>ctx_heap := (ctx_heap s)(c \<mapsto> x\<lparr>svc_ref := svc_ref x - 1\<rparr>)\<rparr>)"
  using assms by (simp add: release_service_def)

text \<open>Publishing the queue of a context that is in order.\<close>

lemma publish_queue:
  assumes inv: "svc_inv s" and b: "mq_body s q = Some b" and g: "mq_is_in_global b" and nq: "\<not> queued s q"
  obtains s' where "mq_global_push q s = Some s'" and "svc_inv s'" and "queued s' q"
    and "mq_body s' = mq_body s" and "mq_state.more s' = mq_state.more s"
    and "queued s' = (\<lambda>p. queued s p \<or> p = q)"
proof -
  obtain qs where gq: "gq_inv s qs"
    and mem: "\<And>p n. p \<in> set qs \<Longrightarrow> mq_body s p = Some n \<Longrightarrow> mq_is_in_global n \<or> mq_is_release n"
    using svc_invD(3) [OF inv] by (auto simp: queues_ok_def)
  have fresh: "q \<notin> set qs" using nq queued_iff [OF gq] by simp
  obtain s' where s': "mq_global_push q s = Some s'" "queues_ok s'" "gq_inv s' (qs @ [q])"
      "mq_body s' = mq_body s" "mq_state.more s' = mq_state.more s"
    by (rule mq_global_push_queues_ok [OF gq fresh b g svc_invD(3) [OF inv] mem])
  note more = svc_more_eq [OF s'(5)]
  have "svc_inv s'"
    using inv s'(2,4) more registry_inv_same [OF svc_invD(1) [OF inv] more(1-4)]
    by (simp add: svc_inv_def context_ok_def)
  moreover have "queued s' q" using queued_iff [OF s'(3)] by simp
  moreover have "queued s' = (\<lambda>p. queued s p \<or> p = q)"
    by (auto simp: fun_eq_iff queued_iff [OF gq] queued_iff [OF s'(3)])
  ultimately show ?thesis using s' by (intro that)
qed

lemma launch_correct:
  assumes inv: "svc_inv s" and al: "alloc_ok s"
    and room: "handle_seed s + 2 * slot_size s \<le> HANDLE_MASK + 1"
    and fits: "4 + length (''LAUNCH '' @ nm @ '' '' @ args) \<le> MAX_LOG_MSG_SIZE"
  shows "\<exists>c h s' x q. create_service profile True accept_init nm args s = Some (Some c, s') \<and> svc_inv s' \<and>
     slot_lookup s h = None \<and> slot_lookup s' = (slot_lookup s)(h \<mapsto> c) \<and>
     ctx_heap s' c = Some x \<and> svc_ref x = 1 \<and> svc_is_init x \<and> svc_has_callback x \<and>
     svc_queue x = Some q \<and> queued s' q"
proof -
  let ?c = "next_cid s" and ?q = "next_qid s"
  obtain h s3 where s3: "create_context profile s = Some (?c, ?q, s3)" "svc_inv s3"
      "slot_lookup s3 = (slot_lookup s)(h \<mapsto> ?c)" "slot_lookup s h = None"
      "ctx_heap s3 = (ctx_heap s)(?c \<mapsto> (new_context profile)\<lparr>svc_handle := h, svc_queue := Some ?q\<rparr>)"
      "mq_heap s3 = (mq_heap s)(?q \<mapsto> mq_create h)" "\<not> queued s3 ?q"
    by (rule create_context_correct [OF inv al room])
  let ?x = "(new_context profile)\<lparr>svc_handle := h, svc_queue := Some ?q\<rparr>"
  let ?x4 = "set_callback True ?x"
  let ?x5 = "?x4\<lparr>svc_ref := svc_ref ?x4 - 1\<rparr>"
  let ?x6 = "?x5\<lparr>svc_is_init := True\<rparr>"
  let ?s6 = "s3\<lparr>ctx_heap := (ctx_heap s3)(?c \<mapsto> ?x6)\<rparr>"
  have x3: "ctx_heap s3 ?c = Some ?x" by (simp add: s3(5))
  have x6: "svc_handle ?x6 = svc_handle ?x" "svc_queue ?x6 = svc_queue ?x" "svc_ref ?x6 = 1"
    by (simp_all add: set_callback_def new_context_def)
  note same = same_identity [OF x3 x6(1,2)]
  have inv6: "svc_inv ?s6" using same(4) s3(2) x6(3) by simp
  have b: "mq_body ?s6 ?q = Some (mq_create h)"
    using mq_next_None_update [of "mq_create h"] by (simp add: mq_body_def s3(6))
  obtain s7 where s7: "mq_global_push ?q ?s6 = Some s7" "svc_inv s7" "queued s7 ?q"
      "mq_state.more s7 = mq_state.more ?s6"
    using s3(7) by (auto intro: publish_queue [OF inv6 b])
  note more = svc_more_eq [OF s7(4)]
  have ptr: "ctx_ptr_ok (Some ?c) s7" by (simp add: ctx_ptr_ok_def more(1))
  obtain s8 where s8: "log_msg (Some ?c) LOG_LEVEL_INFO (''LAUNCH '' @ nm @ '' '' @ args) s7 = Some s8"
      "svc_inv s8" "ctx_heap s8 = ctx_heap s7" "slot_lookup s8 = slot_lookup s7"
      "Collect (queued s7) \<subseteq> Collect (queued s8)"
    using log_msg_correct [OF s7(2) ptr fits, of LOG_LEVEL_INFO] by blast
  let ?s4 = "s3\<lparr>ctx_heap := (ctx_heap s3)(?c \<mapsto> ?x4)\<rparr>" and ?s5 = "s3\<lparr>ctx_heap := (ctx_heap s3)(?c \<mapsto> ?x5)\<rparr>"
  have i: "accept_init ?c s3 = Some (True, ?s4)"
    by (simp only: accept_init_def ctx_update_Some [OF x3])
  have x4: "ctx_heap ?s4 ?c = Some ?x4" and ref4: "svc_ref ?x4 \<noteq> 1"
    by (simp_all add: set_callback_def new_context_def)
  have r: "release_service ?c ?s4 = Some (Some ?c, ?s5)" using release_not_last [OF x4 ref4] by simp
  have u: "ctx_update ?c (svc_is_init_update (\<lambda>_. True)) ?s5 = ?s6" by (simp add: ctx_update_def)
  have "create_service profile True accept_init nm args s = Some (Some ?c, s8)"
    unfolding create_service_def s3(1) Option.bind.simps prod.case i r
    by (simp only: u not_True_eq_False if_False if_True Option.bind.simps prod.case Let_def
        option.distinct s7(1) s8(1) not_False_eq_True)
  moreover have "slot_lookup s8 = (slot_lookup s)(h \<mapsto> ?c)"
    using s8(4) slot_lookup_same [OF more(1-3)] same(1) s3(3) by simp
  moreover have "ctx_heap s8 ?c = Some ?x6" using s8(3) more(1) by simp
  ultimately show ?thesis
    using s8(2,5) s7(3) s3(4)
    by (intro exI [of _ ?c] exI [of _ h] exI [of _ s8] exI [of _ ?x6] exI [of _ ?q] conjI)
       (auto simp: set_callback_def new_context_def)
qed

lemma failed_launch:
  assumes inv: "svc_inv s" and al: "alloc_ok s"
    and room: "handle_seed s + 2 * slot_size s \<le> HANDLE_MASK + 1" and quiet: "logger_handle s = 0"
  shows "\<exists>s' b. create_service profile True refuse_init nm args s = Some (None, s') \<and> svc_inv s' \<and>
     slot_lookup s' = slot_lookup s \<and> mq_body s' (next_qid s) = Some b \<and> mq_is_release b \<and>
     \<not> queued s' (next_qid s)"
proof -
  let ?c = "next_cid s" and ?q = "next_qid s"
  obtain h s3 where s3: "create_context profile s = Some (?c, ?q, s3)" "svc_inv s3"
      "slot_lookup s3 = (slot_lookup s)(h \<mapsto> ?c)" "slot_lookup s h = None"
      "ctx_heap s3 = (ctx_heap s)(?c \<mapsto> (new_context profile)\<lparr>svc_handle := h, svc_queue := Some ?q\<rparr>)"
      "mq_heap s3 = (mq_heap s)(?q \<mapsto> mq_create h)" "names s3 = names s" "log_svc_handle s3 = log_svc_handle s"
      "\<not> queued s3 ?q"
    by (rule create_context_correct [OF inv al room])
  let ?x = "(new_context profile)\<lparr>svc_handle := h, svc_queue := Some ?q\<rparr>"
  let ?s5 = "s3\<lparr>log_svc_handle := 0\<rparr>"
  have l: "log_msg (Some ?c) LOG_LEVEL_ERROR (''FAILED launch '' @ nm) s3 = Some ?s5"
    using quiet s3(7,8) by (simp add: log_msg_def logger_handle_def Let_def split: if_splits)
  have x: "ctx_heap ?s5 ?c = Some ?x" and ref: "svc_ref ?x \<noteq> 1" by (simp_all add: s3(5) new_context_def)
  let ?x6 = "?x\<lparr>svc_ref := svc_ref ?x - 1\<rparr>"
  let ?s6 = "?s5\<lparr>ctx_heap := (ctx_heap ?s5)(?c \<mapsto> ?x6)\<rparr>"
  have r: "release_service ?c ?s5 = Some (Some ?c, ?s6)" by (rule release_not_last [OF x ref])
  have x6: "svc_handle ?x6 = svc_handle ?x" "svc_queue ?x6 = svc_queue ?x" "svc_ref ?x6 = 1"
    by (simp_all add: new_context_def)
  note same = same_identity [OF x x6(1,2)]
  have inv6: "svc_inv ?s6" using same(4) s3(2) x6(3) by simp
  have look5: "slot_lookup ?s5 = slot_lookup s3" by (rule slot_lookup_same) simp_all
  have look: "slot_lookup ?s6 h = Some ?c" using same(1) look5 s3(3) by simp
  have b: "mq_body ?s6 ?q = Some (mq_create h)"
    using mq_next_None_update [of "mq_create h"] by (simp add: mq_body_def s3(6))
  obtain s7 where s7: "unregister_service h ?s6 = Some (1, s7)" "svc_inv s7"
      "slot_lookup s7 = (slot_lookup ?s6)(h := None)"
      "mq_body s7 = (if svc_ref ?x6 = 1 then (mq_body ?s6)(?q \<mapsto> (mq_create h)\<lparr>mq_is_release := True\<rparr>) else mq_body ?s6)"
      "mq_is_in_global (mq_create h) \<longrightarrow> queued s7 = queued ?s6"
  proof (rule unregister_service_correct [OF inv6 look _ _ b])
    show "ctx_heap ?s6 ?c = Some ?x6" by simp
    show "svc_queue ?x6 = Some ?q" by simp
  qed
  have i: "refuse_init ?c s3 = Some (False, s3)" by (simp add: refuse_init_def)
  have hx: "svc_handle ?x = h" by simp
  have "create_service profile True refuse_init nm args s = Some (None, s7)"
    unfolding create_service_def s3(1) Option.bind.simps prod.case i
    by (simp only: l x r hx s7(1) not_True_eq_False if_False if_True Option.bind.simps prod.case)
  moreover have "slot_lookup s7 = slot_lookup s"
    using s7(3) same(1) look5 s3(3,4) by (simp add: fun_upd_idem)
  moreover have "mq_body s7 ?q = Some ((mq_create h)\<lparr>mq_is_release := True\<rparr>)"
    unfolding s7(4) x6(3) by simp
  moreover have "\<not> queued s7 ?q" using s7(5) s3(9) by simp
  ultimately show ?thesis
    using s7(2) by (intro exI [of _ s7] exI [of _ "(mq_create h)\<lparr>mq_is_release := True\<rparr>"] conjI) simp_all
qed

subsection \<open>Properties\<close>



text \<open>
  The receiver reads back what the sender wrote: the type, packed into the top byte of the size, and
  the size below it, come out of the dispatcher's shift and mask unchanged.
\<close>

theorem message_type_and_size_roundtrip:
  assumes "sz AND MESSAGE_TYPE_MASK = sz"
  shows "drop_bit MESSAGE_TYPE_SHIFT (data_size (sent_message src n msg sz mtype)) = of_nat (mtype AND 0xff) \<and>
     data_size (sent_message src n msg sz mtype) AND MESSAGE_TYPE_MASK = sz"
proof -
  have "mtype AND 0xff = mtype mod 256" using and_size_mask [of 256 8 mtype] by simp
  then have "mtype AND 0xff < 256" by simp
  from message_size_decodes [OF assms this] show ?thesis by (simp add: sent_message_def)
qed

theorem message_type_and_size_roundtrip_witness:
  "drop_bit MESSAGE_TYPE_SHIFT (data_size (sent_message 1 0 None 5 9)) = 9 \<and>
   data_size (sent_message 1 0 None 5 9) AND MESSAGE_TYPE_MASK = 5"
proof -
  have "(5 :: u64) AND MESSAGE_TYPE_MASK = 5" by code_simp
  from message_type_and_size_roundtrip [OF this, of 1 0 None 9] show ?thesis by simp
qed

text \<open>
  A service address survives its text form: the string \<open>:XXXXXXXX\<close> that \<open>_id_to_hex\<close> prints is
  read back by \<open>query_by_name\<close> as the same handle, without any change of the state.
\<close>

theorem service_address_roundtrip:
  "query_by_name c (id_to_hex i) s = Some (unat i, s)"
  by (simp add: query_by_name_def id_to_hex_def parse_hex08)

text \<open>
  Session numbers are always positive and fit an \<open>int\<close>, also when the counter of the context wraps
  round.
\<close>

theorem new_session_positive: "0 < fst (new_session x) \<and> fst (new_session x) < 2 ^ 31"
  by (rule new_session_range)

text \<open>
  Launching a service whose \<open>init\<close> accepts: the service gets a fresh handle under which it is found, its
  context holds exactly the reference of the registry, it is marked as initialised, and its queue
  is in the global queue, so that it will be scheduled; every other service is found as before.
\<close>

theorem launched_service_runs:
  assumes "svc_inv s" and "alloc_ok s"
    and "handle_seed s + 2 * slot_size s \<le> HANDLE_MASK + 1"
    and "4 + length (''LAUNCH '' @ nm @ '' '' @ args) \<le> MAX_LOG_MSG_SIZE"
  shows "\<exists>c h s' x q. create_service profile True accept_init nm args s = Some (Some c, s') \<and> svc_inv s' \<and>
     slot_lookup s h = None \<and> slot_lookup s' = (slot_lookup s)(h \<mapsto> c) \<and>
     ctx_heap s' c = Some x \<and> svc_ref x = 1 \<and> svc_is_init x \<and> svc_has_callback x \<and>
     svc_queue x = Some q \<and> queued s' q"
  using assms by (rule launch_correct)

lemma demo_alloc: "alloc_ok demo_state" "handle_seed demo_state + 2 * slot_size demo_state \<le> HANDLE_MASK + 1"
  by (simp_all add: alloc_ok_def demo_state_def manager_init_def DEFAULT_SLOT_SIZE_def HANDLE_MASK_def)

theorem launched_service_runs_witness:
  "\<exists>c s'. create_service False True accept_init ''snlua'' ''main'' demo_state = Some (Some c, s') \<and> svc_inv s'"
  using launched_service_runs [OF demo_inv demo_alloc, of "''snlua''" "''main''" False]
  by (auto simp: MAX_LOG_MSG_SIZE_def)

text \<open>
  Launching a service whose \<open>init\<close> refuses leaks its queue: the service is unregistered again, but its
  queue stays in the heap, marked for release and yet not in the global queue, so that no
  dispatcher ever drops it and its messages (the call that would is commented out).
\<close>

theorem failed_launch_leaks_queue:
  assumes "svc_inv s" and "alloc_ok s"
    and "handle_seed s + 2 * slot_size s \<le> HANDLE_MASK + 1" and "logger_handle s = 0"
  shows "\<exists>s' b. create_service profile True refuse_init nm args s = Some (None, s') \<and> svc_inv s' \<and>
     slot_lookup s' = slot_lookup s \<and> mq_body s' (next_qid s) = Some b \<and> mq_is_release b \<and>
     \<not> queued s' (next_qid s)"
  using assms by (rule failed_launch)

lemma demo_no_logger: "logger_handle demo_state = 0"
proof -
  have "names demo_state = name_init" "log_svc_handle demo_state = 0"
    by (simp_all add: demo_state_def manager_init_def)
  then show ?thesis by (simp add: logger_handle_def names.look names_inv_init name_map_init)
qed

theorem failed_launch_leaks_queue_witness:
  "\<exists>s' b. create_service False True refuse_init ''snlua'' ''main'' demo_state = Some (None, s') \<and>
     mq_body s' 1 = Some b \<and> mq_is_release b \<and> \<not> queued s' 1"
proof -
  have "next_qid demo_state = 1" by (simp add: demo_state_def)
  then show ?thesis
    using failed_launch_leaks_queue [OF demo_inv demo_alloc demo_no_logger, of False "''snlua''" "''main''"] by auto
qed

text \<open>
  The length limit of \<open>_log\<close> does not protect: for a text whose length exceeds the limit the buffer is
  allocated for \<open>MAX_LOG_MSG_SIZE\<close> bytes, but the copy writes the whole text. The model aborts at
  this write beyond the buffer; a text within the limit is logged and the invariant holds.
\<close>

theorem long_log_overflows_buffer:
  assumes "svc_inv s" and "ctx_ptr_ok c s" and "logger_handle s \<noteq> 0"
  shows "log_msg c level msg s = None \<longleftrightarrow> MAX_LOG_MSG_SIZE < 4 + length msg"
proof
  assume "log_msg c level msg s = None"
  then show "MAX_LOG_MSG_SIZE < 4 + length msg" using log_msg_correct [OF assms(1,2), of msg level] by fastforce
next
  assume "MAX_LOG_MSG_SIZE < 4 + length msg"
  then show "log_msg c level msg s = None"
    using assms(3) by (auto simp: log_msg_def Let_def logger_handle_def MAX_LOG_MSG_SIZE_def split: if_splits)
qed

theorem long_log_overflows_buffer_witness:
  "log_msg None LOG_LEVEL_ERROR (replicate 70000 CHR ''x'') (demo_state\<lparr>log_svc_handle := 1\<rparr>) = None"
proof -
  have 1: "svc_inv (demo_state\<lparr>log_svc_handle := 1\<rparr>)" using demo_inv by simp
  have 2: "ctx_ptr_ok None (demo_state\<lparr>log_svc_handle := 1\<rparr>)" "logger_handle (demo_state\<lparr>log_svc_handle := 1\<rparr>) \<noteq> 0"
    by (simp_all add: ctx_ptr_ok_def logger_handle_def)
  show ?thesis
    using long_log_overflows_buffer [OF 1 2, of LOG_LEVEL_ERROR "replicate 70000 CHR ''x''"]
    by (simp add: MAX_LOG_MSG_SIZE_def)
qed

end
