(* ===== verification/Dispatch.thy ===== *)
theory Dispatch
  imports Service_Manager
begin

text \<open>
  The dispatcher of \<open>node.cpp\<close>, whole handlers this time: what a worker does with the queue it has
  taken out of the global queue, with the monitor of \<open>service_monitor.cpp\<close> beside it, the error
  messages for the mail of a dead service, the callback of the logger service, and the weights of
  the worker threads from \<open>node_thread.cpp\<close>.
\<close>

subsection \<open>The monitor of a worker\<close>

text \<open>The version counters are \<open>int\<close>s that wrap round.\<close>

record service_monitor =
  last_version :: u32
  check_version :: u32
  mon_src :: handle
  mon_dst :: handle

definition process_begin :: "handle \<Rightarrow> handle \<Rightarrow> service_monitor \<Rightarrow> service_monitor" where
  "process_begin src dst m = m\<lparr>mon_src := src, mon_dst := dst, last_version := last_version m + 1\<rparr>"

definition process_end :: "service_monitor \<Rightarrow> service_monitor" where
  "process_end m = m\<lparr>mon_src := 0, mon_dst := 0, last_version := last_version m + 1\<rparr>"

definition monitor_check :: "service_monitor \<Rightarrow> svc_state \<Rightarrow> (service_monitor \<times> svc_state) option" where
  "monitor_check m s =
     (if check_version m = last_version m then
        (if mon_dst m \<noteq> 0 then
           do {
             s1 \<leftarrow> process_blocked_service (mon_dst m) s;
             s2 \<leftarrow> log_msg None LOG_LEVEL_WARN
               (''A message from [:'' @ hex08 (of_nat (mon_src m)) @ ''] to [:'' @ hex08 (of_nat (mon_dst m)) @
                ''] maybe in an dead loop (last_version = '' @ show_int (sint (last_version m)) @ '')'') s1;
             Some (m, s2)
           }
         else Some (m, s))
      else Some (m\<lparr>check_version := last_version m\<rparr>, s))"

subsection \<open>Dispatching\<close>

text \<open>
  A service is a plug-in: its callback is a parameter. It gets the context, the type, the session,
  the source, the data and the size, and may change the whole state. \<open>clk\<close> gives the readings of the
  thread clock before and after the callback.
\<close>

type_synonym service_cb =
  "cid \<Rightarrow> nat \<Rightarrow> int \<Rightarrow> handle \<Rightarrow> bytes option \<Rightarrow> u64 \<Rightarrow> svc_state \<Rightarrow> (int \<times> svc_state) option"

text \<open>
  \<open>_do_dispatch_message\<close>; the result says whether the dispatcher deletes the data. What
  \<open>service_log::log\<close> writes to the log file of the service is not part of the state.
\<close>

definition do_dispatch_message ::
  "service_cb \<Rightarrow> u64 \<times> u64 \<Rightarrow> cid \<Rightarrow> service_message \<Rightarrow> svc_state \<Rightarrow> (bool \<times> svc_state) option" where
  "do_dispatch_message cb clk c m s =
     do {
       x \<leftarrow> ctx_heap s c;
       let svc_msg_type = unat (drop_bit MESSAGE_TYPE_SHIFT (data_size m));
       let msg_sz = data_size m AND MESSAGE_TYPE_MASK;
       let s1 = ctx_update c (\<lambda>x. x\<lparr>svc_message_count := svc_message_count x + 1\<rparr>) s;
       (if svc_profile x then
          do {
            let s2 = ctx_update c (svc_cpu_start_update (\<lambda>_. fst clk)) s1;
            (r, s3) \<leftarrow> cb c svc_msg_type (session_id m) (src_svc_handle m) (data_ptr m) msg_sz s2;
            Some (r = 0, ctx_update c (\<lambda>x. x\<lparr>svc_cpu_cost := svc_cpu_cost x + (snd clk - svc_cpu_start x)\<rparr>) s3)
          }
        else
          do {
            (r, s2) \<leftarrow> cb c svc_msg_type (session_id m) (src_svc_handle m) (data_ptr m) msg_sz s1;
            Some (r = 0, s2)
          })
     }"

text \<open>The body of the loop of \<open>dispatch_message\<close> after a message was popped.\<close>

definition handle_message ::
  "service_cb \<Rightarrow> u64 \<times> u64 \<Rightarrow> handle \<Rightarrow> cid \<Rightarrow> qid \<Rightarrow> service_message \<Rightarrow> service_monitor \<Rightarrow> svc_state \<Rightarrow>
   (service_monitor \<times> svc_state) option" where
  "handle_message cb clk h c q m mon s =
     do {
       y \<leftarrow> mq_heap s q;
       let (ov, y1) = mq_private_overload y;
       let s1 = s\<lparr>mq_heap := (mq_heap s)(q \<mapsto> y1)\<rparr>;
       s2 \<leftarrow> (if ov \<noteq> 0 then
                log_msg (Some c) LOG_LEVEL_WARN (''May overload, message queue length = '' @ show_int (to_int32 (int ov))) s1
              else Some s1);
       let mon1 = process_begin (src_svc_handle m) h mon;
       x \<leftarrow> ctx_heap s2 c;
       s3 \<leftarrow> (if \<not> svc_has_callback x then Some s2
              else do { (_, s3) \<leftarrow> do_dispatch_message cb clk c m s2; Some s3 });
       Some (process_end mon1, s3)
     }"

text \<open>The iterations after the first: \<open>n\<close> of them, unless the queue runs empty.\<close>

fun dispatch_rest ::
  "service_cb \<Rightarrow> (nat \<Rightarrow> u64 \<times> u64) \<Rightarrow> handle \<Rightarrow> cid \<Rightarrow> qid \<Rightarrow> nat \<Rightarrow> service_monitor \<Rightarrow> svc_state \<Rightarrow>
   (bool \<times> service_monitor \<times> svc_state) option" where
  "dispatch_rest cb clk h c q 0 mon s = Some (False, mon, s)"
| "dispatch_rest cb clk h c q (Suc n) mon s =
     do {
       ((is_empty, mo), s1) \<leftarrow> mq_pop q s;
       (if is_empty then Some (True, mon, s1)
        else
          do {
            m \<leftarrow> mo;
            (mon1, s2) \<leftarrow> handle_message cb (clk n) h c q m mon s1;
            dispatch_rest cb clk h c q n mon1 s2
          })
     }"

text \<open>\<open>drop_message\<close>: the sender of a message that nobody will read gets an error.\<close>

definition drop_message :: "handle \<Rightarrow> service_message \<Rightarrow> svc_state \<Rightarrow> svc_state option" where
  "drop_message h m s =
     do {
       c_assert (h \<noteq> 0);
       (_, s1) \<leftarrow> send None h (src_svc_handle m) (msg_type_code SERVICE_MSG_TYPE_ERROR) 0 None 0 s;
       Some s1
     }"

text \<open>The two ways out of \<open>dispatch_message\<close> once the context has been grabbed.\<close>

definition leave_empty ::
  "cid \<Rightarrow> service_monitor \<Rightarrow> svc_state \<Rightarrow> (qid option \<times> service_monitor \<times> svc_state) option" where
  "leave_empty c mon s =
     do {
       (_, s1) \<leftarrow> release_service c s;
       (nq, s2) \<leftarrow> mq_global_pop s1;
       Some (nq, mon, s2)
     }"

definition leave_served ::
  "cid \<Rightarrow> qid \<Rightarrow> service_monitor \<Rightarrow> svc_state \<Rightarrow> (qid option \<times> service_monitor \<times> svc_state) option" where
  "leave_served c q mon s =
     do {
       x \<leftarrow> ctx_heap s c;
       c_assert (svc_queue x = Some q);
       (nq, s1) \<leftarrow> mq_global_pop s;
       (r, s2) \<leftarrow> (case nq of
                     None \<Rightarrow> Some (q, s1)
                   | Some q' \<Rightarrow> do { s2 \<leftarrow> mq_global_push q s1; Some (q', s2) });
       (_, s3) \<leftarrow> release_service c s2;
       Some (Some r, mon, s3)
     }"

definition dispatch_message ::
  "service_cb \<Rightarrow> (nat \<Rightarrow> u64 \<times> u64) \<Rightarrow> service_monitor \<Rightarrow> qid option \<Rightarrow> int \<Rightarrow> svc_state \<Rightarrow>
   (qid option \<times> service_monitor \<times> svc_state) option" where
  "dispatch_message cb clk mon q0 weight s0 =
     do {
       (q1, s) \<leftarrow> (if q0 = None then mq_global_pop s0 else Some (q0, s0));
       (case q1 of
          None \<Rightarrow> Some (None, mon, s)
        | Some q \<Rightarrow>
            do {
              y \<leftarrow> mq_heap s q;
              let h = mq_svc_handle y;
              (case grab h s of
                 (None, s1) \<Rightarrow>
                   do {
                     s2 \<leftarrow> mq_release (drop_message h) q s1;
                     (nq, s3) \<leftarrow> mq_global_pop s2;
                     Some (nq, mon, s3)
                   }
               | (Some c, s1) \<Rightarrow>
                   do {
                     ((is_empty, mo), s2) \<leftarrow> mq_pop q s1;
                     (if is_empty then leave_empty c mon s2
                      else
                        do {
                          m \<leftarrow> mo;
                          y2 \<leftarrow> mq_heap s2 q;
                          let n = (if weight \<ge> 0 then mq_length y2 div 2 ^ nat weight else 1);
                          (mon1, s3) \<leftarrow> handle_message cb (clk n) h c q m mon s2;
                          (e, mon2, s4) \<leftarrow> dispatch_rest cb clk h c q (n - 1) mon1 s3;
                          (if e then leave_empty c mon2 s4 else leave_served c q mon2 s4)
                        })
                   })
            })
     }"

text \<open>\<open>_dispatch_all\<close>: drain the queue of a service, here of the logger before an exit.\<close>

partial_function (option) dispatch_all ::
  "service_cb \<Rightarrow> u64 \<times> u64 \<Rightarrow> cid \<Rightarrow> qid \<Rightarrow> svc_state \<Rightarrow> svc_state option" where
  "dispatch_all cb clk c q s =
     Option.bind (mq_pop q s) (\<lambda>(r, s1).
       case snd r of
         None \<Rightarrow> Some s1
       | Some m \<Rightarrow> Option.bind (do_dispatch_message cb clk c m s1) (\<lambda>(_, s2). dispatch_all cb clk c q s2))"

subsection \<open>The logger service\<close>

text \<open>
  \<open>logger_cb\<close>: the line that it hands to the log library, the level and the text with the source
  in front; \<open>None\<close> when it prints nothing. The state of the node does not change.
\<close>

definition log_level_of :: "nat \<Rightarrow> log_level option" where
  "log_level_of n =
     (if n = 0 then Some LOG_LEVEL_TRACE else if n = 1 then Some LOG_LEVEL_DEBUG
      else if n = 2 then Some LOG_LEVEL_INFO else if n = 3 then Some LOG_LEVEL_WARN
      else if n = 4 then Some LOG_LEVEL_ERROR else None)"

definition le_nat :: "bytes \<Rightarrow> nat" where
  "le_nat bs = foldr (\<lambda>b a. unat b + 256 * a) bs 0"

definition logger_line :: "nat \<Rightarrow> handle \<Rightarrow> bytes option \<Rightarrow> u64 \<Rightarrow> (log_level \<times> string) option" where
  "logger_line svc_msg_type src msg sz =
     (if svc_msg_type = msg_type_code SERVICE_MSG_TYPE_TEXT \<and> 4 < unat sz then
        do {
          d \<leftarrow> msg;
          level \<leftarrow> log_level_of (le_nat (take 4 d));
          Some (level, ''[:'' @ hex08 (of_nat src) @ ''] '' @ map (\<lambda>b. char_of (unat b)) (take (unat sz - 4) (drop 4 d)))
        }
      else None)"

definition logger_cb :: service_cb where
  "logger_cb c svc_msg_type session src msg sz s = Some (0, s)"

subsection \<open>The weights of the workers\<close>

definition WORKER_THREAD_WEIGHT :: "int list" where
  "WORKER_THREAD_WEIGHT =
     [-1, -1, -1, -1, 0, 0, 0, 0] @ replicate 8 1 @ replicate 8 2 @ replicate 8 3"

definition worker_weight :: "nat \<Rightarrow> int" where
  "worker_weight idx =
     (if idx < length WORKER_THREAD_WEIGHT then WORKER_THREAD_WEIGHT ! idx else 0)"

subsection \<open>A queue in the hands of a worker\<close>

text \<open>
  The worker has taken \<open>q\<close> out of the global queue and holds a reference to its service \<open>c\<close>, so the
  registry's own reference, while there is one, is not the last. \<open>ms\<close> are the messages that wait.
\<close>

definition serving :: "svc_state \<Rightarrow> cid \<Rightarrow> qid \<Rightarrow> service_message list \<Rightarrow> bool" where
  "serving s c q ms \<longleftrightarrow>
     svc_inv s \<and>
     (\<exists>x b. ctx_heap s c = Some x \<and> svc_queue x = Some q \<and> (Some c \<in> set (slots s) \<longrightarrow> 2 \<le> svc_ref x) \<and>
        mq_body s q = Some b \<and> mq_is_in_global b \<and> \<not> queued s q \<and> mq_contents b = ms)"

text \<open>
  What the dispatcher relies on from a callback: it returns, it keeps the invariant and the service
  in the worker's hands, and it adds messages to the queue at most at the end.
\<close>

definition callback_ok :: "service_cb \<Rightarrow> bool" where
  "callback_ok cb \<longleftrightarrow>
     (\<forall>c q ms ty n src d sz s. serving s c q ms \<longrightarrow>
        (\<exists>r s' new. cb c ty n src d sz s = Some (r, s') \<and> serving s' c q (ms @ new)))"

lemma servingE:
  assumes "serving s c q ms"
  obtains x b where "svc_inv s" and "ctx_heap s c = Some x" and "svc_queue x = Some q"
    and "Some c \<in> set (slots s) \<longrightarrow> 2 \<le> svc_ref x" and "mq_body s q = Some b" and "mq_is_in_global b"
    and "\<not> queued s q" and "mq_contents b = ms"
  using assms unfolding serving_def by blast

lemma serving_ctx_update:
  assumes h: "serving s c q ms"
    and same: "\<And>x. svc_handle (f x) = svc_handle x" "\<And>x. svc_queue (f x) = svc_queue x" "\<And>x. svc_ref (f x) = svc_ref x"
  shows "serving (ctx_update c f s) c q ms"
proof -
  obtain x b where x: "svc_inv s" "ctx_heap s c = Some x" "svc_queue x = Some q"
      "Some c \<in> set (slots s) \<longrightarrow> 2 \<le> svc_ref x" "mq_body s q = Some b" "mq_is_in_global b"
      "\<not> queued s q" "mq_contents b = ms" by (rule servingE [OF h])
  have "1 \<le> svc_ref x" using svc_invD(4) [OF x(1,2)] by (simp add: context_ok_def)
  then have "svc_inv (ctx_update c f s)"
    using same_identity(4) [OF x(2), of "f x"] x(1) same by (simp add: ctx_update_Some [OF x(2)])
  then show ?thesis using x same by (simp add: serving_def ctx_update_Some [OF x(2)])
qed

text \<open>A change of the queue itself that keeps its link, its owner and its release flag.\<close>

lemma queue_change:
  assumes inv: "svc_inv s" and y: "mq_heap s q = Some y" and out: "\<not> queued s q"
    and y': "mq_next y' = mq_next y" "mq_inv y'" "mq_is_release y' = mq_is_release y" "mq_svc_handle y' = mq_svc_handle y"
  defines "s' \<equiv> s\<lparr>mq_heap := (mq_heap s)(q \<mapsto> y')\<rparr>"
  shows "svc_inv s'" and "queued s' = queued s" and "mq_body s' = (mq_body s)(q \<mapsto> y'\<lparr>mq_next := None\<rparr>)"
proof -
  show body: "mq_body s' = (mq_body s)(q \<mapsto> y'\<lparr>mq_next := None\<rparr>)" unfolding s'_def by (rule mq_body_upd) simp
  obtain qs where gq: "gq_inv s qs"
    and mem: "\<forall>p n. p \<in> set qs \<longrightarrow> mq_body s p = Some n \<longrightarrow> mq_is_in_global n \<or> mq_is_release n"
    using svc_invD(3) [OF inv] by (auto simp: queues_ok_def)
  have gq': "gq_inv s' qs" unfolding s'_def by (rule gq_inv_same_next [OF gq y y'(1)])
  then show q: "queued s' = queued s" by (simp add: fun_eq_iff queued_iff [OF gq] queued_iff [OF gq'])
  have "q \<notin> set qs" using out queued_iff [OF gq] by simp
  then have "queues_ok s'"
    using gq' mem y'(2) svc_invD(3) [OF inv] unfolding queues_ok_def body by (intro conjI exI [of _ qs]) auto
  moreover have "context_ok s' x" if "ctx_heap s' d = Some x" for d x
  proof -
    have "context_ok s x" using svc_invD(4) [OF inv, of d] that by (simp add: s'_def)
    moreover have "mq_body s q = Some (y\<lparr>mq_next := None\<rparr>)" using y by (simp add: mq_body_def)
    ultimately show ?thesis using y'(3,4) unfolding context_ok_def body by (auto split: if_splits)
  qed
  moreover have "registry_inv s'" by (rule registry_inv_same [OF svc_invD(1) [OF inv]]) (simp_all add: s'_def)
  moreover have "names_inv (names s')" using svc_invD(2) [OF inv] by (simp add: s'_def)
  moreover have "d = d'" if "ctx_heap s' d = Some z" "ctx_heap s' d' = Some z'" "svc_queue z = svc_queue z'" for d d' z z'
    using svc_invD(5) [OF inv, of d z d' z'] that by (simp add: s'_def)
  ultimately show "svc_inv s'" unfolding svc_inv_def by blast
qed

lemma serving_queue:
  assumes "serving s c q ms"
  obtains y where "mq_heap s q = Some y" and "mq_inv y" and "mq_is_in_global y" and "mq_contents y = ms"
proof -
  obtain x b where x: "svc_inv s" "mq_body s q = Some b" "mq_is_in_global b" "mq_contents b = ms"
    by (rule servingE [OF assms])
  obtain y where y: "mq_heap s q = Some y" "b = y\<lparr>mq_next := None\<rparr>" by (rule mq_body_heap [OF x(2)])
  have "mq_inv b" using svc_invD(3) [OF x(1)] x(2) by (auto simp: queues_ok_def)
  then show ?thesis using x y by (intro that [of y]) simp_all
qed

lemma serving_modify:
  assumes h: "serving s c q ms" and y: "mq_heap s q = Some y"
    and y': "mq_next y' = mq_next y" "mq_inv y'" "mq_is_release y' = mq_is_release y" "mq_svc_handle y' = mq_svc_handle y"
      "mq_is_in_global y'"
  shows "serving (s\<lparr>mq_heap := (mq_heap s)(q \<mapsto> y')\<rparr>) c q (mq_contents y')"
proof -
  obtain x b where x: "svc_inv s" "ctx_heap s c = Some x" "svc_queue x = Some q"
      "Some c \<in> set (slots s) \<longrightarrow> 2 \<le> svc_ref x" "\<not> queued s q" by (rule servingE [OF h])
  note Q = queue_change [OF x(1) y x(5) y'(1-4)]
  show ?thesis unfolding serving_def using Q x y'(5) by simp
qed

lemma serving_pop:
  assumes h: "serving s c q (m # ms)"
  shows "\<exists>s'. mq_pop q s = Some ((False, Some m), s') \<and> serving s' c q ms"
proof -
  obtain y where y: "mq_heap s q = Some y" "mq_inv y" "mq_is_in_global y" "mq_contents y = m # ms"
    by (rule serving_queue [OF h])
  have p: "fst (ring_pop y) = (False, Some m)" "mq_contents (snd (ring_pop y)) = ms" "mq_is_in_global (snd (ring_pop y))"
    using ring_pop_contents [OF y(2), of "fst (ring_pop y)" "snd (ring_pop y)"] y(3,4) by simp_all
  have "serving (s\<lparr>mq_heap := (mq_heap s)(q \<mapsto> snd (ring_pop y))\<rparr>) c q (mq_contents (snd (ring_pop y)))"
    using p by (intro serving_modify [OF h y(1)]) (simp_all add: ring.pop_inv [OF y(2)])
  then show ?thesis using p y(1) by (simp add: mq_pop_def)
qed

lemma serving_overload:
  assumes h: "serving s c q ms" and y: "mq_heap s q = Some y"
  shows "serving (s\<lparr>mq_heap := (mq_heap s)(q \<mapsto> snd (mq_private_overload y))\<rparr>) c q ms"
proof -
  obtain y' where "mq_heap s q = Some y'" "mq_inv y'" "mq_is_in_global y'" "mq_contents y' = ms"
    by (rule serving_queue [OF h])
  then have i: "mq_inv y" "mq_is_in_global y" "mq_contents y = ms" using y by auto
  let ?y = "snd (mq_private_overload y)"
  have f: "mq_next ?y = mq_next y" "mq_is_release ?y = mq_is_release y" "mq_svc_handle ?y = mq_svc_handle y"
      "mq_is_in_global ?y" "mq_inv ?y"
    using i by (simp_all add: mq_private_overload_def mq_inv_def)
  have "mq_contents ?y = mq_contents y" by (simp add: mq_private_overload_def mq_contents_def mq_length_def)
  then have c: "mq_contents ?y = ms" using i(3) by simp
  show ?thesis using serving_modify [OF h y f(1,5,2,3,4)] c by simp
qed

text \<open>Posting a message to any service leaves the queue in hand; it grows if it is the addressee.\<close>

lemma serving_post:
  assumes h: "serving s c q ms"
  shows "\<exists>r s' new. push_service_message g m s = Some (r, s') \<and> serving s' c q (ms @ new) \<and> ctx_heap s' = ctx_heap s"
proof (cases "slot_lookup s g")
  case None
  then show ?thesis using push_service_message_unknown [OF None] h by (metis append_Nil2)
next
  case (Some d)
  obtain x b where x: "svc_inv s" "ctx_heap s c = Some x" "svc_queue x = Some q"
      "Some c \<in> set (slots s) \<longrightarrow> 2 \<le> svc_ref x" "mq_body s q = Some b" "mq_is_in_global b"
      "\<not> queued s q" "mq_contents b = ms" by (rule servingE [OF h])
  obtain z where z: "ctx_heap s d = Some z" using Some by (rule slot_lookup_context)
  obtain p e where p: "svc_queue z = Some p" "mq_body s p = Some e" by (rule context_queue [OF x(1) z])
  obtain s' y where s': "push_service_message g m s = Some (0, s')" "svc_inv s'"
      "mq_state.more s' = mq_state.more s" "mq_body s' = (mq_body s)(p \<mapsto> y)"
      "mq_contents y = mq_contents e @ [m]" "mq_is_in_global y"
      "queued s' = (\<lambda>r. queued s r \<or> r = p \<and> \<not> mq_is_in_global e)"
    by (rule push_service_message_correct [OF x(1) Some z p])
  note more = svc_more_eq [OF s'(3)]
  have "\<not> queued s' q" using s'(7) x(5,6,7) p(2) by auto
  then have "serving s' c q (ms @ (if p = q then [m] else []))"
    using s' x p more unfolding serving_def by auto
  then show ?thesis using s'(1) more by blast
qed

lemma serving_log_handle [simp]: "serving (s\<lparr>log_svc_handle := h\<rparr>) c q ms = serving s c q ms"
proof -
  have "mq_body (s\<lparr>log_svc_handle := h\<rparr>) = mq_body s" by (simp add: mq_body_def fun_eq_iff)
  then show ?thesis by (simp add: serving_def)
qed

lemma serving_log:
  assumes h: "serving s c q ms" and len: "4 + length msg \<le> MAX_LOG_MSG_SIZE"
  shows "\<exists>s' new. log_msg (Some c) level msg s = Some s' \<and> serving s' c q (ms @ new) \<and> ctx_heap s' = ctx_heap s"
proof -
  define lh where "lh = (if log_svc_handle s = 0 then find_by_name (names s) ''logger'' else log_svc_handle s)"
  let ?s1 = "s\<lparr>log_svc_handle := lh\<rparr>"
  obtain x where x: "ctx_heap s c = Some x" by (rule servingE [OF h])
  have h1: "serving ?s1 c q ms" using h by simp
  show ?thesis
  proof (cases "lh = 0 \<or> length msg = 0")
    case True
    then have "log_msg (Some c) level msg s = Some ?s1" by (auto simp: log_msg_def lh_def Let_def)
    then show ?thesis using h1 by (metis append_Nil2 svc_state.select_convs(1) svc_state.surjective svc_state.update_convs(7))
  next
    case False
    let ?m = "\<lparr>src_svc_handle = svc_handle x, session_id = 0,
        data_ptr = Some ([log_level_code level, 0, 0, 0] @ str_bytes msg @ [0]),
        data_size = of_nat (4 + length msg) OR
          push_bit MESSAGE_TYPE_SHIFT (of_nat (msg_type_code SERVICE_MSG_TYPE_TEXT))\<rparr>"
    have eq: "log_msg (Some c) level msg s = Option.bind (push_service_message lh ?m ?s1) (\<lambda>(_, s2). Some s2)"
      using False len x
      by (simp add: log_msg_def lh_def [symmetric] Let_def min_absorb1 handle_of_def del: msg_type_code.simps)
    obtain r s' new where "push_service_message lh ?m ?s1 = Some (r, s')" "serving s' c q (ms @ new)" "ctx_heap s' = ctx_heap ?s1"
      using serving_post [OF h1] by blast
    then show ?thesis by (simp add: eq del: msg_type_code.simps) (metis (no_types))
  qed
qed

subsection \<open>One message, several messages\<close>

lemma serving_do_dispatch:
  assumes h: "serving s c q ms" and cb: "callback_ok cb"
  shows "\<exists>r s' new. do_dispatch_message cb clk c m s = Some (r, s') \<and> serving s' c q (ms @ new)"
proof -
  obtain x where x: "ctx_heap s c = Some x" by (rule servingE [OF h])
  let ?s1 = "ctx_update c (\<lambda>x. x\<lparr>svc_message_count := svc_message_count x + 1\<rparr>) s"
  let ?s2 = "ctx_update c (svc_cpu_start_update (\<lambda>_. fst clk)) ?s1"
  have h1: "serving ?s1 c q ms" by (rule serving_ctx_update [OF h]) simp_all
  have h2: "serving ?s2 c q ms" by (rule serving_ctx_update [OF h1]) simp_all
  let ?call = "cb c (unat (drop_bit MESSAGE_TYPE_SHIFT (data_size m))) (session_id m) (src_svc_handle m) (data_ptr m)
      (data_size m AND MESSAGE_TYPE_MASK)"
  show ?thesis
  proof (cases "svc_profile x")
    case True
    obtain r s3 new where s3: "?call ?s2 = Some (r, s3)" "serving s3 c q (ms @ new)"
      using cb h2 unfolding callback_ok_def by blast
    let ?s4 = "ctx_update c (\<lambda>x. x\<lparr>svc_cpu_cost := svc_cpu_cost x + (snd clk - svc_cpu_start x)\<rparr>) s3"
    have "serving ?s4 c q (ms @ new)" by (rule serving_ctx_update [OF s3(2)]) simp_all
    moreover have "do_dispatch_message cb clk c m s = Some (r = 0, ?s4)"
      using x True s3(1) by (simp add: do_dispatch_message_def Let_def)
    ultimately show ?thesis by blast
  next
    case False
    obtain r s3 new where s3: "?call ?s1 = Some (r, s3)" "serving s3 c q (ms @ new)"
      using cb h1 unfolding callback_ok_def by blast
    then have "do_dispatch_message cb clk c m s = Some (r = 0, s3)"
      using x False by (simp add: do_dispatch_message_def Let_def)
    with s3(2) show ?thesis by blast
  qed
qed

lemma serving_handle:
  assumes h: "serving s c q ms" and cb: "callback_ok cb"
  shows "\<exists>s' new. handle_message cb clk g c q m mon s =
      Some (mon\<lparr>mon_src := 0, mon_dst := 0, last_version := last_version mon + 2\<rparr>, s') \<and> serving s' c q (ms @ new)"
proof -
  obtain y where y: "mq_heap s q = Some y" by (rule serving_queue [OF h])
  let ?s1 = "s\<lparr>mq_heap := (mq_heap s)(q \<mapsto> snd (mq_private_overload y))\<rparr>"
  let ?ov = "fst (mq_private_overload y)"
  let ?t = "''May overload, message queue length = '' @ show_int (to_int32 (int ?ov))"
  have h1: "serving ?s1 c q ms" by (rule serving_overload [OF h y])
  have len: "4 + length ?t \<le> MAX_LOG_MSG_SIZE"
    using show_int32_length [of "of_int (int ?ov)"] by (simp add: to_int32_def MAX_LOG_MSG_SIZE_def)
  obtain s2 new2 where s2: "(if ?ov \<noteq> 0 then log_msg (Some c) LOG_LEVEL_WARN ?t ?s1 else Some ?s1) = Some s2"
      "serving s2 c q (ms @ new2)"
  proof (cases "?ov = 0")
    case True
    then show ?thesis using that [of ?s1 "[]"] h1 by simp
  next
    case False
    then show ?thesis using that serving_log [OF h1 len, of LOG_LEVEL_WARN] by auto
  qed
  obtain x where x: "ctx_heap s2 c = Some x" by (rule servingE [OF s2(2)])
  obtain r s3 new3 where s3: "do_dispatch_message cb clk c m s2 = Some (r, s3)" "serving s3 c q ((ms @ new2) @ new3)"
    using serving_do_dispatch [OF s2(2) cb] by blast
  have mon: "process_end (process_begin a g mon) = mon\<lparr>mon_src := 0, mon_dst := 0, last_version := last_version mon + 2\<rparr>" for a
    by (simp add: process_end_def process_begin_def)
  show ?thesis
  proof (cases "svc_has_callback x")
    case True
    then show ?thesis using y s2(1) x s3 mon by (auto simp: handle_message_def split_def Let_def)
  next
    case False
    then show ?thesis using y s2 x mon by (auto simp: handle_message_def split_def Let_def)
  qed
qed

lemma serving_rest:
  assumes "serving s c q ms" and "callback_ok cb" and "n \<le> length ms"
  shows "\<exists>s' new. dispatch_rest cb clk g c q n mon s =
      Some (False, mon\<lparr>mon_src := if n = 0 then mon_src mon else 0, mon_dst := if n = 0 then mon_dst mon else 0,
                       last_version := last_version mon + 2 * of_nat n\<rparr>, s') \<and> serving s' c q (drop n ms @ new)"
  using assms
proof (induction n arbitrary: s ms mon)
  case 0
  then show ?case by (auto intro!: exI [of _ "[]"])
next
  case (Suc n)
  then obtain m ms' where ms: "ms = m # ms'" by (cases ms) auto
  obtain s1 where s1: "mq_pop q s = Some ((False, Some m), s1)" "serving s1 c q ms'"
    using serving_pop Suc.prems(1) ms by blast
  let ?mon = "mon\<lparr>mon_src := 0, mon_dst := 0, last_version := last_version mon + 2\<rparr>"
  obtain s2 new where s2: "handle_message cb (clk n) g c q m mon s1 = Some (?mon, s2)" "serving s2 c q (ms' @ new)"
    using serving_handle [OF s1(2) Suc.prems(2)] by blast
  obtain s' new' where s': "dispatch_rest cb clk g c q n ?mon s2 =
      Some (False, ?mon\<lparr>mon_src := if n = 0 then mon_src ?mon else 0, mon_dst := if n = 0 then mon_dst ?mon else 0,
                       last_version := last_version ?mon + 2 * of_nat n\<rparr>, s')" "serving s' c q (drop n (ms' @ new) @ new')"
    using Suc.IH [OF s2(2) Suc.prems(2), of ?mon] Suc.prems(3) ms by auto
  have "drop n (ms' @ new) = drop (Suc n) ms @ new" using Suc.prems(3) ms by simp
  then have "serving s' c q (drop (Suc n) ms @ new @ new')" using s'(2) by simp
  then show ?case using s1(1) s2(1) s'(1) by (auto simp: algebra_simps split: if_splits)
qed

subsection \<open>Leaving\<close>

lemma global_pop_inv:
  assumes inv: "svc_inv s"
  obtains nq s' where "mq_global_pop s = Some (nq, s')" and "svc_inv s'" and "mq_body s' = mq_body s"
    and "mq_state.more s' = mq_state.more s"
    and "queued s' = (\<lambda>p. queued s p \<and> nq \<noteq> Some p)" and "\<forall>p. nq = Some p \<longrightarrow> queued s p"
    and "nq = None \<longrightarrow> (\<forall>p. \<not> queued s p)"
proof -
  obtain qs where gq: "gq_inv s qs"
    and mem: "\<forall>p n. p \<in> set qs \<longrightarrow> mq_body s p = Some n \<longrightarrow> mq_is_in_global n \<or> mq_is_release n"
    using svc_invD(3) [OF inv] by (auto simp: queues_ok_def)
  have step: "svc_inv s'" if "gq_inv s' qs'" "set qs' \<subseteq> set qs" "mq_body s' = mq_body s" "mq_state.more s' = mq_state.more s" for s' qs'
  proof -
    note more = svc_more_eq [OF that(4)]
    have "queues_ok s'"
      using that(1-3) mem svc_invD(3) [OF inv] unfolding queues_ok_def by (intro conjI exI [of _ qs']) auto
    then show ?thesis
      using inv registry_inv_same [OF svc_invD(1) [OF inv] more(1-4)]
      unfolding svc_inv_def context_ok_def more that(3) by blast
  qed
  show ?thesis
  proof (cases qs)
    case Nil
    then show ?thesis using gq inv mq_global_pop_empty [of s] by (intro that [of None s]) (auto simp: queued_iff [OF gq])
  next
    case (Cons p ps)
    obtain s' where s': "mq_global_pop s = Some (Some p, s')" "gq_inv s' ps" "mq_body s' = mq_body s"
        "mq_state.more s' = mq_state.more s"
      by (rule mq_global_pop_correct [OF gq [unfolded Cons]])
    have "distinct qs" using gq by (simp add: gq_inv_def)
    then show ?thesis
      using s' Cons step [OF s'(2) _ s'(3,4)]
      by (intro that [of "Some p" s']) (auto simp: fun_eq_iff queued_iff [OF gq] queued_iff [OF s'(2)])
  qed
qed

text \<open>The worker gives its reference back; it may be the last one.\<close>

lemma release_reference:
  assumes inv: "svc_inv s" and x: "ctx_heap s c = Some x" and ref: "Some c \<in> set (slots s) \<longrightarrow> 2 \<le> svc_ref x"
    and q: "svc_queue x = Some q" and b: "mq_body s q = Some b"
  obtains r s' b' where "release_service c s = Some (r, s')" and "svc_inv s'" and "slot_lookup s' = slot_lookup s"
    and "mq_body s' = (mq_body s)(q \<mapsto> b')" and "mq_contents b' = mq_contents b"
    and "mq_is_in_global b \<longrightarrow> queued s' = queued s"
proof (cases "svc_ref x = 1")
  case True
  then have out: "Some c \<notin> set (slots s)" using ref by auto
  obtain r s' where "release_service c s = Some (r, s')" "svc_inv s'" "slot_lookup s' = slot_lookup s"
      "mq_body s' = (if svc_ref x = 1 then (mq_body s)(q \<mapsto> b\<lparr>mq_is_release := True\<rparr>) else mq_body s)"
      "mq_is_in_global b \<longrightarrow> queued s' = queued s"
    by (rule release_service_correct [OF inv x out q b])
  then show ?thesis using True by (intro that [of r s' "b\<lparr>mq_is_release := True\<rparr>"]) simp_all
next
  case False
  have "1 \<le> svc_ref x" using svc_invD(4) [OF inv x] by (simp add: context_ok_def)
  then have r2: "2 \<le> svc_ref x" using False by simp
  let ?s = "s\<lparr>ctx_heap := (ctx_heap s)(c \<mapsto> x\<lparr>svc_ref := svc_ref x - 1\<rparr>)\<rparr>"
  have "release_service c s = Some (Some c, ?s)" using x r2 by (simp add: release_service_def)
  moreover have "svc_inv ?s" "slot_lookup ?s = slot_lookup s"
    using same_identity [OF x, of "x\<lparr>svc_ref := svc_ref x - 1\<rparr>"] inv r2 by simp_all
  ultimately show ?thesis using b by (intro that [of "Some c" ?s b]) (simp_all add: fun_upd_idem)
qed

lemma leave_served_correct:
  assumes h: "serving s c q ms"
  shows "\<exists>r s' b'. leave_served c q mon s = Some (Some r, mon, s') \<and> svc_inv s' \<and>
     mq_body s' q = Some b' \<and> mq_contents b' = ms \<and> (if r = q then \<not> queued s' q else queued s' q \<and> \<not> queued s' r)"
proof -
  obtain x b where x: "svc_inv s" "ctx_heap s c = Some x" "svc_queue x = Some q"
      "Some c \<in> set (slots s) \<longrightarrow> 2 \<le> svc_ref x" "mq_body s q = Some b" "mq_is_in_global b"
      "\<not> queued s q" "mq_contents b = ms" by (rule servingE [OF h])
  obtain nq s1 where s1: "mq_global_pop s = Some (nq, s1)" "svc_inv s1" "mq_body s1 = mq_body s"
      "mq_state.more s1 = mq_state.more s" "queued s1 = (\<lambda>p. queued s p \<and> nq \<noteq> Some p)"
      "\<forall>p. nq = Some p \<longrightarrow> queued s p"
    by (rule global_pop_inv [OF x(1)])
  obtain r s2 where s2: "(case nq of None \<Rightarrow> Some (q, s1) | Some q' \<Rightarrow> do { s2 \<leftarrow> mq_global_push q s1; Some (q', s2) }) = Some (r, s2)"
      "svc_inv s2" "mq_body s2 = mq_body s" "mq_state.more s2 = mq_state.more s"
      "if r = q then \<not> queued s2 q else queued s2 q \<and> \<not> queued s2 r"
  proof (cases nq)
    case None
    then show ?thesis using that [of q s1] s1 x(7) by simp
  next
    case (Some p)
    have b1: "mq_body s1 q = Some b" "\<not> queued s1 q" using s1(3,5) x(5,7) by simp_all
    obtain s2 where "mq_global_push q s1 = Some s2" "svc_inv s2" "mq_body s2 = mq_body s1"
        "mq_state.more s2 = mq_state.more s1" "queued s2 = (\<lambda>p. queued s1 p \<or> p = q)"
      by (rule publish_queue [OF s1(2) b1(1) x(6) b1(2)])
    moreover have "p \<noteq> q" using s1(6) Some x(7) by auto
    ultimately show ?thesis using that [of p s2] Some s1 x(7) by simp
  qed
  note more = svc_more_eq [OF s2(4)]
  have c2: "ctx_heap s2 c = Some x" "Some c \<in> set (slots s2) \<longrightarrow> 2 \<le> svc_ref x" "mq_body s2 q = Some b"
    using x(2,4,5) more s2(3) by simp_all
  obtain t s3 b' where s3: "release_service c s2 = Some (t, s3)" "svc_inv s3" "mq_body s3 = (mq_body s2)(q \<mapsto> b')"
      "mq_contents b' = mq_contents b" "mq_is_in_global b \<longrightarrow> queued s3 = queued s2"
    by (rule release_reference [OF s2(2) c2(1,2) x(3) c2(3)])
  have "leave_served c q mon s = Some (Some r, mon, s3)"
    using x(2,3) s1(1) s2(1) s3(1) by (simp add: leave_served_def)
  then show ?thesis using s3 s2(5) x(6,8) by auto
qed

lemma grab_serving:
  assumes inv: "svc_inv s" and look: "slot_lookup s h = Some c" and x: "ctx_heap s c = Some x"
    and q: "svc_queue x = Some q" and b: "mq_body s q = Some b" and out: "mq_is_in_global b" "\<not> queued s q"
  shows "\<exists>s1. grab h s = (Some c, s1) \<and> mq_heap s1 = mq_heap s \<and> serving s1 c q (mq_contents b)"
proof -
  let ?s = "s\<lparr>ctx_heap := (ctx_heap s)(c \<mapsto> ctx_grab x)\<rparr>"
  have "1 \<le> svc_ref x" using svc_invD(4) [OF inv x] by (simp add: context_ok_def)
  then have "serving ?s c q (mq_contents b)"
    using same_identity(4) [OF x, of "ctx_grab x"] inv q b out by (simp add: serving_def ctx_grab_def)
  then show ?thesis by (auto simp: grab_def look x)
qed

lemma mq_body_owner:
  assumes "svc_inv s" "ctx_heap s c = Some x" "svc_queue x = Some q" "mq_heap s q = Some y"
  shows "mq_svc_handle y = svc_handle x"
  using svc_invD(4) [OF assms(1,2)] assms(3,4) by (auto simp: context_ok_def mq_body_def)

text \<open>
  How many of \<open>len\<close> waiting messages one call serves. The length is taken after the first message
  was popped, so weight 0 leaves one message behind when there are two or more.
\<close>

definition served_count :: "int \<Rightarrow> nat \<Rightarrow> nat" where
  "served_count weight len = (if weight < 0 then 1 else max 1 ((len - 1) div 2 ^ nat weight))"

lemma dispatch_busy:
  fixes weight :: int
  assumes inv: "svc_inv s" and look: "slot_lookup s h = Some c" and x: "ctx_heap s c = Some x"
    and q: "svc_queue x = Some q" and b: "mq_body s q = Some b" and out: "mq_is_in_global b" "\<not> queued s q"
    and ms: "mq_contents b \<noteq> []" and cb: "callback_ok cb"
  defines "k \<equiv> served_count weight (length (mq_contents b))"
  shows "\<exists>r s' b' new. dispatch_message cb clk mon (Some q) weight s =
       Some (Some r, mon\<lparr>mon_src := 0, mon_dst := 0, last_version := last_version mon + 2 * of_nat k\<rparr>, s') \<and>
     svc_inv s' \<and> mq_body s' q = Some b' \<and> mq_contents b' = drop k (mq_contents b) @ new \<and>
     (if r = q then \<not> queued s' q else queued s' q \<and> \<not> queued s' r)"
proof -
  obtain m ms' where mm: "mq_contents b = m # ms'" using ms by (cases "mq_contents b") auto
  obtain s1 where s1: "grab h s = (Some c, s1)" "mq_heap s1 = mq_heap s" "serving s1 c q (m # ms')"
    using grab_serving [OF inv look x q b out] mm by auto
  obtain y where y: "mq_heap s q = Some y" by (rule mq_body_heap [OF b])
  have hy: "mq_svc_handle y = h"
    using mq_body_owner [OF inv x q y] slot_lookup_context [OF look] x by auto
  obtain s2 where s2: "mq_pop q s1 = Some ((False, Some m), s2)" "serving s2 c q ms'"
    using serving_pop [OF s1(3)] by blast
  obtain y2 where y2: "mq_heap s2 q = Some y2" "mq_contents y2 = ms'" by (rule serving_queue [OF s2(2)])
  have len: "mq_length y2 = length ms'" using y2(2) length_mq_contents [of y2] by simp
  define n where "n = (if weight \<ge> 0 then mq_length y2 div 2 ^ nat weight else 1)"
  have nk: "k = Suc (n - 1)" unfolding k_def served_count_def n_def len mm by auto
  have nl: "n - 1 \<le> length ms'" unfolding n_def len by (auto intro: le_trans [OF diff_le_self div_le_dividend])
  let ?mon = "mon\<lparr>mon_src := 0, mon_dst := 0, last_version := last_version mon + 2\<rparr>"
  obtain s3 new3 where s3: "handle_message cb (clk n) h c q m mon s2 = Some (?mon, s3)" "serving s3 c q (ms' @ new3)"
    using serving_handle [OF s2(2) cb] by blast
  let ?mon2 = "mon\<lparr>mon_src := 0, mon_dst := 0, last_version := last_version mon + 2 * of_nat k\<rparr>"
  obtain s4 new4 where s4: "dispatch_rest cb clk h c q (n - 1) ?mon s3 = Some (False, ?mon2, s4)"
      "serving s4 c q (drop (n - 1) (ms' @ new3) @ new4)"
    using serving_rest [OF s3(2) cb, of "n - 1" clk h ?mon] nl by (auto simp: nk algebra_simps)
  obtain r s' b' where s': "leave_served c q ?mon2 s4 = Some (Some r, ?mon2, s')" "svc_inv s'" "mq_body s' q = Some b'"
      "mq_contents b' = drop (n - 1) (ms' @ new3) @ new4" "if r = q then \<not> queued s' q else queued s' q \<and> \<not> queued s' r"
    using leave_served_correct [OF s4(2), of ?mon2] by blast
  have "dispatch_message cb clk mon (Some q) weight s = Some (Some r, ?mon2, s')"
    unfolding dispatch_message_def using y hy s1(1) s2(1) y2(1) s3(1) s4(1) s'(1)
    by (simp add: Let_def n_def [symmetric] del: dispatch_rest.simps)
  moreover have "mq_contents b' = drop k (mq_contents b) @ new3 @ new4" using s'(4) nl nk mm by simp
  ultimately show ?thesis using s'(2,3,5) by blast
qed

subsection \<open>The queue of a dead service\<close>

text \<open>A released queue that a worker holds belongs to no context any more.\<close>

definition orphan :: "svc_state \<Rightarrow> qid \<Rightarrow> service_message list \<Rightarrow> bool" where
  "orphan s q ms \<longleftrightarrow>
     svc_inv s \<and> (\<exists>b. mq_body s q = Some b \<and> mq_is_release b \<and> \<not> queued s q \<and> mq_contents b = ms)"

lemma orphan_no_context:
  assumes "orphan s q ms" and "ctx_heap s c = Some x"
  shows "svc_queue x \<noteq> Some q"
  using assms svc_invD(4) [of s c x] by (auto simp: orphan_def context_ok_def)

lemma inbox_other_queue:
  assumes "\<And>c x. ctx_heap s c = Some x \<Longrightarrow> svc_queue x \<noteq> Some q"
    and "ctx_heap s' = ctx_heap s" "slots s' = slots s" "slot_size s' = slot_size s"
    and "\<And>p. p \<noteq> q \<Longrightarrow> mq_body s' p = mq_body s p"
  shows "inbox s' = inbox s" and "known_handles s' = known_handles s"
proof -
  have l: "slot_lookup s' = slot_lookup s" by (rule slot_lookup_same [OF assms(2-4)])
  show "inbox s' = inbox s"
  proof
    fix h
    have "Option.bind (svc_queue x) (mq_body s') = Option.bind (svc_queue x) (mq_body s)" if "ctx_heap s c = Some x" for c x
      using assms(1) [OF that] assms(5) by (cases "svc_queue x") auto
    then have "(do { c \<leftarrow> slot_lookup s h; x \<leftarrow> ctx_heap s c; q \<leftarrow> svc_queue x; mq_body s' q }) =
        (do { c \<leftarrow> slot_lookup s h; x \<leftarrow> ctx_heap s c; q \<leftarrow> svc_queue x; mq_body s q })"
      by (cases "slot_lookup s h"; cases "ctx_heap s (the (slot_lookup s h))") simp_all
    then show "inbox s' h = inbox s h" by (simp only: inbox_def l assms(2))
  qed
  show "known_handles s' = known_handles s" by (simp add: known_handles_def l)
qed

lemma orphan_pop:
  assumes h: "orphan s q ms"
  shows "\<exists>r s'. mq_pop q s = Some (r, s') \<and> orphan s' q (tl ms) \<and> inbox s' = inbox s \<and> known_handles s' = known_handles s \<and>
     snd r = (if ms = [] then None else Some (hd ms))"
proof -
  obtain b where b: "svc_inv s" "mq_body s q = Some b" "mq_is_release b" "\<not> queued s q" "mq_contents b = ms"
    using h by (auto simp: orphan_def)
  obtain y where y: "mq_heap s q = Some y" "b = y\<lparr>mq_next := None\<rparr>" by (rule mq_body_heap [OF b(2)])
  have "mq_inv b" using svc_invD(3) [OF b(1)] b(2) by (auto simp: queues_ok_def)
  then have i: "mq_inv y" "mq_contents y = ms" using y(2) b(5) by simp_all
  let ?y = "snd (ring_pop y)"
  note Q = queue_change [OF b(1) y(1) b(4), of ?y, simplified, OF ring.pop_inv [OF i(1)]]
  let ?s = "s\<lparr>mq_heap := (mq_heap s)(q \<mapsto> ?y)\<rparr>"
  have pop: "snd (fst (ring_pop y)) = (if ms = [] then None else Some (hd ms)) \<and> mq_contents ?y = tl ms"
    using ring_pop_contents [OF i(1), of "fst (ring_pop y)" ?y] i(2) by (cases ms) auto
  have "orphan ?s q (tl ms)" using Q b(3,4) y(2) pop by (simp add: orphan_def)
  moreover have "inbox ?s = inbox s" "known_handles ?s = known_handles s"
    by (rule inbox_other_queue [OF orphan_no_context [OF h]]; simp add: Q(3))+
  ultimately show ?thesis using y(1) pop by (auto simp: mq_pop_def)
qed

text \<open>The error that the sender of an undelivered message gets from \<open>drop_message\<close>.\<close>

definition error_message :: "handle \<Rightarrow> service_message" where
  "error_message h = sent_message h 0 None 0 (msg_type_code SERVICE_MSG_TYPE_ERROR)"

lemma orphan_post:
  assumes h: "orphan s q ms"
  shows "\<exists>r s'. push_service_message g m s = Some (r, s') \<and> orphan s' q ms \<and> known_handles s' = known_handles s \<and>
     inbox s' = (if g \<in> known_handles s then (inbox s)(g := inbox s g @ [m]) else inbox s)"
proof (cases "slot_lookup s g")
  case None
  then show ?thesis using push_service_message_unknown [OF None] h by (auto simp: known_handles_def)
next
  case (Some d)
  obtain b where b: "svc_inv s" "mq_body s q = Some b" "mq_is_release b" "\<not> queued s q" "mq_contents b = ms"
    using h by (auto simp: orphan_def)
  obtain z where z: "ctx_heap s d = Some z" using Some by (rule slot_lookup_context)
  obtain p e where p: "svc_queue z = Some p" "mq_body s p = Some e" by (rule context_queue [OF b(1) z])
  have ne: "p \<noteq> q" using orphan_no_context [OF h z] p(1) by auto
  obtain s' y where s': "push_service_message g m s = Some (0, s')" "svc_inv s'"
      "mq_body s' = (mq_body s)(p \<mapsto> y)" "queued s' = (\<lambda>r. queued s r \<or> r = p \<and> \<not> mq_is_in_global e)"
    by (rule push_service_message_correct [OF b(1) Some z p])
  have g: "g \<in> known_handles s" using Some by (auto simp: known_handles_def)
  have "orphan s' q ms" using s' b ne by (auto simp: orphan_def)
  then show ?thesis using services.post_known [OF b(1) g, of m] s'(1) g by auto
qed

lemma orphan_drop_message:
  assumes o: "orphan s q ms" and h: "h \<noteq> 0"
  shows "\<exists>s'. drop_message h m s = Some s' \<and> orphan s' q ms \<and> known_handles s' = known_handles s \<and>
     inbox s' = (if src_svc_handle m \<noteq> 0 \<and> src_svc_handle m \<in> known_handles s
                 then (inbox s)(src_svc_handle m := inbox s (src_svc_handle m) @ [error_message h]) else inbox s)"
proof (cases "src_svc_handle m = 0")
  case True
  then show ?thesis
    using o h by (simp add: drop_message_def send_def alloc_session_def copy_data_def Let_def
        MESSAGE_TAG_ALLOC_SESSION_def MESSAGE_TAG_DONT_COPY_def)
next
  case False
  obtain r s' where s': "push_service_message (src_svc_handle m) (error_message h) s = Some (r, s')" "orphan s' q ms"
      "known_handles s' = known_handles s"
      "inbox s' = (if src_svc_handle m \<in> known_handles s
                   then (inbox s)(src_svc_handle m := inbox s (src_svc_handle m) @ [error_message h]) else inbox s)"
    using orphan_post [OF o] by blast
  have "drop_message h m s = Some s'"
    using h False s'(1) by (simp add: drop_message_def send_def alloc_session_def copy_data_def Let_def
        MESSAGE_TAG_ALLOC_SESSION_def MESSAGE_TAG_DONT_COPY_def error_message_def sent_message_def)
  then show ?thesis using s'(2-4) False by auto
qed

lemma orphan_drop_loop:
  assumes "orphan s q ms" and h: "h \<noteq> 0"
  shows "\<exists>s'. mq_drop_loop (drop_message h) q s = Some s' \<and> orphan s' q [] \<and> known_handles s' = known_handles s \<and>
     (\<forall>g. inbox s' g = inbox s g @
        (if g \<noteq> 0 \<and> g \<in> known_handles s
         then replicate (length (filter (\<lambda>m. src_svc_handle m = g) ms)) (error_message h) else []))"
  using assms(1)
proof (induction ms arbitrary: s)
  case Nil
  obtain r s' where "mq_pop q s = Some (r, s')" "orphan s' q []" "inbox s' = inbox s" "known_handles s' = known_handles s"
      "snd r = None"
    using orphan_pop [OF Nil.prems] by auto
  then show ?case by (subst mq_drop_loop.simps) simp
next
  case (Cons m ms)
  obtain r s1 where s1: "mq_pop q s = Some (r, s1)" "orphan s1 q ms" "inbox s1 = inbox s" "known_handles s1 = known_handles s"
      "snd r = Some m"
    using orphan_pop [OF Cons.prems] by auto
  obtain s2 where s2: "drop_message h m s1 = Some s2" "orphan s2 q ms" "known_handles s2 = known_handles s1"
      "inbox s2 = (if src_svc_handle m \<noteq> 0 \<and> src_svc_handle m \<in> known_handles s1
                 then (inbox s1)(src_svc_handle m := inbox s1 (src_svc_handle m) @ [error_message h]) else inbox s1)"
    using orphan_drop_message [OF s1(2) h] by blast
  obtain s' where s': "mq_drop_loop (drop_message h) q s2 = Some s'" "orphan s' q []" "known_handles s' = known_handles s2"
      "\<forall>g. inbox s' g = inbox s2 g @
        (if g \<noteq> 0 \<and> g \<in> known_handles s2
         then replicate (length (filter (\<lambda>m. src_svc_handle m = g) ms)) (error_message h) else [])"
    using Cons.IH [OF s2(2)] by blast
  have "mq_drop_loop (drop_message h) q s = Some s'" using s1(1,5) s2(1) s'(1) by (subst mq_drop_loop.simps) simp
  moreover have "known_handles s' = known_handles s" using s'(3) s2(3) s1(4) by simp
  ultimately show ?case using s'(2,4) s2(3,4) s1(3,4) by auto
qed

lemma orphan_delete:
  assumes o: "orphan s q ms"
  shows "\<exists>x. mq_heap s q = Some x \<and> mq_next x = None"
    and "svc_inv (s\<lparr>mq_heap := (mq_heap s)(q := None)\<rparr>)" (is "svc_inv ?s")
    and "inbox (s\<lparr>mq_heap := (mq_heap s)(q := None)\<rparr>) = inbox s"
    and "known_handles (s\<lparr>mq_heap := (mq_heap s)(q := None)\<rparr>) = known_handles s"
proof -
  obtain b where b: "svc_inv s" "mq_body s q = Some b" "\<not> queued s q" using o by (auto simp: orphan_def)
  obtain qs where gq: "gq_inv s qs"
    and mem: "\<forall>p n. p \<in> set qs \<longrightarrow> mq_body s p = Some n \<longrightarrow> mq_is_in_global n \<or> mq_is_release n"
    using svc_invD(3) [OF b(1)] by (auto simp: queues_ok_def)
  have out: "q \<notin> set qs" using b(3) queued_iff [OF gq] by simp
  obtain x where "mq_heap s q = Some x" by (rule mq_body_heap [OF b(2)])
  then show "\<exists>x. mq_heap s q = Some x \<and> mq_next x = None" using gq out by (auto simp: gq_inv_def)
  have body: "mq_body ?s = (mq_body s)(q := None)" by (auto simp: mq_body_def)
  note none = orphan_no_context [OF o]
  show "inbox ?s = inbox s" "known_handles ?s = known_handles s"
    by (rule inbox_other_queue [OF none]; simp add: body)+
  have "queues_ok ?s"
    using gq_inv_delete [OF gq out] mem svc_invD(3) [OF b(1)] unfolding queues_ok_def body
    by (intro conjI exI [of _ qs]) auto
  moreover have "context_ok ?s y" if "ctx_heap ?s d = Some y" for d y
    using svc_invD(4) [OF b(1), of d y] none [of d y] that by (auto simp: context_ok_def body)
  moreover have "registry_inv ?s" by (rule registry_inv_same [OF svc_invD(1) [OF b(1)]]) simp_all
  moreover have "d = d'" if "ctx_heap ?s d = Some z" "ctx_heap ?s d' = Some z'" "svc_queue z = svc_queue z'" for d d' z z'
    using svc_invD(5) [OF b(1), of d z d' z'] that by simp
  ultimately show "svc_inv ?s" using svc_invD(2) [OF b(1)] unfolding svc_inv_def by auto
qed

lemma inbox_same_body:
  assumes "mq_body s' = mq_body s" "mq_state.more s' = mq_state.more s"
  shows "inbox s' = inbox s" "known_handles s' = known_handles s"
proof -
  note more = svc_more_eq [OF assms(2)]
  have "slot_lookup s' = slot_lookup s" by (rule slot_lookup_same [OF more(1-3)])
  then show "inbox s' = inbox s" "known_handles s' = known_handles s"
    by (simp_all only: inbox_def [abs_def] known_handles_def more(1) assms(1))
qed

lemma dispatch_dead:
  assumes o: "orphan s q ms" and y: "mq_heap s q = Some y" "mq_svc_handle y \<noteq> 0"
    and dead: "slot_lookup s (mq_svc_handle y) = None"
  shows "\<exists>nq s'. dispatch_message cb clk mon (Some q) weight s = Some (nq, mon, s') \<and> svc_inv s' \<and>
     mq_heap s' q = None \<and> known_handles s' = known_handles s \<and>
     (\<forall>g \<in> known_handles s. g \<noteq> 0 \<longrightarrow> inbox s' g = inbox s g @
        replicate (length (filter (\<lambda>m. src_svc_handle m = g) ms)) (error_message (mq_svc_handle y)))"
proof -
  let ?h = "mq_svc_handle y"
  obtain s1 where s1: "mq_drop_loop (drop_message ?h) q s = Some s1" "orphan s1 q []" "known_handles s1 = known_handles s"
      "\<forall>g. inbox s1 g = inbox s g @ (if g \<noteq> 0 \<and> g \<in> known_handles s
         then replicate (length (filter (\<lambda>m. src_svc_handle m = g) ms)) (error_message ?h) else [])"
    using orphan_drop_loop [OF o y(2)] by blast
  let ?s2 = "s1\<lparr>mq_heap := (mq_heap s1)(q := None)\<rparr>"
  note D = orphan_delete [OF s1(2)]
  have rel: "mq_is_release y" using o y(1) by (auto simp: orphan_def mq_body_def)
  have r: "mq_release (drop_message ?h) q s = Some ?s2"
    using y(1) rel s1(1) D(1) by (auto simp: mq_release_def mq_drop_queue_def)
  obtain nq s3 where s3: "mq_global_pop ?s2 = Some (nq, s3)" "svc_inv s3" "mq_body s3 = mq_body ?s2"
      "mq_state.more s3 = mq_state.more ?s2"
    by (rule global_pop_inv [OF D(2)])
  have "dispatch_message cb clk mon (Some q) weight s = Some (nq, mon, s3)"
    using y(1) dead r s3(1) by (simp add: dispatch_message_def grab_def Let_def)
  moreover have "mq_body s3 q = None" using s3(3) by (simp add: mq_body_def)
  then have "mq_heap s3 q = None" by (simp add: mq_body_def)
  ultimately show ?thesis
    using s3(2) inbox_same_body [OF s3(3,4)] D(3,4) s1(3,4) by (intro exI [of _ nq] exI [of _ s3]) auto
qed

subsection \<open>The logger\<close>

lemma logger_cb_ok: "callback_ok logger_cb"
  unfolding callback_ok_def logger_cb_def by (metis append_Nil2)

lemma log_level_code_round: "log_level_of (unat (log_level_code l)) = Some l"
  by (cases l) (simp_all add: log_level_of_def)

lemma char_byte_round: "char_of (unat (of_char c :: u8)) = c"
proof -
  have "unat (of_char c :: u8) = unat (of_nat (of_char c) :: u8)" by (simp only: of_nat_of_char)
  also have "\<dots> = of_char c mod 2 ^ 8" by (simp only: unat_of_nat) simp
  also have "\<dots> = of_char c" using of_char_mod_256 [where 'a = nat, of c] by simp
  finally show ?thesis by simp
qed

lemma le_nat_byte [simp]: "le_nat [b, 0, 0, 0] = unat b"
  by (simp add: le_nat_def)

subsection \<open>The monitor\<close>

lemma process_blocked_correct:
  assumes inv: "svc_inv s" and look: "slot_lookup s h = Some c" and x: "ctx_heap s c = Some x"
  shows "\<exists>s'. process_blocked_service h s = Some s' \<and> svc_inv s' \<and>
     ctx_heap s' = (ctx_heap s)(c \<mapsto> x\<lparr>svc_is_blocked := True\<rparr>) \<and> slot_lookup s' = slot_lookup s"
proof -
  let ?x = "x\<lparr>svc_is_blocked := True\<rparr>"
  let ?s = "s\<lparr>ctx_heap := (ctx_heap s)(c \<mapsto> ?x)\<rparr>"
  have r: "1 \<le> svc_ref x" using svc_invD(4) [OF inv x] by (simp add: context_ok_def)
  have "process_blocked_service h s = Some ?s"
    using look x r by (cases x) (simp add: process_blocked_service_def grab_def release_service_def ctx_grab_def)
  then show ?thesis using same_identity [OF x, of ?x] inv r by simp
qed

lemma check_text_length:
  "4 + length (''A message from [:'' @ hex08 a @ ''] to [:'' @ hex08 b @
      ''] maybe in an dead loop (last_version = '' @ show_int (sint (v :: u32)) @ '')'') \<le> MAX_LOG_MSG_SIZE"
  using show_int32_length [of v] by (simp add: hex08_def MAX_LOG_MSG_SIZE_def)

subsection \<open>Properties\<close>


text \<open>A node with one service, whose queue holds some messages and is in the hands of a worker.\<close>

definition demo_message :: "handle \<Rightarrow> service_message" where
  "demo_message src = sent_message src 1 None 0 1"

definition demo_queue :: "handle \<Rightarrow> service_message list \<Rightarrow> mq_private" where
  "demo_queue h ms = fold ring_push ms (mq_create h)"

definition idle_monitor :: service_monitor where
  "idle_monitor = \<lparr>last_version = 4, check_version = 4, mon_src = 0, mon_dst = 0\<rparr>"

definition busy_state :: "service_message list \<Rightarrow> svc_state" where
  "busy_state ms = demo_state\<lparr>mq_heap := (mq_heap demo_state)(0 \<mapsto> demo_queue 1 ms)\<rparr>"

lemma demo_queue_fields:
  "mq_inv (demo_queue h ms)" "mq_contents (demo_queue h ms) = ms" "mq_next (demo_queue h ms) = None"
  "mq_is_in_global (demo_queue h ms)" "mq_svc_handle (demo_queue h ms) = h" "\<not> mq_is_release (demo_queue h ms)"
proof -
  show "mq_inv (demo_queue h ms)" "mq_contents (demo_queue h ms) = ms"
    using ring.fold_push [of "mq_create h" ms] by (simp_all add: demo_queue_def)
  have "mq_next (fold ring_push ms y) = mq_next y \<and> mq_is_in_global (fold ring_push ms y) = mq_is_in_global y \<and>
      mq_svc_handle (fold ring_push ms y) = mq_svc_handle y \<and> mq_is_release (fold ring_push ms y) = mq_is_release y" for y
    by (induction ms arbitrary: y) simp_all
  then show "mq_next (demo_queue h ms) = None" "mq_is_in_global (demo_queue h ms)"
      "mq_svc_handle (demo_queue h ms) = h" "\<not> mq_is_release (demo_queue h ms)"
    by (simp_all add: demo_queue_def mq_create_def)
qed

lemma demo_not_queued: "\<not> queued demo_state q"
proof -
  have "gq_inv demo_state []" by (simp add: gq_inv_def demo_state_def manager_init_def)
  from queued_iff [OF this] show ?thesis by simp
qed

lemma busy_facts:
  "svc_inv (busy_state ms)" "slot_lookup (busy_state ms) 1 = Some 0" "ctx_heap (busy_state ms) 0 = Some (demo_ctx 1 0)"
  "mq_body (busy_state ms) 0 = Some (demo_queue 1 ms)" "\<not> queued (busy_state ms) 0"
proof -
  have y: "mq_heap demo_state 0 = Some ((mq_create 1)\<lparr>mq_is_in_global := False\<rparr>)" by (simp add: demo_state_def)
  note Q = queue_change [OF demo_inv y demo_not_queued, of "demo_queue 1 ms", folded busy_state_def]
  have f: "mq_next (demo_queue 1 ms) = mq_next ((mq_create 1)\<lparr>mq_is_in_global := False\<rparr>)"
      "mq_is_release (demo_queue 1 ms) = mq_is_release ((mq_create 1)\<lparr>mq_is_in_global := False\<rparr>)"
      "mq_svc_handle (demo_queue 1 ms) = mq_svc_handle ((mq_create 1)\<lparr>mq_is_in_global := False\<rparr>)"
    by (simp_all add: demo_queue_fields mq_create_def)
  note Q = Q [OF f(1) demo_queue_fields(1) f(2,3)]
  show "svc_inv (busy_state ms)" by (rule Q(1))
  show "\<not> queued (busy_state ms) 0" using Q(2) demo_not_queued by simp
  have "(demo_queue 1 ms)\<lparr>mq_next := None\<rparr> = demo_queue 1 ms"
    using demo_queue_fields(3) [of 1 ms] by (cases "demo_queue 1 ms") simp
  then show "mq_body (busy_state ms) 0 = Some (demo_queue 1 ms)" using Q(3) by simp
  have "slot_lookup (busy_state ms) = slot_lookup demo_state" by (rule slot_lookup_same) (simp_all add: busy_state_def)
  then show "slot_lookup (busy_state ms) 1 = Some 0" by (simp add: demo_lookup)
  show "ctx_heap (busy_state ms) 0 = Some (demo_ctx 1 0)" by (simp add: busy_state_def demo_state_def)
qed


text \<open>
  C16. The mail of a dead service is answered: when a worker dispatches a released queue whose service
  is no longer registered, every message in it that came from a registered service makes that
  service get one error message, whose source is the dead service, in the order of the messages;
  then the queue is freed. The call returns, and nothing else changes in any inbox.
\<close>

theorem dead_service_mail_answered:
  assumes "svc_inv s" and "mq_heap s q = Some y" and "mq_is_release y" and "\<not> queued s q"
    and "mq_svc_handle y \<noteq> 0" and "slot_lookup s (mq_svc_handle y) = None"
  shows "\<exists>nq s'. dispatch_message cb clk mon (Some q) weight s = Some (nq, mon, s') \<and> svc_inv s' \<and>
     mq_heap s' q = None \<and> known_handles s' = known_handles s \<and>
     (\<forall>g \<in> known_handles s. g \<noteq> 0 \<longrightarrow> inbox s' g = inbox s g @
        replicate (length (filter (\<lambda>m. src_svc_handle m = g) (mq_contents y))) (error_message (mq_svc_handle y)))"
proof -
  have "orphan s q (mq_contents y)" using assms(1-4) by (simp add: orphan_def mq_body_def)
  then show ?thesis using assms(2,5,6) by (rule dispatch_dead)
qed

lemma add_queue:
  assumes inv: "svc_inv s" and q: "mq_heap s q = None" and y: "mq_inv y" "mq_next y = None"
  defines "s' \<equiv> s\<lparr>mq_heap := (mq_heap s)(q \<mapsto> y)\<rparr>"
  shows "svc_inv s'" and "\<not> queued s' q"
proof -
  obtain qs where gq: "gq_inv s qs"
    and mem: "\<forall>p n. p \<in> set qs \<longrightarrow> mq_body s p = Some n \<longrightarrow> mq_is_in_global n \<or> mq_is_release n"
    using svc_invD(3) [OF inv] by (auto simp: queues_ok_def)
  have out: "q \<notin> set qs" using gq q chain_in_heap [of "mq_heap s" "g_head s" qs q] by (auto simp: gq_inv_def)
  have gq': "gq_inv s' qs" using gq out y(2) by (auto simp: gq_inv_def s'_def chain_frame)
  then show "\<not> queued s' q" using out by (simp add: queued_iff [OF gq'])
  have body: "mq_body s' = (mq_body s)(q \<mapsto> y\<lparr>mq_next := None\<rparr>)" unfolding s'_def by (rule mq_body_upd) simp
  have none: "mq_body s q = None" using q by (simp add: mq_body_def)
  have "queues_ok s'"
    using gq' out mem y(1) svc_invD(3) [OF inv] unfolding queues_ok_def body by (intro conjI exI [of _ qs]) auto
  moreover have "context_ok s' x" if "ctx_heap s' d = Some x" for d x
  proof -
    have "context_ok s x" using svc_invD(4) [OF inv, of d x] that by (simp add: s'_def)
    then show ?thesis using none unfolding context_ok_def body by auto
  qed
  moreover have "registry_inv s'" by (rule registry_inv_same [OF svc_invD(1) [OF inv]]) (simp_all add: s'_def)
  moreover have "d = d'" if "ctx_heap s' d = Some z" "ctx_heap s' d' = Some z'" "svc_queue z = svc_queue z'" for d d' z z'
    using svc_invD(5) [OF inv, of d z d' z'] that by (simp add: s'_def)
  ultimately show "svc_inv s'" using svc_invD(2) [OF inv] unfolding svc_inv_def by (auto simp: s'_def)
qed

theorem dead_service_mail_answered_witness:
  "\<exists>nq s' y. y = (demo_queue 9 [demo_message 1, demo_message 5, demo_message 1])\<lparr>mq_is_release := True\<rparr> \<and>
     dispatch_message logger_cb (\<lambda>_. (0, 0)) idle_monitor (Some 5) 0 (demo_state\<lparr>mq_heap := (mq_heap demo_state)(5 \<mapsto> y)\<rparr>) = Some (nq, idle_monitor, s') \<and>
     mq_heap s' 5 = None \<and>
     inbox s' 1 = inbox (demo_state\<lparr>mq_heap := (mq_heap demo_state)(5 \<mapsto> y)\<rparr>) 1 @ [error_message 9, error_message 9]"
proof -
  define y where "y = (demo_queue 9 [demo_message 1, demo_message 5, demo_message 1])\<lparr>mq_is_release := True\<rparr>"
  let ?s = "demo_state\<lparr>mq_heap := (mq_heap demo_state)(5 \<mapsto> y)\<rparr>"
  have y: "mq_inv y" "mq_next y = None" "mq_svc_handle y = 9" "mq_is_release y"
      "mq_contents y = [demo_message 1, demo_message 5, demo_message 1]"
    by (simp_all add: y_def demo_queue_fields)
  have free: "mq_heap demo_state 5 = None" by (simp add: demo_state_def)
  note A = add_queue [OF demo_inv free y(1,2)]
  have l: "slot_lookup ?s = slot_lookup demo_state" by (rule slot_lookup_same) simp_all
  have dead: "slot_lookup ?s (mq_svc_handle y) = None" unfolding l y(3) by (simp add: demo_lookup)
  have k: "1 \<in> known_handles ?s" by (simp add: known_handles_def l demo_lookup dom_def)
  have n: "replicate (length (filter (\<lambda>m. src_svc_handle m = Suc 0) (mq_contents y))) (error_message 9) =
      [error_message 9, error_message 9]"
    by (simp add: y(5) demo_message_def sent_message_def)
  show ?thesis
    using dead_service_mail_answered [OF A(1) _ y(4) A(2) _ dead, of logger_cb "\<lambda>_. (0, 0)" idle_monitor 0] k
    unfolding y_def [symmetric] by (auto simp: y(3) n)
qed

text \<open>
  The monitor finds a service that does not come back: after a message to a registered service was
  begun, the first check only takes note of the version; if the message has not ended by the next
  check, the service is marked as blocked and a warning is logged, and the monitor itself is
  unchanged, so every later check repeats it. Between messages a check changes nothing in the node.
\<close>

theorem blocked_service_detected:
  assumes "svc_inv s" and "slot_lookup s dst = Some c" and "ctx_heap s c = Some x" and "dst \<noteq> 0"
    and "check_version m \<noteq> last_version m + 1"
  shows "\<exists>m1 s'. monitor_check (process_begin src dst m) s = Some (m1, s) \<and>
     monitor_check m1 s = Some (m1, s') \<and> svc_inv s' \<and>
     ctx_heap s' = (ctx_heap s)(c \<mapsto> x\<lparr>svc_is_blocked := True\<rparr>) \<and>
     (\<exists>m2. monitor_check (process_end m1) s = Some (m2, s) \<and> monitor_check m2 s = Some (m2, s))"
proof -
  let ?m1 = "(process_begin src dst m)\<lparr>check_version := last_version m + 1\<rparr>"
  have f: "check_version (process_begin src dst m) = check_version m" "last_version (process_begin src dst m) = last_version m + 1"
    by (simp_all add: process_begin_def)
  have 1: "monitor_check (process_begin src dst m) s = Some (?m1, s)"
    using assms(5) by (simp add: monitor_check_def f)
  obtain s1 where s1: "process_blocked_service dst s = Some s1" "svc_inv s1"
      "ctx_heap s1 = (ctx_heap s)(c \<mapsto> x\<lparr>svc_is_blocked := True\<rparr>)"
    using process_blocked_correct [OF assms(1-3)] by blast
  let ?t = "''A message from [:'' @ hex08 (of_nat src) @ ''] to [:'' @ hex08 (of_nat dst) @
      ''] maybe in an dead loop (last_version = '' @ show_int (sint (last_version m + 1)) @ '')''"
  obtain s2 where s2: "log_msg None LOG_LEVEL_WARN ?t s1 = Some s2" "svc_inv s2" "ctx_heap s2 = ctx_heap s1"
    using log_msg_correct [OF s1(2) _ check_text_length [of "of_nat src" "of_nat dst" "last_version m + 1"],
        of None LOG_LEVEL_WARN] unfolding ctx_ptr_ok_def option.case by blast
  have 2: "monitor_check ?m1 s = Some (?m1, s2)"
    using assms(4) s1(1) s2(1) by (simp add: monitor_check_def process_begin_def)
  have "monitor_check (process_end ?m1) s = Some ((process_end ?m1)\<lparr>check_version := last_version m + 2\<rparr>, s)"
    "monitor_check ((process_end ?m1)\<lparr>check_version := last_version m + 2\<rparr>) s =
       Some ((process_end ?m1)\<lparr>check_version := last_version m + 2\<rparr>, s)"
    by (simp_all add: monitor_check_def process_begin_def process_end_def add.assoc)
  then show ?thesis using 1 2 s1(3) s2(2,3) by metis
qed

theorem blocked_service_detected_witness:
  "\<exists>m1 s'. monitor_check (process_begin 3 1 idle_monitor) demo_state
       = Some (m1, demo_state) \<and>
     monitor_check m1 demo_state = Some (m1, s') \<and>
     ctx_heap s' = (ctx_heap demo_state)(0 \<mapsto> (demo_ctx 1 0)\<lparr>svc_is_blocked := True\<rparr>)"
proof -
  have x: "ctx_heap demo_state 0 = Some (demo_ctx 1 0)" by (simp add: demo_state_def)
  have l: "slot_lookup demo_state 1 = Some 0" by (simp add: demo_lookup)
  show ?thesis
    using blocked_service_detected [OF demo_inv l x, of idle_monitor 3]
    by (auto simp: idle_monitor_def)
qed

lemma small_size:
  assumes "n < 2 ^ 56"
  shows "(of_nat n :: u64) AND MESSAGE_TYPE_MASK = of_nat n" and "unat (of_nat n :: u64) = n"
proof -
  show u: "unat (of_nat n :: u64) = n" using assms by (simp add: unat_of_nat)
  have m: "MESSAGE_TYPE_MASK = mask 56" unfolding MESSAGE_TYPE_MASK_def
    by (rule bit_word_eqI) (auto simp: bit_simps)
  have "unat ((of_nat n :: u64) AND MESSAGE_TYPE_MASK) = n"
    unfolding m unat_and_mask u using assms by simp
  then show "(of_nat n :: u64) AND MESSAGE_TYPE_MASK = of_nat n" by (simp add: word_unat_eq_iff u)
qed

text \<open>
  What is logged is what is printed: a text that a service passes to the log functions arrives as
  one message at the end of the inbox of the logger, and the callback of the logger decodes that
  message, with the type and size that the dispatcher reads off it, to the same level and the
  same text, prefixed by the address of the service that logged it.
\<close>

theorem log_line_arrives:
  assumes "svc_inv s" and "ctx_heap s c = Some x" and "logger_handle s \<in> known_handles s" and "logger_handle s \<noteq> 0"
    and "msg \<noteq> []" and "4 + length msg \<le> MAX_LOG_MSG_SIZE"
  shows "\<exists>s' m. log_msg (Some c) level msg s = Some s' \<and> svc_inv s' \<and>
     inbox s' = (inbox s)(logger_handle s := inbox s (logger_handle s) @ [m]) \<and>
     logger_line (unat (drop_bit MESSAGE_TYPE_SHIFT (data_size m))) (src_svc_handle m) (data_ptr m)
       (data_size m AND MESSAGE_TYPE_MASK) =
     Some (level, ''[:'' @ hex08 (of_nat (svc_handle x)) @ ''] '' @ msg)"
proof -
  let ?h = "logger_handle s"
  let ?s1 = "s\<lparr>log_svc_handle := ?h\<rparr>"
  let ?sz = "of_nat (4 + length msg) :: u64"
  define m where "m = \<lparr>src_svc_handle = svc_handle x, session_id = 0,
      data_ptr = Some ([log_level_code level, 0, 0, 0] @ str_bytes msg @ [0]),
      data_size = ?sz OR push_bit MESSAGE_TYPE_SHIFT (of_nat (msg_type_code SERVICE_MSG_TYPE_TEXT))\<rparr>"
  have eq: "log_msg (Some c) level msg s = Option.bind (push_service_message ?h m ?s1) (\<lambda>(_, s2). Some s2)"
    using assms(2,4-6) unfolding m_def
    by (simp add: log_msg_def logger_handle_def Let_def min_absorb1 handle_of_def del: msg_type_code.simps)
  obtain s' where s': "push_service_message ?h m ?s1 = Some (0, s')" "svc_inv s'"
      "inbox s' = (inbox ?s1)(?h := inbox ?s1 ?h @ [m])"
    using services.post_known [of ?s1 ?h m] assms(1,3) by auto
  have sz: "?sz AND MESSAGE_TYPE_MASK = ?sz" "unat ?sz = 4 + length msg"
    using small_size [of "4 + length msg"] assms(6) by (simp_all only: MAX_LOG_MSG_SIZE_def) simp_all
  note D = message_size_decodes [OF sz(1), of "msg_type_code SERVICE_MSG_TYPE_TEXT"]
  have "map (\<lambda>b. char_of (unat b)) (str_bytes msg) = msg"
    by (simp add: str_bytes_def comp_def char_byte_round)
  moreover have "take (length msg) (str_bytes msg @ [0]) = str_bytes msg" by (simp add: str_bytes_def)
  ultimately have line: "logger_line (msg_type_code SERVICE_MSG_TYPE_TEXT) (svc_handle x) (data_ptr m) ?sz =
      Some (level, ''[:'' @ hex08 (of_nat (svc_handle x)) @ ''] '' @ msg)"
    using assms(5) unfolding logger_line_def sz(2) by (simp add: m_def log_level_code_round)
  have "unat (drop_bit MESSAGE_TYPE_SHIFT (data_size m)) = msg_type_code SERVICE_MSG_TYPE_TEXT"
    "data_size m AND MESSAGE_TYPE_MASK = ?sz"
    using D by (simp_all add: m_def)
  moreover have "src_svc_handle m = svc_handle x" by (simp add: m_def)
  ultimately show ?thesis using line s' by (intro exI [of _ s'] exI [of _ m]) (simp add: eq)
qed

theorem log_line_arrives_witness:
  "\<exists>s' m. log_msg (Some 0) LOG_LEVEL_INFO ''hello'' (demo_state\<lparr>log_svc_handle := 1\<rparr>) = Some s' \<and>
     inbox s' 1 = inbox demo_state 1 @ [m] \<and>
     logger_line (unat (drop_bit MESSAGE_TYPE_SHIFT (data_size m))) (src_svc_handle m) (data_ptr m)
       (data_size m AND MESSAGE_TYPE_MASK) = Some (LOG_LEVEL_INFO, ''[:00000001] hello'')"
proof -
  let ?s = "demo_state\<lparr>log_svc_handle := 1\<rparr>"
  have x: "ctx_heap ?s 0 = Some (demo_ctx 1 0)" by (simp add: demo_state_def)
  have l: "logger_handle ?s = 1" by (simp add: logger_handle_def)
  have t: "''[:'' @ hex08 (of_nat (svc_handle (demo_ctx 1 0))) @ ''] '' @ ''hello'' = ''[:00000001] hello''"
    unfolding demo_ctx_def by code_simp
  have inv: "svc_inv ?s" using demo_inv by simp
  have k: "logger_handle ?s \<in> known_handles ?s" "logger_handle ?s \<noteq> 0"
    unfolding l by (simp_all add: demo_known)
  have len: "''hello'' \<noteq> []" "4 + length ''hello'' \<le> MAX_LOG_MSG_SIZE" by (simp_all add: MAX_LOG_MSG_SIZE_def)
  obtain s' m where "log_msg (Some 0) LOG_LEVEL_INFO ''hello'' ?s = Some s'"
      "inbox s' = (inbox ?s)(logger_handle ?s := inbox ?s (logger_handle ?s) @ [m])"
      "logger_line (unat (drop_bit MESSAGE_TYPE_SHIFT (data_size m))) (src_svc_handle m) (data_ptr m)
         (data_size m AND MESSAGE_TYPE_MASK) =
       Some (LOG_LEVEL_INFO, ''[:'' @ hex08 (of_nat (svc_handle (demo_ctx 1 0))) @ ''] '' @ ''hello'')"
    using log_line_arrives [OF inv x k len, of LOG_LEVEL_INFO] by blast
  then show ?thesis unfolding t l by (intro exI [of _ s'] exI [of _ m]) simp
qed

end
