(* ===== verification/Timer.thy ===== *)
theory Timer
  imports Mq
begin

text \<open>
  The hierarchical timing wheel of \<open>skynet-src/timer\<close>: \<open>timer.cpp\<close> (the lists, \<open>add_node\<close>,
  \<open>move_list\<close>) and \<open>timer_manager.cpp\<close> (adding, shifting, executing and updating). The clock and
  the expiry times are 32 bit and wrap round. The theory shows that the wheel, with its five
  levels and its moves, behaves as the obvious table that keeps for every expiry time the events
  added for it: an event added with a delay of \<open>d\<close> ticks is dispatched by the \<open>d\<close>-th update after
  it, neither earlier nor later, in the order of adding.
\<close>

subsection \<open>Constants and data\<close>

definition TIME_NEAR_SHIFT :: nat where "TIME_NEAR_SHIFT = 8"
definition TIME_NEAR :: nat where "TIME_NEAR = 256"
definition TIME_LEVEL_SHIFT :: nat where "TIME_LEVEL_SHIFT = 6"
definition TIME_LEVEL :: nat where "TIME_LEVEL = 64"
definition TIME_NEAR_MASK :: u32 where "TIME_NEAR_MASK = 255"
definition TIME_LEVEL_MASK :: u32 where "TIME_LEVEL_MASK = 63"

lemmas timer_consts [simp] =
  TIME_NEAR_SHIFT_def TIME_NEAR_def TIME_LEVEL_SHIFT_def TIME_LEVEL_def
  TIME_NEAR_MASK_def TIME_LEVEL_MASK_def

text \<open>The payload that \<open>timer_add\<close> copies behind the node.\<close>

record timer_event =
  ev_svc_handle :: handle
  ev_session :: int

record timer_node =
  expire :: u32
  event :: timer_event

text \<open>
  A \<open>link_list\<close> is the list of its nodes: \<open>link\<close> appends behind the tail and \<open>link_clear\<close> returns
  the chain from the head and empties the list. \<open>near\<close> and \<open>levels\<close> are the arrays
  \<open>near[TIME_NEAR]\<close> and \<open>t[4][TIME_LEVEL]\<close>; every index the code computes is masked into range.
\<close>

record timer =
  near :: "nat \<Rightarrow> timer_node list"
  levels :: "nat \<Rightarrow> nat \<Rightarrow> timer_node list"
  time :: u32
  start_seconds :: u32
  current :: u64
  current_tick :: u64

definition link :: "timer_node list \<Rightarrow> timer_node \<Rightarrow> timer_node list" where
  "link l n = l @ [n]"

definition link_clear :: "timer_node list \<Rightarrow> timer_node list \<times> timer_node list" where
  "link_clear l = (l, [])"

definition create_timer :: timer where
  "create_timer =
     \<lparr>near = (\<lambda>_. []), levels = (\<lambda>_ _. []), time = 0, start_seconds = 0, current = 0,
      current_tick = 0\<rparr>"

subsection \<open>Operations\<close>

text \<open>
  The loop of \<open>add_node\<close> that looks for the level: it starts at level 0 with the mask of the
  next level and stops at level 3 at the latest.
\<close>

function find_level :: "u32 \<Rightarrow> u32 \<Rightarrow> nat \<Rightarrow> u32 \<Rightarrow> nat" where
  "find_level t ct i msk =
     (if i < 3 then
        if t OR (msk - 1) = ct OR (msk - 1) then i
        else find_level t ct (Suc i) (push_bit TIME_LEVEL_SHIFT msk)
      else i)"
  by pat_completeness auto
termination
  by (relation "measure (\<lambda>(t, ct, i, msk). 3 - i)") auto

declare find_level.simps [simp del]

definition link_near :: "nat \<Rightarrow> timer_node \<Rightarrow> timer \<Rightarrow> timer" where
  "link_near i n T = T\<lparr>near := (near T)(i := link (near T i) n)\<rparr>"

definition link_level :: "nat \<Rightarrow> nat \<Rightarrow> timer_node \<Rightarrow> timer \<Rightarrow> timer" where
  "link_level l i n T =
     T\<lparr>levels := (levels T)(l := (levels T l)(i := link (levels T l i) n))\<rparr>"

definition add_node :: "timer_node \<Rightarrow> timer \<Rightarrow> timer" where
  "add_node n T =
     (let t = expire n; ct = time T in
      if t OR TIME_NEAR_MASK = ct OR TIME_NEAR_MASK then
        link_near (unat (t AND TIME_NEAR_MASK)) n T
      else
        let i = find_level t ct 0 (push_bit TIME_LEVEL_SHIFT (of_nat TIME_NEAR)) in
        link_level i
          (unat (drop_bit (TIME_NEAR_SHIFT + i * TIME_LEVEL_SHIFT) t AND TIME_LEVEL_MASK)) n T)"

text \<open>\<open>move_list\<close>: empty one list of a level and add its nodes again, in order.\<close>

definition move_list :: "nat \<Rightarrow> nat \<Rightarrow> timer \<Rightarrow> timer" where
  "move_list level idx T =
     (let (cur, emptied) = link_clear (levels T level idx)
      in fold add_node cur
           (T\<lparr>levels := (levels T)(level := (levels T level)(idx := emptied))\<rparr>))"

text \<open>\<open>timer_add\<close>: the delay is a positive \<open>int\<close>, converted to \<open>uint32_t\<close> by the addition.\<close>

definition timer_add :: "timer_event \<Rightarrow> int \<Rightarrow> timer \<Rightarrow> timer" where
  "timer_add ev d T = add_node \<lparr>expire = word_of_int d + time T, event = ev\<rparr> T"

text \<open>
  The loop of \<open>timer_shift\<close>. \<open>mask\<close> is a C \<open>int\<close> that doubles by \<open>TIME_LEVEL_SHIFT\<close>; the loop
  leaves at level 3 at the latest when \<open>ct\<close> is not zero (some bit of it is set), so the
  recursion stops there.
\<close>

function timer_shift_loop :: "u32 \<Rightarrow> nat \<Rightarrow> u32 \<Rightarrow> u32 \<Rightarrow> timer \<Rightarrow> timer" where
  "timer_shift_loop ct i msk tm T =
     (if i < 4 then
        if ct AND (msk - 1) = 0 then
          let idx = unat (tm AND TIME_LEVEL_MASK) in
          if idx \<noteq> 0 then move_list i idx T
          else timer_shift_loop ct (Suc i) (push_bit TIME_LEVEL_SHIFT msk)
                 (drop_bit TIME_LEVEL_SHIFT tm) T
        else T
      else T)"
  by pat_completeness auto
termination
  by (relation "measure (\<lambda>(ct, i, msk, tm, T). 4 - i)") auto

declare timer_shift_loop.simps [simp del]

definition timer_shift :: "timer \<Rightarrow> timer" where
  "timer_shift T =
     (let ct = time T + 1; T1 = T\<lparr>time := ct\<rparr> in
      if ct = 0 then move_list 3 0 T1
      else timer_shift_loop ct 0 (of_nat TIME_NEAR) (drop_bit TIME_NEAR_SHIFT ct) T1)"

text \<open>The response message that announces a timeout (\<open>dispatch_list\<close> and \<open>timeout\<close> build it).\<close>

definition timeout_message :: "int \<Rightarrow> service_message" where
  "timeout_message session =
     \<lparr>src_svc_handle = 0, session_id = session, data_ptr = None,
      data_size = push_bit MESSAGE_TYPE_SHIFT (of_nat (msg_type_code SERVICE_MSG_TYPE_RESPONSE))\<rparr>"

definition delivery :: "timer_event \<Rightarrow> handle \<times> service_message" where
  "delivery ev = (ev_svc_handle ev, timeout_message (ev_session ev))"

text \<open>
  \<open>dispatch_list\<close> pushes one response message for every node, in order: here the list of the
  deliveries. \<open>timer_execute\<close> releases the lock while it dispatches, so that other threads can add
  timers before the list is checked again: the argument \<open>env\<close> holds, for each round, the
  \<open>timer_add\<close> calls that happened meanwhile. When \<open>env\<close> is exhausted nobody adds any more.
\<close>

definition dispatch_list :: "timer_node list \<Rightarrow> (handle \<times> service_message) list" where
  "dispatch_list ns = map (\<lambda>n. delivery (event n)) ns"

definition add_all :: "(timer_event \<times> int) list \<Rightarrow> timer \<Rightarrow> timer" where
  "add_all adds T = fold (\<lambda>(ev, d). timer_add ev d) adds T"

fun timer_execute ::
  "(timer_event \<times> int) list list \<Rightarrow> timer \<Rightarrow> (handle \<times> service_message) list \<times> timer" where
  "timer_execute env T =
     (let idx = unat (time T AND TIME_NEAR_MASK) in
      if near T idx \<noteq> [] then
        let (cur, emptied) = link_clear (near T idx);
            T1 = T\<lparr>near := (near T)(idx := emptied)\<rparr>
        in case env of
             [] \<Rightarrow> (dispatch_list cur, T1)
           | adds # env' \<Rightarrow>
               (let (evs, T2) = timer_execute env' (add_all adds T1)
                in (dispatch_list cur @ evs, T2))
      else ([], T))"

declare timer_execute.simps [simp del]

definition timer_update ::
  "(timer_event \<times> int) list list \<Rightarrow> (timer_event \<times> int) list list \<Rightarrow> timer \<Rightarrow>
   (handle \<times> service_message) list \<times> timer" where
  "timer_update env1 env2 T =
     (let (evs1, T1) = timer_execute env1 T;
          T2 = timer_shift T1;
          (evs2, T3) = timer_execute env2 T2
      in (evs1 @ evs2, T3))"

text \<open>
  \<open>timer_manager::init\<close> and \<open>update_time\<close>. The clock readings (\<open>systime\<close>, \<open>get_time_tick\<close>) are
  arguments; the loop of \<open>update_time\<close> runs \<open>timer_update\<close> once per tick that has passed. The lock
  is free between two updates: \<open>timer_ticks\<close> takes for every tick the \<open>timer_add\<close> calls that other
  threads make before it (lemma \<open>timer_update_env\<close> of theory \<open>Timer_Run\<close> shows that the calls made
  while \<open>timer_execute\<close> has released the lock amount to calls made right after the update), and
  returns what each tick dispatches.
\<close>

definition timer_init :: "u32 \<Rightarrow> u32 \<Rightarrow> u64 \<Rightarrow> timer" where
  "timer_init sec cs tick =
     create_timer\<lparr>start_seconds := sec, current := ucast cs, current_tick := tick\<rparr>"

fun timer_ticks ::
  "(timer_event \<times> int) list list \<Rightarrow> timer \<Rightarrow> (handle \<times> service_message) list list \<times> timer" where
  "timer_ticks [] T = ([], T)"
| "timer_ticks (adds # bs) T =
     (let (evs, T1) = timer_update [] [] (add_all adds T); (rest, T2) = timer_ticks bs T1
      in (evs # rest, T2))"

definition update_time ::
  "(nat \<Rightarrow> (timer_event \<times> int) list) \<Rightarrow> u64 \<Rightarrow> timer \<Rightarrow>
   (handle \<times> service_message) list list \<times> timer" where
  "update_time adds ct T =
     (if ct < current_tick T then ([], T\<lparr>current_tick := ct\<rparr>)
      else if ct \<noteq> current_tick T then
        (let diff = (ucast (ct - current_tick T) :: u32)
         in timer_ticks (map adds [0..<unat diff])
              (T\<lparr>current_tick := ct, current := current T + ucast diff\<rparr>))
      else ([], T))"

definition now_ticks :: "timer \<Rightarrow> u64" where
  "now_ticks T = current T"

subsection \<open>Where a node lives\<close>

lemma word_or_mask_eq_iff:
  fixes e t :: "'a::len word"
  shows "e OR mask k = t OR mask k \<longleftrightarrow> drop_bit k e = drop_bit k t"
proof
  have z: "drop_bit k (mask k :: 'a word) = 0"
    by (rule bit_word_eqI) (simp add: bit_simps)
  assume "e OR mask k = t OR mask k"
  then have "drop_bit k (e OR mask k) = drop_bit k (t OR mask k)" by simp
  then show "drop_bit k e = drop_bit k t" by (simp add: z)
next
  assume *: "drop_bit k e = drop_bit k t"
  have "x OR mask k = push_bit k (drop_bit k x) OR mask k" for x :: "'a word"
    by (rule bit_word_eqI) (auto simp: bit_simps)
  then show "e OR mask k = t OR mask k" using * by metis
qed

lemma mask_nums:
  "(255 :: u32) = mask 8" "(63 :: u32) = mask 6" "(16383 :: u32) = mask 14"
  "(1048575 :: u32) = mask 20" "(67108863 :: u32) = mask 26"
  by (simp_all add: mask_eq_exp_minus_1)

lemma drop_bit_eq_iff_div:
  fixes e t :: "'a::len word"
  shows "drop_bit k e = drop_bit k t \<longleftrightarrow> unat e div 2 ^ k = unat t div 2 ^ k"
  by (simp only: word_unat_eq_iff unat_drop_bit)

lemma find_level_step:
  "i < 3 \<Longrightarrow> find_level t ct i m =
     (if t OR (m - 1) = ct OR (m - 1) then i
      else find_level t ct (Suc i) (push_bit TIME_LEVEL_SHIFT m))"
  by (subst find_level.simps) simp

lemma find_level_stop: "3 \<le> i \<Longrightarrow> find_level t ct i m = i"
  by (subst find_level.simps) simp

lemma find_level_eq:
  "find_level t ct 0 (push_bit TIME_LEVEL_SHIFT (of_nat TIME_NEAR)) =
     (if drop_bit 14 t = drop_bit 14 ct then 0 else if drop_bit 20 t = drop_bit 20 ct then 1
      else if drop_bit 26 t = drop_bit 26 ct then 2 else 3)"
  by (simp add: find_level_step find_level_stop word_or_mask_eq_iff mask_nums numeral_2_eq_2
      numeral_3_eq_3)

text \<open>The list of the wheel in which \<open>add_node\<close> puts a node with expiry \<open>e\<close> at clock \<open>t\<close>.\<close>

datatype slot = Near nat | Level nat nat

definition slot_of :: "nat \<Rightarrow> nat \<Rightarrow> slot" where
  "slot_of e t =
     (if e div 2 ^ 8 = t div 2 ^ 8 then Near (e mod 2 ^ 8)
      else if e div 2 ^ 14 = t div 2 ^ 14 then Level 0 (e div 2 ^ 8 mod 64)
      else if e div 2 ^ 20 = t div 2 ^ 20 then Level 1 (e div 2 ^ 14 mod 64)
      else if e div 2 ^ 26 = t div 2 ^ 26 then Level 2 (e div 2 ^ 20 mod 64)
      else Level 3 (e div 2 ^ 26 mod 64))"

fun slot_list :: "timer \<Rightarrow> slot \<Rightarrow> timer_node list" where
  "slot_list T (Near i) = near T i"
| "slot_list T (Level l i) = levels T l i"

definition node_slot :: "timer_node \<Rightarrow> u32 \<Rightarrow> slot" where
  "node_slot n t = slot_of (unat (expire n)) (unat t)"

definition link_at :: "slot \<Rightarrow> timer_node \<Rightarrow> timer \<Rightarrow> timer" where
  "link_at s n T = (case s of Near i \<Rightarrow> link_near i n T | Level l i \<Rightarrow> link_level l i n T)"

lemma add_node_link_at: "add_node n T = link_at (node_slot n (time T)) n T"
proof -
  let ?e = "expire n" and ?t = "time T"
  have near: "?e OR TIME_NEAR_MASK = ?t OR TIME_NEAR_MASK \<longleftrightarrow>
      unat ?e div 2 ^ 8 = unat ?t div 2 ^ 8"
    by (simp only: timer_consts mask_nums word_or_mask_eq_iff drop_bit_eq_iff_div)
  have idx: "unat (?e AND TIME_NEAR_MASK) = unat ?e mod 2 ^ 8"
    by (simp only: timer_consts mask_nums unat_and_mask)
  have lidx: "unat (drop_bit (TIME_NEAR_SHIFT + i * TIME_LEVEL_SHIFT) ?e AND TIME_LEVEL_MASK)
      = unat ?e div 2 ^ (8 + i * 6) mod 64" for i
    by (simp only: timer_consts mask_nums unat_drop_bit_and_mask) simp
  show ?thesis
    unfolding add_node_def Let_def find_level_eq node_slot_def slot_of_def link_at_def near idx lidx
      drop_bit_eq_iff_div
    by (cases "unat ?e div 2 ^ 8 = unat ?t div 2 ^ 8"; cases "unat ?e div 2 ^ 14 = unat ?t div 2 ^ 14";
        cases "unat ?e div 2 ^ 20 = unat ?t div 2 ^ 20"; cases "unat ?e div 2 ^ 26 = unat ?t div 2 ^ 26")
       (simp_all only: if_True if_False slot.case mult_0 mult_1 add_0_right simp_thms refl
          numeral_times_numeral numeral_plus_numeral semiring_norm)
qed

lemma slot_list_add_node:
  "slot_list (add_node n T) s =
     (if s = node_slot n (time T) then slot_list T s @ [n] else slot_list T s)"
  unfolding add_node_link_at
  by (cases s; cases "node_slot n (time T)")
     (auto simp: link_at_def link_near_def link_level_def link_def)

text \<open>The list that the step of the clock to \<open>t\<close> moves down.\<close>

definition moved_slot :: "nat \<Rightarrow> (nat \<times> nat) option" where
  "moved_slot t =
     (if t = 0 then Some (3, 0)
      else if t mod 2 ^ 8 \<noteq> 0 then None
      else if t div 2 ^ 8 mod 64 \<noteq> 0 then Some (0, t div 2 ^ 8 mod 64)
      else if t div 2 ^ 14 mod 64 \<noteq> 0 then Some (1, t div 2 ^ 14 mod 64)
      else if t div 2 ^ 20 mod 64 \<noteq> 0 then Some (2, t div 2 ^ 20 mod 64)
      else if t div 2 ^ 26 mod 64 \<noteq> 0 then Some (3, t div 2 ^ 26 mod 64)
      else None)"

lemma timer_shift_loop_step:
  "i < 4 \<Longrightarrow> timer_shift_loop ct i m tm T =
     (if ct AND (m - 1) = 0 then
        if unat (tm AND TIME_LEVEL_MASK) \<noteq> 0 then move_list i (unat (tm AND TIME_LEVEL_MASK)) T
        else timer_shift_loop ct (Suc i) (push_bit TIME_LEVEL_SHIFT m)
               (drop_bit TIME_LEVEL_SHIFT tm) T
      else T)"
  by (subst timer_shift_loop.simps) (simp add: Let_def)

lemma timer_shift_loop_stop: "4 \<le> i \<Longrightarrow> timer_shift_loop ct i m tm T = T"
  by (subst timer_shift_loop.simps) simp

lemma and_mask_eq_0_iff: "(x :: 'a::len word) AND mask k = 0 \<longleftrightarrow> unat x mod 2 ^ k = 0"
  by (simp only: unat_and_mask flip: unat_eq_0)

lemma mod_pow_Suc_zero:
  "(t::nat) mod 2 ^ k = 0 \<Longrightarrow> t div 2 ^ k mod 64 = 0 \<Longrightarrow> t mod 2 ^ (k + 6) = 0"
  by (simp add: power_add mod_mult2_eq)

lemma timer_shift_loop_eq:
  fixes ct :: u32
  assumes "ct \<noteq> 0"
  shows "timer_shift_loop ct 0 (of_nat TIME_NEAR) (drop_bit TIME_NEAR_SHIFT ct) T =
     (case moved_slot (unat ct) of None \<Rightarrow> T | Some (l, i) \<Rightarrow> move_list l i T)"
proof -
  let ?t = "unat ct"
  have t: "?t \<noteq> 0" using assms by (simp add: unat_eq_0)
  have m: "?t mod 2 ^ 14 = 0" if "?t mod 2 ^ 8 = 0" "?t div 2 ^ 8 mod 64 = 0"
    using mod_pow_Suc_zero [OF that] by simp
  have m2: "?t mod 2 ^ 20 = 0" if "?t mod 2 ^ 14 = 0" "?t div 2 ^ 14 mod 64 = 0"
    using mod_pow_Suc_zero [OF that] by simp
  have m3: "?t mod 2 ^ 26 = 0" if "?t mod 2 ^ 20 = 0" "?t div 2 ^ 20 mod 64 = 0"
    using mod_pow_Suc_zero [OF that] by simp
  have msk: "of_nat TIME_NEAR - 1 = (mask 8 :: u32)"
      "push_bit TIME_LEVEL_SHIFT (of_nat TIME_NEAR) - 1 = (mask 14 :: u32)"
      "push_bit TIME_LEVEL_SHIFT (push_bit TIME_LEVEL_SHIFT (of_nat TIME_NEAR)) - 1 = (mask 20 :: u32)"
      "push_bit TIME_LEVEL_SHIFT (push_bit TIME_LEVEL_SHIFT
         (push_bit TIME_LEVEL_SHIFT (of_nat TIME_NEAR))) - 1 = (mask 26 :: u32)"
    by (simp_all add: mask_eq_exp_minus_1)
  have dr: "unat (drop_bit TIME_NEAR_SHIFT ct AND TIME_LEVEL_MASK) = ?t div 2 ^ 8 mod 64"
      "unat (drop_bit TIME_LEVEL_SHIFT (drop_bit TIME_NEAR_SHIFT ct) AND TIME_LEVEL_MASK)
         = ?t div 2 ^ 14 mod 64"
      "unat (drop_bit TIME_LEVEL_SHIFT (drop_bit TIME_LEVEL_SHIFT (drop_bit TIME_NEAR_SHIFT ct))
         AND TIME_LEVEL_MASK) = ?t div 2 ^ 20 mod 64"
      "unat (drop_bit TIME_LEVEL_SHIFT (drop_bit TIME_LEVEL_SHIFT (drop_bit TIME_LEVEL_SHIFT
         (drop_bit TIME_NEAR_SHIFT ct))) AND TIME_LEVEL_MASK) = ?t div 2 ^ 26 mod 64"
    by (simp_all only: timer_consts mask_nums unat_drop_bit_and_mask drop_bit_drop_bit) simp_all
  have i: "(0::nat) < 4" "(1::nat) < 4" "(2::nat) < 4" "(3::nat) < 4" "(4::nat) \<le> 4"
    by simp_all
  have suc: "Suc 0 = 1" "Suc 1 = 2" "Suc 2 = 3" "Suc 3 = 4" by simp_all
  note eqs = timer_shift_loop_step [OF i(1)] timer_shift_loop_step [OF i(2)]
    timer_shift_loop_step [OF i(3)] timer_shift_loop_step [OF i(4)]
    timer_shift_loop_stop [OF i(5)] msk dr and_mask_eq_0_iff moved_slot_def t
    if_True if_False option.case prod.case simp_thms suc
  show ?thesis
  proof (cases "?t mod 2 ^ 8 = 0 \<and> ?t div 2 ^ 8 mod 64 = 0")
    case False
    then show ?thesis by (cases "?t mod 2 ^ 8 = 0") (simp_all only: eqs)
  next
    case 1: True
    note m = m [OF conjunct1 [OF 1] conjunct2 [OF 1]]
    show ?thesis
    proof (cases "?t div 2 ^ 14 mod 64 = 0")
      case False
      with 1 m show ?thesis by (simp only: eqs)
    next
      case 2: True
      note m2 = m2 [OF m 2]
      show ?thesis
      proof (cases "?t div 2 ^ 20 mod 64 = 0")
        case False
        with 1 2 m m2 show ?thesis by (simp only: eqs)
      next
        case 3: True
        note m3 = m3 [OF m2 3]
        show ?thesis
          using 1 2 3 m m2 m3 by (cases "?t div 2 ^ 26 mod 64 = 0") (simp_all only: eqs)
      qed
    qed
  qed
qed

lemma block_end:
  fixes e t b :: nat
  assumes "Suc t mod b = 0" and "0 < b" and "e div b = t div b"
  shows "e \<le> t"
proof -
  have "Suc t div b = Suc (t div b)" using assms(1) by (simp add: div_Suc)
  then have "Suc t = b * Suc (e div b)" using assms(1,3) by (metis mult_div_mod_eq add_0_right)
  moreover have "e < b * Suc (e div b)" using assms(2) by (simp add: dividend_less_times_div)
  ultimately show ?thesis by simp
qed

lemma div_pow_chain:
  fixes e :: nat
  shows "e div 2 ^ 14 = e div 2 ^ 8 div 64" "e div 2 ^ 20 = e div 2 ^ 14 div 64"
    "e div 2 ^ 26 = e div 2 ^ 20 div 64"
  by (simp_all add: div_mult2_eq [symmetric])

text \<open>
  The one fact about the clock: when it steps, the slot of a pending expiry time changes only if
  it is the slot that is moved. A time is pending if it lies ahead of the clock whenever both are
  in the same block of level 3.
\<close>

lemma slot_of_step:
  assumes P: "e div 2 ^ 26 = t div 2 ^ 26 \<Longrightarrow> t < e"
    and nz: "Suc t mod 2 ^ 32 \<noteq> 0" and t: "t < 2 ^ 32"
    and M: "\<And>l i. moved_slot (Suc t) = Some (l, i) \<Longrightarrow> slot_of e t \<noteq> Level l i"
  shows "slot_of e (Suc t) = slot_of e t"
proof -
  let ?s = "Suc t"
  have chain: "e div 2 ^ 14 = x div 2 ^ 14" if "e div 2 ^ 8 = x div 2 ^ 8" for x
    using that by (simp only: div_pow_chain)
  have chain2: "e div 2 ^ 20 = x div 2 ^ 20" if "e div 2 ^ 14 = x div 2 ^ 14" for x
    using that by (simp only: div_pow_chain)
  have chain3: "e div 2 ^ 26 = x div 2 ^ 26" if "e div 2 ^ 20 = x div 2 ^ 20" for x
    using that by (simp only: div_pow_chain)
  note chains = chain chain2 chain3
  show ?thesis
  proof (cases "?s mod 2 ^ 8 = 0")
    case False
    then have "?s div 2 ^ 8 = t div 2 ^ 8" by (simp add: div_Suc)
    then show ?thesis by (simp only: slot_of_def div_pow_chain)
  next
    case m8: True
    have n8: "e div 2 ^ 8 \<noteq> t div 2 ^ 8"
      using block_end [OF m8 zero_less_power [OF zero_less_numeral]] P chains [of t] by (metis not_less)
    have s8: "?s div 2 ^ 8 = Suc (t div 2 ^ 8)" using m8 by (simp add: div_Suc)
    show ?thesis
    proof (cases "?s div 2 ^ 8 mod 64 = 0")
      case False
      then have s14: "?s div 2 ^ 14 = t div 2 ^ 14"
        unfolding div_pow_chain s8 by (simp add: div_Suc)
      then have "?s div 2 ^ 20 = t div 2 ^ 20" "?s div 2 ^ 26 = t div 2 ^ 26"
        by (simp_all only: div_pow_chain)
      moreover have mv: "moved_slot ?s = Some (0, ?s div 2 ^ 8 mod 64)"
        using False m8 by (simp only: moved_slot_def if_True if_False simp_thms nat.distinct)
      ultimately show ?thesis
        using n8 s14 chains [of ?s] M [OF mv]
        by (auto simp only: slot_of_def split: if_splits)
    next
      case z8: True
      have m14: "?s mod 2 ^ 14 = 0" using mod_pow_Suc_zero [OF m8 z8] by simp
      have n14: "e div 2 ^ 14 \<noteq> t div 2 ^ 14"
          using block_end [OF m14 zero_less_power [OF zero_less_numeral]] P chains [of t] by (metis not_less)
      have s14: "?s div 2 ^ 14 = Suc (t div 2 ^ 14)" using m14 by (simp add: div_Suc)
      show ?thesis
      proof (cases "?s div 2 ^ 14 mod 64 = 0")
        case False
        then have s20: "?s div 2 ^ 20 = t div 2 ^ 20"
          unfolding div_pow_chain(2) s14 by (simp add: div_Suc)
        then have "?s div 2 ^ 26 = t div 2 ^ 26" by (simp only: div_pow_chain(3))
        moreover have mv: "moved_slot ?s = Some (1, ?s div 2 ^ 14 mod 64)"
          using False m8 z8
          by (simp only: moved_slot_def if_True if_False simp_thms nat.distinct)
        ultimately show ?thesis
          using n8 n14 s20 chains [of ?s] M [OF mv]
        by (auto simp only: slot_of_def split: if_splits)
      next
        case z14: True
        have m20: "?s mod 2 ^ 20 = 0" using mod_pow_Suc_zero [OF m14 z14] by simp
        have n20: "e div 2 ^ 20 \<noteq> t div 2 ^ 20"
          using block_end [OF m20 zero_less_power [OF zero_less_numeral]] P chains [of t]
          by (metis not_less)
        have s20: "?s div 2 ^ 20 = Suc (t div 2 ^ 20)" using m20 by (simp add: div_Suc)
        show ?thesis
        proof (cases "?s div 2 ^ 20 mod 64 = 0")
          case False
          then have "?s div 2 ^ 26 = t div 2 ^ 26"
            unfolding div_pow_chain(3) s20 by (simp add: div_Suc)
          moreover have mv: "moved_slot ?s = Some (2, ?s div 2 ^ 20 mod 64)"
            using False m8 z8 z14
            by (simp only: moved_slot_def if_True if_False simp_thms nat.distinct)
          ultimately show ?thesis
            using n8 n14 n20 chains [of ?s] M [OF mv]
        by (auto simp only: slot_of_def split: if_splits)
        next
          case z20: True
          have m26: "?s mod 2 ^ 26 = 0" using mod_pow_Suc_zero [OF m20 z20] by simp
          have n26: "e div 2 ^ 26 \<noteq> t div 2 ^ 26"
            using block_end [OF m26 zero_less_power [OF zero_less_numeral]] P by (metis not_less)
          have "?s div 2 ^ 26 mod 64 \<noteq> 0"
            using mod_pow_Suc_zero [OF m26] nz by (simp only: numeral_plus_numeral semiring_norm) auto
          then have mv: "moved_slot ?s = Some (3, ?s div 2 ^ 26 mod 64)"
            using m8 z8 z14 z20
            by (simp only: moved_slot_def if_True if_False simp_thms nat.distinct)
          then show ?thesis
            using n8 n14 n20 n26 chains [of ?s] M [OF mv]
        by (auto simp only: slot_of_def split: if_splits)
        qed
      qed
    qed
  qed
qed

text \<open>The step from the last tick to zero, where the clock wraps round.\<close>

lemma slot_of_wrap:
  assumes P: "e div 2 ^ 26 = (2 ^ 32 - 1) div 2 ^ 26 \<Longrightarrow> 2 ^ 32 - 1 < e"
    and e: "e < 2 ^ 32" and M: "slot_of e (2 ^ 32 - 1) \<noteq> Level 3 0"
  shows "slot_of e 0 = slot_of e (2 ^ 32 - 1)"
proof -
  have n26: "e div 2 ^ 26 \<noteq> (2 ^ 32 - 1) div 2 ^ 26"
  proof
    assume "e div 2 ^ 26 = (2 ^ 32 - 1) div 2 ^ 26"
    then have "2 ^ 32 - 1 < e" by (rule P)
    with e show False by simp
  qed
  have n: "e div 2 ^ 20 \<noteq> (2 ^ 32 - 1) div 2 ^ 20" "e div 2 ^ 14 \<noteq> (2 ^ 32 - 1) div 2 ^ 14"
      "e div 2 ^ 8 \<noteq> (2 ^ 32 - 1) div 2 ^ 8"
    using n26 by (metis div_pow_chain)+
  have s: "slot_of e (2 ^ 32 - 1) = Level 3 (e div 2 ^ 26 mod 64)"
    using n n26 by (simp only: slot_of_def if_False)
  with M have "e div 2 ^ 26 mod 64 \<noteq> 0" by simp
  then have "e div 2 ^ 26 \<noteq> 0 div 2 ^ 26" by auto
  moreover from this have "e div 2 ^ 20 \<noteq> 0 div 2 ^ 20" "e div 2 ^ 14 \<noteq> 0 div 2 ^ 14"
      "e div 2 ^ 8 \<noteq> 0 div 2 ^ 8"
    by (metis div_pow_chain)+
  ultimately have "slot_of e 0 = Level 3 (e div 2 ^ 26 mod 64)"
    by (simp only: slot_of_def if_False)
  with s show ?thesis by simp
qed

subsection \<open>The invariant of the wheel\<close>

text \<open>The number of ticks until an expiry time, modulo the wrap-round of the clock.\<close>

definition remaining :: "u32 \<Rightarrow> u32 \<Rightarrow> nat" where
  "remaining e t = unat (e - t)"

text \<open>
  Every node is in the list that \<open>add_node\<close> would choose now, and its remaining time is within
  the range of a positive \<open>int\<close>; \<open>lo\<close> is 1 between two updates, and 0 within an update, after
  the clock has stepped and before the list of the new time has been dispatched.
\<close>

definition wheel_inv :: "nat \<Rightarrow> timer \<Rightarrow> bool" where
  "wheel_inv lo T \<longleftrightarrow>
     (\<forall>s n. n \<in> set (slot_list T s) \<longrightarrow>
        node_slot n (time T) = s \<and> lo \<le> remaining (expire n) (time T) \<and>
        remaining (expire n) (time T) < 2 ^ 31)"

lemma wheel_invD:
  assumes "wheel_inv lo T" and "n \<in> set (slot_list T s)"
  shows "node_slot n (time T) = s" and "lo \<le> remaining (expire n) (time T)"
    and "remaining (expire n) (time T) < 2 ^ 31"
  using assms unfolding wheel_inv_def by blast+

text \<open>The events that wait for the time \<open>e\<close>, in order.\<close>

definition pending :: "timer \<Rightarrow> u32 \<Rightarrow> timer_event list" where
  "pending T e =
     map event (filter (\<lambda>n. expire n = e) (slot_list T (slot_of (unat e) (unat (time T)))))"

lemma time_add_node [simp]: "time (add_node n T) = time T"
  by (cases "node_slot n (time T)")
     (simp_all add: add_node_link_at link_at_def link_near_def link_level_def)

lemma pending_add_node:
  "pending (add_node n T) e = pending T e @ (if expire n = e then [event n] else [])"
  by (auto simp: pending_def slot_list_add_node node_slot_def)

lemma wheel_inv_add_node:
  assumes "wheel_inv lo T" and "lo \<le> remaining (expire n) (time T)"
    and "remaining (expire n) (time T) < 2 ^ 31"
  shows "wheel_inv lo (add_node n T)"
  using assms by (auto simp: wheel_inv_def slot_list_add_node split: if_splits)

lemma time_fold_add_node [simp]: "time (fold add_node ns T) = time T"
  by (induction ns arbitrary: T) auto

lemma pending_fold_add_node:
  "pending (fold add_node ns T) e = pending T e @ map event (filter (\<lambda>n. expire n = e) ns)"
  by (induction ns arbitrary: T) (auto simp: pending_add_node)

lemma wheel_inv_fold_add_node:
  assumes "wheel_inv lo T"
    and "\<And>n. n \<in> set ns \<Longrightarrow> lo \<le> remaining (expire n) (time T) \<and> remaining (expire n) (time T) < 2 ^ 31"
  shows "wheel_inv lo (fold add_node ns T)"
  using assms by (induction ns arbitrary: T) (auto simp: wheel_inv_add_node)

lemma remaining_Suc:
  assumes "1 \<le> remaining e t"
  shows "remaining e (t + 1) = remaining e t - 1"
proof -
  have "e - t \<noteq> 0" using assms by (auto simp: remaining_def)
  then have "unat (e - t - 1) = unat (e - t) - 1" by (rule unat_minus_one)
  then show ?thesis by (simp add: remaining_def diff_diff_eq)
qed

lemma remaining_ahead:
  fixes e t :: u32
  assumes "1 \<le> remaining e t" and "remaining e t < 2 ^ 31"
    and "unat e div 2 ^ 26 = unat t div 2 ^ 26"
  shows "unat t < unat e"
proof (rule ccontr)
  assume "\<not> unat t < unat e"
  then have le: "unat e \<le> unat t" by simp
  have "unat (t - e) = unat t - unat e" using le by (simp add: unat_sub word_le_nat_alt)
  moreover have "unat t - unat e < 2 ^ 26"
  proof -
    have "unat t < 2 ^ 26 + 2 ^ 26 * (unat t div 2 ^ 26)"
      by (rule dividend_less_times_div) simp
    moreover have "2 ^ 26 * (unat e div 2 ^ 26) \<le> unat e"
      by (rule times_div_less_eq_dividend)
    ultimately have "unat t < 2 ^ 26 + unat e" unfolding assms(3) by linarith
    then show ?thesis using le by (simp only: less_diff_conv2)
  qed
  moreover have "(unat (e - t) + unat (t - e)) mod 2 ^ 32 = 0"
    using unat_word_ariths(1) [of "e - t" "t - e"] by simp
  ultimately show False using assms(1,2) by (simp add: remaining_def)
qed


text \<open>When the clock steps, only the moved slot changes.\<close>

lemma node_slot_step:
  fixes t :: u32
  assumes r: "1 \<le> remaining (expire n) t" "remaining (expire n) t < 2 ^ 31"
    and M: "\<And>l i. moved_slot (unat (t + 1)) = Some (l, i) \<Longrightarrow> node_slot n t \<noteq> Level l i"
  shows "node_slot n (t + 1) = node_slot n t"
proof (cases "t + 1 = 0")
  case True
  then have "t = - 1" by (simp add: eq_neg_iff_add_eq_0)
  then have t: "unat t = 2 ^ 32 - 1" by (simp add: unsigned_minus_1_eq_mask mask_eq_exp_minus_1)
  have P: "unat (expire n) div 2 ^ 26 = unat t div 2 ^ 26 \<Longrightarrow> unat t < unat (expire n)"
    by (rule remaining_ahead [OF r])
  have "slot_of (unat (expire n)) (unat t) \<noteq> Level 3 0"
    using M True by (simp add: moved_slot_def node_slot_def)
  moreover have "unat (expire n) < 2 ^ 32" using unsigned_less [of "expire n"] by simp
  ultimately have "slot_of (unat (expire n)) 0 = slot_of (unat (expire n)) (2 ^ 32 - 1)"
    using P by (intro slot_of_wrap) (simp_all only: t not_False_eq_True)
  then show ?thesis by (simp only: True node_slot_def t unat_0)
next
  case False
  then have t: "unat (t + 1) = Suc (unat t)" by (simp add: unatSuc add.commute)
  have lt: "unat (t + 1) < 2 ^ 32" using unsigned_less [of "t + 1"] by simp
  have "slot_of (unat (expire n)) (Suc (unat t)) = slot_of (unat (expire n)) (unat t)"
  proof (rule slot_of_step)
    show "unat t < unat (expire n)"
      if "unat (expire n) div 2 ^ 26 = unat t div 2 ^ 26"
      using remaining_ahead [OF r that] .
    show "Suc (unat t) mod 2 ^ 32 \<noteq> 0" and "unat t < 2 ^ 32" using lt t by simp_all
    show "slot_of (unat (expire n)) (unat t) \<noteq> Level l i"
      if "moved_slot (Suc (unat t)) = Some (l, i)" for l i
      using M [of l i] that by (simp add: t node_slot_def)
  qed
  then show ?thesis by (simp only: node_slot_def t)
qed

definition clear_level :: "nat \<Rightarrow> nat \<Rightarrow> timer \<Rightarrow> timer" where
  "clear_level l i T = T\<lparr>levels := (levels T)(l := (levels T l)(i := []))\<rparr>"

lemma slot_list_clear_level:
  "slot_list (clear_level l i T) s = (if s = Level l i then [] else slot_list T s)"
  by (cases s) (auto simp: clear_level_def)

lemma move_list_alt: "move_list l i T = fold add_node (levels T l i) (clear_level l i T)"
  by (simp add: move_list_def link_clear_def clear_level_def)

lemma slot_list_time [simp]: "slot_list (T\<lparr>time := t\<rparr>) s = slot_list T s"
  by (cases s) auto

lemma timer_shift_eq:
  "timer_shift T =
     (let T1 = T\<lparr>time := time T + 1\<rparr> in
      case moved_slot (unat (time T + 1)) of None \<Rightarrow> T1 | Some (l, i) \<Rightarrow> move_list l i T1)"
proof (cases "time T + 1 = 0")
  case True
  then show ?thesis by (simp add: timer_shift_def moved_slot_def)
next
  case False
  then show ?thesis by (simp only: timer_shift_def Let_def timer_shift_loop_eq [OF False] False if_False)
qed


lemma filter_other_slot:
  assumes "wheel_inv lo T" and "s \<noteq> slot_of (unat e) (unat (time T))"
  shows "filter (\<lambda>n. expire n = e) (slot_list T s) = []"
  using assms by (auto simp: wheel_inv_def node_slot_def filter_empty_conv)

text \<open>
  The wheel after the clock step and before the moved list is added again: still in order, and
  every pending list is where it was, the moved one apart.
\<close>

lemma stepped_wheel:
  assumes inv: "wheel_inv 1 T" and T0: "time T0 = time T + 1"
    and sl: "\<And>s. slot_list T0 s = (if \<exists>l i. moved_slot (unat (time T + 1)) = Some (l, i) \<and> s = Level l i
                 then [] else slot_list T s)"
  shows "wheel_inv 0 T0"
    and "(\<And>l i. moved_slot (unat (time T + 1)) = Some (l, i) \<Longrightarrow>
            slot_of (unat e) (unat (time T)) \<noteq> Level l i) \<Longrightarrow> pending T0 e = pending T e"
    and "moved_slot (unat (time T + 1)) = Some (l, i) \<Longrightarrow>
           slot_of (unat e) (unat (time T)) = Level l i \<Longrightarrow> pending T0 e = []"
proof -
  have keep: "node_slot n (time T + 1) = s" and rem: "remaining (expire n) (time T + 1) < 2 ^ 31"
    if n: "n \<in> set (slot_list T0 s)" for n s
  proof -
    from n sl have nT: "n \<in> set (slot_list T s)"
      and M: "\<And>l i. moved_slot (unat (time T + 1)) = Some (l, i) \<Longrightarrow> s \<noteq> Level l i"
      by (metis (full_types) empty_iff empty_set)+
    note s = wheel_invD(1) [OF inv nT] and r = wheel_invD(2,3) [OF inv nT]
    show "node_slot n (time T + 1) = s"
      using node_slot_step [OF r] M s by simp
    show "remaining (expire n) (time T + 1) < 2 ^ 31"
      using remaining_Suc [OF r(1)] r(2) by simp
  qed
  show inv0: "wheel_inv 0 T0" using keep rem by (simp add: wheel_inv_def T0)
  let ?s = "slot_of (unat e) (unat (time T))" and ?s' = "slot_of (unat e) (unat (time T + 1))"
  let ?f = "filter (\<lambda>n. expire n = e)"
  show "pending T0 e = pending T e"
    if M: "\<And>l i. moved_slot (unat (time T + 1)) = Some (l, i) \<Longrightarrow> ?s \<noteq> Level l i"
  proof -
    have same: "slot_list T0 ?s = slot_list T ?s" using M sl by auto
    have "?f (slot_list T0 ?s') = ?f (slot_list T0 ?s)"
    proof (cases "?s' = ?s")
      case False
      then have "?f (slot_list T0 ?s) = []" using filter_other_slot [OF inv0] by (simp add: T0)
      moreover have "?f (slot_list T0 ?s') = []"
        using filter_other_slot [OF inv, of ?s' e] False sl [of ?s'] by (simp split: if_splits)
      ultimately show ?thesis by simp
    qed simp
    then show ?thesis by (simp add: pending_def T0 same)
  qed
  show "pending T0 e = []"
    if "moved_slot (unat (time T + 1)) = Some (l, i)" and "?s = Level l i"
  proof (cases "?s' = Level l i")
    case True
    then show ?thesis using that sl [of ?s'] by (simp add: pending_def T0)
  next
    case False
    then show ?thesis
      using filter_other_slot [OF inv, of ?s' e] that sl [of ?s'] by (simp add: pending_def T0)
  qed
qed

lemma timer_shift_correct:
  assumes inv: "wheel_inv 1 T"
  shows "wheel_inv 0 (timer_shift T)" and "time (timer_shift T) = time T + 1"
    and "pending (timer_shift T) e = pending T e"
proof -
  let ?T1 = "T\<lparr>time := time T + 1\<rparr>"
  have "wheel_inv 0 (timer_shift T) \<and> time (timer_shift T) = time T + 1 \<and>
        pending (timer_shift T) e = pending T e"
  proof (cases "moved_slot (unat (time T + 1))")
    case None
    then have "timer_shift T = ?T1" by (simp add: timer_shift_eq)
    with stepped_wheel [OF inv, of ?T1] None show ?thesis by simp
  next
    case (Some li)
    obtain l i where li: "li = (l, i)" by fastforce
    let ?T0 = "clear_level l i ?T1" and ?ns = "slot_list T (Level l i)"
    have eq: "timer_shift T = fold add_node ?ns ?T0"
      using Some li by (simp add: timer_shift_eq move_list_alt)
    have t: "time ?T0 = time T + 1" by (simp add: clear_level_def)
    have sl: "slot_list ?T0 s = (if \<exists>l i. moved_slot (unat (time T + 1)) = Some (l, i) \<and> s = Level l i
                 then [] else slot_list T s)" for s
      using Some li by (simp add: slot_list_clear_level)
    note step = stepped_wheel [OF inv t sl]
    have "wheel_inv 0 (fold add_node ?ns ?T0)"
    proof (rule wheel_inv_fold_add_node [OF step(1)])
      fix n assume "n \<in> set ?ns"
      note r = wheel_invD(2,3) [OF inv this]
      show "0 \<le> remaining (expire n) (time ?T0) \<and> remaining (expire n) (time ?T0) < 2 ^ 31"
        using remaining_Suc [OF r(1)] r(2) t by simp
    qed
    moreover have "pending (fold add_node ?ns ?T0) e = pending T e"
    proof (cases "slot_of (unat e) (unat (time T)) = Level l i")
      case True
      then show ?thesis
        using step(3) [of l i e] Some li unfolding pending_fold_add_node
        by (simp only: pending_def) simp
    next
      case False
      then show ?thesis
        using step(2) [of e] Some li filter_other_slot [OF inv, of "Level l i" e]
        unfolding pending_fold_add_node by simp
    qed
    ultimately show ?thesis using eq t by simp
  qed
  then show "wheel_inv 0 (timer_shift T)" and "time (timer_shift T) = time T + 1"
    and "pending (timer_shift T) e = pending T e" by auto
qed

end
