(* ===== verification/Timer_Run.thy ===== *)
theory Timer_Run
  imports Timer
begin

text \<open>
  What the updates of the timing wheel dispatch, and when: the correctness of \<open>timer_execute\<close>,
  \<open>timer_update\<close> and of runs of updates, against the table of pending events.
\<close>

lemma time_near_update [simp]: "time (T\<lparr>near := f\<rparr>) = time T"
  by simp

text \<open>The index of the list under the clock.\<close>

definition cursor :: "u32 \<Rightarrow> nat" where
  "cursor t = unat t mod 2 ^ 8"

lemma unat_near_idx: "unat (t AND TIME_NEAR_MASK) = cursor t"
  by (simp only: cursor_def timer_consts mask_nums unat_and_mask)

lemma slot_of_self [simp]: "slot_of (unat t) (unat t) = Near (cursor t)"
  by (simp only: slot_of_def cursor_def if_True refl)

text \<open>All the nodes of the list under the clock expire now.\<close>

lemma near_expires_now:
  assumes inv: "wheel_inv lo T" and n: "n \<in> set (near T (cursor (time T)))"
  shows "expire n = time T"
proof -
  let ?i = "cursor (time T)"
  have "slot_of (unat (expire n)) (unat (time T)) = Near ?i"
    using wheel_invD(1) [OF inv, of n "Near ?i"] n by (simp add: node_slot_def)
  then have "unat (expire n) div 2 ^ 8 = unat (time T) div 2 ^ 8 \<and>
      unat (expire n) mod 2 ^ 8 = unat (time T) mod 2 ^ 8"
    unfolding slot_of_def cursor_def by (simp only: split: if_splits) simp_all
  then have "unat (expire n) = unat (time T)" by (metis mult_div_mod_eq)
  then show ?thesis by (simp add: word_unat_eq_iff)
qed

lemma pending_now:
  assumes "wheel_inv lo T"
  shows "pending T (time T) = map event (near T (cursor (time T)))"
proof -
  have "filter (\<lambda>n. expire n = time T) (near T (cursor (time T))) =
      near T (cursor (time T))"
    using near_expires_now [OF assms] by simp
  then show ?thesis by (simp add: pending_def)
qed

lemma near_now_empty:
  assumes "wheel_inv 1 T"
  shows "near T (cursor (time T)) = []"
proof (rule ccontr)
  assume "near T (cursor (time T)) \<noteq> []"
  then obtain n where n: "n \<in> set (near T (cursor (time T)))" 
    by (metis list.set_sel(1))
  have "1 \<le> remaining (expire n) (time T)"
    using wheel_invD(2) [OF assms, of n "Near (cursor (time T))"] n by simp
  with near_expires_now [OF assms n] show False by (simp add: remaining_def)
qed

subsection \<open>Adding\<close>

text \<open>Batches of additions whose delays are positive \<open>int\<close> values: \<open>timeout\<close> adds no other.\<close>

definition valid_batch :: "int \<Rightarrow> ('e \<times> int) list \<Rightarrow> bool" where
  "valid_batch m b \<longleftrightarrow> (\<forall>(ev, d) \<in> set b. 0 < d \<and> d < m)"

abbreviation valid_adds :: "(timer_event \<times> int) list \<Rightarrow> bool" where
  "valid_adds \<equiv> valid_batch (2 ^ 31)"

lemma remaining_add:
  assumes "0 < d" "d < 2 ^ 31"
  shows "remaining (word_of_int d + t) t = nat d"
  using assms by (simp add: remaining_def unat_eq_nat_uint uint_word_of_int)

lemma add_all_fold:
  "add_all adds T = fold add_node (map (\<lambda>(ev, d). \<lparr>expire = word_of_int d + time T, event = ev\<rparr>) adds) T"
  unfolding add_all_def
  by (induction adds arbitrary: T) (auto simp: timer_add_def)

lemma time_add_all [simp]: "time (add_all adds T) = time T"
  by (simp add: add_all_fold)

lemma wheel_inv_add_all:
  assumes "wheel_inv 1 T" and "valid_adds adds"
  shows "wheel_inv 1 (add_all adds T)"
  unfolding add_all_fold
proof (rule wheel_inv_fold_add_node [OF assms(1)])
  fix n assume "n \<in> set (map (\<lambda>(ev, d). \<lparr>expire = word_of_int d + time T, event = ev\<rparr>) adds)"
  then obtain ev d where n: "n = \<lparr>expire = word_of_int d + time T, event = ev\<rparr>" and "(ev, d) \<in> set adds"
    by auto
  then have d: "0 < d" "d < 2 ^ 31" using assms(2) unfolding valid_batch_def by auto
  show "1 \<le> remaining (expire n) (time T) \<and> remaining (expire n) (time T) < 2 ^ 31"
    using d remaining_add [OF d, of "time T"] by (auto simp: n)
qed

lemma filter_map_prod: "filter P (map f xs) = map f (filter (\<lambda>x. P (f x)) xs)"
  by (simp add: filter_map o_def)

text \<open>Adding puts the events behind those that already wait for the same time.\<close>

lemma pending_add_all:
  assumes "valid_adds adds" and "0 < k" and "k < 2 ^ 32"
  shows "pending (add_all adds T) (time T + of_nat k) =
     pending T (time T + of_nat k) @ map fst (filter (\<lambda>(ev, d). d = int k) adds)"
proof -
  have eq: "word_of_int d + time T = time T + of_nat k \<longleftrightarrow> d = int k"
    if "(ev, d) \<in> set adds" for ev d
  proof -
    have d: "0 < d" "d < 2 ^ 31" using that assms(1) unfolding valid_batch_def by auto
    have "word_of_int d + time T = time T + of_nat k \<longleftrightarrow> (word_of_int d :: u32) = word_of_int (int k)"
      by (simp add: add.commute)
    also have "\<dots> \<longleftrightarrow> d = int k"
      using d assms(2,3)
      by (simp only: word_of_int_eq_iff) (simp add: take_bit_int_eq_self)
    finally show ?thesis .
  qed
  have "filter (\<lambda>n. expire n = time T + of_nat k)
          (map (\<lambda>(ev, d). \<lparr>expire = word_of_int d + time T, event = ev\<rparr>) adds) =
        map (\<lambda>(ev, d). \<lparr>expire = word_of_int d + time T, event = ev\<rparr>) (filter (\<lambda>(ev, d). d = int k) adds)"
    unfolding filter_map_prod using eq by (intro arg_cong2 [where f = map] filter_cong) auto
  then show ?thesis unfolding add_all_fold pending_fold_add_node by (simp add: o_def split_def)
qed

subsection \<open>Executing and updating\<close>

lemma timer_execute_stop:
  "near T (cursor (time T)) = [] \<Longrightarrow> timer_execute env T = ([], T)"
  by (subst timer_execute.simps) (simp add: unat_near_idx del: timer_consts)

text \<open>Taking the list under the clock leaves the wheel in order and the other lists as they are.\<close>

definition take_due :: "timer \<Rightarrow> timer" where
  "take_due T = T\<lparr>near := (near T)(cursor (time T) := [])\<rparr>"

lemma time_take_due [simp]: "time (take_due T) = time T"
  by (simp add: take_due_def)

lemma slot_list_take_due:
  "slot_list (take_due T) s = (if s = Near (cursor (time T)) then [] else slot_list T s)"
  by (cases s) (auto simp: take_due_def)

lemma wheel_inv_take_due:
  assumes "wheel_inv 0 T"
  shows "wheel_inv 1 (take_due T)"
  unfolding wheel_inv_def
proof (intro allI impI conjI)
  fix s n assume n: "n \<in> set (slot_list (take_due T) s)"
  then have s: "s \<noteq> Near (cursor (time T))" and nT: "n \<in> set (slot_list T s)"
    unfolding slot_list_take_due by (metis empty_iff empty_set)+
  note D = wheel_invD [OF assms nT]
  show "node_slot n (time (take_due T)) = s" using D(1) by simp
  have "remaining (expire n) (time T) \<noteq> 0"
  proof
    assume "remaining (expire n) (time T) = 0"
    then have "expire n = time T" by (simp add: remaining_def unat_eq_0)
    then have "s = Near (cursor (time T))" using D(1) by (simp add: node_slot_def)
    with s show False ..
  qed
  then show "1 \<le> remaining (expire n) (time (take_due T))" by simp
  show "remaining (expire n) (time (take_due T)) < 2 ^ 31" using D(3) by simp
qed

lemma pending_take_due:
  assumes "wheel_inv lo T" and "e \<noteq> time T"
  shows "pending (take_due T) e = pending T e"
proof (cases "slot_of (unat e) (unat (time T)) = Near (cursor (time T))")
  case True
  have "filter (\<lambda>n. expire n = e) (near T (cursor (time T))) = []"
    using near_expires_now [OF assms(1)] assms(2) by (auto simp: filter_empty_conv)
  with True show ?thesis
    by (simp add: pending_def slot_list_take_due del: slot_list.simps) simp
next
  case False
  then show ?thesis by (simp add: pending_def slot_list_take_due)
qed

lemma pending_take_due_now [simp]: "pending (take_due T) (time T) = []"
  by (simp add: pending_def slot_list_take_due del: slot_list.simps)

lemma dispatch_near:
  assumes "wheel_inv lo T"
  shows "dispatch_list (near T (cursor (time T))) = map delivery (pending T (time T))"
  by (simp add: dispatch_list_def pending_now [OF assms] o_def)

text \<open>
  \<open>timer_execute\<close> dispatches what waits for the present time. The timers that other threads add
  meanwhile lie ahead, so that its loop ends after one round.
\<close>

lemma timer_execute_correct:
  assumes inv: "wheel_inv 0 T" and env: "\<And>adds. adds \<in> set env \<Longrightarrow> valid_adds adds"
  shows "timer_execute env T =
     (map delivery (pending T (time T)),
      if pending T (time T) = [] \<or> env = [] then take_due T else add_all (hd env) (take_due T))"
proof (cases "near T (cursor (time T)) = []")
  case True
  then have "take_due T = T" by (simp add: take_due_def fun_upd_idem)
  with True show ?thesis
    by (simp add: timer_execute_stop [OF True] pending_now [OF inv])
next
  case False
  have ne: "pending T (time T) \<noteq> []" using False by (simp add: pending_now [OF inv])
  have step: "timer_execute env T =
     (case env of [] \<Rightarrow> (map delivery (pending T (time T)), take_due T)
      | adds # env' \<Rightarrow> (let (evs, T2) = timer_execute env' (add_all adds (take_due T))
                         in (map delivery (pending T (time T)) @ evs, T2)))"
    using False unfolding take_due_def dispatch_near [OF inv, symmetric]
    by (subst timer_execute.simps)
       (simp add: unat_near_idx link_clear_def Let_def del: timer_consts)
  show ?thesis
  proof (cases env)
    case Nil
    with step show ?thesis by simp
  next
    case (Cons adds env')
    have "wheel_inv 1 (add_all adds (take_due T))"
      using wheel_inv_add_all [OF wheel_inv_take_due [OF inv]] env Cons by simp
    note stop = timer_execute_stop [OF near_now_empty [OF this]]
    show ?thesis using step Cons ne by (simp add: stop)
  qed
qed

lemma wheel_inv_weaken: "wheel_inv 1 T \<Longrightarrow> wheel_inv 0 T"
  by (simp add: wheel_inv_def)

definition tick :: "timer \<Rightarrow> timer" where
  "tick T = take_due (timer_shift T)"

lemma tick_correct:
  assumes "wheel_inv 1 T"
  shows "wheel_inv 1 (tick T)" and "time (tick T) = time T + 1"
    and "e \<noteq> time T + 1 \<Longrightarrow> pending (tick T) e = pending T e"
    and "pending (tick T) (time T + 1) = []"
  using timer_shift_correct [OF assms] wheel_inv_take_due pending_take_due
    pending_take_due_now [of "timer_shift T"]
  by (simp_all add: tick_def)

text \<open>
  One update, whatever other threads add while it has released the lock: it dispatches the events
  that wait for the next tick, and the additions count as additions made after it.
\<close>

lemma timer_update_env:
  assumes inv: "wheel_inv 1 T" and env: "\<And>adds. adds \<in> set env2 \<Longrightarrow> valid_adds adds"
  shows "timer_update env1 env2 T =
     (map delivery (pending T (time T + 1)),
      if pending T (time T + 1) = [] \<or> env2 = [] then tick T else add_all (hd env2) (tick T))"
  using timer_shift_correct [OF inv]
  by (simp add: timer_update_def timer_execute_stop [OF near_now_empty [OF inv]]
      timer_execute_correct [OF _ env] tick_def)

lemma timer_update_plain:
  "wheel_inv 1 T \<Longrightarrow> timer_update [] [] T = (map delivery (pending T (time T + 1)), tick T)"
  by (subst timer_update_env) auto

subsection \<open>Runs of updates\<close>

text \<open>
  The interface of a timeout service: \<open>waiting s k\<close> is the list of the events that are due \<open>k\<close> ticks
  from now, and the two laws say what adding and advancing do to it. The reference \<open>due\<close> says what a
  run of ticks, each after a batch of additions, has to dispatch at each tick on account of the
  additions.
\<close>

fun due :: "('e \<times> int) list list \<Rightarrow> nat \<Rightarrow> 'e list" where
  "due [] k = []"
| "due (b # bs) k =
     map fst (filter (\<lambda>(ev, d). d = int (Suc k)) b) @ (case k of 0 \<Rightarrow> [] | Suc j \<Rightarrow> due bs j)"

locale timeout_service =
  fixes add :: "'e \<Rightarrow> int \<Rightarrow> 's \<Rightarrow> 's"
    and advance :: "'s \<Rightarrow> 'd list \<times> 's"
    and ticks :: "('e \<times> int) list list \<Rightarrow> 's \<Rightarrow> 'd list list \<times> 's"
    and waiting :: "'s \<Rightarrow> nat \<Rightarrow> 'e list"
    and deliver :: "'e \<Rightarrow> 'd"
    and inv :: "'s \<Rightarrow> bool"
    and max_delay :: int
    and horizon :: nat
  assumes inv_add: "inv s \<Longrightarrow> 0 < d \<Longrightarrow> d < max_delay \<Longrightarrow> inv (add ev d s)"
    and waiting_add: "inv s \<Longrightarrow> 0 < d \<Longrightarrow> d < max_delay \<Longrightarrow> 0 < k \<Longrightarrow> k < horizon \<Longrightarrow>
      waiting (add ev d s) k = waiting s k @ (if d = int k then [ev] else [])"
    and inv_advance: "inv s \<Longrightarrow> inv (snd (advance s))"
    and advance_dispatches: "inv s \<Longrightarrow> fst (advance s) = map deliver (waiting s 1)"
    and waiting_advance: "inv s \<Longrightarrow> 0 < k \<Longrightarrow> k < horizon \<Longrightarrow>
      waiting (snd (advance s)) k = waiting s (Suc k)"
    and ticks_Nil: "ticks [] s = ([], s)"
    and ticks_Cons: "ticks (b # bs) s =
      (let (evs, s1) = advance (fold (\<lambda>(ev, d). add ev d) b s); (rest, s2) = ticks bs s1
       in (evs # rest, s2))"
begin

lemma batch:
  assumes "inv s" and "valid_batch max_delay b"
  shows "inv (fold (\<lambda>(ev, d). add ev d) b s)"
    and "0 < k \<Longrightarrow> k < horizon \<Longrightarrow>
      waiting (fold (\<lambda>(ev, d). add ev d) b s) k =
      waiting s k @ map fst (filter (\<lambda>(ev, d). d = int k) b)"
  using assms
  by (induction b arbitrary: s) (auto simp: valid_batch_def inv_add waiting_add)

lemma ticks_correct:
  assumes "inv s" and "\<And>b. b \<in> set bs \<Longrightarrow> valid_batch max_delay b" and "length bs < horizon"
  shows "inv (snd (ticks bs s)) \<and> length (fst (ticks bs s)) = length bs \<and>
     (\<forall>i < length bs. fst (ticks bs s) ! i = map deliver (waiting s (Suc i) @ due bs i))"
  using assms
proof (induction bs arbitrary: s)
  case Nil
  then show ?case by (simp add: ticks_Nil)
next
  case (Cons b bs)
  let ?s0 = "fold (\<lambda>(ev, d). add ev d) b s"
  let ?s1 = "snd (advance ?s0)"
  have b: "valid_batch max_delay b" using Cons.prems(2) by simp
  note B = batch [OF Cons.prems(1) b]
  have IH: "inv (snd (ticks bs ?s1))" "length (fst (ticks bs ?s1)) = length bs"
    "i < length bs \<Longrightarrow> fst (ticks bs ?s1) ! i = map deliver (waiting ?s1 (Suc i) @ due bs i)" for i
    using Cons.IH [OF inv_advance [OF B(1)]] Cons.prems(2,3) by auto
  have T: "fst (ticks (b # bs) s) = fst (advance ?s0) # fst (ticks bs ?s1)"
    "snd (ticks (b # bs) s) = snd (ticks bs ?s1)"
    by (simp_all add: ticks_Cons split_def Let_def)
  have "fst (ticks (b # bs) s) ! i = map deliver (waiting s (Suc i) @ due (b # bs) i)"
    if i: "i < length (b # bs)" for i
  proof (cases i)
    case 0
    then show ?thesis
      using Cons.prems(3) by (simp add: T advance_dispatches [OF B(1)] B(2))
  next
    case (Suc j)
    then have "fst (ticks (b # bs) s) ! i = map deliver (waiting ?s0 (Suc i) @ due bs j)"
      using IH(3) [of j] i Cons.prems(3) waiting_advance [OF B(1), of "Suc j"] by (simp add: T)
    then show ?thesis using Suc i Cons.prems(3) B(2) [of "Suc i"] by simp
  qed
  then show ?case using IH by (simp add: T)
qed

end

definition waiting :: "timer \<Rightarrow> nat \<Rightarrow> timer_event list" where
  "waiting T k = pending T (time T + of_nat k)"

lemma add_all_single: "timer_add ev d T = add_all [(ev, d)] T"
  by (simp add: add_all_def)

lemma waiting_tick:
  assumes "wheel_inv 1 T" and "0 < k" and "k < 2 ^ 32"
  shows "waiting (tick T) k = waiting T (Suc k)"
proof -
  have "(of_nat k :: u32) \<noteq> 0" using assms(2,3) by (simp add: word_of_nat_eq_0_iff nat_dvd_not_less)
  then have "time T + 1 + of_nat k \<noteq> time T + 1" by simp
  from tick_correct(3) [OF assms(1) this] show ?thesis
    by (simp add: waiting_def tick_correct(2) [OF assms(1)] add.assoc)
qed

interpretation wheel: timeout_service timer_add "timer_update [] []" timer_ticks waiting delivery
  "wheel_inv 1" "2 ^ 31" "2 ^ 32"
proof unfold_locales
  fix T ev and d :: int and k :: nat
  assume T: "wheel_inv 1 T"
  show "wheel_inv 1 (snd (timer_update [] [] T))"
    and "fst (timer_update [] [] T) = map delivery (waiting T 1)"
    using tick_correct [OF T] by (simp_all add: timer_update_plain [OF T] waiting_def)
  show "waiting (snd (timer_update [] [] T)) k = waiting T (Suc k)" if "0 < k" "k < 2 ^ 32"
    using waiting_tick [OF T that] by (simp add: timer_update_plain [OF T])
  assume "0 < d" "d < 2 ^ 31"
  then have v: "valid_adds [(ev, d)]" by (simp add: valid_batch_def)
  show "wheel_inv 1 (timer_add ev d T)"
    unfolding add_all_single by (rule wheel_inv_add_all [OF T v])
  show "waiting (timer_add ev d T) k = waiting T k @ (if d = int k then [ev] else [])"
    if "0 < k" "k < 2 ^ 32"
    using pending_add_all [OF v that, of T] unfolding add_all_single by (simp add: waiting_def)
qed (auto simp: add_all_def split: prod.splits)
subsection \<open>Properties\<close>

text \<open>
  C3. Timeouts are exact. Start from any wheel in order and run one update per element of \<open>bs\<close>,
  each after the additions of that element (delays of any positive \<open>int\<close>). The \<open>i\<close>-th update sends
  exactly the response messages of the events that were waiting for its tick and of the added
  events whose delay ends at it, in the order in which they were added: nothing is lost, early,
  late or repeated, through all levels of the wheel and across the wrap-round of the 32 bit clock.
\<close>

theorem timeouts_exact:
  assumes "wheel_inv 1 T" and "\<forall>b \<in> set bs. valid_adds b" and "length bs < 2 ^ 32"
    and "i < length bs"
  shows "fst (timer_ticks bs T) ! i =
     map delivery (pending T (time T + of_nat (Suc i)) @ due bs i)"
  using wheel.ticks_correct [of T bs] assms by (simp add: waiting_def)

lemma wheel_inv_init: "wheel_inv lo (timer_init sec cs tk)"
proof -
  have "slot_list (timer_init sec cs tk) s = []" for s
    by (cases s) (simp_all add: timer_init_def create_timer_def)
  then show ?thesis by (simp add: wheel_inv_def)
qed

lemma pending_init [simp]: "pending (timer_init sec cs tk) e = []"
proof -
  have "slot_list (timer_init sec cs tk) s = []" for s
    by (cases s) (simp_all add: timer_init_def create_timer_def)
  then show ?thesis by (simp add: pending_def)
qed

definition demo_event :: "int \<Rightarrow> timer_event" where
  "demo_event n = \<lparr>ev_svc_handle = 1, ev_session = n\<rparr>"

theorem timeouts_exact_witness:
  "fst (timer_ticks [[(demo_event 1, 2)], [(demo_event 2, 1), (demo_event 3, 5)]] (timer_init 0 0 0)) ! 1 =
     [delivery (demo_event 1), delivery (demo_event 2)]"
  using timeouts_exact [where T = "timer_init 0 0 0" and i = 1
      and bs = "[[(demo_event 1, 2)], [(demo_event 2, 1), (demo_event 3, 5)]]", OF wheel_inv_init]
  by (simp add: valid_batch_def)

text \<open>
  C24. Every operation of the wheel keeps it in order: after any run of updates and additions every
  node is in the list in which \<open>add_node\<close> would put it now, lies ahead of the clock, and one
  result list is returned per tick.
\<close>

theorem wheel_stays_in_order:
  assumes "wheel_inv 1 T" and "\<forall>b \<in> set bs. valid_adds b" and "length bs < 2 ^ 32"
  shows "wheel_inv 1 (snd (timer_ticks bs T)) \<and> length (fst (timer_ticks bs T)) = length bs"
  using wheel.ticks_correct [of T bs] assms by simp

theorem wheel_stays_in_order_witness:
  "wheel_inv 1 (snd (timer_ticks [[(demo_event 1, 300)], []] (timer_init 0 0 0))) \<and>
   length (fst (timer_ticks [[(demo_event 1, 300)], []] (timer_init 0 0 0))) = 2"
  using wheel_stays_in_order [where T = "timer_init 0 0 0" and bs = "[[(demo_event 1, 300)], []]",
      OF wheel_inv_init]
  by (simp add: valid_batch_def)

text \<open>
  C23. The lock of the wheel is free while \<open>timer_execute\<close> dispatches. Whatever timers other threads add
  then, an update dispatches exactly the events that wait for the next tick, its loop ends, and
  the additions have the effect of additions made after the update: none is dispatched by it.
\<close>

theorem update_with_concurrent_adds:
  assumes "wheel_inv 1 T" and "\<forall>adds \<in> set env2. valid_adds adds"
  shows "timer_update env1 env2 T =
     (map delivery (pending T (time T + 1)),
      add_all (if pending T (time T + 1) = [] \<or> env2 = [] then [] else hd env2)
        (snd (timer_update [] [] T)))"
  using timer_update_env [OF assms(1), of env2 env1] timer_update_plain [OF assms(1)] assms(2)
  by (simp add: add_all_def)

theorem update_with_concurrent_adds_witness:
  "fst (timer_update [] [[(demo_event 2, 1)]] (timer_add (demo_event 1) 1 (timer_init 0 0 0))) =
     [delivery (demo_event 1)]"
proof -
  let ?T = "timer_add (demo_event 1) 1 (timer_init 0 0 0)"
  have inv: "wheel_inv 1 ?T" using wheel.inv_add [OF wheel_inv_init] by simp
  have "waiting ?T 1 = [demo_event 1]"
    using wheel.waiting_add [OF wheel_inv_init, of 1 1] by (simp add: waiting_def)
  then have "pending ?T (time ?T + 1) = [demo_event 1]" by (simp add: waiting_def)
  then show ?thesis
    using update_with_concurrent_adds [OF inv, where ?env1.0 = "[]" and ?env2.0 = "[[(demo_event 2, 1)]]"]
    by (simp add: valid_batch_def)
qed

lemma timer_ticks_clock:
  assumes "wheel_inv 1 T" and "\<forall>b \<in> set bs. valid_adds b"
  shows "time (snd (timer_ticks bs T)) = time T + of_nat (length bs)"
  using assms
proof (induction bs arbitrary: T)
  case (Cons b bs)
  let ?T0 = "add_all b T"
  have T0: "wheel_inv 1 ?T0" using wheel_inv_add_all [OF Cons.prems(1), of b] Cons.prems(2) by simp
  have "time (snd (timer_ticks bs (tick ?T0))) = time (tick ?T0) + of_nat (length bs)"
    using Cons.IH [OF tick_correct(1) [OF T0]] Cons.prems(2) by simp
  then show ?case
    by (simp add: timer_update_plain [OF T0] tick_correct(2) [OF T0] split_def Let_def add.assoc)
qed simp

text \<open>
  \<open>update_time\<close> keeps the wheel in step with the clock of the machine: it performs one update per
  tick that has passed since the last call, so that the clock of the wheel advances by exactly that
  number, and a clock reading that lies in the past dispatches nothing.
\<close>

theorem update_time_in_step:
  assumes "wheel_inv 1 T" and "\<forall>i. valid_adds (adds i)"
    and "current_tick T \<le> ct" and "ct - current_tick T < 2 ^ 32"
  shows "time (snd (update_time adds ct T)) = time T + ucast (ct - current_tick T) \<and>
     length (fst (update_time adds ct T)) = unat (ct - current_tick T)"
proof -
  let ?n = "unat (ucast (ct - current_tick T) :: u32)" and ?bs = "map adds [0..<unat (ucast (ct - current_tick T) :: u32)]"
  let ?T1 = "T\<lparr>current_tick := ct, current := current T + ucast (ucast (ct - current_tick T) :: u32)\<rparr>"
  have n: "?n = unat (ct - current_tick T)"
    using assms(4) by (simp add: unsigned_ucast_eq take_bit_nat_eq_self word_less_nat_alt)
  have "slot_list ?T1 s = slot_list T s" for s by (cases s) simp_all
  then have inv: "wheel_inv 1 ?T1" using assms(1) by (simp add: wheel_inv_def)
  have v: "\<forall>b \<in> set ?bs. valid_adds b" using assms(2) by simp
  have len: "length ?bs < 2 ^ 32" using unsigned_less [of "ucast (ct - current_tick T) :: u32"] by simp
  show ?thesis
  proof (cases "ct = current_tick T")
    case False
    then have "update_time adds ct T = timer_ticks ?bs ?T1"
      using assms(3) by (simp add: update_time_def Let_def)
    moreover have "length (fst (timer_ticks ?bs ?T1)) = ?n"
      using wheel.ticks_correct [OF inv bspec [OF v] len] by simp
    ultimately show ?thesis using timer_ticks_clock [OF inv v] n by simp
  qed (simp add: update_time_def)
qed

theorem update_time_in_step_witness:
  "time (snd (update_time (\<lambda>_. [(demo_event 1, 4)]) 17 (timer_init 0 0 10))) = 7"
  using update_time_in_step [where T = "timer_init 0 0 10" and ct = 17
      and adds = "\<lambda>_. [(demo_event 1, 4)]", OF wheel_inv_init]
  by (simp add: valid_batch_def timer_init_def create_timer_def)

end
