(* ===== verification/Timer_Service.thy ===== *)
theory Timer_Service
  imports Timer_Run Service_Manager
begin

text \<open>
  The timer meets the service manager: \<open>timer_manager::timeout\<close>, and the tick that updates the wheel
  and pushes the timeout messages into the queues of the services.
\<close>

definition timeout :: "handle \<Rightarrow> int \<Rightarrow> int \<Rightarrow> timer \<times> svc_state \<Rightarrow> (int \<times> timer \<times> svc_state) option" where
  "timeout h t session = (\<lambda>(T, s).
     if t \<le> 0 then
       do {
         (r, s1) \<leftarrow> push_service_message h (timeout_message session) s;
         Some (if r \<noteq> 0 then - 1 else session, T, s1)
       }
     else Some (session, timer_add \<lparr>ev_svc_handle = h, ev_session = session\<rparr> t T, s))"

text \<open>One tick: what the wheel dispatches is posted, in order.\<close>

definition timer_tick :: "timer \<times> svc_state \<Rightarrow> (timer \<times> svc_state) option" where
  "timer_tick = (\<lambda>(T, s).
     let (evs, T1) = timer_update [] [] T
     in do { s1 \<leftarrow> post_all push_service_message evs s; Some (T1, s1) })"

fun timer_ticks_from :: "nat \<Rightarrow> timer \<times> svc_state \<Rightarrow> (timer \<times> svc_state) option" where
  "timer_ticks_from 0 p = Some p"
| "timer_ticks_from (Suc n) p = do { p1 \<leftarrow> timer_tick p; timer_ticks_from n p1 }"

text \<open>The timeout messages for a handle among a list of events.\<close>

definition timeouts_for :: "handle \<Rightarrow> timer_event list \<Rightarrow> service_message list" where
  "timeouts_for h evs = map (\<lambda>ev. timeout_message (ev_session ev)) (filter (\<lambda>ev. ev_svc_handle ev = h) evs)"

lemma timeouts_for_append [simp]: "timeouts_for h (xs @ ys) = timeouts_for h xs @ timeouts_for h ys"
  by (simp add: timeouts_for_def)

lemma posted_timeouts: "map snd (filter (\<lambda>d. fst d = h) (map delivery evs)) = timeouts_for h evs"
  by (simp add: timeouts_for_def delivery_def filter_map o_def)

lemma timer_tick_correct:
  assumes "wheel_inv 1 T" and "svc_inv s"
  shows "\<exists>s'. timer_tick (T, s) = Some (tick T, s') \<and> svc_inv s' \<and> known_handles s' = known_handles s \<and>
     (\<forall>h \<in> known_handles s. inbox s' h = inbox s h @ timeouts_for h (waiting T 1))"
  using services.post_all_correct [OF assms(2), of "map delivery (waiting T 1)"]
  by (auto simp: timer_tick_def timer_update_plain [OF assms(1)] waiting_def posted_timeouts)

lemma timer_ticks_from_correct:
  assumes "wheel_inv 1 T" and "svc_inv s" and "n < 2 ^ 32"
  shows "\<exists>T' s'. timer_ticks_from n (T, s) = Some (T', s') \<and> wheel_inv 1 T' \<and> svc_inv s' \<and>
     known_handles s' = known_handles s \<and>
     (\<forall>h \<in> known_handles s. inbox s' h = inbox s h @ timeouts_for h (concat (map (waiting T) [1..<Suc n])))"
  using assms
proof (induction n arbitrary: T s)
  case 0
  then show ?case by (simp add: timeouts_for_def)
next
  case (Suc n)
  obtain s1 where s1: "timer_tick (T, s) = Some (tick T, s1)" "svc_inv s1" "known_handles s1 = known_handles s"
      "\<forall>h \<in> known_handles s. inbox s1 h = inbox s h @ timeouts_for h (waiting T 1)"
    using timer_tick_correct [OF Suc.prems(1,2)] by blast
  have n: "n < 2 ^ 32" using Suc.prems(3) by simp
  obtain T' s' where IH: "timer_ticks_from n (tick T, s1) = Some (T', s')" "wheel_inv 1 T'" "svc_inv s'"
      "known_handles s' = known_handles s1"
      "\<forall>h \<in> known_handles s1. inbox s' h = inbox s1 h @ timeouts_for h (concat (map (waiting (tick T)) [1..<Suc n]))"
    using Suc.IH [OF tick_correct(1) [OF Suc.prems(1)] s1(2) n] by blast
  have "map (waiting (tick T)) [1..<Suc n] = map (\<lambda>k. waiting T (Suc k)) [1..<Suc n]"
    using waiting_tick [OF Suc.prems(1)] Suc.prems(3) by (intro map_cong) auto
  also have "\<dots> = map (waiting T) [Suc 1..<Suc (Suc n)]"
    by (simp only: map_Suc_upt [symmetric] map_map o_def)
  finally have "waiting T 1 @ concat (map (waiting (tick T)) [1..<Suc n]) = concat (map (waiting T) [1..<Suc (Suc n)])"
    by (simp add: upt_conv_Cons del: upt_Suc)
  then show ?case using s1 IH by (auto simp flip: timeouts_for_append)
qed

lemma timeout_correct:
  assumes "wheel_inv 1 T" and "svc_inv s" and "0 < t" and "t < 2 ^ 31" and "h \<in> known_handles s"
    and "timeout h t session (T, s) = Some (r, T1, s1)" and "n \<le> nat t"
  shows "r = session \<and> s1 = s \<and>
     (\<exists>T' s'. timer_ticks_from n (T1, s1) = Some (T', s') \<and>
        inbox s' h = inbox s h @ timeouts_for h (concat (map (waiting T) [1..<Suc n])) @
          (if n = nat t then [timeout_message session] else []))"
proof -
  let ?ev = "\<lparr>ev_svc_handle = h, ev_session = session\<rparr>"
  have r: "r = session" "s1 = s" "T1 = timer_add ?ev t T" using assms(3,6) by (auto simp: timeout_def)
  have inv1: "wheel_inv 1 T1" unfolding r by (rule wheel.inv_add [OF assms(1,3,4)])
  have n: "n < 2 ^ 32" using assms(4,7) by simp
  obtain T' s' where s': "timer_ticks_from n (T1, s) = Some (T', s')"
      "inbox s' h = inbox s h @ timeouts_for h (concat (map (waiting T1) [1..<Suc n]))"
    using timer_ticks_from_correct [OF inv1 assms(2) n] assms(5) by blast
  have w: "waiting T1 k = waiting T k @ (if k = nat t then [?ev] else [])" if "k \<in> set [1..<Suc n]" for k
    using wheel.waiting_add [OF assms(1,3,4), of k ?ev] that n assms(3) by (auto simp: r(3))
  have "concat (map (waiting T1) [1..<Suc n]) =
      concat (map (waiting T) [1..<Suc n]) @ (if n = nat t then [?ev] else [])"
    using w assms(7)
  proof (induction n)
    case (Suc m)
    have IH: "concat (map (waiting T1) [1..<Suc m]) = concat (map (waiting T) [1..<Suc m])"
      using Suc.IH Suc.prems by simp
    show ?case using Suc.prems(1) [of "Suc m"] IH by simp
  qed (use assms(3) in simp)
  then show ?thesis using r s' by (auto simp: timeouts_for_def)
qed

subsection \<open>Properties\<close>

text \<open>
  C4. Asking for a timeout leads to exactly one message, at the right tick: \<open>timeout\<close> with a positive
  delay \<open>t\<close> returns the session and changes no inbox; the updates before the \<open>t\<close>-th add to the inbox
  of the service only what was due anyway, and the \<open>t\<close>-th update adds the response message with
  that session, behind the messages of the timeouts that were asked for earlier for the same tick.
\<close>

theorem timeout_delivered_once:
  assumes "wheel_inv 1 T" and "svc_inv s" and "0 < t" and "t < 2 ^ 31" and "h \<in> known_handles s"
    and "timeout h t session (T, s) = Some (r, T1, s1)" and "n \<le> nat t"
  shows "r = session \<and> s1 = s \<and>
     (\<exists>T' s'. timer_ticks_from n (T1, s1) = Some (T', s') \<and>
        inbox s' h = inbox s h @ timeouts_for h (concat (map (waiting T) [1..<Suc n])) @
          (if n = nat t then [timeout_message session] else []))"
  using assms by (rule timeout_correct)

theorem timeout_delivered_once_witness:
  "\<exists>T1 T' s'. timeout 1 300 7 (timer_init 0 0 0, demo_state) = Some (7, T1, demo_state) \<and>
     timer_ticks_from 300 (T1, demo_state) = Some (T', s') \<and>
     inbox s' 1 = inbox demo_state 1 @ [timeout_message 7]"
proof -
  let ?T1 = "timer_add \<lparr>ev_svc_handle = 1, ev_session = 7\<rparr> 300 (timer_init 0 0 0)"
  have t: "timeout 1 300 7 (timer_init 0 0 0, demo_state) = Some (7, ?T1, demo_state)"
    by (simp add: timeout_def)
  have "waiting (timer_init 0 0 0) k = []" for k by (simp add: waiting_def)
  then have w: "concat (map (waiting (timer_init 0 0 0)) ks) = []" for ks by simp
  have known: "1 \<in> known_handles demo_state" by (simp add: demo_known)
  show ?thesis
    using timeout_delivered_once [OF wheel_inv_init demo_inv _ _ known t, where n = 300] t w
    by (simp add: timeouts_for_def)
qed

end
