(* ===== verification/Node_Env.thy ===== *)
theory Node_Env
  imports C_Text
begin

text \<open>
  The environment of a node (\<open>node_env.cpp\<close>), write-once variables kept as globals of a Lua state,
  and the configuration (\<open>node_config.cpp\<close>) that fills it from the table which the configuration
  script returns and reads the settings of the node back from it.
\<close>

subsection \<open>The environment\<close>

type_synonym env = "string \<rightharpoonup> string"

definition get_env :: "string \<Rightarrow> env \<Rightarrow> string option" where
  "get_env k e = e k"

text \<open>A variable can be set once: the assertion aborts the process when it has a value.\<close>

definition set_env :: "string \<Rightarrow> string \<Rightarrow> env \<Rightarrow> env option" where
  "set_env k v e = do { c_assert (e k = None); Some (e(k \<mapsto> v)) }"

text \<open>\<open>std::stoi\<close>: throws, which ends the process, when there is no digit or the number is no \<open>int\<close>.\<close>

definition stoi :: "string \<Rightarrow> int option" where
  "stoi s =
     (let (_, s1) = skip_sign s; v = strtol10 s in
      if s1 = [] \<or> (case hex_value (hd s1) of None \<Rightarrow> True | Some d \<Rightarrow> 10 \<le> d) then None
      else if v < - (2 ^ 31) \<or> 2 ^ 31 \<le> v then None
      else Some v)"

definition get_int32 :: "string \<Rightarrow> int \<Rightarrow> env \<Rightarrow> (int \<times> env) option" where
  "get_int32 k d e =
     (case get_env k e of
        None \<Rightarrow> do { e1 \<leftarrow> set_env k (show_int d) e; Some (d, e1) }
      | Some s \<Rightarrow> do { v \<leftarrow> stoi s; Some (v, e) })"

definition set_int32 :: "string \<Rightarrow> int \<Rightarrow> env \<Rightarrow> env option" where
  "set_int32 k v e = set_env k (show_int v) e"

definition bool_text :: "bool \<Rightarrow> string" where
  "bool_text b = (if b then ''true'' else ''false'')"

definition get_boolean :: "string \<Rightarrow> int \<Rightarrow> env \<Rightarrow> (int \<times> env) option" where
  "get_boolean k d e =
     (case get_env k e of
        None \<Rightarrow> do { e1 \<leftarrow> set_env k (bool_text (d \<noteq> 0)) e; Some (d, e1) }
      | Some s \<Rightarrow> Some (if s = ''true'' then 1 else 0, e))"

definition set_boolean :: "string \<Rightarrow> bool \<Rightarrow> env \<Rightarrow> env option" where
  "set_boolean k v e = set_env k (bool_text v) e"

definition get_string :: "string \<Rightarrow> string option \<Rightarrow> env \<Rightarrow> (string option \<times> env) option" where
  "get_string k d e =
     (case get_env k e of
        None \<Rightarrow>
          (case d of
             None \<Rightarrow> Some (None, e)
           | Some v \<Rightarrow> do { e1 \<leftarrow> set_env k v e; Some (get_env k e1, e1) })
      | Some s \<Rightarrow> Some (Some s, e))"

definition set_string :: "string \<Rightarrow> string \<Rightarrow> env \<Rightarrow> env option" where
  "set_string k v e = set_env k v e"

subsection \<open>The configuration\<close>

text \<open>
  The table that the configuration script returns, in the order in which \<open>lua_next\<close> visits it. A
  key that is no string and a value without a text end the process.
\<close>

datatype config_key = Key string | Other_key
datatype config_value =
  Bool_value bool | Text_value string | Table_value "(config_key \<times> config_value) list" | Other_value

definition sub_key :: "string \<Rightarrow> string \<Rightarrow> string" where
  "sub_key parent_key key = (if parent_key \<noteq> [] then parent_key @ ''_'' @ key else key)"

function init_env :: "string \<Rightarrow> (config_key \<times> config_value) list \<Rightarrow> env \<Rightarrow> env option" where
  "init_env p [] e = Some e"
| "init_env p ((Other_key, v) # r) e = None"
| "init_env p ((Key k, Bool_value b) # r) e = do { e1 \<leftarrow> set_boolean (sub_key p k) b e; init_env p r e1 }"
| "init_env p ((Key k, Table_value t) # r) e = do { e1 \<leftarrow> init_env (sub_key p k) t e; init_env p r e1 }"
| "init_env p ((Key k, Text_value s) # r) e = do { e1 \<leftarrow> set_string (sub_key p k) s e; init_env p r e1 }"
| "init_env p ((Key k, Other_value) # r) e = None"
  by pat_completeness auto
termination
  by (relation "measure (\<lambda>(p, t, e). size_list (size_prod (\<lambda>_. 0) size) t)") auto

record node_config =
  cf_thread :: int
  cf_cservice_path :: "string option"
  cf_bootstrap :: "string option"
  cf_daemon_pid_file :: "string option"
  cf_profile :: int

text \<open>The part of \<open>load\<close> after the script has run.\<close>

definition load_config :: "(config_key \<times> config_value) list \<Rightarrow> env \<Rightarrow> (node_config \<times> env) option" where
  "load_config t e =
     do {
       e0 \<leftarrow> init_env [] t e;
       (th, e1) \<leftarrow> get_int32 ''thread'' 8 e0;
       (path, e2) \<leftarrow> get_string ''cservice_path'' (Some ''./cservice/?.so'') e1;
       (boot, e3) \<leftarrow> get_string ''bootstrap'' (Some ''snlua bootstrap'') e2;
       (daemon, e4) \<leftarrow> get_string ''daemon'' None e3;
       (prof, e5) \<leftarrow> get_boolean ''profile'' 1 e4;
       Some (\<lparr>cf_thread = th, cf_cservice_path = path, cf_bootstrap = boot, cf_daemon_pid_file = daemon, cf_profile = prof\<rparr>, e5)
     }"

subsection \<open>What the configuration sets\<close>

text \<open>The variables that a table stands for: one for each leaf, named by the path to it.\<close>

function flatten :: "string \<Rightarrow> (config_key \<times> config_value) list \<Rightarrow> (string \<times> string) list option" where
  "flatten p [] = Some []"
| "flatten p ((Other_key, v) # r) = None"
| "flatten p ((Key k, Bool_value b) # r) = map_option (Cons (sub_key p k, bool_text b)) (flatten p r)"
| "flatten p ((Key k, Table_value t) # r) =
     do { a \<leftarrow> flatten (sub_key p k) t; b \<leftarrow> flatten p r; Some (a @ b) }"
| "flatten p ((Key k, Text_value s) # r) = map_option (Cons (sub_key p k, s)) (flatten p r)"
| "flatten p ((Key k, Other_value) # r) = None"
  by pat_completeness auto
termination
  by (relation "measure (\<lambda>(p, t). size_list (size_prod (\<lambda>_. 0) size) t)") auto

fun set_all :: "(string \<times> string) list \<Rightarrow> env \<Rightarrow> env option" where
  "set_all [] e = Some e"
| "set_all ((k, v) # r) e = do { e1 \<leftarrow> set_env k v e; set_all r e1 }"

lemma set_all_append: "set_all (xs @ ys) e = Option.bind (set_all xs e) (set_all ys)"
proof (induction xs arbitrary: e)
  case (Cons kv xs)
  then show ?case by (cases kv; cases "set_env (fst kv) (snd kv) e") simp_all
qed simp

lemma init_env_flatten: "init_env p t e = Option.bind (flatten p t) (\<lambda>kvs. set_all kvs e)"
proof (induction p t e rule: init_env.induct)
  case (3 p k b r e)
  then show ?case
    by (cases "set_env (sub_key p k) (bool_text b) e"; cases "flatten p r") (auto simp: set_boolean_def)
next
  case (4 p k t r e)
  then show ?case
    by (cases "flatten (sub_key p k) t"; cases "flatten p r"; cases "set_all (the (flatten (sub_key p k) t)) e")
      (auto simp: set_all_append)
next
  case (5 p k s r e)
  then show ?case by (cases "set_env (sub_key p k) s e"; cases "flatten p r") (auto simp: set_string_def)
qed simp_all

lemma set_all_correct:
  "set_all kvs e = Some e' \<longleftrightarrow>
     distinct (map fst kvs) \<and> (\<forall>k \<in> fst ` set kvs. e k = None) \<and> e' = e ++ map_of kvs"
proof (induction kvs arbitrary: e)
  case (Cons kv kvs)
  obtain k v where kv: "kv = (k, v)" by (cases kv)
  have m: "e(k \<mapsto> v) ++ map_of kvs = e ++ map_of (kv # kvs)" if "k \<notin> fst ` set kvs"
  proof -
    have "map_of kvs k = None" using that by (simp add: map_of_eq_None_iff)
    then show ?thesis by (simp add: kv map_add_upd_left dom_def)
  qed
  have "set_all (kv # kvs) e = Some e' \<longleftrightarrow> e k = None \<and> set_all kvs (e(k \<mapsto> v)) = Some e'"
    by (simp add: kv set_env_def)
  also have "\<dots> \<longleftrightarrow> e k = None \<and> distinct (map fst kvs) \<and> (\<forall>j \<in> fst ` set kvs. (e(k \<mapsto> v)) j = None) \<and>
      e' = e(k \<mapsto> v) ++ map_of kvs" by (simp only: Cons.IH)
  also have "\<dots> \<longleftrightarrow> e k = None \<and> k \<notin> fst ` set kvs \<and> distinct (map fst kvs) \<and> (\<forall>j \<in> fst ` set kvs. e j = None) \<and>
      e' = e ++ map_of (kv # kvs)"
    using m by (cases "k \<in> fst ` set kvs") (auto simp del: map_of.simps)
  finally show ?case unfolding kv by (auto simp del: map_of.simps set_all.simps)
qed auto

lemma stoi_show_int:
  assumes "- (2 ^ 31) \<le> i" and "i < 2 ^ 31"
  shows "stoi (show_int i) = Some i"
proof -
  have v: "strtol10 (show_int i) = i" using strtol10_show_int [of i "[]"] assms by simp
  have "\<not> is_space (CHR ''-'')" by (simp add: is_space_def)
  then have s: "snd (skip_sign (show_int i)) = show_dec (nat \<bar>i\<bar>)"
    using skip_sign_lower [of "digits 10 (nat i)" "[]"] by (simp add: skip_sign_def show_int_def show_dec_def)
  obtain d where d: "hex_value (hd (show_dec (nat \<bar>i\<bar>))) = Some d" "d < 10"
    using digits_less [of 10 "hd (digits 10 (nat \<bar>i\<bar>))" "nat \<bar>i\<bar>"]
    by (simp add: show_dec_def hd_map hex_value_char)
  have "show_dec (nat \<bar>i\<bar>) \<noteq> []" by (simp add: show_dec_def)
  then show ?thesis using assms v s d by (simp add: stoi_def split_def Let_def)
qed

subsection \<open>Properties\<close>

text \<open>
  Loading the configuration table sets exactly its leaves: \<open>_init_env\<close> succeeds if and only if every
  key is a string, every leaf has a text, no two leaves get the same joined name and none of the
  names is set already; then the environment has the text of each leaf under the names of the
  path joined by underscores, and is otherwise unchanged.
\<close>

theorem config_table_flattened:
  "init_env p t e = Some e' \<longleftrightarrow>
     (\<exists>kvs. flatten p t = Some kvs \<and> distinct (map fst kvs) \<and> (\<forall>k \<in> fst ` set kvs. e k = None) \<and>
        e' = e ++ map_of kvs)"
  by (auto simp: init_env_flatten bind_eq_Some_conv set_all_correct)

theorem config_table_flattened_witness:
  "\<exists>kvs. flatten [] [(Key ''thread'', Text_value ''8''),
       (Key ''logger'', Table_value [(Key ''type'', Text_value ''daily''), (Key ''on'', Bool_value True)])] = Some kvs \<and>
     init_env [] [(Key ''thread'', Text_value ''8''),
       (Key ''logger'', Table_value [(Key ''type'', Text_value ''daily''), (Key ''on'', Bool_value True)])] Map.empty =
     Some (Map.empty ++ map_of kvs)"
proof -
  let ?t = "[(Key ''thread'', Text_value ''8''),
       (Key ''logger'', Table_value [(Key ''type'', Text_value ''daily''), (Key ''on'', Bool_value True)])]"
  let ?kvs = "[(''thread'', ''8''), (''logger_type'', ''daily''), (''logger_on'', ''true'')]"
  have f: "flatten [] ?t = Some ?kvs" by (simp add: sub_key_def bool_text_def)
  have "init_env [] ?t Map.empty = Some (Map.empty ++ map_of ?kvs)"
    by (rule config_table_flattened [THEN iffD2], rule exI [of _ ?kvs]) (use f in simp)
  with f show ?thesis by blast
qed

text \<open>
  Numbers in the environment come back as they were stored: \<open>set_int32\<close> followed by \<open>get_int32\<close>
  gives the same \<open>int\<close>, whatever the default, and a second \<open>set_int32\<close> of the same name aborts.
\<close>

theorem env_int_roundtrip:
  assumes "e k = None" and "- (2 ^ 31) \<le> v" and "v < 2 ^ 31"
  shows "\<exists>e1. set_int32 k v e = Some e1 \<and> get_int32 k d e1 = Some (v, e1) \<and> set_int32 k w e1 = None"
  using assms stoi_show_int [OF assms(2,3)] by (simp add: set_int32_def get_int32_def set_env_def get_env_def)

theorem env_int_roundtrip_witness:
  "\<exists>e1. set_int32 ''thread'' 8 Map.empty = Some e1 \<and> get_int32 ''thread'' 4 e1 = Some (8, e1) \<and>
     set_int32 ''thread'' 9 e1 = None"
  by (rule env_int_roundtrip) simp_all

text \<open>
  An empty \<open>daemon\<close> entry does not switch the daemon mode off: the loaded setting is the empty
  string and not a null pointer, and the node starts as a daemon for every setting but the null pointer.
\<close>

theorem empty_daemon_entry_is_kept:
  "\<exists>cf e. load_config [(Key ''daemon'', Text_value [])] Map.empty = Some (cf, e) \<and> cf_daemon_pid_file cf = Some []"
  by (simp add: load_config_def sub_key_def set_string_def set_env_def get_int32_def get_string_def get_boolean_def get_env_def)

end
