(* ===== verification/Service_Command.thy ===== *)
theory Service_Command
  imports Timer_Service Node_Env
begin

text \<open>
  The commands of a service to its node (\<open>service_command.cpp\<close>): the text interface to timers, names,
  addresses, launching, killing, the environment, the exit monitor, statistics and the log file of
  a service. Each command gets the calling context and a parameter text, which may be a null
  pointer, and returns a text or a null pointer.
\<close>

subsection \<open>State\<close>

text \<open>The parts of a node that commands reach.\<close>

record node_state =
  nd_svc :: svc_state
  nd_timer :: timer
  nd_env :: env
  nd_monitor_exit :: handle
  nd_profile :: bool

text \<open>
  What lies outside: the modules that can be loaded, as the \<open>init\<close> method of their services; the
  \<open>signal\<close> method of a service; whether a file can be opened for appending; the thread clock; and what
  an uninitialised buffer holds.
\<close>

record outside =
  os_module :: "string \<Rightarrow> (string option \<Rightarrow> cid \<Rightarrow> svc_state \<Rightarrow> (bool \<times> svc_state) option) option"
  os_signal :: "cid \<Rightarrow> int \<Rightarrow> svc_state \<Rightarrow> svc_state option"
  os_fopen :: "string \<Rightarrow> bool"
  os_thread_time :: u64
  os_junk :: string

type_synonym command = "cid \<Rightarrow> string option \<Rightarrow> node_state \<Rightarrow> (string option \<times> node_state) option"

definition lift_svc :: "(svc_state \<Rightarrow> ('a \<times> svc_state) option) \<Rightarrow> node_state \<Rightarrow> ('a \<times> node_state) option" where
  "lift_svc f n = do { (r, s) \<leftarrow> f (nd_svc n); Some (r, n\<lparr>nd_svc := s\<rparr>) }"

definition node_log :: "cid \<Rightarrow> log_level \<Rightarrow> string \<Rightarrow> node_state \<Rightarrow> node_state option" where
  "node_log c level t n = do { s \<leftarrow> log_msg (Some c) level t (nd_svc n); Some (n\<lparr>nd_svc := s\<rparr>) }"

text \<open>A result written to \<open>cmd_result_\<close> and returned.\<close>

definition cmd_return :: "cid \<Rightarrow> string \<Rightarrow> node_state \<Rightarrow> (string option \<times> node_state) option" where
  "cmd_return c r n = Some (Some r, n\<lparr>nd_svc := ctx_update c (svc_cmd_result_update (\<lambda>_. r)) (nd_svc n)\<rparr>)"

subsection \<open>Helpers\<close>

definition to_svc_handle :: "cid \<Rightarrow> string \<Rightarrow> node_state \<Rightarrow> (handle \<times> node_state) option" where
  "to_svc_handle c param n =
     (if param \<noteq> [] \<and> hd param = CHR '':'' then Some (parse_handle (tl param), n)
      else if param \<noteq> [] \<and> hd param = CHR ''.'' then Some (find_by_name (names (nd_svc n)) (tl param), n)
      else do { n1 \<leftarrow> node_log c LOG_LEVEL_ERROR (''Can't convert '' @ param @ '' to svc_handle'') n; Some (0, n1) })"

definition handle_exit :: "cid \<Rightarrow> handle \<Rightarrow> node_state \<Rightarrow> node_state option" where
  "handle_exit c h0 n =
     do {
       x \<leftarrow> ctx_heap (nd_svc n) c;
       let h = (if h0 = 0 then svc_handle x else h0);
       n1 \<leftarrow> node_log c LOG_LEVEL_INFO (if h0 = 0 then ''KILL self'' else ''KILL :'' @ show_HEX h) n;
       n2 \<leftarrow> (if nd_monitor_exit n1 \<noteq> 0 then
                do { (_, n2) \<leftarrow> lift_svc (send (Some c) h (nd_monitor_exit n1)
                       (msg_type_code SERVICE_MSG_TYPE_CLIENT) 0 None 0) n1; Some n2 }
              else Some n1);
       (_, n3) \<leftarrow> lift_svc (unregister_service h) n2;
       Some n3
     }"

subsection \<open>Timers\<close>

definition cmd_timeout :: command where
  "cmd_timeout c param n =
     do {
       p \<leftarrow> param;
       let ticks = to_int32 (strtol10 p);
       x \<leftarrow> ctx_heap (nd_svc n) c;
       let (session, x1) = new_session x;
       let s1 = (nd_svc n)\<lparr>ctx_heap := (ctx_heap (nd_svc n))(c \<mapsto> x1)\<rparr>;
       (_, T, s2) \<leftarrow> timeout (svc_handle x1) ticks session (nd_timer n, s1);
       cmd_return c (show_int session) (n\<lparr>nd_svc := s2, nd_timer := T\<rparr>)
     }"

subsection \<open>Names and addresses\<close>

definition address :: "handle \<Rightarrow> string" where
  "address h = CHR '':'' # show_hex h"

definition cmd_register :: command where
  "cmd_register c param n =
     do {
       x \<leftarrow> ctx_heap (nd_svc n) c;
       (case param of
          None \<Rightarrow> cmd_return c (address (svc_handle x)) n
        | Some p \<Rightarrow>
            (if p = [] then cmd_return c (address (svc_handle x)) n
             else if hd p = CHR ''.'' then lift_svc (set_handle_by_name (tl p) (svc_handle x)) n
             else do { n1 \<leftarrow> node_log c LOG_LEVEL_ERROR (''Can't register global name '' @ p @ '' in C'') n; Some (None, n1) }))
     }"

definition cmd_query :: command where
  "cmd_query c param n =
     do {
       p \<leftarrow> param;
       let h = (if p \<noteq> [] \<and> hd p = CHR ''.'' then find_by_name (names (nd_svc n)) (tl p) else 0);
       (if h \<noteq> 0 then cmd_return c (address h) n else Some (None, n))
     }"

text \<open>
  \<open>sscanf\<close> with two words: white space, a word, white space, a word. A word that is missing leaves its
  buffer as it was.
\<close>

definition scan_word :: "string \<Rightarrow> string \<times> string" where
  "scan_word s = (let s1 = dropWhile is_space s in (takeWhile (\<lambda>c. \<not> is_space c) s1, dropWhile (\<lambda>c. \<not> is_space c) s1))"

definition cmd_name :: "outside \<Rightarrow> command" where
  "cmd_name out c param n =
     do {
       p \<leftarrow> param;
       let (w1, r1) = scan_word p;
       let (w2, _) = scan_word r1;
       let name = (if w1 = [] then os_junk out else w1);
       let hstr = (if w2 = [] then os_junk out else w2);
       let h = (if hstr \<noteq> [] \<and> hd hstr = CHR '':'' then parse_handle (tl hstr) else 0);
       (if h = 0 then Some (None, n)
        else if name \<noteq> [] \<and> hd name = CHR ''.'' then lift_svc (set_handle_by_name (tl name) h) n
        else do { n1 \<leftarrow> node_log c LOG_LEVEL_ERROR (''Can't set global name '' @ name @ '' in C'') n; Some (None, n1) })
     }"

subsection \<open>Life and death\<close>

definition cmd_exit :: command where
  "cmd_exit c param n = do { n1 \<leftarrow> handle_exit c 0 n; Some (None, n1) }"

definition cmd_kill :: command where
  "cmd_kill c param n =
     do {
       p \<leftarrow> param;
       (h, n1) \<leftarrow> to_svc_handle c p n;
       (if h \<noteq> 0 then do { n2 \<leftarrow> handle_exit c h n1; Some (None, n2) } else Some (None, n1))
     }"

text \<open>
  \<open>strsep\<close>: the text up to the first delimiter, and what follows it, if there is one.
\<close>

definition strsep :: "string \<Rightarrow> string \<Rightarrow> string \<times> string option" where
  "strsep delims s =
     (takeWhile (\<lambda>ch. ch \<notin> set delims) s,
      case dropWhile (\<lambda>ch. ch \<notin> set delims) s of [] \<Rightarrow> None | _ # r \<Rightarrow> Some r)"

definition newlines :: string where "newlines = [CHR 0x0D, CHR 0x0A]"

definition cmd_launch :: "outside \<Rightarrow> command" where
  "cmd_launch out c param n =
     do {
       p \<leftarrow> param;
       let (mod_name, rest) = strsep ('' '' @ [CHR 0x09] @ newlines) p;
       let args = map_option (\<lambda>r. fst (strsep newlines r)) rest;
       (r, n1) \<leftarrow> lift_svc
          (create_service (nd_profile n) (os_module out mod_name \<noteq> None)
             (case os_module out mod_name of None \<Rightarrow> (\<lambda>_ _. None) | Some init \<Rightarrow> init args)
             mod_name (case args of None \<Rightarrow> [] | Some a \<Rightarrow> a)) n;
       (case r of
          None \<Rightarrow> Some (None, n1)
        | Some d \<Rightarrow>
            do { x \<leftarrow> ctx_heap (nd_svc n1) d; cmd_return c (id_to_hex (of_nat (svc_handle x))) n1 })
     }"

definition cmd_abort :: command where
  "cmd_abort c param n = do { s \<leftarrow> unregister_service_all (nd_svc n); Some (None, n\<lparr>nd_svc := s\<rparr>) }"

definition cmd_monitor :: command where
  "cmd_monitor c param n =
     (case param of
        None \<Rightarrow> (if nd_monitor_exit n \<noteq> 0 then cmd_return c (address (nd_monitor_exit n)) n else Some (None, n))
      | Some p \<Rightarrow>
          (if p = [] then (if nd_monitor_exit n \<noteq> 0 then cmd_return c (address (nd_monitor_exit n)) n else Some (None, n))
           else do { (h, n1) \<leftarrow> to_svc_handle c p n; Some (None, n1\<lparr>nd_monitor_exit := h\<rparr>) }))"

subsection \<open>The environment\<close>

definition cmd_get_env :: command where
  "cmd_get_env c param n = do { k \<leftarrow> param; Some (get_env k (nd_env n), n) }"

text \<open>The key is the text up to the first space, the value everything behind it.\<close>

definition cmd_set_env :: command where
  "cmd_set_env c param n =
     do {
       p \<leftarrow> param;
       (case dropWhile (\<lambda>ch. ch \<noteq> CHR '' '') p of
          [] \<Rightarrow> Some (None, n)
        | _ # v \<Rightarrow> do { e \<leftarrow> set_env (takeWhile (\<lambda>ch. ch \<noteq> CHR '' '') p) v (nd_env n); Some (None, n\<lparr>nd_env := e\<rparr>) })
     }"

definition cmd_start_time :: command where
  "cmd_start_time c param n = cmd_return c (show_dec (unat (start_seconds (nd_timer n)))) n"

subsection \<open>Statistics\<close>

definition cmd_stat :: "outside \<Rightarrow> command" where
  "cmd_stat out c param n =
     do {
       p \<leftarrow> param;
       x \<leftarrow> ctx_heap (nd_svc n) c;
       (if p = ''mqlen'' then
          do { q \<leftarrow> svc_queue x; y \<leftarrow> mq_heap (nd_svc n) q; cmd_return c (show_int (int (mq_length y))) n }
        else if p = ''is_blocked'' then
          (if svc_is_blocked x then
             cmd_return c ''1'' (n\<lparr>nd_svc := ctx_update c (svc_is_blocked_update (\<lambda>_. False)) (nd_svc n)\<rparr>)
           else cmd_return c ''0'' n)
        else if p = ''cpu'' then cmd_return c (show_seconds (unat (svc_cpu_cost x))) n
        else if p = ''time'' then
          (if svc_profile x then cmd_return c (show_seconds (unat (os_thread_time out - svc_cpu_start x))) n
           else cmd_return c ''0'' n)
        else if p = ''message'' then cmd_return c (show_int (int (svc_message_count x))) n
        else cmd_return c [] n)
     }"

subsection \<open>The log file of a service\<close>

text \<open>
  \<open>open_log_file\<close> and \<open>close_log_file\<close> of \<open>service_log.cpp\<close>: what they write to the file is not part of
  the state, the messages to the logger are.
\<close>

definition open_log_file :: "outside \<Rightarrow> cid \<Rightarrow> handle \<Rightarrow> node_state \<Rightarrow> (bool \<times> node_state) option" where
  "open_log_file out c h n =
     (case get_env ''log_path'' (nd_env n) of
        None \<Rightarrow> Some (False, n)
      | Some path \<Rightarrow>
          (let file = path @ ''/'' @ zero_pad 8 (show_hex h) @ ''.log'' in
           if os_fopen out file then
             do { n1 \<leftarrow> node_log c LOG_LEVEL_INFO (''Open log file '' @ file) n; Some (True, n1) }
           else do { n1 \<leftarrow> node_log c LOG_LEVEL_ERROR (''Open log file '' @ file @ '' fail'') n; Some (False, n1) }))"

definition close_log_file :: "cid \<Rightarrow> handle \<Rightarrow> node_state \<Rightarrow> node_state option" where
  "close_log_file c h n = node_log c LOG_LEVEL_INFO (''Close log file :'' @ hex08 (of_nat h)) n"

text \<open>The commands act on a grabbed context; \<open>with_service\<close> is their common frame.\<close>

definition with_service ::
  "cid \<Rightarrow> string option \<Rightarrow> (handle \<Rightarrow> cid \<Rightarrow> node_state \<Rightarrow> node_state option) \<Rightarrow> node_state \<Rightarrow> (string option \<times> node_state) option" where
  "with_service c param f n =
     do {
       p \<leftarrow> param;
       (h, n1) \<leftarrow> to_svc_handle c p n;
       (if h = 0 then Some (None, n1)
        else
          (case grab h (nd_svc n1) of
             (None, _) \<Rightarrow> Some (None, n1)
           | (Some d, s2) \<Rightarrow>
               do {
                 n3 \<leftarrow> f h d (n1\<lparr>nd_svc := s2\<rparr>);
                 (_, n4) \<leftarrow> lift_svc (release_service d) n3;
                 Some (None, n4)
               }))
     }"

definition cmd_service_log_on :: "outside \<Rightarrow> command" where
  "cmd_service_log_on out c param n =
     with_service c param
       (\<lambda>h d n1.
          do {
            x \<leftarrow> ctx_heap (nd_svc n1) d;
            (if svc_log_open x then Some n1
             else
               do {
                 (ok, n2) \<leftarrow> open_log_file out c h n1;
                 (if ok then Some (n2\<lparr>nd_svc := ctx_update d (svc_log_open_update (\<lambda>_. True)) (nd_svc n2)\<rparr>) else Some n2)
               })
          }) n"

definition cmd_service_log_off :: command where
  "cmd_service_log_off c param n =
     with_service c param
       (\<lambda>h d n1.
          do {
            x \<leftarrow> ctx_heap (nd_svc n1) d;
            (if svc_log_open x then
               close_log_file c h (n1\<lparr>nd_svc := ctx_update d (svc_log_open_update (\<lambda>_. False)) (nd_svc n1)\<rparr>)
             else Some n1)
          }) n"

text \<open>The signal number follows the first space of the parameter; without one it is 0.\<close>

definition cmd_signal :: "outside \<Rightarrow> command" where
  "cmd_signal out c param n =
     with_service c param
       (\<lambda>h d n1.
          do {
            p \<leftarrow> param;
            let sig = (case dropWhile (\<lambda>ch. ch \<noteq> CHR '' '') p of [] \<Rightarrow> 0 | r \<Rightarrow> to_int32 (strtol0 r));
            s \<leftarrow> os_signal out d sig (nd_svc n1);
            Some (n1\<lparr>nd_svc := s\<rparr>)
          }) n"

subsection \<open>The table of commands\<close>

definition cmd_map :: "outside \<Rightarrow> (string \<times> command) list" where
  "cmd_map out =
     [(''TIMEOUT'', cmd_timeout), (''REGISTER'', cmd_register), (''QUERY'', cmd_query), (''NAME'', cmd_name out),
      (''EXIT'', cmd_exit), (''KILL'', cmd_kill), (''LAUNCH'', cmd_launch out), (''GET_ENV'', cmd_get_env),
      (''SET_ENV'', cmd_set_env), (''START_TIME'', cmd_start_time), (''ABORT'', cmd_abort),
      (''MONITOR'', cmd_monitor), (''STAT'', cmd_stat out), (''LOG_ON'', cmd_service_log_on out),
      (''LOG_OFF'', cmd_service_log_off), (''SIGNAL'', cmd_signal out)]"

definition exec :: "outside \<Rightarrow> string \<Rightarrow> command" where
  "exec out cmd c param n =
     (case map_of (cmd_map out) cmd of None \<Rightarrow> Some (None, n) | Some f \<Rightarrow> f c param n)"

subsection \<open>Addresses are read back\<close>

lemma parse_show_hex: "h < 2 ^ 32 \<Longrightarrow> parse_handle (show_hex h) = h"
proof -
  assume h: "h < 2 ^ 32"
  then have "strtoul16 (show_hex h) = of_nat h" by (intro strtoul16_show_hex) simp
  moreover have "unat (ucast (of_nat h :: u64) :: u32) = h"
    using h by (simp add: unsigned_ucast_eq take_bit_nat_eq_self unat_of_nat)
  ultimately show ?thesis by (simp add: parse_handle_def)
qed

text \<open>The texts that stand for a handle: the one of \<open>REGISTER\<close> and \<open>QUERY\<close>, and the one of \<open>LAUNCH\<close>.\<close>

lemma to_svc_handle_address:
  assumes "h < 2 ^ 32" and "a = address h \<or> a = id_to_hex (of_nat h)"
  shows "to_svc_handle c a n = Some (h, n)"
proof -
  have "unat (of_nat h :: u32) = h" using assms(1) by (simp add: unat_of_nat)
  then show ?thesis
    using assms(2) parse_show_hex [OF assms(1)] parse_hex08 [of "of_nat h"]
    by (auto simp: to_svc_handle_def address_def id_to_hex_def)
qed

subsection \<open>Changes of a context that the invariant does not see\<close>

lemma ctx_update_identity:
  assumes "\<And>x. svc_handle (f x) = svc_handle x" "\<And>x. svc_queue (f x) = svc_queue x" "\<And>x. svc_ref (f x) = svc_ref x"
  shows "slot_lookup (ctx_update c f s) = slot_lookup s" and "inbox (ctx_update c f s) = inbox s"
    and "known_handles (ctx_update c f s) = known_handles s" and "svc_inv s \<Longrightarrow> svc_inv (ctx_update c f s)"
    and "names (ctx_update c f s) = names s"
proof -
  show "names (ctx_update c f s) = names s" by (simp add: ctx_update_def)
  have "slot_lookup (ctx_update c f s) = slot_lookup s \<and> inbox (ctx_update c f s) = inbox s \<and>
      known_handles (ctx_update c f s) = known_handles s \<and> (svc_inv s \<longrightarrow> svc_inv (ctx_update c f s))"
  proof (cases "ctx_heap s c")
    case None
    then have "ctx_update c f s = s" by (simp add: ctx_update_def fun_upd_idem)
    then show ?thesis by simp
  next
    case (Some x)
    have r: "svc_inv s \<Longrightarrow> 1 \<le> svc_ref x" using svc_invD(4) [OF _ Some] by (simp add: context_ok_def)
    show ?thesis using same_identity [OF Some, of "f x"] r assms by (simp add: ctx_update_Some [OF Some])
  qed
  then show "slot_lookup (ctx_update c f s) = slot_lookup s" "inbox (ctx_update c f s) = inbox s"
    "known_handles (ctx_update c f s) = known_handles s" "svc_inv s \<Longrightarrow> svc_inv (ctx_update c f s)" by blast+
qed

lemmas cmd_result_identity = ctx_update_identity [of "svc_cmd_result_update (\<lambda>_. r)" for r, simplified]

subsection \<open>Exit\<close>

lemma node_log_correct:
  assumes "svc_inv (nd_svc n)" and "ctx_heap (nd_svc n) c \<noteq> None" and "4 + length t \<le> MAX_LOG_MSG_SIZE"
  shows "\<exists>s. node_log c level t n = Some (n\<lparr>nd_svc := s\<rparr>) \<and> svc_inv s \<and> ctx_heap s = ctx_heap (nd_svc n) \<and>
     slot_lookup s = slot_lookup (nd_svc n) \<and> (\<forall>g. g \<noteq> logger_handle (nd_svc n) \<longrightarrow> inbox s g = inbox (nd_svc n) g) \<and>
     names s = names (nd_svc n)"
proof -
  have "ctx_ptr_ok (Some c) (nd_svc n)" using assms(2) by (simp add: ctx_ptr_ok_def)
  from log_msg_correct [OF assms(1) this assms(3), of level] show ?thesis by (auto simp: node_log_def)
qed

lemma show_HEX_length: "h < 2 ^ 32 \<Longrightarrow> length (show_HEX h) \<le> 8"
  using digits_length [of h 16 8] by (simp add: show_HEX_def)

text \<open>Announcing an exit to the monitor service; an unknown monitor changes nothing.\<close>

lemma send_exit_note:
  assumes inv: "svc_inv s" and h: "h \<noteq> 0" and mo: "mo \<noteq> 0"
  shows "\<exists>r s'. send c h mo (msg_type_code SERVICE_MSG_TYPE_CLIENT) 0 None 0 s = Some (r, s') \<and> svc_inv s' \<and>
     slot_lookup s' = slot_lookup s \<and> names s' = names s \<and> ctx_heap s' = ctx_heap s \<and>
     inbox s' = (if mo \<in> known_handles s
                 then (inbox s)(mo := inbox s mo @ [sent_message h 0 None 0 (msg_type_code SERVICE_MSG_TYPE_CLIENT)])
                 else inbox s)"
proof -
  let ?m = "sent_message h 0 None 0 (msg_type_code SERVICE_MSG_TYPE_CLIENT)"
  have eq: "send c h mo (msg_type_code SERVICE_MSG_TYPE_CLIENT) 0 None 0 s =
      Option.bind (push_service_message mo ?m s) (\<lambda>(r, s2). if r \<noteq> 0 then Some (- 1, s2) else Some (0, s2))"
    using h mo by (simp add: send_def alloc_session_def copy_data_def Let_def MESSAGE_TAG_ALLOC_SESSION_def
        MESSAGE_TAG_DONT_COPY_def sent_message_def)
  show ?thesis
  proof (cases "slot_lookup s mo")
    case None
    then show ?thesis using inv by (simp add: eq push_service_message_unknown [OF None] known_handles_def dom_def del: msg_type_code.simps)
  next
    case (Some d)
    obtain x where x: "ctx_heap s d = Some x" using Some by (rule slot_lookup_context)
    obtain q b where q: "svc_queue x = Some q" "mq_body s q = Some b" by (rule context_queue [OF inv x])
    obtain s' where s': "push_service_message mo ?m s = Some (0, s')" "svc_inv s'" "mq_state.more s' = mq_state.more s"
      by (rule push_service_message_correct [OF inv Some x q])
    note more = svc_more_eq [OF s'(3)]
    have k: "mo \<in> known_handles s" using Some by (auto simp: known_handles_def)
    have "inbox s' = (inbox s)(mo := inbox s mo @ [?m])" using services.post_known [OF inv k, of ?m] s'(1) by auto
    then show ?thesis using s' k more slot_lookup_same [OF more(1-3)] by (simp add: eq del: msg_type_code.simps)
  qed
qed

lemma handle_exit_correct:
  assumes inv: "svc_inv (nd_svc n)" and x: "ctx_heap (nd_svc n) c = Some x"
    and look: "slot_lookup (nd_svc n) h = Some k" and h: "h < 2 ^ 32"
    and arg: "h0 = h \<and> h0 \<noteq> 0 \<or> h0 = 0 \<and> svc_handle x = h \<and> h \<noteq> 0"
  shows "\<exists>s. handle_exit c h0 n = Some (n\<lparr>nd_svc := s\<rparr>) \<and> svc_inv s \<and>
     slot_lookup s = (slot_lookup (nd_svc n))(h := None) \<and> names s = remove_names h (names (nd_svc n)) \<and>
     (let mo = nd_monitor_exit n in mo \<in> known_handles (nd_svc n) \<longrightarrow> mo \<noteq> 0 \<longrightarrow> mo \<noteq> h \<longrightarrow> mo \<noteq> logger_handle (nd_svc n) \<longrightarrow>
        inbox s mo = inbox (nd_svc n) mo @ [sent_message h 0 None 0 (msg_type_code SERVICE_MSG_TYPE_CLIENT)])"
proof -
  let ?t = "if h0 = 0 then ''KILL self'' else ''KILL :'' @ show_HEX h"
  have len: "4 + length ?t \<le> MAX_LOG_MSG_SIZE" using show_HEX_length [OF h] by (simp add: MAX_LOG_MSG_SIZE_def)
  have c: "ctx_heap (nd_svc n) c \<noteq> None" using x by simp
  obtain s1 where s1: "node_log c LOG_LEVEL_INFO ?t n = Some (n\<lparr>nd_svc := s1\<rparr>)" "svc_inv s1"
      "ctx_heap s1 = ctx_heap (nd_svc n)" "slot_lookup s1 = slot_lookup (nd_svc n)"
      "\<forall>g. g \<noteq> logger_handle (nd_svc n) \<longrightarrow> inbox s1 g = inbox (nd_svc n) g" and n1: "names s1 = names (nd_svc n)"
    using node_log_correct [OF inv c len, of LOG_LEVEL_INFO] by blast
  let ?mo = "nd_monitor_exit n"
  let ?m = "sent_message h 0 None 0 (msg_type_code SERVICE_MSG_TYPE_CLIENT)"
  have h0: "h \<noteq> 0" using arg by auto
  obtain s2 where s2: "(if ?mo \<noteq> 0 then do { (_, n2) \<leftarrow> lift_svc (send (Some c) h ?mo
          (msg_type_code SERVICE_MSG_TYPE_CLIENT) 0 None 0) (n\<lparr>nd_svc := s1\<rparr>); Some n2 } else Some (n\<lparr>nd_svc := s1\<rparr>)) =
        Some (n\<lparr>nd_svc := s2\<rparr>)" "svc_inv s2" "slot_lookup s2 = slot_lookup s1" "names s2 = names s1" "ctx_heap s2 = ctx_heap s1"
      "?mo \<noteq> 0 \<longrightarrow> ?mo \<in> known_handles s1 \<longrightarrow> inbox s2 ?mo = inbox s1 ?mo @ [?m]"
  proof (cases "?mo = 0")
    case True
    then show ?thesis using that [of s1] s1 by simp
  next
    case False
    obtain r s2 where "send (Some c) h ?mo (msg_type_code SERVICE_MSG_TYPE_CLIENT) 0 None 0 s1 = Some (r, s2)" "svc_inv s2"
        "slot_lookup s2 = slot_lookup s1" "names s2 = names s1" "ctx_heap s2 = ctx_heap s1"
        "inbox s2 = (if ?mo \<in> known_handles s1 then (inbox s1)(?mo := inbox s1 ?mo @ [?m]) else inbox s1)"
      using send_exit_note [OF s1(2) h0 False, of "Some c"] by blast
    then show ?thesis using that [of s2] False by (simp add: lift_svc_def del: msg_type_code.simps)
  qed
  have look2: "slot_lookup s2 h = Some k" using look s1(4) s2(3) by simp
  obtain z where z: "ctx_heap s2 k = Some z" "svc_handle z = h" using look2 by (rule slot_lookup_context)
  obtain q b where q: "svc_queue z = Some q" "mq_body s2 q = Some b" by (rule context_queue [OF s2(2) z(1)])
  obtain s3 where s3: "unregister_service h s2 = Some (1, s3)" "svc_inv s3" "slot_lookup s3 = (slot_lookup s2)(h := None)"
      "names s3 = remove_names h (names s2)"
      "ctx_heap s3 = (ctx_heap s2)(k := if svc_ref z = 1 then None else Some (z\<lparr>svc_ref := svc_ref z - 1\<rparr>))"
      "mq_body s3 = (if svc_ref z = 1 then (mq_body s2)(q \<mapsto> b\<lparr>mq_is_release := True\<rparr>) else mq_body s2)"
    by (rule unregister_service_correct [OF s2(2) look2 z(1) q])
  have hh: "(if h0 = 0 then svc_handle x else h0) = h" using arg by auto
  have mm: "nd_monitor_exit (n\<lparr>nd_svc := s1\<rparr>) = nd_monitor_exit n" by simp
  have u: "lift_svc (unregister_service h) (n\<lparr>nd_svc := s2\<rparr>) = Some (1, n\<lparr>nd_svc := s3\<rparr>)"
    by (simp add: lift_svc_def s3(1))
  have eq: "handle_exit c h0 n = Some (n\<lparr>nd_svc := s3\<rparr>)"
    by (simp only: handle_exit_def x bind.simps hh Let_def s1(1) mm s2(1) u prod.case)
  have "inbox s3 g = inbox s2 g" if "g \<noteq> h" for g
  proof -
    have "svc_queue y \<noteq> Some q" if "slot_lookup s2 g = Some d" "ctx_heap s2 d = Some y" for d y
      using svc_invD(5) [OF s2(2) that(2) z(1)] q(1) that(1) look2 slot_lookup_inj [of s2 h k g] \<open>g \<noteq> h\<close> by auto
    moreover have "d \<noteq> k" if "slot_lookup s2 g = Some d" for d using that look2 slot_lookup_inj [of s2 h k g] \<open>g \<noteq> h\<close> by auto
    ultimately show ?thesis
      using that by (auto simp: inbox_def s3(3,5,6) bind_eq_Some_conv split: option.splits bind_splits)
  qed
  moreover have "known_handles s1 = known_handles (nd_svc n)" by (simp add: known_handles_def s1(4))
  ultimately show ?thesis
    using eq s3(2-4) s2(3,4,6) s1(4,5) n1 by (intro exI [of _ s3]) (simp add: Let_def)
qed

lemma exec_simps:
  "exec out ''REGISTER'' = cmd_register" "exec out ''QUERY'' = cmd_query" "exec out ''KILL'' = cmd_kill"
  "exec out ''EXIT'' = cmd_exit" "exec out ''SET_ENV'' = cmd_set_env" "exec out ''GET_ENV'' = cmd_get_env"
  "exec out ''TIMEOUT'' = cmd_timeout" "exec out ''LAUNCH'' = cmd_launch out"
  by (simp_all add: fun_eq_iff exec_def cmd_map_def)

subsection \<open>Properties\<close>

text \<open>
  Names and addresses fit together: after a service has registered a free name, \<open>QUERY\<close> for that
  name by any service gives the address text of the registered service, and that text is read back
  as its handle by every command that takes an address.
\<close>

theorem registered_name_resolves:
  assumes "svc_inv (nd_svc n)" and "ctx_heap (nd_svc n) c = Some x" and "svc_handle x \<noteq> 0" and "svc_handle x < 2 ^ 32"
    and "name_map (names (nd_svc n)) nm = None" and "name_count (names (nd_svc n)) < MAX_SLOT_SIZE div 2"
  shows "\<exists>n1 n2. exec out ''REGISTER'' c (Some (CHR ''.'' # nm)) n = Some (Some nm, n1) \<and>
     exec out ''QUERY'' d (Some (CHR ''.'' # nm)) n1 = Some (Some (address (svc_handle x)), n2) \<and>
     to_svc_handle d (address (svc_handle x)) n2 = Some (svc_handle x, n2)"
proof -
  note N = svc_invD(2) [OF assms(1)]
  obtain res t where t: "insert_name nm (svc_handle x) (names (nd_svc n)) = Some (res, t)"
    using insert_name_correct(3) [OF N assms(5,6), of "svc_handle x"] by auto
  note A = names.add_free [OF N assms(5) t]
  have "find_by_name t nm = svc_handle x" using A by (simp add: names.look)
  then show ?thesis
    using assms(2,3) t A to_svc_handle_address [OF assms(4)]
    by (simp add: exec_simps cmd_register_def cmd_query_def lift_svc_def set_handle_by_name_def cmd_return_def Let_def)
qed

definition demo_node :: node_state where
  "demo_node = \<lparr>nd_svc = demo_state, nd_timer = timer_init 0 0 0, nd_env = Map.empty, nd_monitor_exit = 0, nd_profile = False\<rparr>"

definition demo_outside :: outside where
  "demo_outside = \<lparr>os_module = (\<lambda>_. Some (\<lambda>_. accept_init)), os_signal = (\<lambda>_ _. Some), os_fopen = (\<lambda>_. True),
     os_thread_time = 0, os_junk = []\<rparr>"

lemma demo_node_facts:
  "svc_inv (nd_svc demo_node)" "ctx_heap (nd_svc demo_node) 0 = Some (demo_ctx 1 0)" "nd_svc demo_node = demo_state"
  "slot_lookup (nd_svc demo_node) 1 = Some 0"
proof -
  show n: "nd_svc demo_node = demo_state" by (simp add: demo_node_def)
  show "svc_inv (nd_svc demo_node)" "slot_lookup (nd_svc demo_node) 1 = Some 0" by (simp_all add: n demo_inv demo_lookup)
  show "ctx_heap (nd_svc demo_node) 0 = Some (demo_ctx 1 0)" by (simp add: n) (simp add: demo_state_def)
qed

theorem registered_name_resolves_witness:
  "\<exists>n1 n2. exec demo_outside ''REGISTER'' 0 (Some ''.main'') demo_node = Some (Some ''main'', n1) \<and>
     exec demo_outside ''QUERY'' 0 (Some ''.main'') n1 = Some (Some (address (svc_handle (demo_ctx 1 0))), n2) \<and>
     to_svc_handle 0 (address (svc_handle (demo_ctx 1 0))) n2 = Some (svc_handle (demo_ctx 1 0), n2)"
proof (rule registered_name_resolves [OF demo_node_facts(1,2)])
  have "names (nd_svc demo_node) = name_init" by (simp add: demo_node_facts(3) demo_state_def manager_init_def)
  then show "name_map (names (nd_svc demo_node)) ''main'' = None" "name_count (names (nd_svc demo_node)) < MAX_SLOT_SIZE div 2"
    using name_map_init by (simp_all add: MAX_SLOT_SIZE_def) (simp add: name_init_def)
qed (simp_all add: demo_ctx_def)

text \<open>
  C36. \<open>KILL\<close> with the address of a registered service, in the form that \<open>REGISTER\<close> and \<open>QUERY\<close> give or in
  the form that \<open>LAUNCH\<close> gives, unregisters that service and its names and no other, keeps the
  invariant of the node, and tells the monitor service, if one is set, with a message from the
  killed service; \<open>EXIT\<close> does the same to the caller.
\<close>

theorem kill_command_exact:
  assumes "svc_inv (nd_svc n)" and "ctx_heap (nd_svc n) c = Some x" and "slot_lookup (nd_svc n) h = Some k"
    and "h \<noteq> 0" and "h < 2 ^ 32"
    and "cmd = ''KILL'' \<and> (p = Some (address h) \<or> p = Some (id_to_hex (of_nat h))) \<or> cmd = ''EXIT'' \<and> svc_handle x = h"
  shows "\<exists>s. exec out cmd c p n = Some (None, n\<lparr>nd_svc := s\<rparr>) \<and> svc_inv s \<and>
     slot_lookup s = (slot_lookup (nd_svc n))(h := None) \<and> names s = remove_names h (names (nd_svc n)) \<and>
     (let mo = nd_monitor_exit n in mo \<in> known_handles (nd_svc n) \<longrightarrow> mo \<noteq> 0 \<longrightarrow> mo \<noteq> h \<longrightarrow> mo \<noteq> logger_handle (nd_svc n) \<longrightarrow>
        inbox s mo = inbox (nd_svc n) mo @ [sent_message h 0 None 0 (msg_type_code SERVICE_MSG_TYPE_CLIENT)])"
  using assms(6)
proof
  assume "cmd = ''KILL'' \<and> (p = Some (address h) \<or> p = Some (id_to_hex (of_nat h)))"
  then have "exec out cmd c p n = Option.bind (handle_exit c h n) (\<lambda>n1. Some (None, n1))"
    using to_svc_handle_address [OF assms(5), of _ c n] assms(4) by (auto simp: exec_simps cmd_kill_def)
  then show ?thesis using handle_exit_correct [OF assms(1-3,5), of h] assms(4) by (auto simp del: msg_type_code.simps)
next
  assume "cmd = ''EXIT'' \<and> svc_handle x = h"
  then show ?thesis
    using handle_exit_correct [OF assms(1-3,5), of 0] assms(4) by (auto simp: exec_simps cmd_exit_def simp del: msg_type_code.simps)
qed

theorem kill_command_exact_witness:
  "\<exists>s. exec demo_outside ''KILL'' 0 (Some '':00000001'') demo_node = Some (None, demo_node\<lparr>nd_svc := s\<rparr>) \<and> svc_inv s \<and>
     slot_lookup s = (slot_lookup demo_state)(1 := None)"
proof -
  have a: "id_to_hex (of_nat 1) = '':00000001''" by code_simp
  show ?thesis
    using kill_command_exact [OF demo_node_facts(1,2,4), of "''KILL''" "Some '':00000001''" demo_outside] a
    by (auto simp: demo_node_facts(3) simp del: msg_type_code.simps)
qed

text \<open>
  The environment is write-once through the commands as well: \<open>SET_ENV\<close> with a key without space, a
  space and a value stores the value, which \<open>GET_ENV\<close> then returns, spaces included; setting the
  same key again, by any service, aborts the whole process.
\<close>

theorem environment_command_roundtrip:
  assumes "CHR '' '' \<notin> set k" and "nd_env n k = None"
  shows "\<exists>n1. exec out ''SET_ENV'' c (Some (k @ '' '' @ v)) n = Some (None, n1) \<and>
     exec out ''GET_ENV'' d (Some k) n1 = Some (Some v, n1) \<and> exec out ''SET_ENV'' d (Some (k @ '' '' @ w)) n1 = None"
proof -
  have "takeWhile (\<lambda>ch. ch \<noteq> CHR '' '') (k @ '' '' @ u) = k" "dropWhile (\<lambda>ch. ch \<noteq> CHR '' '') (k @ '' '' @ u) = '' '' @ u" for u
    using assms(1) by (induction k) auto
  then show ?thesis
    using assms(2) by (simp add: exec_simps cmd_set_env_def cmd_get_env_def set_env_def get_env_def)
qed

theorem environment_command_roundtrip_witness:
  "\<exists>n1. exec demo_outside ''SET_ENV'' 0 (Some (''motd'' @ '' '' @ ''hello world'')) demo_node = Some (None, n1) \<and>
     exec demo_outside ''GET_ENV'' 0 (Some ''motd'') n1 = Some (Some ''hello world'', n1) \<and>
     exec demo_outside ''SET_ENV'' 0 (Some (''motd'' @ '' '' @ ''again'')) n1 = None"
  by (rule environment_command_roundtrip) (simp_all add: demo_node_def)

text \<open>
  The \<open>TIMEOUT\<close> command keeps its promise: with the text of a positive number of ticks it returns the
  text of a fresh positive session, and exactly after that many ticks of the timer the response
  message with that session is appended to the inbox of the calling service, behind what was due
  for it before.
\<close>

theorem timeout_command_delivers:
  assumes "wheel_inv 1 (nd_timer n)" and "svc_inv (nd_svc n)" and "0 < t" and "t < 2 ^ 31"
    and "ctx_heap (nd_svc n) c = Some x" and "svc_handle x \<in> known_handles (nd_svc n)"
  shows "\<exists>session n1 T' s'. exec out ''TIMEOUT'' c (Some (show_int t)) n = Some (Some (show_int session), n1) \<and> 0 < session \<and>
     timer_ticks_from (nat t) (nd_timer n1, nd_svc n1) = Some (T', s') \<and>
     inbox s' (svc_handle x) = inbox (nd_svc n) (svc_handle x) @
       timeouts_for (svc_handle x) (concat (map (waiting (nd_timer n)) [1..<Suc (nat t)])) @ [timeout_message session]"
proof -
  have st: "to_int32 (strtol10 (show_int t)) = t"
    using strtol10_show_int [of t "[]"] assms(3,4) by (simp add: to_int32_def signed_of_int signed_take_bit_int_eq_self)
  let ?x1 = "snd (new_session x)" and ?session = "fst (new_session x)"
  let ?s1 = "(nd_svc n)\<lparr>ctx_heap := (ctx_heap (nd_svc n))(c \<mapsto> ?x1)\<rparr>"
  note I = same_identity [OF assms(5), of ?x1]
  have r: "1 \<le> svc_ref x" using svc_invD(4) [OF assms(2,5)] by (simp add: context_ok_def)
  have inv1: "svc_inv ?s1" and known: "svc_handle x \<in> known_handles ?s1" using I assms(2,6) r by simp_all
  let ?T = "timer_add \<lparr>ev_svc_handle = svc_handle x, ev_session = ?session\<rparr> t (nd_timer n)"
  have to: "timeout (svc_handle x) t ?session (nd_timer n, ?s1) = Some (?session, ?T, ?s1)"
    using assms(3) by (simp add: timeout_def)
  define res :: "service_context \<Rightarrow> service_context" where "res = svc_cmd_result_update (\<lambda>_. show_int ?session)"
  let ?s2 = "ctx_update c res ?s1"
  have id: "\<And>y. svc_handle (res y) = svc_handle y" "\<And>y. svc_queue (res y) = svc_queue y" "\<And>y. svc_ref (res y) = svc_ref y"
    by (simp_all add: res_def)
  note C = ctx_update_identity [of res, OF id]
  have inv2: "svc_inv ?s2" and known2: "svc_handle x \<in> known_handles ?s2" using C inv1 known by simp_all
  have to2: "timeout (svc_handle x) t ?session (nd_timer n, ?s2) = Some (?session, ?T, ?s2)"
    using assms(3) by (simp add: timeout_def)
  obtain T' s' where s': "timer_ticks_from (nat t) (?T, ?s2) = Some (T', s')"
      "inbox s' (svc_handle x) = inbox ?s2 (svc_handle x) @
         timeouts_for (svc_handle x) (concat (map (waiting (nd_timer n)) [1..<Suc (nat t)])) @ [timeout_message ?session]"
    using timeout_correct [OF assms(1) inv2 assms(3,4) known2 to2, of "nat t"] by auto
  have "exec out ''TIMEOUT'' c (Some (show_int t)) n = Some (Some (show_int ?session), n\<lparr>nd_svc := ?s2, nd_timer := ?T\<rparr>)"
    using st assms(5) to by (simp add: exec_simps cmd_timeout_def Let_def split_def cmd_return_def res_def)
  moreover have "inbox ?s2 = inbox (nd_svc n)" using C(2) I(3) by simp
  ultimately show ?thesis
    using s' new_session_range [of x]
    by (intro exI [of _ ?session] exI [of _ "n\<lparr>nd_svc := ?s2, nd_timer := ?T\<rparr>"] exI [of _ T'] exI [of _ s']) simp
qed

theorem timeout_command_delivers_witness:
  "\<exists>session n1 T' s'. exec demo_outside ''TIMEOUT'' 0 (Some (show_int 300)) demo_node = Some (Some (show_int session), n1) \<and>
     timer_ticks_from (nat 300) (nd_timer n1, nd_svc n1) = Some (T', s') \<and>
     inbox s' (svc_handle (demo_ctx 1 0)) = inbox demo_state (svc_handle (demo_ctx 1 0)) @
       timeouts_for (svc_handle (demo_ctx 1 0)) (concat (map (waiting (nd_timer demo_node)) [1..<Suc (nat 300)])) @
       [timeout_message session]"
proof -
  have w: "wheel_inv 1 (nd_timer demo_node)" by (simp add: demo_node_def wheel_inv_init)
  have k: "svc_handle (demo_ctx 1 0) \<in> known_handles (nd_svc demo_node)"
    by (simp add: demo_node_facts(3) demo_known demo_ctx_def)
  show ?thesis
    using timeout_command_delivers [OF w demo_node_facts(1) _ _ demo_node_facts(2) k, of 300 demo_outside]
    unfolding demo_node_facts(3) by auto
qed

end
