(* ===== verification/Sha1.thy ===== *)
theory Sha1
  imports Skynet_Prelude
begin

text \<open>
  The SHA-1 of \<open>luaclib-src/lsha1.c\<close>, with its streaming interface, and the HMAC built on it,
  against the definitions of FIPS 180 and RFC 2104. The host is little-endian, as the code without
  \<open>WORDS_BIGENDIAN\<close> assumes.
\<close>

subsection \<open>The code\<close>

record SHA1_CTX =
  sha_state :: "u32 list"
  count0 :: u32
  count1 :: u32
  sha_buffer :: bytes

definition SHA1_DIGEST_SIZE :: nat where "SHA1_DIGEST_SIZE = 20"

definition rol :: "u32 \<Rightarrow> nat \<Rightarrow> u32" where
  "rol v n = push_bit n v OR drop_bit (32 - n) v"

text \<open>The union of 64 bytes and 16 words: a word is read in little-endian order.\<close>

definition le32 :: "bytes \<Rightarrow> nat \<Rightarrow> u32" where
  "le32 bs i = ucast (bs ! i) OR push_bit 8 (ucast (bs ! (i + 1))) OR push_bit 16 (ucast (bs ! (i + 2)))
     OR push_bit 24 (ucast (bs ! (i + 3)))"

definition block_words :: "bytes \<Rightarrow> u32 list" where
  "block_words bs = map (\<lambda>i. le32 bs (4 * i)) [0..<16]"

definition blk0 :: "nat \<Rightarrow> u32 list \<Rightarrow> u32 \<times> u32 list" where
  "blk0 i l = (let v = (rol (l ! i) 24 AND 0xFF00FF00) OR (rol (l ! i) 8 AND 0x00FF00FF) in (v, l[i := v]))"

definition blk :: "nat \<Rightarrow> u32 list \<Rightarrow> u32 \<times> u32 list" where
  "blk i l =
     (let v = rol (l ! ((i + 13) AND 15) XOR l ! ((i + 8) AND 15) XOR l ! ((i + 2) AND 15) XOR l ! (i AND 15)) 1
      in (v, l[i AND 15 := v]))"

text \<open>
  The working variables in the order in which the unrolled lines pass them: after each operation
  \<open>z\<close> is the next \<open>v\<close>, \<open>v\<close> the next \<open>w\<close>, and so on.
\<close>

type_synonym sha_regs = "u32 \<times> u32 \<times> u32 \<times> u32 \<times> u32"

definition R_op :: "(u32 \<Rightarrow> u32 \<Rightarrow> u32 \<Rightarrow> u32) \<Rightarrow> u32 \<Rightarrow> (nat \<Rightarrow> u32 list \<Rightarrow> u32 \<times> u32 list) \<Rightarrow>
    nat \<Rightarrow> sha_regs \<times> u32 list \<Rightarrow> sha_regs \<times> u32 list" where
  "R_op f k b i = (\<lambda>((v, w, x, y, z), l).
     let (bi, l1) = b i l; z1 = z + (f w x y + bi + k + rol v 5)
     in ((z1, v, rol w 30, x, y), l1))"

definition R0 where "R0 = R_op (\<lambda>w x y. (w AND (x XOR y)) XOR y) 0x5A827999 blk0"
definition R1 where "R1 = R_op (\<lambda>w x y. (w AND (x XOR y)) XOR y) 0x5A827999 blk"
definition R2 where "R2 = R_op (\<lambda>w x y. w XOR x XOR y) 0x6ED9EBA1 blk"
definition R3 where "R3 = R_op (\<lambda>w x y. ((w OR x) AND y) OR (w AND x)) 0x8F1BBCDC blk"
definition R4 where "R4 = R_op (\<lambda>w x y. w XOR x XOR y) 0xCA62C1D6 blk"

definition SHA1_Transform :: "u32 list \<Rightarrow> bytes \<Rightarrow> u32 list" where
  "SHA1_Transform st buffer =
     (let r0 = ((st ! 0, st ! 1, st ! 2, st ! 3, st ! 4), block_words buffer);
          r1 = fold R0 [0..<16] r0;
          r2 = fold R1 [16..<20] r1;
          r3 = fold R2 [20..<40] r2;
          r4 = fold R3 [40..<60] r3;
          ((a, b, c, d, e), _) = fold R4 [60..<80] r4
      in [st ! 0 + a, st ! 1 + b, st ! 2 + c, st ! 3 + d, st ! 4 + e])"

text \<open>The buffer of a new context is not initialised; \<open>garbage\<close> stands for what it holds.\<close>

definition SHA1_Init :: "bytes \<Rightarrow> SHA1_CTX" where
  "SHA1_Init garbage =
     \<lparr>sha_state = [0x67452301, 0xEFCDAB89, 0x98BADCFE, 0x10325476, 0xC3D2E1F0],
      count0 = 0, count1 = 0, sha_buffer = garbage\<rparr>"

definition memcpy_at :: "nat \<Rightarrow> bytes \<Rightarrow> bytes \<Rightarrow> bytes" where
  "memcpy_at j src dst = take j dst @ src @ drop (j + length src) dst"

text \<open>The loop over the whole blocks of the data from index \<open>i\<close> on.\<close>

function update_blocks :: "bytes \<Rightarrow> nat \<Rightarrow> u32 list \<Rightarrow> nat \<times> u32 list" where
  "update_blocks data i st =
     (if i + 63 < length data then update_blocks data (i + 64) (SHA1_Transform st (take 64 (drop i data)))
      else (i, st))"
  by pat_completeness auto
termination
  by (relation "measure (\<lambda>(data, i, st). length data - i)") auto

declare update_blocks.simps [simp del]

definition SHA1_Update :: "SHA1_CTX \<Rightarrow> bytes \<Rightarrow> SHA1_CTX" where
  "SHA1_Update ctx data =
     (let len = (of_nat (length data) :: u64);
          j = unat (drop_bit 3 (count0 ctx) AND 63);
          c0 = count0 ctx + ucast (push_bit 3 len);
          c1 = (if (ucast c0 :: u64) < push_bit 3 len then count1 ctx + 1 else count1 ctx);
          c1' = c1 + ucast (drop_bit 29 len);
          ctx1 = ctx\<lparr>count0 := c0, count1 := c1'\<rparr>
      in if j + length data > 63 then
           let i0 = 64 - j;
               buf = memcpy_at j (take i0 data) (sha_buffer ctx);
               st = SHA1_Transform (sha_state ctx) buf;
               (i, st') = update_blocks data i0 st
           in ctx1\<lparr>sha_state := st', sha_buffer := memcpy_at 0 (drop i data) buf\<rparr>
         else ctx1\<lparr>sha_buffer := memcpy_at j data (sha_buffer ctx)\<rparr>)"

definition finalcount :: "SHA1_CTX \<Rightarrow> bytes" where
  "finalcount ctx =
     map (\<lambda>i. ucast (drop_bit ((3 - (i AND 3)) * 8) (if i \<ge> 4 then count0 ctx else count1 ctx) AND 255)) [0..<8]"

text \<open>Bytes until the length is 56 modulo 64.\<close>

definition pad_left :: "SHA1_CTX \<Rightarrow> nat" where
  "pad_left ctx = (120 - unat (count0 ctx) div 8 mod 64) mod 64"

lemma count0_Update_byte: "count0 (SHA1_Update ctx [b]) = count0 ctx + 8"
  by (simp add: SHA1_Update_def Let_def split_def)


lemma count_448: "count0 ctx AND 504 = 448 \<longleftrightarrow> unat (count0 ctx) div 8 mod 64 = 56"
proof -
  let ?x = "count0 ctx AND 504"
  have d: "drop_bit 3 ?x = drop_bit 3 (count0 ctx) AND mask 6" by (simp add: mask_eq_exp_minus_1)
  have x: "push_bit 3 (drop_bit 3 ?x) = ?x" using bits_ident [of 3 ?x] by simp
  have "?x = 448 \<longleftrightarrow> drop_bit 3 ?x = 56"
  proof
    assume "drop_bit 3 ?x = 56"
    then have "push_bit 3 (drop_bit 3 ?x) = push_bit 3 56" by (simp only:)
    then show "?x = 448" unfolding x by simp
  qed simp
  also have "\<dots> \<longleftrightarrow> unat (drop_bit 3 (count0 ctx) AND mask 6) = 56" by (simp only: d word_unat_eq_iff) simp
  also have "\<dots> \<longleftrightarrow> unat (count0 ctx) div 8 mod 64 = 56" by (simp only: unat_drop_bit_and_mask) simp
  finally show ?thesis .
qed

lemma pad_arith: "n < 64 \<Longrightarrow> n \<noteq> 56 \<Longrightarrow> (120 - Suc n mod 64) mod 64 < (120 - n) mod (64 :: nat)"
  by (cases "n < 56"; cases "n = 63") (auto simp: mod_if)

lemma add_8_div:
  fixes c :: u32
  shows "unat (c + 8) div 8 mod 64 = (unat c div 8 + 1) mod 64"
proof -
  have "unat (c + 8) = (unat c + 8) mod 2 ^ 32" by (simp add: unat_word_ariths)
  moreover have "((unat c + 8) mod 2 ^ 32) div 8 mod 64 = (unat c + 8) div 8 mod 64"
  proof -
    have "(x mod 2 ^ 32) div 8 mod 64 = x div 8 mod 64" for x :: nat
      using mod_mult2_eq [of x 8 64] mod_mult2_eq [of "x mod 2 ^ 32" 8 64] mod_mod_cancel [of "8 * 64" "2 ^ 32" x]
        mod_mod_cancel [of 8 "2 ^ 32" x] by simp
    then show ?thesis .
  qed
  moreover have "(unat c + 8) div 8 = unat c div 8 + 1" by simp
  ultimately show ?thesis by simp
qed

text \<open>The padding loop of \<open>sat_SHA1_digest\<close>; it ends because each byte brings the length nearer.\<close>

function pad_zeros :: "SHA1_CTX \<Rightarrow> SHA1_CTX" where
  "pad_zeros ctx = (if count0 ctx AND 504 \<noteq> 448 then pad_zeros (SHA1_Update ctx [0]) else ctx)"
  by pat_completeness auto
termination
proof (relation "measure pad_left")
  fix ctx :: SHA1_CTX
  assume "count0 ctx AND 504 \<noteq> 448"
  then have "unat (count0 ctx) div 8 mod 64 \<noteq> 56" by (simp add: count_448)
  moreover have "unat (count0 ctx) div 8 mod 64 < 64" by simp
  ultimately have "pad_left (SHA1_Update ctx [0]) < pad_left ctx"
    using pad_arith [of "unat (count0 ctx) div 8 mod 64"]
    unfolding pad_left_def count0_Update_byte add_8_div by (simp add: mod_Suc_eq)
  then show "(SHA1_Update ctx [0], ctx) \<in> measure pad_left" by simp
qed simp

declare pad_zeros.simps [simp del]

definition state_bytes :: "u32 list \<Rightarrow> bytes" where
  "state_bytes st =
     map (\<lambda>i. ucast (drop_bit ((3 - (i AND 3)) * 8) (st ! drop_bit 2 i) AND 255)) [0..<SHA1_DIGEST_SIZE]"

definition SHA1_digest :: "SHA1_CTX \<Rightarrow> bytes" where
  "SHA1_digest ctx =
     (let fc = finalcount ctx;
          c1 = SHA1_Update ctx [0x80];
          c2 = pad_zeros c1;
          c3 = SHA1_Update c2 fc
      in state_bytes (sha_state c3))"

text \<open>The digest, and the context wiped.\<close>

definition SHA1_Final :: "SHA1_CTX \<Rightarrow> bytes \<times> SHA1_CTX" where
  "SHA1_Final ctx =
     (SHA1_digest ctx, \<lparr>sha_state = replicate 5 0, count0 = 0, count1 = 0, sha_buffer = replicate 64 0\<rparr>)"

lemma fst_Final [simp]: "fst (SHA1_Final ctx) = SHA1_digest ctx"
  by (simp add: SHA1_Final_def)

definition l_sha1 :: "bytes \<Rightarrow> bytes \<Rightarrow> bytes" where
  "l_sha1 garbage buffer = fst (SHA1_Final (SHA1_Update (SHA1_Init garbage) buffer))"

definition BLOCKSIZE :: nat where "BLOCKSIZE = 64"

definition xor_key :: "bytes \<Rightarrow> u32 \<Rightarrow> bytes" where
  "xor_key key x = map (\<lambda>i. key ! i XOR ucast (drop_bit (8 * (i mod 4)) x)) [0..<BLOCKSIZE]"

definition l_hmac_sha1 :: "bytes \<Rightarrow> bytes \<Rightarrow> bytes \<Rightarrow> bytes" where
  "l_hmac_sha1 garbage key text =
     (let rkey0 = replicate BLOCKSIZE 0;
          rkey = (if length key > BLOCKSIZE
                  then memcpy_at 0 (fst (SHA1_Final (SHA1_Update (SHA1_Init garbage) key))) rkey0
                  else memcpy_at 0 key rkey0);
          rkey1 = xor_key rkey 0x5c5c5c5c;
          ctx1 = SHA1_Update (SHA1_Init garbage) rkey1;
          rkey2 = xor_key rkey1 (0x5c5c5c5c XOR 0x36363636);
          ctx2 = SHA1_Update (SHA1_Update (SHA1_Init garbage) rkey2) text;
          digest2 = fst (SHA1_Final ctx2)
      in fst (SHA1_Final (SHA1_Update ctx1 digest2)))"

subsection \<open>The standard\<close>

text \<open>FIPS 180: the functions, constants and message schedule, and one block.\<close>

definition sha_f :: "nat \<Rightarrow> u32 \<Rightarrow> u32 \<Rightarrow> u32 \<Rightarrow> u32" where
  "sha_f t x y z =
     (if t < 20 then (x AND y) XOR (NOT x AND z)
      else if t < 40 then x XOR y XOR z
      else if t < 60 then (x AND y) XOR (x AND z) XOR (y AND z)
      else x XOR y XOR z)"

definition sha_K :: "nat \<Rightarrow> u32" where
  "sha_K t = (if t < 20 then 0x5A827999 else if t < 40 then 0x6ED9EBA1 else if t < 60 then 0x8F1BBCDC else 0xCA62C1D6)"

definition be32 :: "bytes \<Rightarrow> nat \<Rightarrow> u32" where
  "be32 bs i = push_bit 24 (ucast (bs ! i)) OR push_bit 16 (ucast (bs ! (i + 1))) OR push_bit 8 (ucast (bs ! (i + 2)))
     OR ucast (bs ! (i + 3))"

fun sha_W :: "bytes \<Rightarrow> nat \<Rightarrow> u32" where
  "sha_W bs t =
     (if t < 16 then be32 bs (4 * t)
      else word_rotl 1 (sha_W bs (t - 3) XOR sha_W bs (t - 8) XOR sha_W bs (t - 14) XOR sha_W bs (t - 16)))"

declare sha_W.simps [simp del]

definition sha_round :: "bytes \<Rightarrow> nat \<Rightarrow> sha_regs \<Rightarrow> sha_regs" where
  "sha_round bs t = (\<lambda>(a, b, c, d, e).
     (word_rotl 5 a + sha_f t b c d + e + sha_K t + sha_W bs t, a, word_rotl 30 b, c, d))"

definition sha_compress :: "u32 list \<Rightarrow> bytes \<Rightarrow> u32 list" where
  "sha_compress h bs =
     (let (a, b, c, d, e) = fold (sha_round bs) [0..<80] (h ! 0, h ! 1, h ! 2, h ! 3, h ! 4)
      in [a + h ! 0, b + h ! 1, c + h ! 2, d + h ! 3, e + h ! 4])"

text \<open>The whole blocks of a message are hashed in turn.\<close>

function sha_blocks :: "u32 list \<Rightarrow> bytes \<Rightarrow> u32 list" where
  "sha_blocks h m = (if length m < 64 then h else sha_blocks (sha_compress h (take 64 m)) (drop 64 m))"
  by pat_completeness auto
termination
  by (relation "measure (\<lambda>(h, m). length m)") auto

declare sha_blocks.simps [simp del]

definition be_bytes :: "nat \<Rightarrow> nat \<Rightarrow> bytes" where
  "be_bytes n x = map (\<lambda>i. of_nat (x div 256 ^ (n - 1 - i))) [0..<n]"

definition sha_pad :: "bytes \<Rightarrow> bytes" where
  "sha_pad m = m @ [0x80] @ replicate ((119 - length m mod 64) mod 64) 0 @ be_bytes 8 (8 * length m)"

definition sha_H0 :: "u32 list" where
  "sha_H0 = [0x67452301, 0xEFCDAB89, 0x98BADCFE, 0x10325476, 0xC3D2E1F0]"

definition sha1 :: "bytes \<Rightarrow> bytes" where
  "sha1 m = concat (map (\<lambda>w. be_bytes 4 (unat w)) (sha_blocks sha_H0 (sha_pad m)))"

text \<open>RFC 2104.\<close>

definition hmac_key :: "bytes \<Rightarrow> bytes" where
  "hmac_key key = (let k = (if length key > 64 then sha1 key else key) in k @ replicate (64 - length k) 0)"

definition hmac_sha1 :: "bytes \<Rightarrow> bytes \<Rightarrow> bytes" where
  "hmac_sha1 key text =
     sha1 (map (\<lambda>b. b XOR 0x5c) (hmac_key key) @ sha1 (map (\<lambda>b. b XOR 0x36) (hmac_key key) @ text))"

subsection \<open>One block\<close>

lemma rol_word_rotl:
  assumes "0 < m" "m < 32"
  shows "rol v m = word_rotl m v"
proof (rule bit_word_eqI)
  fix n assume "n < LENGTH(32)"
  then have n: "n < 32" by simp
  have r: "bit (rol v m) n \<longleftrightarrow> m \<le> n \<and> bit v (n - m) \<or> bit v (n + (32 - m))"
    using n by (simp add: rol_def bit_or_iff bit_push_bit_iff bit_drop_bit_eq add.commute [of n])
  show "bit (rol v m) n = bit (word_rotl m v) n"
  proof (cases "n < m")
    case True
    then have "(n + (32 - m)) mod 32 = n + (32 - m)" using assms by simp
    then show ?thesis using True n assms(2) unfolding r by (simp add: bit_word_rotl_iff)
  next
    case False
    then have "(n + (32 - m)) mod 32 = n - m" using n assms by (simp add: mod_if)
    moreover have "\<not> bit v (n + (32 - m))" using False assms by (auto dest: bit_imp_le_length)
    ultimately show ?thesis using False n assms(2) unfolding r by (simp add: bit_word_rotl_iff)
  qed
qed

lemma u8_high [simp]: "8 \<le> n \<Longrightarrow> \<not> bit (b :: u8) n"
  by (auto dest: bit_imp_le_length)

text \<open>Swapping the bytes of a little-endian word gives the big-endian one.\<close>

lemma blk0_value:
  assumes "l ! i = le32 bs (4 * i)"
  shows "blk0 i l = (be32 bs (4 * i), l[i := be32 bs (4 * i)])"
proof -
  have "(rol (le32 bs j) 24 AND 0xFF00FF00) OR (rol (le32 bs j) 8 AND 0x00FF00FF) = be32 bs j" (is "?l j = ?r j") for j
  proof (rule bit_word_eqI)
    have "list_all (\<lambda>n. bit (?l j) n = bit (?r j) n) [0..<32]"
      unfolding rol_def le32_def be32_def by (simp add: upt_rec bit_simps)
    then show "bit (?l j) n = bit (?r j) n" if "n < LENGTH(32)" for n
      using that by (simp add: list_all_iff)
  qed
  then show ?thesis by (simp add: blk0_def assms Let_def)
qed

lemma sha_choose: "(w AND (x XOR y)) XOR y = (w AND x) XOR (NOT w AND (y :: u32))"
  by (rule bit_word_eqI) (auto simp: bit_simps)

lemma sha_majority: "((w OR x) AND y) OR (w AND x) = (w AND x) XOR (w AND y) XOR (x AND (y :: u32))"
  by (rule bit_word_eqI) (auto simp: bit_simps)

text \<open>The operation with number \<open>t\<close>, and the 80 of them as one sequence.\<close>

definition R_at :: "nat \<Rightarrow> sha_regs \<times> u32 list \<Rightarrow> sha_regs \<times> u32 list" where
  "R_at t = (if t < 16 then R0 t else if t < 20 then R1 t else if t < 40 then R2 t else if t < 60 then R3 t else R4 t)"

lemma transform_fold:
  "fold R4 [60..<80] (fold R3 [40..<60] (fold R2 [20..<40] (fold R1 [16..<20] (fold R0 [0..<16] r)))) =
   fold R_at [0..<80] r"
proof -
  have "[0..<80] = [0..<16] @ [16..<20] @ [20..<40] @ [40..<60] @ [60..<80]"
    using upt_add_eq_append [of 0 60 20] upt_add_eq_append [of 0 40 20] upt_add_eq_append [of 0 20 20]
      upt_add_eq_append [of 0 16 4] by simp
  moreover have "fold R_at [0..<16] = fold R0 [0..<16]" "fold R_at [16..<20] = fold R1 [16..<20]"
    "fold R_at [20..<40] = fold R2 [20..<40]" "fold R_at [40..<60] = fold R3 [40..<60]"
    "fold R_at [60..<80] = fold R4 [60..<80]"
    by (rule fold_range_cong, simp add: R_at_def)+
  ultimately show ?thesis by (simp only: fold_append o_apply)
qed

text \<open>
  The circular buffer before operation \<open>t\<close>: cell \<open>k\<close> holds the word of the schedule that was computed
  last for it, or the raw word of the block.
\<close>

definition schedule_ok :: "bytes \<Rightarrow> nat \<Rightarrow> u32 list \<Rightarrow> bool" where
  "schedule_ok bs t l \<longleftrightarrow> length l = 16 \<and>
     (\<forall>j. j < t \<longrightarrow> t \<le> j + 16 \<longrightarrow> l ! (j mod 16) = sha_W bs j) \<and>
     (\<forall>k. t \<le> k \<longrightarrow> k < 16 \<longrightarrow> l ! k = le32 bs (4 * k))"

lemma and_15: "(n :: nat) AND 15 = n mod 16"
  using and_size_mask [of 16 4 n] by simp

lemma R_op_step:
  assumes "b t l = (sha_W bs t, l')"
    and "\<And>w x y. f w x y = sha_f t w x y" and "k = sha_K t"
  shows "R_op f k b t (regs, l) = (sha_round bs t regs, l')"
  using assms by (cases regs) (simp add: R_op_def sha_round_def rol_word_rotl algebra_simps)

lemma mod_16_neq: "j < t \<Longrightarrow> t < j + 16 \<Longrightarrow> j mod 16 \<noteq> t mod (16 :: nat)"
proof
  assume "j < t" "t < j + 16" "j mod 16 = t mod 16"
  then have "16 dvd t - j" by (metis mod_eq_dvd_iff_nat less_imp_le)
  with \<open>j < t\<close> \<open>t < j + 16\<close> show False by (auto dest: dvd_imp_le)
qed

lemma schedule_step_raw:
  assumes "schedule_ok bs t l" and "t < 16"
  shows "blk0 t l = (sha_W bs t, l[t := sha_W bs t])" and "schedule_ok bs (Suc t) (l[t := sha_W bs t])"
proof -
  have W: "sha_W bs t = be32 bs (4 * t)" using assms(2) by (subst sha_W.simps) simp
  show "blk0 t l = (sha_W bs t, l[t := sha_W bs t])"
    using assms W blk0_value [of l t bs] by (simp add: schedule_ok_def)
  show "schedule_ok bs (Suc t) (l[t := sha_W bs t])"
    using assms unfolding schedule_ok_def by (auto simp: nth_list_update less_Suc_eq)
qed

lemma schedule_step_mixed:
  assumes ok: "schedule_ok bs t l" and t: "16 \<le> t"
  shows "blk t l = (sha_W bs t, l[t mod 16 := sha_W bs t])" and "schedule_ok bs (Suc t) (l[t mod 16 := sha_W bs t])"
proof -
  have l: "l ! ((t + k) mod 16) = sha_W bs (t - (16 - k))" if "k < 16" for k
  proof -
    have "(t + k) mod 16 = (t - (16 - k)) mod 16"
      using t that mod_add_self2 [of "t - (16 - k)" 16] by (simp add: add.commute)
    moreover have "l ! ((t - (16 - k)) mod 16) = sha_W bs (t - (16 - k))"
      using ok t that unfolding schedule_ok_def by auto
    ultimately show ?thesis by simp
  qed
  have W: "sha_W bs t = word_rotl 1 (sha_W bs (t - 3) XOR sha_W bs (t - 8) XOR sha_W bs (t - 14) XOR sha_W bs (t - 16))"
    using t by (subst sha_W.simps) simp
  have "rol (l ! ((t + 13) mod 16) XOR l ! ((t + 8) mod 16) XOR l ! ((t + 2) mod 16) XOR l ! (t mod 16)) 1 = sha_W bs t"
    using l [of 13] l [of 8] l [of 2] l [of 0] by (simp add: W rol_word_rotl)
  then show "blk t l = (sha_W bs t, l[t mod 16 := sha_W bs t])"
    by (simp only: blk_def and_15 Let_def)
  show "schedule_ok bs (Suc t) (l[t mod 16 := sha_W bs t])"
    unfolding schedule_ok_def
  proof (intro conjI allI impI)
    show "length (l[t mod 16 := sha_W bs t]) = 16" using ok by (simp add: schedule_ok_def)
    fix j assume j: "j < Suc t" "Suc t \<le> j + 16"
    show "l[t mod 16 := sha_W bs t] ! (j mod 16) = sha_W bs j"
    proof (cases "j = t")
      case True
      then show ?thesis using ok by (simp add: schedule_ok_def)
    next
      case False
      then have "j mod 16 \<noteq> t mod 16" using j mod_16_neq [of j t] by simp
      then show ?thesis using ok j False by (simp add: schedule_ok_def)
    qed
  qed (use t in simp)
qed

lemma R_at_step:
  assumes ok: "schedule_ok bs t l" and t: "t < 80"
  shows "\<exists>l'. R_at t (regs, l) = (sha_round bs t regs, l') \<and> schedule_ok bs (Suc t) l'"
proof (cases "t < 16")
  case True
  then show ?thesis
    using schedule_step_raw [OF ok True] R_op_step [of blk0 t l bs]
    by (auto simp: R_at_def R0_def sha_f_def sha_K_def sha_choose)
next
  case False
  then have "16 \<le> t" by simp
  note st = schedule_step_mixed [OF ok this]
  have op: "R_op f k blk t (regs, l) = (sha_round bs t regs, l[t mod 16 := sha_W bs t])"
    if "\<And>w x y. f w x y = sha_f t w x y" "k = sha_K t" for f k
    using R_op_step [of blk t l bs "l[t mod 16 := sha_W bs t]" f k regs] st(1) that by simp
  have "R_at t (regs, l) = (sha_round bs t regs, l[t mod 16 := sha_W bs t])"
    using False t
    by (auto simp: R_at_def R1_def R2_def R3_def R4_def sha_f_def sha_K_def sha_choose sha_majority intro!: op)
  with st(2) show ?thesis by blast
qed

lemma R_at_fold:
  assumes "schedule_ok bs 0 l" and "n \<le> 80"
  shows "\<exists>l'. fold R_at [0..<n] (regs, l) = (fold (sha_round bs) [0..<n] regs, l') \<and> schedule_ok bs n l'"
  using assms(2)
proof (induction n)
  case 0
  then show ?case using assms(1) by simp
next
  case (Suc n)
  then obtain l' where "fold R_at [0..<n] (regs, l) = (fold (sha_round bs) [0..<n] regs, l')" "schedule_ok bs n l'"
    by auto
  then show ?case using R_at_step [of bs n l'] Suc.prems by auto
qed

lemma Transform_compress: "SHA1_Transform st buffer = sha_compress st buffer"
proof -
  have "schedule_ok buffer 0 (block_words buffer)" by (simp add: schedule_ok_def block_words_def)
  from R_at_fold [OF this order_refl, of "(st ! 0, st ! 1, st ! 2, st ! 3, st ! 4)"]
  obtain l' where l': "fold R_at [0..<80] ((st ! 0, st ! 1, st ! 2, st ! 3, st ! 4), block_words buffer) =
      (fold (sha_round buffer) [0..<80] (st ! 0, st ! 1, st ! 2, st ! 3, st ! 4), l')" by blast
  show ?thesis
    unfolding SHA1_Transform_def Let_def transform_fold l' sha_compress_def prod.case
    by (auto split: prod.splits simp: add.commute)
qed

subsection \<open>Streams of data\<close>

lemma sha_blocks_short [simp]: "length m < 64 \<Longrightarrow> sha_blocks h m = h"
  by (subst sha_blocks.simps) simp

lemma sha_blocks_long: "64 \<le> length m \<Longrightarrow> sha_blocks h m = sha_blocks (sha_compress h (take 64 m)) (drop 64 m)"
  by (subst sha_blocks.simps) simp

lemma sha_blocks_append:
  assumes "length a = 64 * n"
  shows "sha_blocks h (a @ b) = sha_blocks (sha_blocks h a) b"
  using assms
proof (induction n arbitrary: h a)
  case 0
  then show ?case by simp
next
  case (Suc n)
  then have "sha_blocks h (a @ b) = sha_blocks (sha_compress h (take 64 a)) (drop 64 a @ b)"
    by (subst sha_blocks_long) simp_all
  also have "\<dots> = sha_blocks (sha_blocks (sha_compress h (take 64 a)) (drop 64 a)) b"
    using Suc.prems by (intro Suc.IH) simp
  also have "\<dots> = sha_blocks (sha_blocks h a) b" using Suc.prems by (simp add: sha_blocks_long [of a])
  finally show ?case .
qed

lemma update_blocks_correct:
  assumes "i \<le> length data" and "update_blocks data i st = (i', st')"
  shows "st' = sha_blocks st (drop i data) \<and> i' \<le> length data \<and> length data - i' = (length data - i) mod 64"
  using assms
proof (induction data i st rule: update_blocks.induct)
  case (1 data i st)
  show ?case
  proof (cases "i + 63 < length data")
    case True
    let ?st = "SHA1_Transform st (take 64 (drop i data))"
    have "update_blocks data (i + 64) ?st = (i', st')" using "1.prems"(2) True by (subst (asm) update_blocks.simps) simp
    moreover have "i + 64 \<le> length data" using True by simp
    ultimately have IH: "st' = sha_blocks ?st (drop (i + 64) data) \<and> i' \<le> length data \<and>
        length data - i' = (length data - (i + 64)) mod 64"
      using "1.IH" True by blast
    have "sha_blocks st (drop i data) = sha_blocks ?st (drop (i + 64) data)"
      using True by (subst sha_blocks_long) (simp_all add: Transform_compress add.commute)
    moreover have "(length data - (i + 64)) mod 64 = (length data - i) mod 64"
      using True le_mod_geq [of 64 "length data - i"] by simp
    ultimately show ?thesis using IH by simp
  next
    case False
    then have "i' = i" "st' = st" using "1.prems"(2) by (subst (asm) update_blocks.simps; simp)+
    then show ?thesis using False "1.prems"(1) by simp
  qed
qed

text \<open>The context after the bytes \<open>m\<close> have gone through it.\<close>

definition ctx_ok :: "SHA1_CTX \<Rightarrow> bytes \<Rightarrow> bool" where
  "ctx_ok ctx m \<longleftrightarrow>
     sha_state ctx = sha_blocks sha_H0 m \<and> length (sha_buffer ctx) = 64 \<and>
     take (length m mod 64) (sha_buffer ctx) = drop (length m - length m mod 64) m \<and>
     unat (count0 ctx) = 8 * length m mod 2 ^ 32 \<and> unat (count1 ctx) = 8 * length m div 2 ^ 32 mod 2 ^ 32"

lemma ctx_ok_Init: "length garbage = 64 \<Longrightarrow> ctx_ok (SHA1_Init garbage) []"
  by (simp add: ctx_ok_def SHA1_Init_def sha_H0_def)

lemma carry_arith:
  fixes a b n :: nat
  assumes "a < n" "b < n"
  shows "(a + b) mod n < b \<longleftrightarrow> n \<le> a + b"
  using assms by (cases "a + b < n") (auto simp: mod_if)

lemma div_carry:
  fixes x b n :: nat
  assumes "b < n"
  shows "(x + b) div n = x div n + (if n \<le> x mod n + b then 1 else 0)"
proof -
  have "(x + b) div n = x div n + (x mod n + b) div n"
  proof -
    have "n \<noteq> 0" using assms by auto
    moreover have "x + b = (x mod n + b) + n * (x div n)" by simp
    ultimately show ?thesis using div_mult_self2 [of n "x mod n + b" "x div n"] by simp
  qed
  moreover have "(x mod n + b) div n = (if n \<le> x mod n + b then 1 else 0)"
  proof (cases "n \<le> x mod n + b")
    case True
    moreover have "x mod n + b < n + n" using assms mod_less_divisor [of n x] by linarith
    ultimately show ?thesis by (simp add: div_if)
  qed simp
  ultimately show ?thesis by simp
qed

lemma Update_count_fields:
  "count0 (SHA1_Update ctx data) = count0 ctx + ucast (push_bit 3 (of_nat (length data) :: u64))"
  "count1 (SHA1_Update ctx data) =
     (if (ucast (count0 ctx + ucast (push_bit 3 (of_nat (length data) :: u64)) :: u32) :: u64)
           < push_bit 3 (of_nat (length data))
      then count1 ctx + 1 else count1 ctx) + ucast (drop_bit 29 (of_nat (length data) :: u64))"
  by (simp_all add: SHA1_Update_def Let_def split_def)

lemma Update_counts:
  assumes ok: "ctx_ok ctx m" and d: "length data < 2 ^ 29"
  shows "unat (count0 (SHA1_Update ctx data)) = 8 * length (m @ data) mod 2 ^ 32"
    and "unat (count1 (SHA1_Update ctx data)) = 8 * length (m @ data) div 2 ^ 32 mod 2 ^ 32"
proof -
  let ?len = "of_nat (length data) :: u64"
  have len: "unat ?len = length data" using d by (simp add: unat_of_nat)
  have l3: "unat (push_bit 3 ?len) = 8 * length data"
    using d by (simp add: push_bit_eq_mult unat_word_ariths len)
  have "unat (drop_bit 29 ?len) = 0" using d by (simp only: unat_drop_bit len) simp
  then have l29: "drop_bit 29 ?len = 0" by (simp add: unat_eq_0)
  have lo: "unat (ucast (push_bit 3 ?len) :: u32) = 8 * length data"
    using d l3 by (simp add: unsigned_ucast_eq take_bit_nat_eq_self)
  let ?c0 = "count0 ctx + ucast (push_bit 3 ?len)"
  let ?a = "8 * length m mod 2 ^ 32" and ?b = "8 * length data"
  have c0: "unat ?c0 = (?a + ?b) mod 2 ^ 32"
    using ok lo by (simp add: ctx_ok_def unat_word_ariths)
  have "unat (ucast ?c0 :: u64) = unat ?c0"
    using u32_less [of ?c0] by (simp add: unsigned_ucast_eq take_bit_nat_eq_self)
  then have "(ucast ?c0 :: u64) < push_bit 3 ?len \<longleftrightarrow> (?a + ?b) mod 2 ^ 32 < ?b"
    by (simp only: word_less_nat_alt c0 l3)
  also have "\<dots> \<longleftrightarrow> 2 ^ 32 \<le> ?a + ?b" using d by (intro carry_arith) simp_all
  finally have carry: "(ucast ?c0 :: u64) < push_bit 3 ?len \<longleftrightarrow> 2 ^ 32 \<le> ?a + ?b" .
  show "unat (count0 (SHA1_Update ctx data)) = 8 * length (m @ data) mod 2 ^ 32"
    unfolding Update_count_fields c0 by (simp add: mod_simps distrib_left)
  have "8 * length (m @ data) div 2 ^ 32 = 8 * length m div 2 ^ 32 + (if 2 ^ 32 \<le> ?a + ?b then 1 else 0)"
    using div_carry [of ?b "2 ^ 32" "8 * length m"] d by (simp add: distrib_left)
  moreover have "unat (count1 ctx) = 8 * length m div 2 ^ 32 mod 2 ^ 32" using ok by (simp add: ctx_ok_def)
  ultimately show "unat (count1 (SHA1_Update ctx data)) = 8 * length (m @ data) div 2 ^ 32 mod 2 ^ 32"
    unfolding Update_count_fields carry l29 by (simp add: unat_word_ariths mod_simps)
qed

lemma Update_index:
  assumes "ctx_ok ctx m"
  shows "unat (drop_bit 3 (count0 ctx) AND 63) = length m mod 64"
proof -
  have "(63 :: u32) = mask 6" by (simp add: mask_eq_exp_minus_1)
  then have "unat (drop_bit 3 (count0 ctx) AND 63) = unat (count0 ctx) div 2 ^ 3 mod 2 ^ 6"
    by (simp only: unat_drop_bit_and_mask)
  also have "\<dots> = (8 * length m mod (8 * 2 ^ 29)) div 8 mod 64" using assms by (simp add: ctx_ok_def)
  also have "\<dots> = length m mod 2 ^ 29 mod 64" by (simp only: mult_mod_right [symmetric]) simp
  also have "\<dots> = length m mod 64" using mod_mod_cancel [of 64 "2 ^ 29" "length m"] by simp
  finally show ?thesis .
qed

lemma Update_correct:
  assumes ok: "ctx_ok ctx m" and d: "length data < 2 ^ 29"
  shows "ctx_ok (SHA1_Update ctx data) (m @ data)"
proof -
  let ?j = "length m mod 64" and ?m0 = "take (length m - length m mod 64) m"
  let ?r = "drop (length m - length m mod 64) m"
  have len: "length (sha_buffer ctx) = 64" and r: "take ?j (sha_buffer ctx) = ?r" and st: "sha_state ctx = sha_blocks sha_H0 m"
    using ok by (simp_all add: ctx_ok_def)
  have m: "m = ?m0 @ ?r" by simp
  have lr: "length ?r = ?j" by simp
  have m0: "length ?m0 = 64 * (length m div 64)" by (simp add: minus_mod_eq_mult_div)
  have blocks: "sha_blocks sha_H0 (m @ x) = sha_blocks (sha_state ctx) (?r @ x)" for x
  proof -
    have "sha_blocks sha_H0 (m @ x) = sha_blocks (sha_blocks sha_H0 ?m0) (?r @ x)"
      using sha_blocks_append [OF m0, of sha_H0 "?r @ x"] m by (metis append.assoc)
    moreover have "sha_state ctx = sha_blocks sha_H0 ?m0"
      using sha_blocks_append [OF m0, of sha_H0 ?r] m lr st by simp
    ultimately show ?thesis by simp
  qed
  have cnt: "unat (count0 (SHA1_Update ctx data)) = 8 * length (m @ data) mod 2 ^ 32"
    "unat (count1 (SHA1_Update ctx data)) = 8 * length (m @ data) div 2 ^ 32 mod 2 ^ 32"
    by (rule Update_counts [OF ok d])+
  show ?thesis
  proof (cases "?j + length data > 63")
    case False
    let ?u = "SHA1_Update ctx data"
    have u: "sha_state ?u = sha_state ctx" "sha_buffer ?u = memcpy_at ?j data (sha_buffer ctx)"
      using False Update_index [OF ok] by (simp_all add: SHA1_Update_def Let_def)
    have lm: "length (m @ data) mod 64 = ?j + length data"
      using False mod_add_left_eq [of "length m" 64 "length data"] by simp
    have "length (m @ data) - (?j + length data) = length m - ?j" by simp
    then show ?thesis
      using False len r lr cnt blocks [of data]
      unfolding ctx_ok_def u lm memcpy_at_def by simp
  next
    case True
    let ?u = "SHA1_Update ctx data" and ?i0 = "64 - length m mod 64"
    let ?buf = "?r @ take ?i0 data"
    have j: "?j < 64" by simp
    have i0: "?i0 \<le> length data" and lbuf: "length ?buf = 64" using True j lr by auto
    have buf: "memcpy_at ?j (take ?i0 data) (sha_buffer ctx) = ?buf"
      using i0 len r by (simp add: memcpy_at_def)
    obtain i st' where ub: "update_blocks data ?i0 (SHA1_Transform (sha_state ctx) ?buf) = (i, st')" by fastforce
    note B = update_blocks_correct [OF i0 ub]
    have u: "sha_state ?u = st'" "sha_buffer ?u = memcpy_at 0 (drop i data) ?buf"
      using True ub Update_index [OF ok] by (simp_all add: SHA1_Update_def Let_def buf)
    have "?r @ data = ?buf @ drop ?i0 data" by simp
    then have "sha_blocks (sha_state ctx) (?r @ data) = st'"
      using B lbuf sha_blocks_long [of "?buf @ drop ?i0 data" "sha_state ctx"] by (simp add: Transform_compress)
    then have st': "sha_state ?u = sha_blocks sha_H0 (m @ data)" by (simp add: u blocks)
    have "length (m @ data) mod 64 = (?j + length data) mod 64" by (simp add: mod_simps)
    also have "\<dots> = (length data - ?i0 + 64) mod 64"
    proof -
      have "?j + length data = length data - ?i0 + 64" using i0 j by linarith
      then show ?thesis by simp
    qed
    also have "\<dots> = length data - i" using B by simp
    finally have lm: "length (m @ data) mod 64 = length data - i" .
    have li: "length data - i < 64" using B by simp
    have "length (m @ data) - (length data - i) = length m + i" using conjunct1 [OF conjunct2 [OF B]] by simp
    then have dr: "drop (length (m @ data) - (length data - i)) (m @ data) = drop i data" by simp
    have "length (memcpy_at 0 (drop i data) ?buf) = 64"
      using li lbuf unfolding memcpy_at_def by (simp only: length_append length_drop length_take) simp
    moreover have "take (length data - i) (memcpy_at 0 (drop i data) ?buf) = drop i data"
      by (simp add: memcpy_at_def)
    ultimately show ?thesis
      using cnt st' dr unfolding ctx_ok_def lm u(2) by (simp only: simp_thms)
  qed
qed

subsection \<open>Padding and the digest\<close>

lemma pad_zeros_correct:
  assumes "ctx_ok ctx m"
  shows "ctx_ok (pad_zeros ctx) (m @ replicate ((120 - length m mod 64) mod 64) 0)"
  using assms
proof (induction ctx arbitrary: m rule: pad_zeros.induct)
  case (1 ctx)
  have L: "unat (count0 ctx) div 8 mod 64 = length m mod 64"
  proof -
    have "unat (count0 ctx) div 8 mod 64 = (8 * length m mod (8 * 2 ^ 29)) div 8 mod 64"
      using "1.prems" by (simp add: ctx_ok_def)
    also have "\<dots> = length m mod 2 ^ 29 mod 64" by (simp only: mult_mod_right [symmetric]) simp
    also have "\<dots> = length m mod 64" using mod_mod_cancel [of 64 "2 ^ 29" "length m"] by simp
    finally show ?thesis .
  qed
  show ?case
  proof (cases "count0 ctx AND 504 = 448")
    case True
    then have "length m mod 64 = 56" using L by (simp add: count_448)
    then show ?thesis using True "1.prems" by (subst pad_zeros.simps) simp
  next
    case False
    then have ne: "length m mod 64 \<noteq> 56" using L by (simp add: count_448)
    let ?k = "(120 - length m mod 64) mod 64"
    have k: "?k = Suc ((120 - length (m @ [0]) mod 64) mod 64)"
    proof -
      have aux: "(120 - n) mod 64 = Suc ((120 - Suc n mod 64) mod 64)" if "n < 64" "n \<noteq> 56" for n :: nat
        using that by (cases "n < 56"; cases "n = 63") (auto simp: mod_if)
      have "length (m @ [0]) mod 64 = Suc (length m mod 64) mod 64" by (simp add: mod_Suc_eq)
      then show ?thesis using aux [of "length m mod 64"] ne by simp
    qed
    have "ctx_ok (SHA1_Update ctx [0]) (m @ [0])" by (rule Update_correct [OF "1.prems"]) simp
    from "1.IH" [OF False this]
    have "ctx_ok (pad_zeros (SHA1_Update ctx [0])) ((m @ [0]) @ replicate ((120 - length (m @ [0]) mod 64) mod 64) 0)" .
    moreover have "pad_zeros ctx = pad_zeros (SHA1_Update ctx [0])" using False by (subst pad_zeros.simps) simp
    ultimately show ?thesis unfolding k by simp
  qed
qed

lemma byte_of_word:
  fixes w :: u32
  shows "(ucast (drop_bit n w AND 255) :: u8) = of_nat (unat w div 2 ^ n)"
proof -
  have m: "(255 :: u32) = mask 8" by (simp add: mask_eq_exp_minus_1)
  have "(ucast (drop_bit n w AND mask 8) :: u8) = ucast (drop_bit n w)"
    by (rule bit_word_eqI) (simp only: bit_ucast_iff bit_and_iff bit_mask_iff, auto)
  then have "(ucast (drop_bit n w AND 255) :: u8) = ucast (drop_bit n w)" by (simp only: m)
  also have "\<dots> = of_nat (unat (drop_bit n w))" by simp
  finally show ?thesis by (simp only: unat_drop_bit)
qed

lemma be_bytes_length [simp]: "length (be_bytes n x) = n"
  by (simp add: be_bytes_def)

lemma upt_8: "[0..<8] = [0, 1, 2, 3, 4, 5, 6, 7 :: nat]"
  by (simp add: upt_rec)

lemma upt_4: "[0..<4] = [0, 1, 2, 3 :: nat]"
  by (simp add: upt_rec)

lemma be_byte_low: "of_nat (x mod 2 ^ 32 div 2 ^ k) = (of_nat (x div 2 ^ k) :: u8)" if "k \<le> 24"
proof -
  have "x mod 2 ^ 32 div 2 ^ k = x div 2 ^ k mod 2 ^ (32 - k)"
    by (simp only: drop_bit_take_bit flip: take_bit_eq_mod drop_bit_eq_div)
  moreover have "(2 :: nat) ^ 8 dvd 2 ^ (32 - k)" using that by (intro le_imp_power_dvd) simp
  ultimately have "x mod 2 ^ 32 div 2 ^ k mod 2 ^ 8 = x div 2 ^ k mod 2 ^ 8" by (simp add: mod_mod_cancel)
  then have "(of_nat (x mod 2 ^ 32 div 2 ^ k mod 2 ^ 8) :: u8) = of_nat (x div 2 ^ k mod 2 ^ 8)" by (simp only:)
  then show ?thesis by (simp add: word_unat_eq_iff unat_of_nat take_bit_eq_mod)
qed

lemma finalcount_correct:
  assumes ok: "ctx_ok ctx m" and m: "length m < 2 ^ 61"
  shows "finalcount ctx = be_bytes 8 (8 * length m)"
proof -
  let ?x = "8 * length m"
  have c0: "unat (count0 ctx) = ?x mod 2 ^ 32" using ok by (simp add: ctx_ok_def)
  have "?x div 2 ^ 32 < 2 ^ 32" using m by (simp add: div_less_iff_less_mult)
  then have c1: "unat (count1 ctx) = ?x div 2 ^ 32" using ok by (simp add: ctx_ok_def)
  have hi: "unat (count1 ctx) div 2 ^ k = ?x div 2 ^ (32 + k)" for k
    unfolding c1 by (simp only: div_mult2_eq power_add)
  have lo: "(of_nat (unat (count0 ctx) div 2 ^ k) :: u8) = of_nat (?x div 2 ^ k)" if "k \<le> 24" for k
    unfolding c0 by (rule be_byte_low [OF that])
  have "finalcount ctx =
      [of_nat (unat (count1 ctx) div 2 ^ 24), of_nat (unat (count1 ctx) div 2 ^ 16), of_nat (unat (count1 ctx) div 2 ^ 8),
       of_nat (unat (count1 ctx) div 2 ^ 0), of_nat (unat (count0 ctx) div 2 ^ 24), of_nat (unat (count0 ctx) div 2 ^ 16),
       of_nat (unat (count0 ctx) div 2 ^ 8), of_nat (unat (count0 ctx) div 2 ^ 0)]"
    unfolding finalcount_def byte_of_word upt_8 by simp
  also have "\<dots> = [of_nat (?x div 2 ^ 56), of_nat (?x div 2 ^ 48), of_nat (?x div 2 ^ 40), of_nat (?x div 2 ^ 32),
      of_nat (?x div 2 ^ 24), of_nat (?x div 2 ^ 16), of_nat (?x div 2 ^ 8), of_nat (?x div 2 ^ 0)]"
    unfolding hi by (simp only: lo list.inject simp_thms) simp
  also have "\<dots> = be_bytes 8 ?x" unfolding be_bytes_def upt_8 by simp
  finally show ?thesis .
qed

lemma sha_compress_length [simp]: "length (sha_compress h b) = 5"
  by (simp add: sha_compress_def Let_def split_def)

lemma sha_blocks_length: "length h = 5 \<Longrightarrow> length (sha_blocks h m) = 5"
  by (induction h m rule: sha_blocks.induct) (subst sha_blocks.simps, simp)

lemma map_upt_groups:
  "map f [0..<4 * n] = concat (map (\<lambda>k. map (\<lambda>j. f (4 * k + j)) [0..<4]) [0..<n])"
proof (induction n)
  case (Suc n)
  have "[0..<4 * Suc n] = [0..<4 * n] @ map (\<lambda>j. 4 * n + j) [0..<4]"
    using upt_add_eq_append [of 0 "4 * n" 4] by (simp add: map_add_upt add.commute)
  then show ?case using Suc.IH by (simp add: comp_def del: upt_Suc mult_Suc_right) simp
qed simp

lemma state_bytes_correct:
  assumes "length st = 5"
  shows "state_bytes st = concat (map (\<lambda>w. be_bytes 4 (unat w)) st)"
proof -
  let ?f = "\<lambda>i. of_nat (unat (st ! drop_bit 2 i) div 2 ^ ((3 - (i AND 3)) * 8)) :: u8"
  have "map (\<lambda>j. ?f (4 * k + j)) [0..<4] = be_bytes 4 (unat (st ! k))" for k
  proof -
    have "drop_bit 2 (4 * k + j) = k" "(4 * k + j) AND 3 = j" if "j < 4" for j :: nat
      using that and_size_mask [of 4 2 "4 * k + j"] by (simp_all add: drop_bit_eq_div)
    then have "?f (4 * k + j) = of_nat (unat (st ! k) div 256 ^ (4 - 1 - j))" if "j < 4" for j
      using that power_mult [of "2 :: nat" 8 "3 - j"] by (simp add: mult.commute)
    then show ?thesis by (simp add: be_bytes_def)
  qed
  then have "state_bytes st = concat (map (\<lambda>k. be_bytes 4 (unat (st ! k))) [0..<5])"
    using map_upt_groups [of ?f 5] by (simp add: state_bytes_def SHA1_DIGEST_SIZE_def byte_of_word)
  also have "\<dots> = concat (map (\<lambda>w. be_bytes 4 (unat w)) (map (\<lambda>k. st ! k) [0..<5]))" by (simp only: map_map o_def)
  also have "map (\<lambda>k. st ! k) [0..<5] = st" using map_nth [of st] assms by simp
  finally show ?thesis .
qed

lemma Final_correct:
  assumes ok: "ctx_ok ctx m" and m: "length m < 2 ^ 61"
  shows "SHA1_digest ctx = sha1 m"
proof -
  define c2 where "c2 = pad_zeros (SHA1_Update ctx [0x80])"
  have "ctx_ok (SHA1_Update ctx [0x80]) (m @ [0x80])" by (rule Update_correct [OF ok]) simp
  then have "ctx_ok c2 ((m @ [0x80]) @ replicate ((120 - length (m @ [0x80]) mod 64) mod 64) 0)"
    unfolding c2_def by (rule pad_zeros_correct)
  moreover have "(120 - Suc n mod 64) mod 64 = (119 - n mod 64) mod 64" for n :: nat
    by (cases "n mod 64 = 63") (auto simp: mod_Suc)
  ultimately have "ctx_ok c2 (m @ [0x80] @ replicate ((119 - length m mod 64) mod 64) 0)" by simp
  then have "ctx_ok (SHA1_Update c2 (finalcount ctx)) ((m @ [0x80] @ replicate ((119 - length m mod 64) mod 64) 0) @ finalcount ctx)"
    by (rule Update_correct) (simp add: finalcount_def)
  then have "sha_state (SHA1_Update c2 (finalcount ctx)) = sha_blocks sha_H0 (sha_pad m)"
    by (simp add: ctx_ok_def sha_pad_def finalcount_correct [OF ok m])
  moreover have "length (sha_blocks sha_H0 (sha_pad m)) = 5" by (rule sha_blocks_length) (simp add: sha_H0_def)
  ultimately show ?thesis
    by (simp add: SHA1_digest_def Let_def flip: c2_def) (simp add: state_bytes_correct sha1_def)
qed

lemma Updates_correct:
  assumes "ctx_ok ctx m" and "\<forall>d \<in> set ds. length d < 2 ^ 29"
  shows "ctx_ok (fold (\<lambda>d c. SHA1_Update c d) ds ctx) (m @ concat ds)"
  using assms
proof (induction ds arbitrary: ctx m)
  case (Cons d ds)
  have "ctx_ok (SHA1_Update ctx d) (m @ d)" by (rule Update_correct) (use Cons.prems in auto)
  then have "ctx_ok (fold (\<lambda>d c. SHA1_Update c d) ds (SHA1_Update ctx d)) ((m @ d) @ concat ds)"
    by (rule Cons.IH) (use Cons.prems in auto)
  then show ?case by simp
qed simp




subsection \<open>The Lua functions\<close>

lemma l_sha1_correct:
  assumes "length garbage = 64" and "length buffer < 2 ^ 29"
  shows "l_sha1 garbage buffer = sha1 buffer"
proof -
  have "ctx_ok (SHA1_Update (SHA1_Init garbage) buffer) ([] @ buffer)"
    by (rule Update_correct [OF ctx_ok_Init [OF assms(1)] assms(2)])
  then have "SHA1_digest (SHA1_Update (SHA1_Init garbage) buffer) = sha1 ([] @ buffer)"
    by (rule Final_correct) (use assms(2) in simp)
  then show ?thesis by (simp add: l_sha1_def)
qed

lemma sha1_length: "length (sha1 m) = 20"
proof -
  have "length (sha_blocks sha_H0 (sha_pad m)) = 5" by (rule sha_blocks_length) (simp add: sha_H0_def)
  then show ?thesis by (simp add: sha1_def length_concat comp_def sum_list_triv)
qed

lemma hmac_key_length: "length (hmac_key key) = 64"
  by (simp add: hmac_key_def sha1_length Let_def)

lemma xor_key_repeated:
  assumes "length k = 64" and "\<And>i. i < 4 \<Longrightarrow> ucast (drop_bit (8 * i) x) = c"
  shows "xor_key k x = map (\<lambda>b. b XOR c) k"
  using assms by (intro nth_equalityI) (simp_all add: xor_key_def BLOCKSIZE_def)

lemma ipad_opad:
  assumes "length k = 64"
  shows "xor_key k 0x5c5c5c5c = map (\<lambda>b. b XOR 0x5c) k"
    and "xor_key (map (\<lambda>b. b XOR 0x5c) k) (0x5c5c5c5c XOR 0x36363636) = map (\<lambda>b. b XOR 0x36) k"
proof -
  show "xor_key k 0x5c5c5c5c = map (\<lambda>b. b XOR 0x5c) k"
    by (rule xor_key_repeated [OF assms]) (auto simp: less_4 drop_bit_eq_div)
  have "xor_key (map (\<lambda>b. b XOR 0x5c) k) (0x5c5c5c5c XOR 0x36363636) = map (\<lambda>b. b XOR 0x6a) (map (\<lambda>b. b XOR 0x5c) k)"
    by (rule xor_key_repeated) (use assms in \<open>auto simp: less_4 drop_bit_eq_div\<close>)
  then show "xor_key (map (\<lambda>b. b XOR 0x5c) k) (0x5c5c5c5c XOR 0x36363636) = map (\<lambda>b. b XOR 0x36) k"
    by (simp add: xor.assoc comp_def)
qed

lemma rkey_correct:
  assumes "length garbage = 64" and "length key < 2 ^ 29"
  shows "(if length key > BLOCKSIZE then memcpy_at 0 (SHA1_digest (SHA1_Update (SHA1_Init garbage) key)) (replicate BLOCKSIZE 0)
          else memcpy_at 0 key (replicate BLOCKSIZE 0)) = hmac_key key"
  using l_sha1_correct [OF assms]
  by (simp add: BLOCKSIZE_def memcpy_at_def hmac_key_def Let_def l_sha1_def)

text \<open>
  \<open>lhmac_sha1\<close> computes the HMAC of RFC 2104 over SHA-1 for every key and text below 512 MB:
  the in-place change of the padded key from the outer to the inner pad, the long keys that are
  hashed first and the two nested digests agree with the definition.
\<close>

theorem hmac_is_standard:
  assumes "length garbage = 64" and "length key < 2 ^ 29" and "length msg < 2 ^ 29"
  shows "l_hmac_sha1 garbage key msg = hmac_sha1 key msg"
proof -
  note I = ctx_ok_Init [OF assms(1)]
  let ?o = "map (\<lambda>b. b XOR 0x5c) (hmac_key key)" and ?i = "map (\<lambda>b. b XOR 0x36) (hmac_key key)"
  have "ctx_ok (SHA1_Update (SHA1_Update (SHA1_Init garbage) ?i) msg) (([] @ ?i) @ msg)"
    by (intro Update_correct I assms(3)) (simp add: hmac_key_length)
  then have inner: "SHA1_digest (SHA1_Update (SHA1_Update (SHA1_Init garbage) ?i) msg) = sha1 (([] @ ?i) @ msg)"
    by (rule Final_correct) (use assms(3) in \<open>simp add: hmac_key_length\<close>)
  have o: "ctx_ok (SHA1_Update (SHA1_Update (SHA1_Init garbage) ?o) d) (([] @ ?o) @ d)" if "length d = 20" for d
    by (intro Update_correct I) (use that in \<open>simp_all add: hmac_key_length\<close>)
  have outer: "SHA1_digest (SHA1_Update (SHA1_Update (SHA1_Init garbage) ?o) d) = sha1 (([] @ ?o) @ d)" if "length d = 20" for d
    by (rule Final_correct [OF o [OF that]]) (use that in \<open>simp add: hmac_key_length\<close>)
  show ?thesis
    unfolding l_hmac_sha1_def fst_Final rkey_correct [OF assms(1,2)] Let_def ipad_opad [OF hmac_key_length] inner
    by (simp add: outer sha1_length hmac_sha1_def)
qed

theorem hmac_is_standard_witness:
  "l_hmac_sha1 (replicate 64 0) [1, 2, 3] [0x61] = hmac_sha1 [1, 2, 3] [0x61]"
  by (rule hmac_is_standard) simp_all

text \<open>
  The bit count of \<open>SHA1_Update\<close> is wrong for a single piece of 512 MB or more: the carry
  test compares the 32-bit sum with the 64-bit \<open>len << 3\<close>, so it always sees a carry and the
  high word of the count is one too large.
\<close>

theorem sha1_large_update_miscounts:
  assumes "2 ^ 29 \<le> length data" and "length data < 2 ^ 61"
  shows "unat (count1 (SHA1_Update (SHA1_Init garbage) data)) = (8 * length data div 2 ^ 32 + 1) mod 2 ^ 32"
proof -
  let ?len = "of_nat (length data) :: u64"
  have len: "unat ?len = length data" using assms by (simp add: unat_of_nat)
  have l3: "unat (push_bit 3 ?len) = 8 * length data"
    using assms by (simp add: push_bit_eq_mult unat_word_ariths len)
  have "unat (ucast (c :: u32) :: u64) < 2 ^ 32" for c
    using u32_less [of c] by (simp add: unsigned_ucast_eq take_bit_nat_eq_self)
  moreover have "2 ^ 32 \<le> 8 * length data" using assms(1) by simp
  ultimately have carry: "(ucast (c :: u32) :: u64) < push_bit 3 ?len" for c
    unfolding word_less_nat_alt l3 by (rule order_less_le_trans)
  have "8 * length data div 2 ^ 32 = length data div 2 ^ 29"
    using div_mult_mult1 [of 8 "length data" "2 ^ 29"] by simp
  then have l29: "unat (ucast (drop_bit 29 ?len) :: u32) = 8 * length data div 2 ^ 32 mod 2 ^ 32"
    by (simp add: unsigned_ucast_eq take_bit_eq_mod unat_drop_bit len)
  have "count1 (SHA1_Update (SHA1_Init garbage) data) = 1 + ucast (drop_bit 29 ?len)"
    by (simp add: Update_count_fields carry SHA1_Init_def)
  then show ?thesis using l29 by (simp add: unat_word_ariths mod_simps)
qed

theorem sha1_large_update_miscounts_witness:
  "unat (count1 (SHA1_Update (SHA1_Init []) (replicate (2 ^ 29) 0))) =
     (8 * length (replicate (2 ^ 29) (0 :: u8)) div 2 ^ 32 + 1) mod 2 ^ 32"
  by (rule sha1_large_update_miscounts) (simp_all only: length_replicate, simp_all)

end
