(* ===== verification/Socket_Object.thy ===== *)
theory Socket_Object
  imports Skynet_Prelude
begin

text \<open>
  The socket objects of the socket server and the pool that hands them out
  (\<open>skynet-src/socket/socket_object.{h,inl,cpp}\<close>, \<open>socket_object_pool.{h,inl,cpp}\<close>,
  \<open>socket_lock.cpp\<close>, \<open>socket_endpoint.cpp\<close>). A socket id is a non-negative \<open>int\<close>; its low 16 bits
  are the slot of the pool. The theory shows that the pool never hands out a slot that is in use
  and finds a free one whenever there is one, across the wrap-around of the ids.

  An \<open>int\<close> of the source is an \<open>int\<close> here, with the wrap-around written out where it can occur.
\<close>

subsection \<open>Socket objects\<close>

datatype socket_status =
    SOCKET_STATUS_INVALID
  | SOCKET_STATUS_ALLOCED
  | SOCKET_STATUS_PREPARE_LISTEN
  | SOCKET_STATUS_LISTEN
  | SOCKET_STATUS_CONNECTING
  | SOCKET_STATUS_CONNECTED
  | SOCKET_STATUS_HALF_CLOSE_READ
  | SOCKET_STATUS_HALF_CLOSE_WRITE
  | SOCKET_STATUS_PREPARE_ACCEPT
  | SOCKET_STATUS_BIND

datatype socket_type =
    SOCKET_TYPE_TCP
  | SOCKET_TYPE_UDP
  | SOCKET_TYPE_UDPv6
  | SOCKET_TYPE_UNKNOWN

fun socket_type_code :: "socket_type \<Rightarrow> u8" where
  "socket_type_code SOCKET_TYPE_TCP = 0"
| "socket_type_code SOCKET_TYPE_UDP = 1"
| "socket_type_code SOCKET_TYPE_UDPv6 = 2"
| "socket_type_code SOCKET_TYPE_UNKNOWN = 255"

definition UDP_ADDRESS_SIZE :: nat where
  "UDP_ADDRESS_SIZE = 19"

definition INVALID_FD :: int where
  "INVALID_FD = - 1"

text \<open>
  A write buffer: \<open>buffer\<close> is the block to free, \<open>ptr\<close> the position in it of the bytes still to be
  sent (an offset here), \<open>sz\<close> their number. \<open>next\<close> is the order of the list.
\<close>

record write_buffer =
  wb_buffer :: bytes
  wb_ptr :: nat
  wb_sz :: nat
  wb_is_user_object :: bool
  wb_udp_address :: bytes

record socket_statistics =
  recv_time_ticks :: u64
  send_time_ticks :: u64
  recv_bytes :: u64
  send_bytes :: u64

text \<open>
  The union \<open>p\<close> holds the read size of a TCP socket or the address of a UDP socket; no socket
  uses both, so they are two fields. The direct write buffer is the data, its size is its length.
\<close>

record socket_object =
  so_svc_handle :: nat
  so_fd :: int
  so_id :: int
  so_type :: socket_type
  so_status :: socket_status
  so_reading :: bool
  so_writing :: bool
  so_closing :: bool
  so_high :: "write_buffer list"
  so_low :: "write_buffer list"
  so_write_buffer_size :: int
  so_sending_count :: nat
  so_udp_connecting_count :: nat
  so_statistics :: socket_statistics
  so_warn_size :: int
  so_p_size :: nat
  so_p_udp_address :: bytes
  so_direct_write_offset :: nat
  so_direct_write_buffer :: "bytes option"

definition no_statistics :: socket_statistics where
  "no_statistics = \<lparr>recv_time_ticks = 0, send_time_ticks = 0, recv_bytes = 0, send_bytes = 0\<rparr>"

text \<open>The default member initialisers.\<close>

definition new_socket_object :: socket_object where
  "new_socket_object =
     \<lparr>so_svc_handle = 0, so_fd = INVALID_FD, so_id = 0, so_type = SOCKET_TYPE_UNKNOWN,
      so_status = SOCKET_STATUS_INVALID, so_reading = False, so_writing = False,
      so_closing = False, so_high = [], so_low = [], so_write_buffer_size = 0,
      so_sending_count = 0, so_udp_connecting_count = 0, so_statistics = no_statistics,
      so_warn_size = 0, so_p_size = 0, so_p_udp_address = replicate UDP_ADDRESS_SIZE 0,
      so_direct_write_offset = 0, so_direct_write_buffer = None\<rparr>"

definition is_invalid :: "socket_object \<Rightarrow> int \<Rightarrow> bool" where
  "is_invalid so socket_id \<longleftrightarrow> so_id so \<noteq> socket_id \<or> so_status so = SOCKET_STATUS_INVALID"

definition is_write_buffer_empty :: "socket_object \<Rightarrow> bool" where
  "is_write_buffer_empty so \<longleftrightarrow> so_high so = [] \<and> so_low so = []"

definition is_close_read :: "socket_object \<Rightarrow> bool" where
  "is_close_read so \<longleftrightarrow> so_status so = SOCKET_STATUS_HALF_CLOSE_READ"

definition is_close_write :: "socket_object \<Rightarrow> bool" where
  "is_close_write so \<longleftrightarrow> so_status so = SOCKET_STATUS_HALF_CLOSE_WRITE"

text \<open>The low 16 bits of \<open>sending_count\<close> count, the high 16 bits are those of the socket id.\<close>

definition nomore_sending_data :: "socket_object \<Rightarrow> bool" where
  "nomore_sending_data so \<longleftrightarrow>
     (is_write_buffer_empty so \<and> so_direct_write_buffer so = None \<and>
      so_sending_count so mod 0x10000 = 0) \<or> is_close_write so"

definition can_direct_send :: "socket_object \<Rightarrow> int \<Rightarrow> bool" where
  "can_direct_send so socket_id \<longleftrightarrow>
     so_id so = socket_id \<and> nomore_sending_data so \<and> so_status so = SOCKET_STATUS_CONNECTED \<and>
     so_udp_connecting_count so = 0"

definition statistics_recv :: "nat \<Rightarrow> u64 \<Rightarrow> socket_object \<Rightarrow> socket_object" where
  "statistics_recv n ticks so =
     so\<lparr>so_statistics := (so_statistics so)\<lparr>recv_bytes := recv_bytes (so_statistics so) + of_nat n,
                                           recv_time_ticks := ticks\<rparr>\<rparr>"

definition statistics_send :: "nat \<Rightarrow> u64 \<Rightarrow> socket_object \<Rightarrow> socket_object" where
  "statistics_send n ticks so =
     so\<lparr>so_statistics := (so_statistics so)\<lparr>send_bytes := send_bytes (so_statistics so) + of_nat n,
                                           send_time_ticks := ticks\<rparr>\<rparr>"

subsection \<open>Ids, slots and the sending count\<close>

definition MAX_SOCKET :: nat where
  "MAX_SOCKET = 0x10000"

definition socket_array_index :: "int \<Rightarrow> nat" where
  "socket_array_index socket_id = nat (socket_id mod 2 ^ 32) mod MAX_SOCKET"

definition socket_id_high16 :: "int \<Rightarrow> nat" where
  "socket_id_high16 socket_id = nat (drop_bit 16 socket_id AND 0xFFFF)"

text \<open>
  \<open>inc_sending_count\<close> without a competing thread: \<open>None\<close> when the count is full, where the code
  spins until the socket thread has decremented it.
\<close>

definition inc_sending_count :: "int \<Rightarrow> socket_object \<Rightarrow> socket_object option" where
  "inc_sending_count socket_id so =
     (if so_type so \<noteq> SOCKET_TYPE_TCP then Some so
      else if so_sending_count so div 0x10000 = socket_id_high16 socket_id then
        if so_sending_count so mod 0x10000 = 0xFFFF then None
        else Some (so\<lparr>so_sending_count := so_sending_count so + 1\<rparr>)
      else Some so)"

definition dec_sending_count :: "int \<Rightarrow> socket_object \<Rightarrow> socket_object option" where
  "dec_sending_count socket_id so =
     (if so_id so = socket_id \<and> so_type so = SOCKET_TYPE_TCP then do {
        c_assert (so_sending_count so mod 0x10000 \<noteq> 0);
        Some (so\<lparr>so_sending_count := so_sending_count so - 1\<rparr>)
      } else Some so)"

definition reset_sending_count :: "int \<Rightarrow> socket_object \<Rightarrow> socket_object" where
  "reset_sending_count socket_id so = so\<lparr>so_sending_count := push_bit 16 (socket_id_high16 socket_id)\<rparr>"

definition inc_udp_connecting_count :: "socket_object \<Rightarrow> socket_object" where
  "inc_udp_connecting_count so =
     so\<lparr>so_udp_connecting_count := Suc (so_udp_connecting_count so) mod 0x10000\<rparr>"

definition dec_udp_connecting_count :: "socket_object \<Rightarrow> socket_object" where
  "dec_udp_connecting_count so =
     so\<lparr>so_udp_connecting_count := (so_udp_connecting_count so + 0xFFFF) mod 0x10000\<rparr>"

subsection \<open>The pool\<close>

record socket_object_pool =
  socket_array :: "nat \<Rightarrow> socket_object"
  alloc_socket_id :: int

definition get_socket :: "socket_object_pool \<Rightarrow> int \<Rightarrow> socket_object" where
  "get_socket p socket_id = socket_array p (socket_array_index socket_id)"

definition set_socket :: "int \<Rightarrow> socket_object \<Rightarrow> socket_object_pool \<Rightarrow> socket_object_pool" where
  "set_socket socket_id so p =
     p\<lparr>socket_array := (socket_array p)(socket_array_index socket_id := so)\<rparr>"

text \<open>\<open>++alloc_socket_id_\<close> of an \<open>atomic<int>\<close>, with the masking of a negative result.\<close>

definition next_socket_id :: "int \<Rightarrow> int" where
  "next_socket_id i =
     (let j = (if i = 2 ^ 31 - 1 then - (2 ^ 31) else i + 1) in
      if j < 0 then j AND 0x7FFFFFFF else j)"

fun alloc_from :: "nat \<Rightarrow> socket_object_pool \<Rightarrow> int \<times> socket_object_pool" where
  "alloc_from 0 p = (- 1, p)"
| "alloc_from (Suc i) p =
     (let socket_id = next_socket_id (alloc_socket_id p);
          p1 = p\<lparr>alloc_socket_id := socket_id\<rparr>;
          so = get_socket p1 socket_id
      in if so_status so \<noteq> SOCKET_STATUS_INVALID then alloc_from i p1
         else (socket_id, set_socket socket_id
                 (so\<lparr>so_status := SOCKET_STATUS_ALLOCED, so_id := socket_id,
                     so_type := SOCKET_TYPE_UNKNOWN, so_udp_connecting_count := 0,
                     so_fd := INVALID_FD\<rparr>) p1))"

definition alloc_socket :: "socket_object_pool \<Rightarrow> int \<times> socket_object_pool" where
  "alloc_socket p = alloc_from MAX_SOCKET p"

definition free_socket :: "int \<Rightarrow> socket_object_pool \<Rightarrow> socket_object_pool" where
  "free_socket socket_id p =
     set_socket socket_id ((get_socket p socket_id)\<lparr>so_status := SOCKET_STATUS_INVALID\<rparr>) p"

subsection \<open>The call lock\<close>

text \<open>
  \<open>socket_lock\<close>: the state is the mutex (held or not) and the count of this call. \<open>lock\<close> on a
  mutex held elsewhere waits, which is \<open>None\<close>.
\<close>

record socket_lock =
  sl_held :: bool
  sl_count :: int

definition sl_lock :: "socket_lock \<Rightarrow> socket_lock option" where
  "sl_lock l = do {
     l1 \<leftarrow> (if sl_count l = 0 then (if sl_held l then None else Some (l\<lparr>sl_held := True\<rparr>)) else Some l);
     Some (l1\<lparr>sl_count := sl_count l1 + 1\<rparr>)
   }"

definition sl_try_lock :: "socket_lock \<Rightarrow> bool \<times> socket_lock" where
  "sl_try_lock l =
     (if sl_count l = 0 then
        if sl_held l then (False, l) else (True, l\<lparr>sl_held := True, sl_count := sl_count l + 1\<rparr>)
      else (True, l\<lparr>sl_count := sl_count l + 1\<rparr>))"

definition sl_unlock :: "socket_lock \<Rightarrow> socket_lock option" where
  "sl_unlock l =
     (let l1 = l\<lparr>sl_count := sl_count l - 1\<rparr> in
      if sl_count l1 \<le> 0 then do { c_assert (sl_count l1 = 0); Some (l1\<lparr>sl_held := False\<rparr>) }
      else Some l1)"

subsection \<open>Endpoints and UDP addresses\<close>

text \<open>A socket address: family, port in network order (two bytes) and the raw IP address.\<close>

datatype socket_endpoint = EP_V4 bytes bytes | EP_V6 bytes bytes

fun endpoint_ok :: "socket_endpoint \<Rightarrow> bool" where
  "endpoint_ok (EP_V4 port ip) \<longleftrightarrow> length port = 2 \<and> length ip = 4"
| "endpoint_ok (EP_V6 port ip) \<longleftrightarrow> length port = 2 \<and> length ip = 16"

definition take_at :: "nat \<Rightarrow> nat \<Rightarrow> bytes \<Rightarrow> bytes" where
  "take_at off n bs = take n (drop off bs)"

text \<open>\<open>from_udp_address\<close>: \<open>None\<close> is the result 0 (the types differ).\<close>

definition from_udp_address :: "socket_type \<Rightarrow> bytes \<Rightarrow> socket_endpoint option" where
  "from_udp_address protocol_type udp_address =
     (if udp_address ! 0 \<noteq> socket_type_code protocol_type then None
      else let port = take_at 1 2 udp_address in
        (case protocol_type of
           SOCKET_TYPE_UDP \<Rightarrow> Some (EP_V4 port (take_at 3 4 udp_address))
         | SOCKET_TYPE_UDPv6 \<Rightarrow> Some (EP_V6 port (take_at 3 16 udp_address))
         | _ \<Rightarrow> None))"

text \<open>\<open>to_udp_address\<close> of an endpoint of the family that the type names.\<close>

fun to_udp_address :: "socket_type \<Rightarrow> socket_endpoint \<Rightarrow> bytes option" where
  "to_udp_address SOCKET_TYPE_UDP (EP_V4 port ip) = Some (1 # port @ ip)"
| "to_udp_address SOCKET_TYPE_UDP (EP_V6 port ip) = None"
| "to_udp_address t (EP_V6 port ip) = Some (socket_type_code t # port @ ip)"
| "to_udp_address t (EP_V4 port ip) = None"

subsection \<open>Correctness of the pool\<close>

definition pool_ok :: "socket_object_pool \<Rightarrow> bool" where
  "pool_ok p \<longleftrightarrow> 0 \<le> alloc_socket_id p \<and> alloc_socket_id p < 2 ^ 31"

lemma socket_array_index_less: "socket_array_index i < MAX_SOCKET"
  by (simp add: socket_array_index_def MAX_SOCKET_def)

lemma socket_array_index_mod: "int (socket_array_index i) = i mod 65536"
proof -
  have "int (nat (i mod 2 ^ 32) mod MAX_SOCKET) = i mod 2 ^ 32 mod 65536"
    by (simp add: MAX_SOCKET_def zmod_int)
  also have "\<dots> = i mod 65536"
    by (rule mod_mod_cancel) simp
  finally show ?thesis by (simp only: socket_array_index_def)
qed

lemma next_socket_id_mod:
  assumes "0 \<le> i" "i < 2 ^ 31"
  shows "next_socket_id i = (i + 1) mod 2 ^ 31"
  using assms by (auto simp: next_socket_id_def Let_def)

lemma next_index:
  assumes "0 \<le> i" "i < 2 ^ 31"
  shows "socket_array_index (next_socket_id i) = Suc (socket_array_index i) mod MAX_SOCKET"
proof -
  have "int (socket_array_index (next_socket_id i)) = (i + 1) mod 2 ^ 31 mod 65536"
    using assms by (simp only: socket_array_index_mod next_socket_id_mod)
  also have "\<dots> = (i + 1) mod 65536"
    by (rule mod_mod_cancel) simp
  also have "\<dots> = int (Suc (socket_array_index i) mod MAX_SOCKET)"
    by (simp add: zmod_int MAX_SOCKET_def socket_array_index_mod mod_simps add.commute)
  finally show ?thesis by (simp only: of_nat_eq_iff)
qed

definition slot_free :: "socket_object_pool \<Rightarrow> nat \<Rightarrow> bool" where
  "slot_free p k \<longleftrightarrow> so_status (socket_array p k) = SOCKET_STATUS_INVALID"

definition alloced :: "socket_object_pool \<Rightarrow> int \<Rightarrow> socket_object_pool \<Rightarrow> bool" where
  "alloced p socket_id p' \<longleftrightarrow>
     0 \<le> socket_id \<and> socket_id < 2 ^ 31 \<and> slot_free p (socket_array_index socket_id) \<and> pool_ok p' \<and>
     so_status (get_socket p' socket_id) = SOCKET_STATUS_ALLOCED \<and>
     so_id (get_socket p' socket_id) = socket_id \<and>
     (\<forall>k. k \<noteq> socket_array_index socket_id \<longrightarrow> socket_array p' k = socket_array p k)"

lemma alloc_from_correct:
  assumes "pool_ok p"
  shows "case alloc_from n p of (socket_id, p') \<Rightarrow>
     if \<exists>j \<in> {1..n}. slot_free p ((socket_array_index (alloc_socket_id p) + j) mod MAX_SOCKET)
     then alloced p socket_id p'
     else socket_id = - 1 \<and> pool_ok p' \<and> socket_array p' = socket_array p"
  using assms
proof (induction n arbitrary: p)
  case 0
  then show ?case by simp
next
  case (Suc n)
  define a where "a = alloc_socket_id p"
  define b where "b = next_socket_id a"
  define p1 where "p1 = p\<lparr>alloc_socket_id := b\<rparr>"
  have a: "0 \<le> a" "a < 2 ^ 31" and b: "0 \<le> b" "b < 2 ^ 31"
    using Suc.prems by (simp_all add: pool_ok_def a_def b_def next_socket_id_mod)
  then have p1: "pool_ok p1" "slot_free p1 = slot_free p"
    by (simp_all add: pool_ok_def p1_def slot_free_def fun_eq_iff)
  have idx: "socket_array_index b = Suc (socket_array_index a) mod MAX_SOCKET"
    unfolding b_def using a by (rule next_index)
  show ?case
  proof (cases "slot_free p (socket_array_index b)")
    case True
    then have "\<exists>j \<in> {1..Suc n}. slot_free p ((socket_array_index a + j) mod MAX_SOCKET)"
      using idx by (intro bexI [of _ 1]) simp_all
    moreover have "alloced p (fst (alloc_from (Suc n) p)) (snd (alloc_from (Suc n) p))"
      using True b by (simp add: alloced_def slot_free_def get_socket_def set_socket_def pool_ok_def
          Let_def flip: a_def b_def)
    ultimately show ?thesis
      unfolding a_def by (simp only: case_prod_beta if_True)
  next
    case False
    have shift: "(\<exists>j \<in> {1..Suc n}. slot_free p ((socket_array_index a + j) mod MAX_SOCKET))
        \<longleftrightarrow> (\<exists>j \<in> {1..n}. slot_free p ((socket_array_index b + j) mod MAX_SOCKET))" (is "?l \<longleftrightarrow> ?r")
    proof -
      have eq: "(socket_array_index a + Suc j) mod MAX_SOCKET = (socket_array_index b + j) mod MAX_SOCKET" for j
        by (simp add: idx mod_simps)
      have "?l \<longleftrightarrow> (\<exists>j \<in> {0..n}. slot_free p ((socket_array_index a + Suc j) mod MAX_SOCKET))"
        using image_Suc_atLeastAtMost [of 0 n] by (metis One_nat_def image_iff)
      also have "\<dots> \<longleftrightarrow> (\<exists>j \<in> {0..n}. slot_free p ((socket_array_index b + j) mod MAX_SOCKET))"
        by (simp only: eq)
      also have "\<dots> \<longleftrightarrow> ?r"
      proof
        assume "\<exists>j \<in> {0..n}. slot_free p ((socket_array_index b + j) mod MAX_SOCKET)"
        then obtain j where j: "j \<le> n" "slot_free p ((socket_array_index b + j) mod MAX_SOCKET)"
          by auto
        with False socket_array_index_less [of b] have "j \<noteq> 0"
          by (metis add_0_right mod_less)
        with j show ?r by (intro bexI [of _ j]) simp_all
      qed auto
      finally show ?thesis .
    qed
    have step: "alloc_from (Suc n) p = alloc_from n p1"
      using False by (simp add: Let_def get_socket_def slot_free_def p1_def flip: a_def b_def)
    have same: "socket_array p1 = socket_array p" "alloc_socket_id p1 = b"
      by (simp_all add: p1_def)
    have alloced: "alloced p1 i p' = alloced p i p'" for i p'
      by (simp only: alloced_def p1(2) same)
    show ?thesis
      using Suc.IH [OF p1(1)] unfolding step p1(2) same alloced shift a_def [symmetric] .
  qed
qed

text \<open>
  C18. The pool hands out a free slot whenever there is one: the id is a valid one, its slot was free
  and is now allocated to the id, and every other slot is untouched. It fails, changing no slot,
  exactly when every slot is in use.
\<close>

theorem alloc_socket_exact:
  assumes "pool_ok p" and "alloc_socket p = (socket_id, p')"
  shows "if \<exists>k < MAX_SOCKET. slot_free p k then alloced p socket_id p'
         else socket_id = - 1 \<and> socket_array p' = socket_array p"
proof -
  define a where "a = socket_array_index (alloc_socket_id p)"
  have "(\<exists>j \<in> {1..MAX_SOCKET}. slot_free p ((a + j) mod MAX_SOCKET)) \<longleftrightarrow> (\<exists>k < MAX_SOCKET. slot_free p k)"
  proof
    assume "\<exists>k < MAX_SOCKET. slot_free p k"
    then obtain k where k: "k < MAX_SOCKET" "slot_free p k" by blast
    define j where "j = (if k \<le> a then k + MAX_SOCKET - a else k - a)"
    have "a < MAX_SOCKET"
      unfolding a_def by (rule socket_array_index_less)
    with k(1) have "j \<in> {1..MAX_SOCKET}" "(a + j) mod MAX_SOCKET = k"
      by (auto simp: j_def)
    with k(2) show "\<exists>j \<in> {1..MAX_SOCKET}. slot_free p ((a + j) mod MAX_SOCKET)" by metis
  next
    assume "\<exists>j \<in> {1..MAX_SOCKET}. slot_free p ((a + j) mod MAX_SOCKET)"
    moreover have "0 < MAX_SOCKET" by (simp add: MAX_SOCKET_def)
    ultimately show "\<exists>k < MAX_SOCKET. slot_free p k" by (meson mod_less_divisor)
  qed
  then show ?thesis
    using alloc_from_correct [OF assms(1), of MAX_SOCKET] assms(2)
    by (simp add: alloc_socket_def a_def split: if_splits)
qed

definition empty_pool :: socket_object_pool where
  "empty_pool = \<lparr>socket_array = (\<lambda>_. new_socket_object), alloc_socket_id = 0\<rparr>"

theorem alloc_socket_exact_witness:
  "alloced empty_pool (fst (alloc_socket empty_pool)) (snd (alloc_socket empty_pool))"
proof -
  have "pool_ok empty_pool" "slot_free empty_pool 0"
    by (simp_all add: pool_ok_def empty_pool_def slot_free_def new_socket_object_def)
  moreover have "0 < MAX_SOCKET"
    by (simp add: MAX_SOCKET_def)
  ultimately show ?thesis
    using alloc_socket_exact [of empty_pool "fst (alloc_socket empty_pool)" "snd (alloc_socket empty_pool)"]
    by (metis prod.collapse)
qed

text \<open>A UDP address survives the conversion to an endpoint and back.\<close>

lemma udp_address_roundtrip:
  assumes "t = SOCKET_TYPE_UDP \<and> length a = 7 \<or> t = SOCKET_TYPE_UDPv6 \<and> length a = 19"
    and "a ! 0 = socket_type_code t"
  shows "\<exists>ep. from_udp_address t a = Some ep \<and> to_udp_address t ep = Some a"
proof -
  have split: "a = a ! 0 # take_at 1 2 a @ take_at 3 n a" if h: "length a = n + 3" for n
  proof -
    obtain x y z r where "a = x # y # z # r" "length r = n"
      using h by (auto simp: length_Suc_conv numeral_eq_Suc)
    then show ?thesis by (simp add: take_at_def)
  qed
  show ?thesis
    using assms split [of 4] split [of 16]
    by (auto simp: from_udp_address_def Let_def)
qed

end
