(* ===== verification/Ctrl_Cmd.thy ===== *)
theory Ctrl_Cmd
  imports Socket_Object
begin

text \<open>
  The control commands that worker threads send to the socket thread through a pipe
  (\<open>skynet-src/socket/socket_server_ctrl_cmd.{h,cpp}\<close>): a command letter, the length of the data
  and the data, one structure per command. The data of a package is a value of \<open>cmd_request\<close>
  with one constructor per structure of the union.
\<close>

subsection \<open>Data to send\<close>

datatype send_data_type =
    SEND_DATA_TYPE_MEMORY
  | SEND_DATA_TYPE_USER_OBJECT
  | SEND_DATA_TYPE_USER_DATA

record send_data =
  sd_socket_id :: int
  sd_type :: send_data_type
  sd_data :: bytes

text \<open>
  A pointer with a \<open>size_t\<close>: memory of that size, or an object when the size is \<open>USER_OBJECT_TAG\<close>.
\<close>

datatype sized_ptr = MEMORY bytes | USER_OBJECT bytes

subsection \<open>Packages\<close>

datatype cmd_request =
    request_none
  | request_listen (listen_socket_id: int) (listen_socket_fd: int) (listen_svc_handle: nat)
  | request_connect (connect_socket_id: int) (connect_port: int) (connect_svc_handle: nat)
      (connect_host: string)
  | request_send (send_socket_id: int) (send_ptr: "sized_ptr option")
  | request_send_udp (send_udp_socket_id: int) (send_udp_ptr: "sized_ptr option")
      (send_udp_address: bytes)
  | request_set_udp (set_udp_socket_id: int) (set_udp_address: bytes)
  | request_close (close_socket_id: int) (close_shutdown: int) (close_svc_handle: nat)
  | request_bind_os_fd (bind_socket_id: int) (bind_os_fd: int) (bind_svc_handle: nat)
  | request_resume_pause (rp_socket_id: int) (rp_svc_handle: nat)
  | request_set_opt (opt_socket_id: int) (opt_what: int) (opt_value: int)
  | request_udp_socket (udp_socket_id: int) (udp_socket_fd: int) (udp_family: int)
      (udp_svc_handle: nat)

record ctrl_cmd_package =
  cmd_type :: char
  cmd_len :: nat
  cmd_u :: cmd_request

text \<open>The default package, as the member initialisers leave it.\<close>

definition empty_package :: ctrl_cmd_package where
  "empty_package = \<lparr>cmd_type = CHR 0x00, cmd_len = 0, cmd_u = request_none\<rparr>"

definition prepare_resume :: "nat \<Rightarrow> int \<Rightarrow> ctrl_cmd_package" where
  "prepare_resume svc_handle socket_id =
     \<lparr>cmd_type = CHR ''R'', cmd_len = 8, cmd_u = request_resume_pause socket_id svc_handle\<rparr>"

definition prepare_pause :: "nat \<Rightarrow> int \<Rightarrow> ctrl_cmd_package" where
  "prepare_pause svc_handle socket_id =
     \<lparr>cmd_type = CHR ''S'', cmd_len = 8, cmd_u = request_resume_pause socket_id svc_handle\<rparr>"

definition prepare_close :: "nat \<Rightarrow> int \<Rightarrow> ctrl_cmd_package" where
  "prepare_close svc_handle socket_id =
     \<lparr>cmd_type = CHR ''K'', cmd_len = 12, cmd_u = request_close socket_id 0 svc_handle\<rparr>"

definition prepare_shutdown :: "nat \<Rightarrow> int \<Rightarrow> ctrl_cmd_package" where
  "prepare_shutdown svc_handle socket_id =
     \<lparr>cmd_type = CHR ''K'', cmd_len = 12, cmd_u = request_close socket_id 1 svc_handle\<rparr>"

text \<open>\<open>sizeof(cmd_request_connect)\<close> is 16; \<open>None\<close> is the result -1 for a name that is too long.\<close>

definition prepare_connect :: "nat \<Rightarrow> int \<Rightarrow> string \<Rightarrow> nat \<Rightarrow> ctrl_cmd_package option" where
  "prepare_connect svc_handle socket_id remote_ip remote_port =
     (if 16 + length remote_ip \<ge> 256 then None
      else Some \<lparr>cmd_type = CHR ''O'', cmd_len = length remote_ip + 16,
                 cmd_u = request_connect socket_id (int remote_port) svc_handle remote_ip\<rparr>)"

definition prepare_bind :: "nat \<Rightarrow> int \<Rightarrow> int \<Rightarrow> ctrl_cmd_package" where
  "prepare_bind svc_handle socket_id os_fd =
     \<lparr>cmd_type = CHR ''B'', cmd_len = 12, cmd_u = request_bind_os_fd socket_id os_fd svc_handle\<rparr>"

definition prepare_listen :: "nat \<Rightarrow> int \<Rightarrow> int \<Rightarrow> ctrl_cmd_package" where
  "prepare_listen svc_handle socket_id listen_fd =
     \<lparr>cmd_type = CHR ''L'', cmd_len = 16, cmd_u = request_listen socket_id listen_fd svc_handle\<rparr>"

definition prepare_send :: "int \<Rightarrow> sized_ptr option \<Rightarrow> bool \<Rightarrow> ctrl_cmd_package" where
  "prepare_send socket_id sd_ptr is_high =
     \<lparr>cmd_type = (if is_high then CHR ''D'' else CHR ''P''), cmd_len = 24,
      cmd_u = request_send socket_id sd_ptr\<rparr>"

definition prepare_trigger_write :: "int \<Rightarrow> ctrl_cmd_package" where
  "prepare_trigger_write socket_id =
     \<lparr>cmd_type = CHR ''W'', cmd_len = 24, cmd_u = request_send socket_id None\<rparr>"

definition TCP_NODELAY :: int where
  "TCP_NODELAY = 1"

definition prepare_set_opt :: "int \<Rightarrow> ctrl_cmd_package" where
  "prepare_set_opt socket_id =
     \<lparr>cmd_type = CHR ''T'', cmd_len = 12, cmd_u = request_set_opt socket_id TCP_NODELAY 1\<rparr>"

definition prepare_udp_socket :: "nat \<Rightarrow> int \<Rightarrow> int \<Rightarrow> int \<Rightarrow> ctrl_cmd_package" where
  "prepare_udp_socket svc_handle socket_id socket_fd family =
     \<lparr>cmd_type = CHR ''U'', cmd_len = 16,
      cmd_u = request_udp_socket socket_id socket_fd family svc_handle\<rparr>"

text \<open>The address array is zero behind the bytes of the address.\<close>

definition udp_address_array :: "bytes \<Rightarrow> bytes" where
  "udp_address_array a = a @ replicate (UDP_ADDRESS_SIZE - length a) 0"

definition prepare_set_udp :: "int \<Rightarrow> socket_type \<Rightarrow> socket_endpoint \<Rightarrow> ctrl_cmd_package option" where
  "prepare_set_udp socket_id t endpoint =
     (case to_udp_address t endpoint of
        None \<Rightarrow> None
      | Some address \<Rightarrow>
          Some \<lparr>cmd_type = CHR ''C'', cmd_len = 24 - 19 + length address,
                cmd_u = request_set_udp socket_id (udp_address_array address)\<rparr>)"

definition prepare_send_udp :: "int \<Rightarrow> sized_ptr option \<Rightarrow> bytes \<Rightarrow> ctrl_cmd_package" where
  "prepare_send_udp socket_id sd_ptr address =
     \<lparr>cmd_type = CHR ''A'', cmd_len = 24 + length address,
      cmd_u = request_send_udp socket_id sd_ptr (udp_address_array address)\<rparr>"

text \<open>
  The socket thread picks the structure by the letter alone. \<open>well_typed\<close> says that the data of
  a package is the structure that the letter stands for.
\<close>

definition well_typed :: "ctrl_cmd_package \<Rightarrow> bool" where
  "well_typed c \<longleftrightarrow>
     (case cmd_u c of
        request_none \<Rightarrow> False
      | request_listen _ _ _ \<Rightarrow> cmd_type c = CHR ''L''
      | request_connect _ _ _ _ \<Rightarrow> cmd_type c = CHR ''O''
      | request_send _ p \<Rightarrow> cmd_type c = CHR ''W'' \<or> p \<noteq> None \<and> cmd_type c \<in> {CHR ''D'', CHR ''P''}
      | request_send_udp _ p _ \<Rightarrow> p \<noteq> None \<and> cmd_type c = CHR ''A''
      | request_set_udp _ _ \<Rightarrow> cmd_type c = CHR ''C''
      | request_close _ _ _ \<Rightarrow> cmd_type c = CHR ''K''
      | request_bind_os_fd _ _ _ \<Rightarrow> cmd_type c = CHR ''B''
      | request_resume_pause _ _ \<Rightarrow> cmd_type c \<in> {CHR ''R'', CHR ''S''}
      | request_set_opt _ _ _ \<Rightarrow> cmd_type c = CHR ''T''
      | request_udp_socket _ _ _ _ \<Rightarrow> cmd_type c = CHR ''U'') \<and>
     cmd_len c < 256"

lemmas prepare_defs =
  prepare_resume_def prepare_pause_def prepare_close_def prepare_shutdown_def prepare_bind_def
  prepare_listen_def prepare_send_def prepare_trigger_write_def prepare_set_opt_def
  prepare_udp_socket_def prepare_send_udp_def

end
