(* ===== verification/Socket_Server.thy ===== *)
theory Socket_Server
  imports Ctrl_Cmd
begin

text \<open>
  The socket server (\<open>skynet-src/socket/socket_server.cpp\<close>): the calls of the worker threads,
  which allocate a socket, write directly when nothing is queued, and otherwise send a control
  command; the handlers that run these commands on the socket thread; and the write path, which
  sends the two priority lists of a socket when it is writable.

  The kernel is a parameter of the state: it answers each \<open>write\<close> or \<open>sendto\<close> with the next
  answer of a list (and with \<open>EAGAIN\<close>, a full send buffer, when the list is used up), and the
  model records what it was given. An operation returns \<open>None\<close> where the process aborts: a failed
  \<open>assert\<close>, a call through a null or uninitialised function pointer.
\<close>

subsection \<open>The kernel\<close>

datatype io_result = IO_OK nat | IO_EINTR | IO_EAGAIN | IO_ERROR

text \<open>
  \<open>k_wire\<close>: the bytes accepted per descriptor; \<open>k_datagrams\<close>: what \<open>sendto\<close> accepted;
  \<open>k_interest\<close>: the events that the poller waits for; \<open>k_closed\<close> and \<open>k_shutdown\<close>: the calls of
  \<open>close\<close> and \<open>shutdown\<close> (true: the writing side). The remaining fields are the answers of
  \<open>epoll_ctl\<close>, of the name resolution with the connection attempts (descriptor, result), and of
  \<open>bind\<close> and \<open>listen\<close>, and the text of the address at the other end of a descriptor; then, per
  descriptor, what the reads, accepts and datagram reads will find, and the pending socket error; and the first
  address of a UDP name resolution (\<open>Some None\<close>: of a family that is neither IPv4 nor IPv6).
\<close>

datatype input_item = IN_BYTES bytes | IN_EOF | IN_EINTR | IN_EAGAIN | IN_ERROR

datatype accept_item = ACCEPTED int "string option" | ACCEPT_FILE_LIMIT | ACCEPT_FAILED

datatype recv_item = RECEIVED bytes socket_endpoint | RECV_AGAIN | RECV_ERROR

datatype connect_result = CONNECT_DONE | CONNECT_INPROGRESS | CONNECT_FAILED

record kernel =
  k_answers :: "io_result list"
  k_wire :: "int \<Rightarrow> bytes"
  k_datagrams :: "(int \<times> bytes \<times> socket_endpoint) list"
  k_interest :: "int \<Rightarrow> (bool \<times> bool) option"
  k_closed :: "int list"
  k_shutdown :: "(int \<times> bool) list"
  k_ctl_error :: "int \<Rightarrow> bool"
  k_add_error :: "int \<Rightarrow> bool"
  k_resolve :: "string \<Rightarrow> int \<Rightarrow> (int \<times> connect_result) list option"
  k_bind :: "string \<Rightarrow> nat \<Rightarrow> bool \<Rightarrow> int \<times> int"
  k_listen_error :: "int \<Rightarrow> bool"
  k_peer :: "int \<Rightarrow> string option"
  k_input :: "int \<Rightarrow> input_item list"
  k_accept :: "int \<Rightarrow> accept_item list"
  k_datagrams_in :: "int \<Rightarrow> recv_item list"
  k_so_error :: "int \<Rightarrow> string option"
  k_resolve_udp :: "string \<Rightarrow> int \<Rightarrow> socket_endpoint option option"

definition next_answer :: "kernel \<Rightarrow> io_result \<times> kernel" where
  "next_answer k =
     (case k_answers k of
        [] \<Rightarrow> (IO_EAGAIN, k)
      | a # as \<Rightarrow> (a, k\<lparr>k_answers := as\<rparr>))"

definition os_write :: "int \<Rightarrow> bytes \<Rightarrow> kernel \<Rightarrow> io_result \<times> kernel" where
  "os_write fd bs k =
     (case next_answer k of
        (IO_OK n, k1) \<Rightarrow>
          (IO_OK (min n (length bs)),
           k1\<lparr>k_wire := (k_wire k1)(fd := k_wire k1 fd @ take n bs)\<rparr>)
      | (e, k1) \<Rightarrow> (e, k1))"

definition os_sendto :: "int \<Rightarrow> bytes \<Rightarrow> socket_endpoint \<Rightarrow> kernel \<Rightarrow> io_result \<times> kernel" where
  "os_sendto fd bs ep k =
     (case next_answer k of
        (IO_OK n, k1) \<Rightarrow>
          (IO_OK (min n (length bs)), k1\<lparr>k_datagrams := k_datagrams k1 @ [(fd, take n bs, ep)]\<rparr>)
      | (e, k1) \<Rightarrow> (e, k1))"

definition poller_add :: "int \<Rightarrow> kernel \<Rightarrow> bool \<times> kernel" where
  "poller_add fd k =
     (if k_add_error k fd then (False, k)
      else (True, k\<lparr>k_interest := (k_interest k)(fd \<mapsto> (True, False))\<rparr>))"

definition poller_del :: "int \<Rightarrow> kernel \<Rightarrow> kernel" where
  "poller_del fd k = k\<lparr>k_interest := (k_interest k)(fd := None)\<rparr>"

definition poller_enable :: "int \<Rightarrow> bool \<Rightarrow> bool \<Rightarrow> kernel \<Rightarrow> bool \<times> kernel" where
  "poller_enable fd r w k =
     (if k_ctl_error k fd then (True, k)
      else (False, k\<lparr>k_interest := (k_interest k)(fd \<mapsto> (r, w))\<rparr>))"

definition os_close :: "int \<Rightarrow> kernel \<Rightarrow> kernel" where
  "os_close fd k = k\<lparr>k_closed := k_closed k @ [fd]\<rparr>"

definition os_shutdown :: "int \<Rightarrow> bool \<Rightarrow> kernel \<Rightarrow> kernel" where
  "os_shutdown fd wr k = k\<lparr>k_shutdown := k_shutdown k @ [(fd, wr)]\<rparr>"

subsection \<open>The server, events and messages\<close>

record socket_server =
  ss_time_ticks :: u64
  ss_pipe :: "ctrl_cmd_package list"
  ss_pool :: socket_object_pool
  ss_kernel :: kernel

datatype socket_event =
    SOCKET_EVENT_DATA
  | SOCKET_EVENT_CLOSE
  | SOCKET_EVENT_OPEN
  | SOCKET_EVENT_ACCEPT
  | SOCKET_EVENT_ERROR
  | SOCKET_EVENT_EXIT
  | SOCKET_EVENT_UDP
  | SOCKET_EVENT_WARNING
  | SOCKET_EVENT_RST

text \<open>The data of a message: null, a text of the server or of \<open>strerror\<close>, or received bytes.\<close>

datatype msg_data = MSG_NULL | MSG_TEXT string | MSG_ERRNO | MSG_BYTES bytes

record socket_message =
  rm_socket_id :: int
  rm_svc_handle :: nat
  rm_ud :: int
  rm_data :: msg_data

text \<open>
  A handler returns the event for the caller (\<open>None\<close> is -1), the message it has filled in and the
  server.
\<close>

type_synonym handled = "(socket_event option \<times> socket_message \<times> socket_server) option"

abbreviation sock :: "socket_server \<Rightarrow> int \<Rightarrow> socket_object" where
  "sock S i \<equiv> get_socket (ss_pool S) i"

definition put_sock :: "int \<Rightarrow> socket_object \<Rightarrow> socket_server \<Rightarrow> socket_server" where
  "put_sock i so S = S\<lparr>ss_pool := set_socket i so (ss_pool S)\<rparr>"

definition about :: "socket_object \<Rightarrow> int \<Rightarrow> msg_data \<Rightarrow> socket_message" where
  "about so ud d = \<lparr>rm_socket_id = so_id so, rm_svc_handle = so_svc_handle so, rm_ud = ud, rm_data = d\<rparr>"

definition send_ctrl_cmd :: "ctrl_cmd_package \<Rightarrow> socket_server \<Rightarrow> socket_server" where
  "send_ctrl_cmd c S = S\<lparr>ss_pipe := ss_pipe S @ [c]\<rparr>"

definition enable_write :: "int \<Rightarrow> bool \<Rightarrow> socket_server \<Rightarrow> bool \<times> socket_server" where
  "enable_write i enable S =
     (let so = sock S i in
      if so_writing so \<noteq> enable then
        let (err, k) = poller_enable (so_fd so) (so_reading so) enable (ss_kernel S) in
        (err, put_sock i (so\<lparr>so_writing := enable\<rparr>) (S\<lparr>ss_kernel := k\<rparr>))
      else (False, S))"

definition enable_read :: "int \<Rightarrow> bool \<Rightarrow> socket_server \<Rightarrow> bool \<times> socket_server" where
  "enable_read i enable S =
     (let so = sock S i in
      if so_reading so \<noteq> enable then
        let (err, k) = poller_enable (so_fd so) enable (so_writing so) (ss_kernel S) in
        (err, put_sock i (so\<lparr>so_reading := enable\<rparr>) (S\<lparr>ss_kernel := k\<rparr>))
      else (False, S))"

subsection \<open>Buffers to send\<close>

text \<open>
  \<open>send_user_object\<close>: the bytes and the function that frees them. For plain memory the code does
  not set the function; the user object functions are null (\<open>init\<close> zeroes them and nothing sets
  them), so that a user object aborts.
\<close>

datatype free_function = FREE_UNSET | FREE_NOTHING

fun call_free :: "free_function \<Rightarrow> unit option" where
  "call_free FREE_UNSET = None"
| "call_free FREE_NOTHING = Some ()"

fun init_send_user_object :: "sized_ptr \<Rightarrow> (bytes \<times> free_function) option" where
  "init_send_user_object (MEMORY b) = Some (b, FREE_UNSET)"
| "init_send_user_object (USER_OBJECT b) = None"

definition init_send_user_object_sd :: "send_data \<Rightarrow> (bytes \<times> free_function) option" where
  "init_send_user_object_sd sd =
     (case sd_type sd of
        SEND_DATA_TYPE_MEMORY \<Rightarrow> init_send_user_object (MEMORY (sd_data sd))
      | SEND_DATA_TYPE_USER_OBJECT \<Rightarrow> init_send_user_object (USER_OBJECT (sd_data sd))
      | SEND_DATA_TYPE_USER_DATA \<Rightarrow> Some (sd_data sd, FREE_NOTHING))"

definition free_send_data :: "send_data_type \<Rightarrow> unit option" where
  "free_send_data t = (if t = SEND_DATA_TYPE_USER_OBJECT then None else Some ())"

definition clone_send_data :: "send_data \<Rightarrow> sized_ptr" where
  "clone_send_data sd =
     (case sd_type sd of
        SEND_DATA_TYPE_MEMORY \<Rightarrow> MEMORY (sd_data sd)
      | SEND_DATA_TYPE_USER_OBJECT \<Rightarrow> USER_OBJECT (sd_data sd)
      | SEND_DATA_TYPE_USER_DATA \<Rightarrow> MEMORY (sd_data sd))"

text \<open>\<open>append_send_buffer\<close> with \<open>alloc_write_buffer\<close>.\<close>

definition alloc_write_buffer :: "sized_ptr \<Rightarrow> bytes option \<Rightarrow> write_buffer option" where
  "alloc_write_buffer p udp_address = do {
     (b, _) \<leftarrow> init_send_user_object p;
     Some \<lparr>wb_buffer = b, wb_ptr = 0, wb_sz = length b, wb_is_user_object = False,
           wb_udp_address = (case udp_address of None \<Rightarrow> [] | Some a \<Rightarrow> a)\<rparr>
   }"

definition append_send_buffer ::
  "sized_ptr \<Rightarrow> bool \<Rightarrow> bytes option \<Rightarrow> socket_object \<Rightarrow> socket_object option" where
  "append_send_buffer p is_high udp_address so = do {
     wb \<leftarrow> alloc_write_buffer p udp_address;
     let so1 = (if is_high then so\<lparr>so_high := so_high so @ [wb]\<rparr> else so\<lparr>so_low := so_low so @ [wb]\<rparr>) in
     Some (so1\<lparr>so_write_buffer_size := so_write_buffer_size so + int (wb_sz wb)\<rparr>)
   }"

subsection \<open>Closing\<close>

definition force_close :: "int \<Rightarrow> socket_server \<Rightarrow> (socket_message \<times> socket_server) option" where
  "force_close i S =
     (let so = sock S i; result = about so 0 MSG_NULL in
      if so_status so = SOCKET_STATUS_INVALID then Some (result, S)
      else do {
        c_assert (so_status so \<noteq> SOCKET_STATUS_ALLOCED);
        let k1 = poller_del (so_fd so) (ss_kernel S);
            k2 = (if so_status so \<noteq> SOCKET_STATUS_BIND then os_close (so_fd so) k1 else k1);
            S1 = put_sock i (so\<lparr>so_high := [], so_low := []\<rparr>) (S\<lparr>ss_kernel := k2\<rparr>);
            S2 = S1\<lparr>ss_pool := free_socket (so_id so) (ss_pool S1)\<rparr>;
            S3 = put_sock i ((sock S2 i)\<lparr>so_direct_write_buffer := None\<rparr>) S2 in
        Some (result, S3)
      })"

definition close_read :: "int \<Rightarrow> socket_server \<Rightarrow> socket_message \<times> socket_server" where
  "close_read i S =
     (let S1 = put_sock i ((sock S i)\<lparr>so_status := SOCKET_STATUS_HALF_CLOSE_READ\<rparr>) S;
          (_, S2) = enable_read i False S1;
          S3 = S2\<lparr>ss_kernel := os_shutdown (so_fd (sock S2 i)) False (ss_kernel S2)\<rparr> in
      (about (sock S3 i) 0 MSG_NULL, S3))"

definition close_write :: "int \<Rightarrow> socket_message \<Rightarrow> socket_server \<Rightarrow> handled" where
  "close_write i result S =
     (let so = sock S i in
      if so_closing so \<or> is_close_read so then do {
        (result1, S1) \<leftarrow> force_close i S;
        Some (Some SOCKET_EVENT_RST, result1, S1)
      } else if is_close_write so then Some (Some SOCKET_EVENT_RST, result, S)
      else
        let S1 = put_sock i (so\<lparr>so_status := SOCKET_STATUS_HALF_CLOSE_WRITE\<rparr>) S;
            S2 = S1\<lparr>ss_kernel := os_shutdown (so_fd so) True (ss_kernel S1)\<rparr>;
            (_, S3) = enable_write i False S2 in
        Some (Some SOCKET_EVENT_ERROR, about (sock S3 i) 0 MSG_ERRNO, S3))"

subsection \<open>Writing the lists\<close>

lemma next_answer_shorter:
  "next_answer k = (r, k1) \<Longrightarrow> r \<noteq> IO_EAGAIN \<Longrightarrow> length (k_answers k1) < length (k_answers k)"
  by (auto simp: next_answer_def split: list.splits)

lemma os_write_shorter:
  "r \<noteq> IO_EAGAIN \<Longrightarrow> os_write fd bs k = (r, k1) \<Longrightarrow> length (k_answers k1) < length (k_answers k)"
  using next_answer_shorter [of k]
  by (auto simp: os_write_def split: prod.splits io_result.splits)

text \<open>
  \<open>send_write_buffer_list_tcp\<close> up to the call of \<open>close_write\<close>: the flag says that the kernel
  reported an error. Every round but the last uses up an answer of the kernel.
\<close>

definition wb_data :: "write_buffer \<Rightarrow> bytes" where
  "wb_data wb = take (wb_sz wb) (drop (wb_ptr wb) (wb_buffer wb))"

function send_tcp_loop ::
  "u64 \<Rightarrow> write_buffer list \<Rightarrow> socket_object \<Rightarrow> kernel \<Rightarrow> bool \<times> write_buffer list \<times> socket_object \<times> kernel"
where
  "send_tcp_loop ticks [] so k = (False, [], so, k)"
| "send_tcp_loop ticks (wb # wbs) so k =
     (case os_write (so_fd so) (wb_data wb) k of
        (IO_EINTR, k1) \<Rightarrow> send_tcp_loop ticks (wb # wbs) so k1
      | (IO_EAGAIN, k1) \<Rightarrow> (False, wb # wbs, so, k1)
      | (IO_ERROR, k1) \<Rightarrow> (True, wb # wbs, so, k1)
      | (IO_OK n, k1) \<Rightarrow>
          let so1 = statistics_send n ticks so;
              so2 = so1\<lparr>so_write_buffer_size := so_write_buffer_size so1 - int n\<rparr> in
          if n \<noteq> wb_sz wb
          then (False, wb\<lparr>wb_ptr := wb_ptr wb + n, wb_sz := wb_sz wb - n\<rparr> # wbs, so2, k1)
          else send_tcp_loop ticks wbs so2 k1)"
  by pat_completeness auto
termination
  by (relation "measure (\<lambda>(t, wbs, so, k). length (k_answers k))") (auto dest!: os_write_shorter [rotated, OF sym])

text \<open>
  \<open>send_write_buffer_list_udp\<close> with \<open>drop_udp\<close>. A buffer that was allocated without an address
  (\<open>SIZEOF_TCP_BUFFER\<close>) has no address to read: \<open>None\<close>.
\<close>

fun send_udp_loop ::
  "u64 \<Rightarrow> write_buffer list \<Rightarrow> socket_object \<Rightarrow> kernel \<Rightarrow> (write_buffer list \<times> socket_object \<times> kernel) option"
where
  "send_udp_loop ticks [] so k = Some ([], so, k)"
| "send_udp_loop ticks (wb # wbs) so k = do {
     c_assert (wb_udp_address wb \<noteq> []);
     let dropped = so\<lparr>so_write_buffer_size := so_write_buffer_size so - int (wb_sz wb)\<rparr> in
     case from_udp_address (so_type so) (wb_udp_address wb) of
       None \<Rightarrow> Some (wbs, dropped, k)
     | Some ep \<Rightarrow>
         (case os_sendto (so_fd so) (wb_data wb) ep k of
            (IO_OK n, k1) \<Rightarrow> send_udp_loop ticks wbs (statistics_send (wb_sz wb) ticks dropped) k1
          | (IO_ERROR, k1) \<Rightarrow> Some (wbs, dropped, k1)
          | (_, k1) \<Rightarrow> Some (wb # wbs, so, k1))
   }"

definition get_list :: "bool \<Rightarrow> socket_object \<Rightarrow> write_buffer list" where
  "get_list is_high so = (if is_high then so_high so else so_low so)"

definition set_list :: "bool \<Rightarrow> write_buffer list \<Rightarrow> socket_object \<Rightarrow> socket_object" where
  "set_list is_high wbs so = (if is_high then so\<lparr>so_high := wbs\<rparr> else so\<lparr>so_low := wbs\<rparr>)"

definition send_write_buffer_list :: "int \<Rightarrow> bool \<Rightarrow> socket_message \<Rightarrow> socket_server \<Rightarrow> handled" where
  "send_write_buffer_list i is_high result S =
     (let so = sock S i in
      if so_type so = SOCKET_TYPE_TCP then
        let (err, wbs, so1, k) = send_tcp_loop (ss_time_ticks S) (get_list is_high so) so (ss_kernel S);
            S1 = put_sock i (set_list is_high wbs so1) (S\<lparr>ss_kernel := k\<rparr>) in
        if err then close_write i result S1 else Some (None, result, S1)
      else do {
        (wbs, so1, k) \<leftarrow> send_udp_loop (ss_time_ticks S) (get_list is_high so) so (ss_kernel S);
        Some (None, result, put_sock i (set_list is_high wbs so1) (S\<lparr>ss_kernel := k\<rparr>))
      })"

fun list_uncomplete :: "write_buffer list \<Rightarrow> bool" where
  "list_uncomplete [] = False"
| "list_uncomplete (wb # _) = (wb_ptr wb \<noteq> 0)"

definition raise_uncomplete :: "socket_object \<Rightarrow> socket_object option" where
  "raise_uncomplete so =
     (case so_low so of
        [] \<Rightarrow> None
      | wb # wbs \<Rightarrow> do {
          c_assert (so_high so = []);
          Some (so\<lparr>so_low := wbs, so_high := [wb]\<rparr>)
        })"

text \<open>Step 4 of \<open>do_send_write_buffer\<close>: everything has been sent.\<close>

definition finish_writing :: "int \<Rightarrow> socket_message \<Rightarrow> socket_server \<Rightarrow> handled" where
  "finish_writing i result S = do {
     c_assert (is_write_buffer_empty (sock S i) \<and> so_write_buffer_size (sock S i) = 0);
     if so_closing (sock S i) then do {
       (result1, S1) \<leftarrow> force_close i S;
       Some (None, result1, S1)
     } else
       let (err, S1) = enable_write i False S; so = sock S1 i in
       if err then Some (Some SOCKET_EVENT_ERROR, about so 0 (MSG_TEXT ''disable write failed''), S1)
       else if so_warn_size so > 0 then
         Some (Some SOCKET_EVENT_WARNING, about so 0 MSG_NULL, put_sock i (so\<lparr>so_warn_size := 0\<rparr>) S1)
       else Some (None, result, S1)
   }"

definition do_send_write_buffer :: "int \<Rightarrow> socket_message \<Rightarrow> socket_server \<Rightarrow> handled" where
  "do_send_write_buffer i result S = do {
     c_assert (\<not> list_uncomplete (so_low (sock S i)));
     (ret, result1, S1) \<leftarrow> send_write_buffer_list i True result S;
     if ret \<noteq> None then
       Some (if ret = Some SOCKET_EVENT_ERROR then ret else None, result1, S1)
     else if so_high (sock S1 i) \<noteq> [] then Some (None, result1, S1)
     else if so_low (sock S1 i) = [] then finish_writing i result1 S1
     else do {
       (ret2, result2, S2) \<leftarrow> send_write_buffer_list i False result1 S1;
       if ret2 \<noteq> None then
         Some (if ret2 = Some SOCKET_EVENT_ERROR then ret2 else None, result2, S2)
       else if list_uncomplete (so_low (sock S2 i)) then do {
         so \<leftarrow> raise_uncomplete (sock S2 i);
         Some (None, result2, put_sock i so S2)
       } else if so_low (sock S2 i) \<noteq> [] then Some (None, result2, S2)
       else finish_writing i result2 S2
     }
   }"

text \<open>
  \<open>send_write_buffer\<close>, the answer to a writable socket; \<open>busy\<close> says that a worker holds the lock of
  the direct write. What a direct write left over goes before everything that is queued.
\<close>

definition take_direct :: "socket_object \<Rightarrow> socket_object option" where
  "take_direct so =
     (case so_direct_write_buffer so of
        None \<Rightarrow> Some so
      | Some d \<Rightarrow> do {
          (b, _) \<leftarrow> init_send_user_object (MEMORY d);
          let wb = \<lparr>wb_buffer = b, wb_ptr = so_direct_write_offset so,
                    wb_sz = length b - so_direct_write_offset so, wb_is_user_object = False,
                    wb_udp_address = []\<rparr> in
          Some (so\<lparr>so_write_buffer_size := so_write_buffer_size so + int (wb_sz wb),
                   so_high := wb # so_high so, so_direct_write_buffer := None\<rparr>)
        })"

definition send_write_buffer :: "bool \<Rightarrow> int \<Rightarrow> socket_message \<Rightarrow> socket_server \<Rightarrow> handled" where
  "send_write_buffer busy i result S =
     (if busy then Some (None, result, S)
      else do {
        so \<leftarrow> take_direct (sock S i);
        do_send_write_buffer i result (put_sock i so S)
      })"

end
