(* ===== verification/Socket_Commands.thy ===== *)
theory Socket_Commands
  imports Socket_Server
begin

text \<open>
  The calls of the worker threads into the socket server and the control commands they become,
  with the handlers of the socket thread (\<open>skynet-src/socket/socket_server.cpp\<close>).
\<close>

subsection \<open>Calls of the worker threads\<close>

text \<open>\<open>_do_bind\<close> with \<open>listen\<close>: the kernel answers \<open>k_bind\<close> with descriptor and family.\<close>

definition server_listen :: "nat \<Rightarrow> string \<Rightarrow> nat \<Rightarrow> socket_server \<Rightarrow> int \<times> socket_server" where
  "server_listen svc_handle local_ip local_port S =
     (let ip = (if local_ip = [] then ''0.0.0.0'' else local_ip);
          listen_fd = fst (k_bind (ss_kernel S) ip local_port True) in
      if listen_fd = INVALID_FD then (- 1, S)
      else if k_listen_error (ss_kernel S) listen_fd
        then (- 1, S\<lparr>ss_kernel := os_close listen_fd (ss_kernel S)\<rparr>)
      else
        let (socket_id, p) = alloc_socket (ss_pool S); S1 = S\<lparr>ss_pool := p\<rparr> in
        if socket_id < 0 then (socket_id, S1\<lparr>ss_kernel := os_close listen_fd (ss_kernel S)\<rparr>)
        else (socket_id, send_ctrl_cmd (prepare_listen svc_handle socket_id listen_fd) S1))"

definition server_connect :: "nat \<Rightarrow> string \<Rightarrow> nat \<Rightarrow> socket_server \<Rightarrow> int \<times> socket_server" where
  "server_connect svc_handle remote_ip remote_port S =
     (let (socket_id, p) = alloc_socket (ss_pool S); S1 = S\<lparr>ss_pool := p\<rparr> in
      if socket_id < 0 then (- 1, S1)
      else
        case prepare_connect svc_handle socket_id remote_ip remote_port of
          None \<Rightarrow> (- 1, S1)
        | Some cmd \<Rightarrow> (socket_id, send_ctrl_cmd cmd S1))"

definition server_start :: "nat \<Rightarrow> int \<Rightarrow> socket_server \<Rightarrow> socket_server" where
  "server_start svc_handle socket_id = send_ctrl_cmd (prepare_resume svc_handle socket_id)"

definition server_pause :: "nat \<Rightarrow> int \<Rightarrow> socket_server \<Rightarrow> socket_server" where
  "server_pause svc_handle socket_id = send_ctrl_cmd (prepare_pause svc_handle socket_id)"

definition server_exit :: "socket_server \<Rightarrow> socket_server" where
  "server_exit = send_ctrl_cmd empty_package"

definition server_close :: "nat \<Rightarrow> int \<Rightarrow> socket_server \<Rightarrow> socket_server" where
  "server_close svc_handle socket_id = send_ctrl_cmd (prepare_close svc_handle socket_id)"

definition server_shutdown :: "nat \<Rightarrow> int \<Rightarrow> socket_server \<Rightarrow> socket_server" where
  "server_shutdown svc_handle socket_id = send_ctrl_cmd (prepare_shutdown svc_handle socket_id)"

definition server_nodelay :: "int \<Rightarrow> socket_server \<Rightarrow> socket_server" where
  "server_nodelay socket_id = send_ctrl_cmd (prepare_set_opt socket_id)"

definition server_bind_os_fd :: "nat \<Rightarrow> int \<Rightarrow> socket_server \<Rightarrow> int \<times> socket_server" where
  "server_bind_os_fd svc_handle os_fd S =
     (let (socket_id, p) = alloc_socket (ss_pool S); S1 = S\<lparr>ss_pool := p\<rparr> in
      if socket_id < 0 then (- 1, S1)
      else (socket_id, send_ctrl_cmd (prepare_bind svc_handle socket_id os_fd) S1))"

text \<open>
  \<open>udp_socket\<close>; with neither address nor port the kernel is asked for an unbound socket, which is
  \<open>k_bind\<close> with an empty address.
\<close>

definition server_udp_socket :: "nat \<Rightarrow> string \<Rightarrow> nat \<Rightarrow> socket_server \<Rightarrow> int \<times> socket_server" where
  "server_udp_socket svc_handle local_ip local_port S =
     (let ip = (if local_ip = [] \<and> local_port \<noteq> 0 then ''0.0.0.0'' else local_ip);
          (socket_fd, family) = k_bind (ss_kernel S) ip local_port False in
      if socket_fd < 0 then (- 1, S)
      else
        let (socket_id, p) = alloc_socket (ss_pool S); S1 = S\<lparr>ss_pool := p\<rparr> in
        if socket_id < 0 then (- 1, S1\<lparr>ss_kernel := os_close socket_fd (ss_kernel S)\<rparr>)
        else (socket_id, send_ctrl_cmd (prepare_udp_socket svc_handle socket_id socket_fd family) S1))"

text \<open>The bytes a direct write accepted; every error counts as none.\<close>

fun accepted :: "io_result \<Rightarrow> nat" where
  "accepted (IO_OK n) = n"
| "accepted _ = 0"

text \<open>
  \<open>send\<close>: the direct write, when nothing is queued and the lock is free (\<open>\<not> busy\<close>).
\<close>

definition direct_send :: "send_data \<Rightarrow> socket_server \<Rightarrow> (int \<times> socket_server) option" where
  "direct_send sd S =
     (let socket_id = sd_socket_id sd; so = sock S socket_id in do {
        (buffer, free_func) \<leftarrow> init_send_user_object_sd sd;
        let ep = (if so_type so = SOCKET_TYPE_TCP then None
                  else from_udp_address (so_type so) (so_p_udp_address so)) in
        if so_type so \<noteq> SOCKET_TYPE_TCP \<and> ep = None then do {
          call_free free_func;
          Some (- 1, S)
        } else
          let (r, k) = (case ep of
                          None \<Rightarrow> os_write (so_fd so) buffer (ss_kernel S)
                        | Some e \<Rightarrow> os_sendto (so_fd so) buffer e (ss_kernel S));
              n = accepted r;
              so1 = statistics_send n (ss_time_ticks S) so;
              S1 = S\<lparr>ss_kernel := k\<rparr> in
          if n = length buffer then do {
            call_free free_func;
            Some (0, put_sock socket_id so1 S1)
          } else do {
            so2 \<leftarrow> inc_sending_count socket_id
                     (so1\<lparr>so_direct_write_buffer := Some buffer, so_direct_write_offset := n\<rparr>);
            Some (0, send_ctrl_cmd (prepare_trigger_write socket_id) (put_sock socket_id so2 S1))
          }
      })"

definition send_by_command :: "bool \<Rightarrow> send_data \<Rightarrow> socket_server \<Rightarrow> (int \<times> socket_server) option" where
  "send_by_command is_high sd S =
     (let socket_id = sd_socket_id sd in do {
        so \<leftarrow> inc_sending_count socket_id (sock S socket_id);
        Some (0, send_ctrl_cmd (prepare_send socket_id (Some (clone_send_data sd)) is_high)
                   (put_sock socket_id so S))
      })"

definition server_send :: "bool \<Rightarrow> send_data \<Rightarrow> socket_server \<Rightarrow> (int \<times> socket_server) option" where
  "server_send busy sd S =
     (let so = sock S (sd_socket_id sd) in
      if is_invalid so (sd_socket_id sd) then do {
        free_send_data (sd_type sd);
        Some (- 1, S)
      } else if can_direct_send so (sd_socket_id sd) \<and> \<not> busy then direct_send sd S
      else send_by_command True sd S)"

definition server_send_low_priority :: "send_data \<Rightarrow> socket_server \<Rightarrow> (int \<times> socket_server) option" where
  "server_send_low_priority sd S =
     (if is_invalid (sock S (sd_socket_id sd)) (sd_socket_id sd) then do {
        free_send_data (sd_type sd);
        Some (- 1, S)
      } else send_by_command False sd S)"

subsection \<open>UDP calls\<close>

text \<open>The length of an address by its type byte; \<open>None\<close> where the code refuses it.\<close>

definition udp_address_size :: "bytes \<Rightarrow> nat option" where
  "udp_address_size a =
     (if a ! 0 = socket_type_code SOCKET_TYPE_UDP then Some (1 + 2 + 4)
      else if a ! 0 = socket_type_code SOCKET_TYPE_UDPv6 then Some (1 + 2 + 16)
      else None)"

definition udp_direct_send ::
  "bytes \<Rightarrow> send_data \<Rightarrow> socket_server \<Rightarrow> (int option \<times> socket_server) option" where
  "udp_direct_send addr sd S =
     (let socket_id = sd_socket_id sd; so = sock S socket_id in do {
        (buffer, free_func) \<leftarrow> init_send_user_object_sd sd;
        case from_udp_address (so_type so) addr of
          None \<Rightarrow> do { call_free free_func; Some (Some (- 1), S) }
        | Some ep \<Rightarrow>
            (case os_sendto (so_fd so) buffer ep (ss_kernel S) of
               (IO_OK n, k) \<Rightarrow> do {
                 call_free free_func;
                 Some (Some 0, put_sock socket_id (statistics_send n (ss_time_ticks S) so) (S\<lparr>ss_kernel := k\<rparr>))
               }
             | (_, k) \<Rightarrow> Some (None, S\<lparr>ss_kernel := k\<rparr>))
      })"

definition server_udp_send :: "bool \<Rightarrow> bytes \<Rightarrow> send_data \<Rightarrow> socket_server \<Rightarrow> (int \<times> socket_server) option" where
  "server_udp_send busy addr sd S =
     (let socket_id = sd_socket_id sd; so = sock S socket_id;
          refused = do { free_send_data (sd_type sd); Some (- 1, S) } in
      if is_invalid so socket_id then refused
      else
        case udp_address_size addr of
          None \<Rightarrow> refused
        | Some addr_sz \<Rightarrow> do {
            (sent, S1) \<leftarrow> (if can_direct_send so socket_id \<and> \<not> busy then udp_direct_send addr sd S
                           else Some (None, S));
            case sent of
              Some r \<Rightarrow> Some (r, S1)
            | None \<Rightarrow>
                Some (0, send_ctrl_cmd
                  (prepare_send_udp socket_id (Some (clone_send_data sd)) (take addr_sz addr)) S1)
          })"

text \<open>\<open>udp_connect\<close>: the connecting count is raised before the name is resolved.\<close>

definition server_udp_connect :: "int \<Rightarrow> string \<Rightarrow> int \<Rightarrow> socket_server \<Rightarrow> int \<times> socket_server" where
  "server_udp_connect socket_id remote_ip remote_port S =
     (let so = sock S socket_id in
      if is_invalid so socket_id then (- 1, S)
      else
        let S1 = put_sock socket_id (inc_udp_connecting_count so) S in
        case k_resolve_udp (ss_kernel S) remote_ip remote_port of
          None \<Rightarrow> (- 1, S1)
        | Some None \<Rightarrow> (- 1, S1)
        | Some (Some ep) \<Rightarrow>
            let t = (case ep of EP_V4 _ _ \<Rightarrow> SOCKET_TYPE_UDP | EP_V6 _ _ \<Rightarrow> SOCKET_TYPE_UDPv6) in
            (case prepare_set_udp socket_id t ep of
               None \<Rightarrow> (- 1, S1)
             | Some cmd \<Rightarrow> (0, send_ctrl_cmd cmd S1)))"

text \<open>\<open>udp_address\<close>: the address behind the data of a received datagram.\<close>

definition msg_udp_address :: "socket_message \<Rightarrow> bytes option" where
  "msg_udp_address msg =
     (case rm_data msg of
        MSG_BYTES b \<Rightarrow>
          let a = drop (nat (rm_ud msg)) b in
          (case udp_address_size a of None \<Rightarrow> None | Some n \<Rightarrow> Some (take n a))
      | _ \<Rightarrow> None)"

subsection \<open>Handlers of the socket thread\<close>

text \<open>\<open>new_socket\<close>; the flag is false where the code returns a null pointer.\<close>

definition new_socket ::
  "int \<Rightarrow> int \<Rightarrow> socket_type \<Rightarrow> nat \<Rightarrow> bool \<Rightarrow> socket_server \<Rightarrow> (bool \<times> socket_server) option" where
  "new_socket socket_id socket_fd t svc_handle reading S =
     (let so = sock S socket_id in do {
        c_assert (so_status so = SOCKET_STATUS_ALLOCED);
        let (ok, k) = poller_add socket_fd (ss_kernel S) in
        if \<not> ok then Some (False, S\<lparr>ss_pool := free_socket socket_id (ss_pool S)\<rparr>)
        else do {
          c_assert (so_high so = [] \<and> so_low so = []);
          let so1 = reset_sending_count socket_id
                (so\<lparr>so_id := socket_id, so_fd := socket_fd, so_reading := True, so_writing := False,
                    so_closing := False, so_type := t, so_p_size := 64,
                    so_svc_handle := svc_handle, so_write_buffer_size := 0, so_warn_size := 0,
                    so_direct_write_buffer := None, so_statistics := no_statistics\<rparr>);
              (err, S1) = enable_read socket_id reading (put_sock socket_id so1 (S\<lparr>ss_kernel := k\<rparr>)) in
          Some (if err then (False, S1\<lparr>ss_pool := free_socket socket_id (ss_pool S1)\<rparr>) else (True, S1))
        }
      })"

definition set_status :: "int \<Rightarrow> socket_status \<Rightarrow> socket_server \<Rightarrow> socket_server" where
  "set_status i st S = put_sock i ((sock S i)\<lparr>so_status := st\<rparr>) S"

text \<open>The loop over the resolved addresses: the first descriptor that connects or may connect.\<close>

fun try_connect :: "(int \<times> connect_result) list \<Rightarrow> kernel \<Rightarrow> (int \<times> bool) option \<times> kernel" where
  "try_connect [] k = (None, k)"
| "try_connect ((fd, r) # rest) k =
     (if fd < 0 then try_connect rest k
      else
        case r of
          CONNECT_FAILED \<Rightarrow> try_connect rest (os_close fd k)
        | CONNECT_DONE \<Rightarrow> (Some (fd, True), k)
        | CONNECT_INPROGRESS \<Rightarrow> (Some (fd, False), k))"

definition handle_connect_socket :: "int \<Rightarrow> int \<Rightarrow> nat \<Rightarrow> string \<Rightarrow> socket_server \<Rightarrow> handled" where
  "handle_connect_socket socket_id port svc_handle host S =
     (let result = \<lparr>rm_socket_id = socket_id, rm_svc_handle = svc_handle, rm_ud = 0, rm_data = MSG_NULL\<rparr>;
          failed = (\<lambda>d S'. Some (Some SOCKET_EVENT_ERROR, result\<lparr>rm_data := d\<rparr>,
                                S'\<lparr>ss_pool := free_socket socket_id (ss_pool S')\<rparr>)) in
      case k_resolve (ss_kernel S) host port of
        None \<Rightarrow> failed MSG_ERRNO S
      | Some addrs \<Rightarrow>
          (case try_connect addrs (ss_kernel S) of
             (None, k) \<Rightarrow> failed MSG_ERRNO (S\<lparr>ss_kernel := k\<rparr>)
           | (Some (fd, connected), k) \<Rightarrow> do {
               (ok, S1) \<leftarrow> new_socket socket_id fd SOCKET_TYPE_TCP svc_handle True (S\<lparr>ss_kernel := k\<rparr>);
               if \<not> ok then
                 failed (MSG_TEXT ''reach skynet socket number limit'')
                   (S1\<lparr>ss_kernel := os_close fd (ss_kernel S1)\<rparr>)
               else if connected then
                 Some (Some SOCKET_EVENT_OPEN,
                   result\<lparr>rm_data := (case k_peer k fd of None \<Rightarrow> MSG_NULL | Some t \<Rightarrow> MSG_TEXT t)\<rparr>,
                   set_status socket_id SOCKET_STATUS_CONNECTED S1)
               else
                 let (err, S2) = enable_write socket_id True
                                   (set_status socket_id SOCKET_STATUS_CONNECTING S1) in
                 if err then failed (MSG_TEXT ''enable write failed'') S2
                 else Some (None, result, S2)
             }))"

definition handle_close_socket :: "int \<Rightarrow> int \<Rightarrow> socket_message \<Rightarrow> socket_server \<Rightarrow> handled" where
  "handle_close_socket socket_id shutdown result S =
     (let so = sock S socket_id in
      if is_invalid so socket_id then Some (None, result, S)
      else
        let shutdown_read = is_close_read so in
        if shutdown \<noteq> 0 \<or> nomore_sending_data so then do {
          (result1, S1) \<leftarrow> force_close socket_id S;
          Some (if shutdown_read then None else Some SOCKET_EVENT_CLOSE, result1, S1)
        } else
          let S1 = put_sock socket_id (so\<lparr>so_closing := True\<rparr>) S in
          if \<not> shutdown_read then
            let (result1, S2) = close_read socket_id S1 in
            Some (Some SOCKET_EVENT_CLOSE, result1, S2)
          else Some (None, result, S1))"

definition handle_bind_os_fd :: "int \<Rightarrow> int \<Rightarrow> nat \<Rightarrow> socket_message \<Rightarrow> socket_server \<Rightarrow> handled" where
  "handle_bind_os_fd socket_id os_fd svc_handle result S = do {
     let result1 = result\<lparr>rm_socket_id := socket_id, rm_svc_handle := svc_handle, rm_ud := 0\<rparr>;
     (ok, S1) \<leftarrow> new_socket socket_id os_fd SOCKET_TYPE_TCP svc_handle True S;
     if \<not> ok then
       Some (Some SOCKET_EVENT_ERROR, result1\<lparr>rm_data := MSG_TEXT ''reach skynet socket number limit''\<rparr>, S1)
     else
       Some (Some SOCKET_EVENT_OPEN, result1\<lparr>rm_data := MSG_TEXT ''binding''\<rparr>,
             set_status socket_id SOCKET_STATUS_BIND S1)
   }"

definition handle_resume_socket :: "int \<Rightarrow> nat \<Rightarrow> socket_server \<Rightarrow> handled" where
  "handle_resume_socket socket_id svc_handle S =
     (let result = (\<lambda>d. \<lparr>rm_socket_id = socket_id, rm_svc_handle = svc_handle, rm_ud = 0, rm_data = d\<rparr>);
          so = sock S socket_id in
      if is_invalid so socket_id then
        Some (Some SOCKET_EVENT_ERROR, result (MSG_TEXT ''invalid socket''), S)
      else if is_close_read so then Some (None, result MSG_NULL, S)
      else
        let (err, S1) = enable_read socket_id True S; so1 = sock S1 socket_id in
        if err then Some (Some SOCKET_EVENT_ERROR, result (MSG_TEXT ''enable read failed''), S1)
        else if so_status so1 = SOCKET_STATUS_PREPARE_ACCEPT \<or> so_status so1 = SOCKET_STATUS_PREPARE_LISTEN then
          Some (Some SOCKET_EVENT_OPEN, result (MSG_TEXT ''start''),
            put_sock socket_id
              (so1\<lparr>so_status := (if so_status so1 = SOCKET_STATUS_PREPARE_ACCEPT
                                 then SOCKET_STATUS_CONNECTED else SOCKET_STATUS_LISTEN),
                   so_svc_handle := svc_handle\<rparr>) S1)
        else if so_status so1 = SOCKET_STATUS_CONNECTED then
          Some (Some SOCKET_EVENT_OPEN, result (MSG_TEXT ''transfer''),
            put_sock socket_id (so1\<lparr>so_svc_handle := svc_handle\<rparr>) S1)
        else Some (None, result MSG_NULL, S1))"

definition handle_pause_socket :: "int \<Rightarrow> nat \<Rightarrow> socket_message \<Rightarrow> socket_server \<Rightarrow> handled" where
  "handle_pause_socket socket_id svc_handle result S =
     (if is_invalid (sock S socket_id) socket_id then Some (None, result, S)
      else
        let (err, S1) = enable_read socket_id False S in
        if err then
          Some (Some SOCKET_EVENT_ERROR,
            \<lparr>rm_socket_id = socket_id, rm_svc_handle = svc_handle, rm_ud = 0,
             rm_data = MSG_TEXT ''enable read failed''\<rparr>, S1)
        else Some (None, result, S1))"

text \<open>\<open>setsockopt\<close> has no effect on the state of the server.\<close>

definition handle_setopt_socket :: "int \<Rightarrow> socket_message \<Rightarrow> socket_server \<Rightarrow> handled" where
  "handle_setopt_socket socket_id result S =
     Some (if is_invalid (sock S socket_id) socket_id then Some SOCKET_EVENT_ERROR else None, result, S)"

definition handle_exit_socket :: "socket_server \<Rightarrow> handled" where
  "handle_exit_socket S =
     Some (Some SOCKET_EVENT_EXIT,
           \<lparr>rm_socket_id = 0, rm_svc_handle = 0, rm_ud = 0, rm_data = MSG_NULL\<rparr>, S)"

definition WARNING_SIZE :: int where
  "WARNING_SIZE = 1024 * 1024"

text \<open>The last part of \<open>handle_ctrl_cmd_send_socket\<close>: warn when too much is queued.\<close>

definition warn_write_size :: "int \<Rightarrow> socket_message \<Rightarrow> socket_server \<Rightarrow> handled" where
  "warn_write_size i result S =
     (let so = sock S i in
      if so_write_buffer_size so \<ge> WARNING_SIZE \<and> so_write_buffer_size so \<ge> so_warn_size so then
        Some (Some SOCKET_EVENT_WARNING,
          about so (if so_write_buffer_size so mod 1024 = 0 then so_write_buffer_size so div 1024
                    else so_write_buffer_size so div 1024 + 1) MSG_NULL,
          put_sock i (so\<lparr>so_warn_size := (if so_warn_size so = 0 then WARNING_SIZE * 2
                                          else so_warn_size so * 2)\<rparr>) S)
      else Some (None, result, S))"

text \<open>The write event is enabled for the buffer just queued.\<close>

definition queue_and_enable :: "int \<Rightarrow> socket_object \<Rightarrow> socket_message \<Rightarrow> socket_server \<Rightarrow> handled" where
  "queue_and_enable i so result S =
     (let (err, S1) = enable_write i True (put_sock i so S) in
      if err then
        Some (Some SOCKET_EVENT_ERROR, about (sock S1 i) 0 (MSG_TEXT ''enable write failed''), S1)
      else warn_write_size i result S1)"

definition handle_send_socket ::
  "int \<Rightarrow> sized_ptr \<Rightarrow> bool \<Rightarrow> bytes option \<Rightarrow> socket_message \<Rightarrow> socket_server \<Rightarrow> handled" where
  "handle_send_socket socket_id ptr is_high udp_address result S =
     (let so = sock S socket_id in do {
        (buffer, free_func) \<leftarrow> init_send_user_object ptr;
        if is_invalid so socket_id \<or> is_close_write so \<or>
           so_status so = SOCKET_STATUS_PREPARE_ACCEPT \<or> so_closing so then do {
          call_free free_func;
          Some (None, result, S)
        } else if so_status so = SOCKET_STATUS_PREPARE_LISTEN \<or> so_status so = SOCKET_STATUS_LISTEN then do {
          call_free free_func;
          Some (None, result, S)
        } else
          let addr = (case udp_address of None \<Rightarrow> so_p_udp_address so | Some a \<Rightarrow> a) in
          if is_write_buffer_empty so then
            if so_type so = SOCKET_TYPE_TCP then do {
              so1 \<leftarrow> append_send_buffer ptr True None so;
              queue_and_enable socket_id so1 result S
            } else
              (case from_udp_address (so_type so) addr of
                 None \<Rightarrow> do { call_free free_func; Some (None, result, S) }
               | Some ep \<Rightarrow>
                   let (r, k) = os_sendto (so_fd so) buffer ep (ss_kernel S); S1 = S\<lparr>ss_kernel := k\<rparr> in
                   if r \<noteq> IO_OK (length buffer) then do {
                     so1 \<leftarrow> append_send_buffer ptr is_high (Some addr) so;
                     queue_and_enable socket_id so1 result S1
                   } else do {
                     call_free free_func;
                     Some (None, result,
                       put_sock socket_id (statistics_send (length buffer) (ss_time_ticks S) so) S1)
                   })
          else do {
            so1 \<leftarrow> append_send_buffer ptr is_high
                     (if so_type so = SOCKET_TYPE_TCP then None else Some addr) so;
            warn_write_size socket_id result (put_sock socket_id so1 S)
          }
      })"

definition handle_trigger_write :: "int \<Rightarrow> socket_message \<Rightarrow> socket_server \<Rightarrow> handled" where
  "handle_trigger_write socket_id result S =
     (if is_invalid (sock S socket_id) socket_id then Some (None, result, S)
      else
        let (err, S1) = enable_write socket_id True S in
        if err then
          Some (Some SOCKET_EVENT_ERROR, about (sock S1 socket_id) 0 (MSG_TEXT ''enable write failed''), S1)
        else Some (None, result, S1))"

definition handle_listen_socket :: "int \<Rightarrow> int \<Rightarrow> nat \<Rightarrow> socket_message \<Rightarrow> socket_server \<Rightarrow> handled" where
  "handle_listen_socket socket_id listen_fd svc_handle result S = do {
     (ok, S1) \<leftarrow> new_socket socket_id listen_fd SOCKET_TYPE_TCP svc_handle False S;
     if \<not> ok then
       Some (Some SOCKET_EVENT_ERROR,
         \<lparr>rm_socket_id = socket_id, rm_svc_handle = svc_handle, rm_ud = 0,
          rm_data = MSG_TEXT ''reach socket number limit''\<rparr>,
         S1\<lparr>ss_kernel := os_close listen_fd (ss_kernel S1)\<rparr>)
     else Some (None, result, set_status socket_id SOCKET_STATUS_PREPARE_LISTEN S1)
   }"

definition AF_INET6 :: int where
  "AF_INET6 = 10"

definition handle_udp_socket :: "int \<Rightarrow> int \<Rightarrow> int \<Rightarrow> nat \<Rightarrow> socket_message \<Rightarrow> socket_server \<Rightarrow> handled" where
  "handle_udp_socket socket_id socket_fd family svc_handle result S = do {
     (ok, S1) \<leftarrow> new_socket socket_id socket_fd
                 (if family = AF_INET6 then SOCKET_TYPE_UDPv6 else SOCKET_TYPE_UDP) svc_handle True S;
     if \<not> ok then
       Some (Some SOCKET_EVENT_ERROR, result,
         S1\<lparr>ss_kernel := os_close socket_fd (ss_kernel S1), ss_pool := free_socket socket_id (ss_pool S1)\<rparr>)
     else
       Some (None, result,
         put_sock socket_id ((sock S1 socket_id)\<lparr>so_status := SOCKET_STATUS_CONNECTED,
           so_p_udp_address := replicate UDP_ADDRESS_SIZE 0\<rparr>) S1)
   }"

definition handle_set_udp_address :: "int \<Rightarrow> bytes \<Rightarrow> socket_message \<Rightarrow> socket_server \<Rightarrow> handled" where
  "handle_set_udp_address socket_id address result S =
     (let so = sock S socket_id in
      if is_invalid so socket_id then Some (None, result, S)
      else if address ! 0 \<noteq> socket_type_code (so_type so) then
        Some (Some SOCKET_EVENT_ERROR, about so 0 (MSG_TEXT ''socket type mismatch''), S)
      else
        let n = (if so_type so = SOCKET_TYPE_UDP then 1 + 2 + 4 else 1 + 2 + 16) in
        Some (None, result,
          put_sock socket_id
            (dec_udp_connecting_count
              (so\<lparr>so_p_udp_address := take n address @ drop n (so_p_udp_address so)\<rparr>)) S))"

text \<open>
  \<open>handle_ctrl_cmd\<close>: read one package and run its handler. Data that is not the structure of the
  letter would be misread: \<open>None\<close>. An unknown letter is logged and ignored.
\<close>

definition run_ctrl_cmd :: "ctrl_cmd_package \<Rightarrow> socket_message \<Rightarrow> socket_server \<Rightarrow> handled" where
  "run_ctrl_cmd c result S =
     (if cmd_type c = CHR ''R'' then
        (case cmd_u c of request_resume_pause i h \<Rightarrow> handle_resume_socket i h S | _ \<Rightarrow> None)
      else if cmd_type c = CHR ''S'' then
        (case cmd_u c of request_resume_pause i h \<Rightarrow> handle_pause_socket i h result S | _ \<Rightarrow> None)
      else if cmd_type c = CHR ''B'' then
        (case cmd_u c of request_bind_os_fd i fd h \<Rightarrow> handle_bind_os_fd i fd h result S | _ \<Rightarrow> None)
      else if cmd_type c = CHR ''L'' then
        (case cmd_u c of request_listen i fd h \<Rightarrow> handle_listen_socket i fd h result S | _ \<Rightarrow> None)
      else if cmd_type c = CHR ''K'' then
        (case cmd_u c of request_close i sh h \<Rightarrow> handle_close_socket i sh result S | _ \<Rightarrow> None)
      else if cmd_type c = CHR ''O'' then
        (case cmd_u c of request_connect i p h host \<Rightarrow> handle_connect_socket i p h host S | _ \<Rightarrow> None)
      else if cmd_type c = CHR ''X'' then handle_exit_socket S
      else if cmd_type c = CHR ''W'' then
        (case cmd_u c of request_send i _ \<Rightarrow> handle_trigger_write i result S | _ \<Rightarrow> None)
      else if cmd_type c = CHR ''D'' \<or> cmd_type c = CHR ''P'' then
        (case cmd_u c of
           request_send i (Some p) \<Rightarrow> do {
             (ret, result1, S1) \<leftarrow> handle_send_socket i p (cmd_type c = CHR ''D'') None result S;
             so \<leftarrow> dec_sending_count i (sock S1 i);
             Some (ret, result1, put_sock i so S1)
           }
         | _ \<Rightarrow> None)
      else if cmd_type c = CHR ''A'' then
        (case cmd_u c of
           request_send_udp i (Some p) a \<Rightarrow> handle_send_socket i p True (Some a) result S
         | _ \<Rightarrow> None)
      else if cmd_type c = CHR ''C'' then
        (case cmd_u c of request_set_udp i a \<Rightarrow> handle_set_udp_address i a result S | _ \<Rightarrow> None)
      else if cmd_type c = CHR ''T'' then
        (case cmd_u c of request_set_opt i _ _ \<Rightarrow> handle_setopt_socket i result S | _ \<Rightarrow> None)
      else if cmd_type c = CHR ''U'' then
        (case cmd_u c of request_udp_socket i fd f h \<Rightarrow> handle_udp_socket i fd f h result S | _ \<Rightarrow> None)
      else Some (None, result, S))"

definition handle_ctrl_cmd :: "socket_message \<Rightarrow> socket_server \<Rightarrow> handled" where
  "handle_ctrl_cmd result S =
     (case ss_pipe S of
        [] \<Rightarrow> None
      | c # cs \<Rightarrow> run_ctrl_cmd c result (S\<lparr>ss_pipe := cs\<rparr>))"

end
