(* ===== verification/Socket_Stream.thy ===== *)
theory Socket_Stream
  imports Socket_Commands
begin

text \<open>
  What the socket server guarantees for a TCP connection: the bytes that the kernel accepts are
  the bytes that were sent, in order, without loss or repetition, however the kernel cuts the
  writes and however the calls of the workers, the commands on the pipe and the write events
  interleave; and the queued data goes out in priority order, a buffer never being interrupted.
\<close>

subsection \<open>The state of one connection\<close>

definition wb_ok :: "write_buffer \<Rightarrow> bool" where
  "wb_ok wb \<longleftrightarrow> wb_ptr wb + wb_sz wb = length (wb_buffer wb)"

definition total_sz :: "write_buffer list \<Rightarrow> int" where
  "total_sz wbs = int (sum_list (map wb_sz wbs))"

definition pending_of :: "write_buffer list \<Rightarrow> bytes" where
  "pending_of wbs = concat (map wb_data wbs)"

definition direct_rest :: "socket_object \<Rightarrow> bytes" where
  "direct_rest so =
     (case so_direct_write_buffer so of None \<Rightarrow> [] | Some d \<Rightarrow> drop (so_direct_write_offset so) d)"

definition pending :: "socket_object \<Rightarrow> bytes" where
  "pending so = direct_rest so @ pending_of (so_high so) @ pending_of (so_low so)"

text \<open>A connected TCP socket that is not being closed, with consistent buffers.\<close>

definition conn_ok :: "int \<Rightarrow> socket_object \<Rightarrow> bool" where
  "conn_ok sid so \<longleftrightarrow>
     so_id so = sid \<and> so_status so = SOCKET_STATUS_CONNECTED \<and> so_type so = SOCKET_TYPE_TCP \<and>
     \<not> so_closing so \<and>
     (\<forall>wb \<in> set (so_high so @ so_low so). wb_ok wb) \<and> (\<forall>wb \<in> set (so_low so). wb_ptr wb = 0) \<and>
     so_write_buffer_size so = total_sz (so_high so) + total_sz (so_low so) \<and>
     (\<forall>d. so_direct_write_buffer so = Some d \<longrightarrow> so_direct_write_offset so \<le> length d)"

lemma get_set_socket [simp]: "get_socket (set_socket i so p) i = so"
  by (simp add: get_socket_def set_socket_def)

lemma put_sock_simps [simp]:
  "sock (put_sock i so S) i = so" "ss_kernel (put_sock i so S) = ss_kernel S"
  "ss_pipe (put_sock i so S) = ss_pipe S" "ss_time_ticks (put_sock i so S) = ss_time_ticks S"
  by (simp_all add: put_sock_def)

lemma wb_data_length: "wb_ok wb \<Longrightarrow> length (wb_data wb) = wb_sz wb"
  by (simp add: wb_ok_def wb_data_def)

lemma wb_advance:
  assumes "wb_ok wb" and "n \<le> wb_sz wb"
  defines "wb' \<equiv> wb\<lparr>wb_ptr := wb_ptr wb + n, wb_sz := wb_sz wb - n\<rparr>"
  shows "wb_ok wb'" "wb_data wb = take n (wb_data wb) @ wb_data wb'"
proof -
  show "wb_ok wb'"
    using assms by (simp add: wb_ok_def)
  have all: "wb_data v = drop (wb_ptr v) (wb_buffer v)" if "wb_ok v" for v
    using that by (simp add: wb_data_def wb_ok_def)
  have "wb_data wb' = drop n (wb_data wb)"
    using all [OF \<open>wb_ok wb\<close>] all [OF \<open>wb_ok wb'\<close>] by (simp add: wb'_def add.commute)
  then show "wb_data wb = take n (wb_data wb) @ wb_data wb'"
    by simp
qed

lemma os_write_OK:
  assumes "os_write fd bs k = (IO_OK n, k1)"
  shows "n \<le> length bs" "k_wire k1 fd = k_wire k fd @ take n bs"
  using assms
  by (auto simp: os_write_def next_answer_def min_def split: list.splits io_result.splits)

lemma os_write_accepted:
  assumes "os_write fd bs k = (r, k1)"
  shows "accepted r \<le> length bs" "k_wire k1 fd = k_wire k fd @ take (accepted r) bs"
  using assms
  by (auto simp: os_write_def next_answer_def min_def split: list.splits io_result.splits)

lemma os_write_other:
  assumes "os_write fd bs k = (r, k1)" and "\<And>n. r \<noteq> IO_OK n"
  shows "k_wire k1 = k_wire k"
  using assms by (auto simp: os_write_def next_answer_def split: list.splits io_result.splits)

lemma os_write_answers:
  assumes "os_write fd bs k = (r, k1)"
  shows "set (k_answers k1) \<subseteq> set (k_answers k)" "r = IO_ERROR \<Longrightarrow> IO_ERROR \<in> set (k_answers k)"
  using assms by (auto simp: os_write_def next_answer_def split: list.splits io_result.splits)

subsection \<open>Writing a list\<close>

text \<open>What the loop changes of a socket besides the list.\<close>

definition sized :: "socket_statistics \<Rightarrow> int \<Rightarrow> socket_object \<Rightarrow> socket_object" where
  "sized st sz so = so\<lparr>so_statistics := st, so_write_buffer_size := sz\<rparr>"

lemma sized_sized [simp]: "sized st sz (sized st' sz' so) = sized st sz so"
  by (simp add: sized_def)

definition after_write :: "nat \<Rightarrow> u64 \<Rightarrow> socket_object \<Rightarrow> socket_object" where
  "after_write n t so =
     sized (so_statistics (statistics_send n t so)) (so_write_buffer_size so - int n) so"

lemma after_write_fields:
  "so_fd (after_write n t so) = so_fd so"
  "so_write_buffer_size (after_write n t so) = so_write_buffer_size so - int n"
  "sized st z (after_write n t so) = sized st z so"
  by (simp_all add: after_write_def) (simp_all add: sized_def)

lemma send_tcp_loop_OK:
  assumes "os_write (so_fd so) (wb_data wb) k = (IO_OK n, k1)"
  shows "send_tcp_loop t (wb # wbs) so k =
    (if n \<noteq> wb_sz wb
     then (False, wb\<lparr>wb_ptr := wb_ptr wb + n, wb_sz := wb_sz wb - n\<rparr> # wbs, after_write n t so, k1)
     else send_tcp_loop t wbs (after_write n t so) k1)"
  using assms by (simp add: after_write_def sized_def statistics_send_def Let_def)

lemma after_write_unfold:
  "after_write n t so = (statistics_send n t so)\<lparr>so_write_buffer_size :=
     so_write_buffer_size (statistics_send n t so) - int n\<rparr>"
  by (simp add: after_write_def sized_def statistics_send_def)

lemma total_sz_Cons: "total_sz (wb # wbs) = int (wb_sz wb) + total_sz wbs"
  by (simp add: total_sz_def)

lemma pending_of_simps [simp]:
  "pending_of [] = []" "pending_of (wb # wbs) = wb_data wb @ pending_of wbs"
  "pending_of (a @ b) = pending_of a @ pending_of b"
  by (simp_all add: pending_of_def)

lemma send_tcp_loop_correct:
  assumes "send_tcp_loop t wbs so k = (err, wbs', so', k')"
    and "\<forall>wb \<in> set wbs. wb_ok wb" and "IO_ERROR \<notin> set (k_answers k)"
  shows "\<not> err \<and>
     k_wire k' (so_fd so) @ pending_of wbs' = k_wire k (so_fd so) @ pending_of wbs \<and>
     set (k_answers k') \<subseteq> set (k_answers k) \<and>
     (\<exists>st. so' = sized st (so_write_buffer_size so - total_sz wbs + total_sz wbs') so) \<and>
     (\<forall>wb \<in> set wbs'. wb_ok wb) \<and> set (tl wbs') \<subseteq> set wbs"
  using assms
proof (induction t wbs so k rule: send_tcp_loop.induct)
  case (1 t so k)
  then show ?case
    by (auto simp: sized_def intro!: exI [of _ "so_statistics so"])
next
  case (2 t wb wbs so k)
  obtain r k1 where w: "os_write (so_fd so) (wb_data wb) k = (r, k1)"
    by fastforce
  have ans: "set (k_answers k1) \<subseteq> set (k_answers k)" "r \<noteq> IO_ERROR" "IO_ERROR \<notin> set (k_answers k1)"
    using os_write_answers [OF w] 2(5) by auto
  have wb: "wb_ok wb" "length (wb_data wb) = wb_sz wb"
    using 2(4) by (simp_all add: wb_data_length)
  show ?case
  proof (cases r)
    case (IO_OK n)
    note wire = os_write_OK [OF w [unfolded IO_OK]]
    note loop = 2(3) [unfolded send_tcp_loop_OK [OF w [unfolded IO_OK]]]
    show ?thesis
    proof (cases "n = wb_sz wb")
      case True
      have "wb_data wb = take n (wb_data wb)"
        using True wb by simp
      moreover have "\<not> err \<and>
          k_wire k' (so_fd so) @ pending_of wbs' = k_wire k1 (so_fd so) @ pending_of wbs \<and>
          set (k_answers k') \<subseteq> set (k_answers k1) \<and>
          (\<exists>st. so' = sized st (so_write_buffer_size so - int n - total_sz wbs + total_sz wbs') so) \<and>
          (\<forall>wb \<in> set wbs'. wb_ok wb) \<and> set (tl wbs') \<subseteq> set wbs"
        using 2(1) [OF w [symmetric] IO_OK refl refl] True loop 2(4,5) ans
        by (simp add: after_write_fields flip: after_write_unfold)
      ultimately show ?thesis
        using True wire ans by (auto simp: total_sz_Cons algebra_simps)
    next
      case False
      then have out: "\<not> err" "wbs' = wb\<lparr>wb_ptr := wb_ptr wb + n, wb_sz := wb_sz wb - n\<rparr> # wbs"
        "so' = after_write n t so" "k' = k1"
        using loop by auto
      have "total_sz wbs' = total_sz (wb # wbs) - int n"
        using wire wb by (simp add: out total_sz_Cons of_nat_diff)
      then show ?thesis
        using wb wire ans wb_advance [of wb n] 2(4)
        by (auto simp: out after_write_def)
    qed
  next
    case IO_EINTR
    then show ?thesis
      using 2(2) [OF w [symmetric]] 2(3,4,5) w ans os_write_other [OF w] by auto
  next
    case IO_EAGAIN
    then show ?thesis
      using 2(3,4) w ans os_write_other [OF w]
      by (auto simp: sized_def intro!: exI [of _ "so_statistics so"])
  next
    case IO_ERROR
    with ans show ?thesis by simp
  qed
qed

subsection \<open>A write event\<close>

text \<open>
  What an operation of the write path leaves alone: the pipe, the descriptor, the sending count;
  and the relation between what the kernel has and what is still queued.
\<close>

definition flushed :: "int \<Rightarrow> socket_server \<Rightarrow> socket_server \<Rightarrow> bool" where
  "flushed sid S S' \<longleftrightarrow>
     ss_pipe S' = ss_pipe S \<and> so_fd (sock S' sid) = so_fd (sock S sid) \<and>
     so_sending_count (sock S' sid) = so_sending_count (sock S sid) \<and>
     so_direct_write_buffer (sock S' sid) = so_direct_write_buffer (sock S sid) \<and>
     set (k_answers (ss_kernel S')) \<subseteq> set (k_answers (ss_kernel S)) \<and>
     (so_low (sock S sid) = [] \<longrightarrow> so_low (sock S' sid) = []) \<and>
     k_wire (ss_kernel S') (so_fd (sock S sid)) @ pending (sock S' sid)
       = k_wire (ss_kernel S) (so_fd (sock S sid)) @ pending (sock S sid)"

lemma flushed_refl: "flushed sid S S"
  by (simp add: flushed_def)

lemma flushed_trans: "flushed sid S S' \<Longrightarrow> flushed sid S' S'' \<Longrightarrow> flushed sid S S''"
  by (auto simp: flushed_def)

lemma send_list_high:
  assumes ok: "conn_ok sid (sock S sid)" and no: "IO_ERROR \<notin> set (k_answers (ss_kernel S))"
    and d: "so_direct_write_buffer (sock S sid) = None"
  obtains S' where "send_write_buffer_list sid True r S = Some (None, r, S')"
    "conn_ok sid (sock S' sid)" "flushed sid S S'"
    "so_low (sock S' sid) = so_low (sock S sid)"
proof -
  define so where "so = sock S sid"
  obtain err wbs so' k where loop: "send_tcp_loop (ss_time_ticks S) (so_high so) so (ss_kernel S) = (err, wbs, so', k)"
    by (metis prod_cases4)
  define S' where "S' = put_sock sid (so'\<lparr>so_high := wbs\<rparr>) (S\<lparr>ss_kernel := k\<rparr>)"
  have ok': "\<forall>wb \<in> set (so_high so). wb_ok wb"
    using ok by (simp add: so_def conn_ok_def)
  obtain st where l: "\<not> err" "k_wire k (so_fd so) @ pending_of wbs
      = k_wire (ss_kernel S) (so_fd so) @ pending_of (so_high so)"
    "set (k_answers k) \<subseteq> set (k_answers (ss_kernel S))"
    "so' = sized st (so_write_buffer_size so - total_sz (so_high so) + total_sz wbs) so"
    "\<forall>wb \<in> set wbs. wb_ok wb"
    using send_tcp_loop_correct [OF loop ok' no] by blast
  have "send_write_buffer_list sid True r S = Some (None, r, S')"
    using ok loop l(1)
    by (simp add: send_write_buffer_list_def conn_ok_def get_list_def set_list_def S'_def flip: so_def)
  moreover have sock': "sock S' sid = so'\<lparr>so_high := wbs\<rparr>" "ss_kernel S' = k" "ss_pipe S' = ss_pipe S"
    by (simp_all add: S'_def)
  have "conn_ok sid (sock S' sid)"
    using ok l(5) unfolding sock' by (auto simp: conn_ok_def l(4) sized_def simp flip: so_def)
  moreover have "flushed sid S S'"
    using l(2,3) d unfolding flushed_def sock' so_def [symmetric]
    by (simp add: l(4) sized_def pending_def direct_rest_def)
  moreover have "so_low (sock S' sid) = so_low (sock S sid)"
    unfolding sock' by (simp add: l(4) sized_def so_def)
  ultimately show thesis
    by (rule that)
qed

lemma send_list_low:
  assumes ok: "conn_ok sid (sock S sid)" and no: "IO_ERROR \<notin> set (k_answers (ss_kernel S))"
    and e: "so_direct_write_buffer (sock S sid) = None" "so_high (sock S sid) = []"
  obtains S' where "send_write_buffer_list sid False r S = Some (None, r, S')"
    "\<not> list_uncomplete (so_low (sock S' sid)) \<Longrightarrow> conn_ok sid (sock S' sid)"
    "\<And>wb wbs. so_low (sock S' sid) = wb # wbs \<Longrightarrow>
       conn_ok sid ((sock S' sid)\<lparr>so_low := wbs, so_high := [wb]\<rparr>)"
    "so_high (sock S' sid) = []" "flushed sid S S'"
proof -
  define so where "so = sock S sid"
  obtain err wbs so' k where loop: "send_tcp_loop (ss_time_ticks S) (so_low so) so (ss_kernel S) = (err, wbs, so', k)"
    by (metis prod_cases4)
  define S' where "S' = put_sock sid (so'\<lparr>so_low := wbs\<rparr>) (S\<lparr>ss_kernel := k\<rparr>)"
  have ok': "\<forall>wb \<in> set (so_low so). wb_ok wb"
    using ok by (simp add: so_def conn_ok_def)
  obtain st where l: "\<not> err" "k_wire k (so_fd so) @ pending_of wbs
      = k_wire (ss_kernel S) (so_fd so) @ pending_of (so_low so)"
    "set (k_answers k) \<subseteq> set (k_answers (ss_kernel S))"
    "so' = sized st (so_write_buffer_size so - total_sz (so_low so) + total_sz wbs) so"
    "\<forall>wb \<in> set wbs. wb_ok wb" "set (tl wbs) \<subseteq> set (so_low so)"
    using send_tcp_loop_correct [OF loop ok' no] by blast
  have tl: "\<forall>wb \<in> set (tl wbs). wb_ptr wb = 0"
    using ok l(6) by (auto simp: conn_ok_def so_def)
  have send: "send_write_buffer_list sid False r S = Some (None, r, S')"
    using ok loop l(1)
    by (simp add: send_write_buffer_list_def conn_ok_def get_list_def set_list_def S'_def flip: so_def)
  have sock': "sock S' sid = so'\<lparr>so_low := wbs\<rparr>" "ss_kernel S' = k" "ss_pipe S' = ss_pipe S"
    by (simp_all add: S'_def)
  have high: "so_high so' = []" "so_high so = []" "total_sz (so_high so) = 0"
    using e by (simp_all add: l(4) sized_def so_def total_sz_def)
  have "conn_ok sid (so'\<lparr>so_low := wbs\<rparr>)" if "\<not> list_uncomplete wbs"
    using ok l(5) tl that high
    by (cases wbs) (auto simp: conn_ok_def l(4) sized_def simp flip: so_def)
  moreover have "conn_ok sid (so'\<lparr>so_low := ws, so_high := [wb]\<rparr>)" if "wbs = wb # ws" for wb ws
    using ok l(5) tl that high
    by (auto simp: conn_ok_def l(4) sized_def total_sz_def simp flip: so_def)
  moreover have "flushed sid S S'"
    using l(2,3) e high unfolding flushed_def sock' so_def [symmetric]
    by (auto simp: l(4) sized_def pending_def direct_rest_def) (use loop in simp)
  ultimately show thesis
    using high(1) by (intro that [OF send]) (simp_all add: sock')
qed

lemma enable_write_correct:
  obtains err S' where "enable_write sid e S = (err, S')"
    "sock S' sid = (sock S sid)\<lparr>so_writing := e\<rparr>" "ss_pipe S' = ss_pipe S"
    "k_wire (ss_kernel S') = k_wire (ss_kernel S)"
    "k_answers (ss_kernel S') = k_answers (ss_kernel S)"
proof (cases "so_writing (sock S sid) = e")
  case True
  then show thesis
    by (intro that [of False S]) (simp_all add: enable_write_def)
next
  case False
  then show thesis
    by (cases "k_ctl_error (ss_kernel S) (so_fd (sock S sid))")
      (auto simp: enable_write_def poller_enable_def Let_def intro!: that)
qed

lemma conn_ok_update:
  "conn_ok sid so \<Longrightarrow> conn_ok sid (so\<lparr>so_writing := b\<rparr>)" "conn_ok sid so \<Longrightarrow> conn_ok sid (so\<lparr>so_warn_size := z\<rparr>)"
  "conn_ok sid so \<Longrightarrow> conn_ok sid (so\<lparr>so_sending_count := n\<rparr>)"
  by (simp_all add: conn_ok_def)

lemma pending_update [simp]:
  "pending (so\<lparr>so_writing := b\<rparr>) = pending so" "pending (so\<lparr>so_warn_size := z\<rparr>) = pending so"
  "pending (so\<lparr>so_sending_count := n\<rparr>) = pending so"
  by (simp_all add: pending_def direct_rest_def split: option.split)

lemma finish_writing_correct:
  assumes ok: "conn_ok sid (sock S sid)" and e: "so_high (sock S sid) = []" "so_low (sock S sid) = []"
  obtains ev r' S' where "finish_writing sid r S = Some (ev, r', S')" "conn_ok sid (sock S' sid)" "flushed sid S S'"
proof -
  obtain err S1 where S1: "enable_write sid False S = (err, S1)"
    "sock S1 sid = (sock S sid)\<lparr>so_writing := False\<rparr>" "ss_pipe S1 = ss_pipe S"
    "k_wire (ss_kernel S1) = k_wire (ss_kernel S)"
    "k_answers (ss_kernel S1) = k_answers (ss_kernel S)"
    by (rule enable_write_correct)
  have a: "is_write_buffer_empty (sock S sid) \<and> so_write_buffer_size (sock S sid) = 0" "\<not> so_closing (sock S sid)"
    using ok e by (simp_all add: conn_ok_def is_write_buffer_empty_def total_sz_def)
  have "conn_ok sid (sock S1 sid)" "flushed sid S S1"
    using ok S1 by (simp_all add: conn_ok_update flushed_def)
  moreover have "conn_ok sid (sock (put_sock sid ((sock S1 sid)\<lparr>so_warn_size := 0\<rparr>) S1) sid)"
    "flushed sid S (put_sock sid ((sock S1 sid)\<lparr>so_warn_size := 0\<rparr>) S1)"
    using ok S1 by (simp_all add: conn_ok_update flushed_def)
  ultimately show thesis
    using a S1(1) that
    by (cases err; cases "0 < so_warn_size (sock S1 sid)") (simp_all add: finish_writing_def Let_def)
qed

text \<open>What a direct write left over is put before the queued data.\<close>

lemma take_direct_correct:
  assumes ok: "conn_ok sid so"
  obtains so' where "take_direct so = Some so'" "conn_ok sid so'" "pending so' = pending so"
    "so_direct_write_buffer so' = None" "so_fd so' = so_fd so" "so_low so' = so_low so"
    "so_sending_count so' = so_sending_count so"
proof (cases "so_direct_write_buffer so")
  case None
  with ok show thesis
    by (intro that [of so]) (simp_all add: take_direct_def)
next
  case (Some d)
  have off: "so_direct_write_offset so \<le> length d"
    using ok Some by (simp add: conn_ok_def)
  define wb where "wb = \<lparr>wb_buffer = d, wb_ptr = so_direct_write_offset so,
    wb_sz = length d - so_direct_write_offset so, wb_is_user_object = False, wb_udp_address = []\<rparr>"
  have wb: "wb_ok wb" "wb_data wb = drop (so_direct_write_offset so) d"
    using off by (simp_all add: wb_ok_def wb_data_def wb_def)
  define so' where "so' = so\<lparr>so_write_buffer_size := so_write_buffer_size so + int (wb_sz wb),
    so_high := wb # so_high so, so_direct_write_buffer := None\<rparr>"
  have "take_direct so = Some so'"
    using Some by (simp add: take_direct_def so'_def wb_def Let_def)
  moreover have "conn_ok sid so'"
    using ok wb by (auto simp: conn_ok_def so'_def total_sz_Cons)
  moreover have "pending so' = pending so"
    using Some wb by (simp add: pending_def direct_rest_def so'_def)
  ultimately show thesis
    by (rule that) (simp_all add: so'_def)
qed

lemma do_send_correct:
  assumes ok: "conn_ok sid (sock S sid)" and no: "IO_ERROR \<notin> set (k_answers (ss_kernel S))"
    and d: "so_direct_write_buffer (sock S sid) = None"
  obtains ev r' S' where "do_send_write_buffer sid r S = Some (ev, r', S')"
    "conn_ok sid (sock S' sid)" "flushed sid S S'"
proof -
  obtain S1 where S1: "send_write_buffer_list sid True r S = Some (None, r, S1)"
    "conn_ok sid (sock S1 sid)" "flushed sid S S1" "so_low (sock S1 sid) = so_low (sock S sid)"
    by (rule send_list_high [OF ok no d])
  have low: "\<not> list_uncomplete (so_low (sock S sid))"
    using ok by (cases "so_low (sock S sid)") (simp_all add: conn_ok_def)
  have d1: "so_direct_write_buffer (sock S1 sid) = None" and no1: "IO_ERROR \<notin> set (k_answers (ss_kernel S1))"
    using S1(3) d no by (auto simp: flushed_def)
  show thesis
  proof (cases "so_high (sock S1 sid) = []")
    case False
    then show thesis
      using S1 low by (intro that [of None r S1]) (simp_all add: do_send_write_buffer_def)
  next
    case high: True
    show thesis
    proof (cases "so_low (sock S1 sid) = []")
      case True
      obtain ev r' S' where "finish_writing sid r S1 = Some (ev, r', S')" "conn_ok sid (sock S' sid)"
        "flushed sid S1 S'"
        by (rule finish_writing_correct [OF S1(2) high True])
      then show thesis
        using S1 low high True flushed_trans [OF S1(3)]
        by (intro that [of ev r' S']) (simp_all add: do_send_write_buffer_def)
    next
      case False
      obtain S2 where S2: "send_write_buffer_list sid False r S1 = Some (None, r, S2)"
        "\<not> list_uncomplete (so_low (sock S2 sid)) \<longrightarrow> conn_ok sid (sock S2 sid)"
        "\<forall>wb wbs. so_low (sock S2 sid) = wb # wbs \<longrightarrow>
           conn_ok sid ((sock S2 sid)\<lparr>so_low := wbs, so_high := [wb]\<rparr>)"
        "so_high (sock S2 sid) = []" "flushed sid S S2"
        using send_list_low [OF S1(2) no1 d1 high, of r] flushed_trans [OF S1(3)] by metis
      have do: "do_send_write_buffer sid r S =
          (if list_uncomplete (so_low (sock S2 sid)) then do {
             so \<leftarrow> raise_uncomplete (sock S2 sid);
             Some (None, r, put_sock sid so S2)
           } else if so_low (sock S2 sid) \<noteq> [] then Some (None, r, S2)
           else finish_writing sid r S2)"
        using S1(1) S2(1) low high False by (simp add: do_send_write_buffer_def)
      have nonempty: "so_low (sock S sid) \<noteq> []"
        using False S1(4) by simp
      show thesis
      proof (cases "so_low (sock S2 sid)")
        case Nil
        then have "conn_ok sid (sock S2 sid)"
          using S2(2) by simp
        then obtain ev r' S' where "finish_writing sid r S2 = Some (ev, r', S')"
          "conn_ok sid (sock S' sid)" "flushed sid S2 S'"
          by (rule finish_writing_correct [OF _ S2(4) Nil])
        then show thesis
          using do Nil flushed_trans [OF S2(5)] by (intro that [of ev r' S']) simp_all
      next
        case (Cons wb wbs)
        define S' where "S' = put_sock sid ((sock S2 sid)\<lparr>so_low := wbs, so_high := [wb]\<rparr>) S2"
        have "conn_ok sid (sock S' sid)"
          using S2(3) Cons by (simp add: S'_def)
        moreover have "flushed sid S S'"
          using S2(4,5) Cons nonempty
          by (simp add: flushed_def S'_def pending_def direct_rest_def split: option.splits)
        ultimately show thesis
          using do Cons S2 that [of None r S'] that [of None r S2]
          by (cases "list_uncomplete (so_low (sock S2 sid))")
            (simp_all add: raise_uncomplete_def S'_def)
      qed
    qed
  qed
qed

lemma send_write_buffer_correct:
  assumes ok: "conn_ok sid (sock S sid)" and no: "IO_ERROR \<notin> set (k_answers (ss_kernel S))"
  obtains ev r' S' where "send_write_buffer False sid r S = Some (ev, r', S')"
    "conn_ok sid (sock S' sid)" "ss_pipe S' = ss_pipe S" "so_fd (sock S' sid) = so_fd (sock S sid)"
    "so_sending_count (sock S' sid) = so_sending_count (sock S sid)"
    "set (k_answers (ss_kernel S')) \<subseteq> set (k_answers (ss_kernel S))"
    "so_low (sock S sid) = [] \<longrightarrow> so_low (sock S' sid) = []"
    "k_wire (ss_kernel S') (so_fd (sock S sid)) @ pending (sock S' sid)
     = k_wire (ss_kernel S) (so_fd (sock S sid)) @ pending (sock S sid)"
proof -
  obtain so where so: "take_direct (sock S sid) = Some so" "conn_ok sid so" "pending so = pending (sock S sid)"
    "so_direct_write_buffer so = None" "so_fd so = so_fd (sock S sid)" "so_low so = so_low (sock S sid)"
    "so_sending_count so = so_sending_count (sock S sid)"
    by (rule take_direct_correct [OF ok])
  define S1 where "S1 = put_sock sid so S"
  obtain ev r' S' where "do_send_write_buffer sid r S1 = Some (ev, r', S')"
    "conn_ok sid (sock S' sid)" "flushed sid S1 S'"
    by (rule do_send_correct [of sid S1 r]) (use so no in \<open>simp_all add: S1_def\<close>)
  then show thesis
    using so by (intro that [of ev r' S']) (simp_all add: send_write_buffer_def S1_def flushed_def)
qed

text \<open>
  The queues of a connection go out in order: what the kernel has taken and what is still waiting
  is, before and after a write event, the same sequence of bytes, a left-over direct write first,
  then the high priority list, then the low priority list. No assertion of the write path fails,
  however short the writes are, and a buffer of low priority that was cut is finished first.
\<close>

theorem write_event_keeps_order:
  assumes "conn_ok sid (sock S sid)" and "IO_ERROR \<notin> set (k_answers (ss_kernel S))"
  shows "\<exists>ev r' S'. send_write_buffer False sid r S = Some (ev, r', S') \<and> conn_ok sid (sock S' sid) \<and>
     k_wire (ss_kernel S') (so_fd (sock S sid)) @ pending (sock S' sid)
     = k_wire (ss_kernel S) (so_fd (sock S sid)) @ pending (sock S sid)"
  using send_write_buffer_correct [OF assms, of r] by metis

subsection \<open>A run of one connection\<close>

text \<open>
  The events that concern the sending side of a connection: a worker sends data (the flag: the
  lock is held by another thread), the socket thread handles the next command, the socket is
  writable (the flag: a worker holds the lock). The poller reports the latter only while the write
  event is enabled.
\<close>

datatype sock_op = OP_SEND bytes bool | OP_COMMAND | OP_WRITABLE bool

definition no_message :: socket_message where
  "no_message = \<lparr>rm_socket_id = 0, rm_svc_handle = 0, rm_ud = 0, rm_data = MSG_NULL\<rparr>"

definition user_data :: "int \<Rightarrow> bytes \<Rightarrow> send_data" where
  "user_data sid d = \<lparr>sd_socket_id = sid, sd_type = SEND_DATA_TYPE_USER_DATA, sd_data = d\<rparr>"

fun sock_step :: "int \<Rightarrow> sock_op \<Rightarrow> socket_server \<Rightarrow> socket_server option" where
  "sock_step sid (OP_SEND d busy) S = map_option snd (server_send busy (user_data sid d) S)"
| "sock_step sid OP_COMMAND S =
     (if ss_pipe S = [] then Some S else map_option (snd \<circ> snd) (handle_ctrl_cmd no_message S))"
| "sock_step sid (OP_WRITABLE busy) S =
     (if so_writing (sock S sid)
      then map_option (snd \<circ> snd) (send_write_buffer busy sid no_message S) else Some S)"

fun sock_run :: "int \<Rightarrow> sock_op list \<Rightarrow> socket_server \<Rightarrow> socket_server option" where
  "sock_run sid [] S = Some S"
| "sock_run sid (op # ops) S = do { S' \<leftarrow> sock_step sid op S; sock_run sid ops S' }"

fun sent_by :: "sock_op \<Rightarrow> bytes" where
  "sent_by (OP_SEND d busy) = d"
| "sent_by _ = []"

text \<open>The data of the commands on the pipe, and everything that was sent but not yet written.\<close>

fun cmd_bytes :: "ctrl_cmd_package \<Rightarrow> bytes" where
  "cmd_bytes c = (case cmd_u c of request_send _ (Some (MEMORY d)) \<Rightarrow> d | _ \<Rightarrow> [])"

declare cmd_bytes.simps [simp del]

definition unsent :: "int \<Rightarrow> socket_server \<Rightarrow> bytes" where
  "unsent sid S = pending (sock S sid) @ concat (map cmd_bytes (ss_pipe S))"

definition is_data_cmd :: "ctrl_cmd_package \<Rightarrow> bool" where
  "is_data_cmd c \<longleftrightarrow> cmd_type c = CHR ''D''"

text \<open>
  The invariant of the run: the connection is sound, only its own data and trigger commands are
  on the pipe, and the sending count covers the data commands and can still grow by \<open>n\<close>.
\<close>

definition link_inv :: "int \<Rightarrow> nat \<Rightarrow> socket_server \<Rightarrow> bool" where
  "link_inv sid n S \<longleftrightarrow>
     conn_ok sid (sock S sid) \<and> so_low (sock S sid) = [] \<and> IO_ERROR \<notin> set (k_answers (ss_kernel S)) \<and>
     (\<forall>c \<in> set (ss_pipe S). c = prepare_trigger_write sid \<or>
        (\<exists>d. c = prepare_send sid (Some (MEMORY d)) True)) \<and>
     so_sending_count (sock S sid) div 0x10000 = socket_id_high16 sid \<and>
     length (filter is_data_cmd (ss_pipe S)) \<le> so_sending_count (sock S sid) mod 0x10000 \<and>
     so_sending_count (sock S sid) mod 0x10000 + n < 0x10000"

lemma cmd_bytes_simps [simp]:
  "cmd_bytes (prepare_trigger_write sid) = []" "cmd_bytes (prepare_send sid (Some (MEMORY d)) True) = d"
  "\<not> is_data_cmd (prepare_trigger_write sid)" "is_data_cmd (prepare_send sid p True)"
  by (simp_all add: cmd_bytes.simps prepare_trigger_write_def prepare_send_def is_data_cmd_def)

lemma inc_count:
  assumes "conn_ok sid so" "so_sending_count so div 0x10000 = socket_id_high16 sid"
    "so_sending_count so mod 0x10000 + Suc n < 0x10000"
  shows "inc_sending_count sid so = Some (so\<lparr>so_sending_count := so_sending_count so + 1\<rparr>)"
    "(so_sending_count so + 1) div 0x10000 = socket_id_high16 sid"
    "(so_sending_count so + 1) mod 0x10000 = so_sending_count so mod 0x10000 + 1"
proof -
  show "inc_sending_count sid so = Some (so\<lparr>so_sending_count := so_sending_count so + 1\<rparr>)"
    using assms by (simp add: inc_sending_count_def conn_ok_def)
  show "(so_sending_count so + 1) mod 0x10000 = so_sending_count so mod 0x10000 + 1"
    "(so_sending_count so + 1) div 0x10000 = socket_id_high16 sid"
    using assms(2,3) by (auto simp: mod_Suc div_Suc)
qed

lemma dec_count:
  assumes "conn_ok sid so" "so_sending_count so mod 0x10000 \<noteq> 0"
  shows "dec_sending_count sid so = Some (so\<lparr>so_sending_count := so_sending_count so - 1\<rparr>)"
    "(so_sending_count so - 1) div 0x10000 = so_sending_count so div 0x10000"
    "(so_sending_count so - 1) mod 0x10000 = so_sending_count so mod 0x10000 - 1"
proof -
  show "dec_sending_count sid so = Some (so\<lparr>so_sending_count := so_sending_count so - 1\<rparr>)"
    using assms by (simp add: dec_sending_count_def conn_ok_def)
  obtain c where c: "so_sending_count so = Suc c"
    using assms(2) by (cases "so_sending_count so") auto
  then show "(so_sending_count so - 1) div 0x10000 = so_sending_count so div 0x10000"
    "(so_sending_count so - 1) mod 0x10000 = so_sending_count so mod 0x10000 - 1"
    using assms(2) by (auto simp: mod_Suc div_Suc split: if_splits)
qed

text \<open>More sends are counted than there are data commands on the pipe.\<close>

definition overcounted :: "int \<Rightarrow> socket_server \<Rightarrow> bool" where
  "overcounted sid S \<longleftrightarrow>
     length (filter is_data_cmd (ss_pipe S)) < so_sending_count (sock S sid) mod 0x10000"

text \<open>What every step keeps, with the data \<open>d\<close> that it adds to the stream.\<close>

definition streams :: "int \<Rightarrow> nat \<Rightarrow> bytes \<Rightarrow> socket_server \<Rightarrow> socket_server \<Rightarrow> bool" where
  "streams sid n d S S' \<longleftrightarrow>
     link_inv sid n S' \<and> so_fd (sock S' sid) = so_fd (sock S sid) \<and>
     (overcounted sid S \<longrightarrow> overcounted sid S') \<and>
     k_wire (ss_kernel S') (so_fd (sock S sid)) @ unsent sid S'
       = k_wire (ss_kernel S) (so_fd (sock S sid)) @ unsent sid S @ d"

lemma send_ctrl_cmd_simps [simp]:
  "sock (send_ctrl_cmd c S) i = sock S i" "ss_kernel (send_ctrl_cmd c S) = ss_kernel S"
  "ss_pipe (send_ctrl_cmd c S) = ss_pipe S @ [c]"
  by (simp_all add: send_ctrl_cmd_def)

lemma user_data_simps [simp]:
  "sd_socket_id (user_data sid d) = sid" "init_send_user_object_sd (user_data sid d) = Some (d, FREE_NOTHING)"
  "clone_send_data (user_data sid d) = MEMORY d"
  by (simp_all add: user_data_def init_send_user_object_sd_def clone_send_data_def)

lemma link_inv_count:
  "link_inv sid n S \<Longrightarrow> so_sending_count (sock S sid) mod 0x10000 = 0 \<Longrightarrow> concat (map cmd_bytes (ss_pipe S)) = []"
proof -
  assume inv: "link_inv sid n S" and "so_sending_count (sock S sid) mod 0x10000 = 0"
  then have none: "filter is_data_cmd (ss_pipe S) = []"
    by (simp add: link_inv_def)
  have "cmd_bytes c = []" if "c \<in> set (ss_pipe S)" for c
    using inv that none by (fastforce simp: link_inv_def filter_empty_conv)
  then show ?thesis by (simp add: concat_eq_Nil_conv)
qed

lemma send_by_command_step:
  assumes inv: "link_inv sid (Suc n) S"
  shows "\<exists>S'. send_by_command True (user_data sid d) S = Some (0, S') \<and> streams sid n d S S'"
proof -
  have c: "conn_ok sid (sock S sid)" and "so_sending_count (sock S sid) div 0x10000 = socket_id_high16 sid"
    "so_sending_count (sock S sid) mod 0x10000 + Suc n < 0x10000"
    using inv by (simp_all add: link_inv_def)
  note inc = inc_count [OF this]
  show ?thesis
    using inv inc conn_ok_update(3) [OF c]
    by (auto simp: send_by_command_def streams_def link_inv_def unsent_def overcounted_def)
qed

lemma direct_send_step:
  assumes inv: "link_inv sid (Suc n) S" and direct: "can_direct_send (sock S sid) sid"
  shows "\<exists>S'. direct_send (user_data sid d) S = Some (0, S') \<and> streams sid n d S S' \<and>
    (accepted (fst (os_write (so_fd (sock S sid)) d (ss_kernel S))) \<noteq> length d \<longrightarrow> overcounted sid S')"
proof -
  define so where "so = sock S sid"
  have c: "conn_ok sid so" and cnt: "so_sending_count so div 0x10000 = socket_id_high16 sid"
    "so_sending_count so mod 0x10000 + Suc n < 0x10000" and no: "IO_ERROR \<notin> set (k_answers (ss_kernel S))"
    using inv by (simp_all add: link_inv_def so_def)
  have tcp: "so_type so = SOCKET_TYPE_TCP"
    using c by (simp add: conn_ok_def)
  have empty: "so_high so = []" "so_low so = []" "so_direct_write_buffer so = None"
    "so_sending_count so mod 0x10000 = 0"
    using direct c by (auto simp: can_direct_send_def nomore_sending_data_def is_write_buffer_empty_def
        is_close_write_def conn_ok_def so_def)
  have cmds: "concat (map cmd_bytes (ss_pipe S)) = []"
    using link_inv_count [OF inv] empty by (simp only: so_def)
  have unsent: "unsent sid S = []"
    using empty by (simp add: unsent_def pending_def direct_rest_def cmds flip: so_def)
  obtain r k where w: "os_write (so_fd so) d (ss_kernel S) = (r, k)"
    by fastforce
  define m where "m = accepted r"
  define so1 where "so1 = statistics_send m (ss_time_ticks S) so"
  have m: "m \<le> length d" and wire: "k_wire k (so_fd so) = k_wire (ss_kernel S) (so_fd so) @ take m d"
    using os_write_accepted [OF w] by (simp_all add: m_def)
  have no': "IO_ERROR \<notin> set (k_answers k)"
    using os_write_answers(1) [OF w] no by blast
  have c1: "conn_ok sid so1" and so1: "so_high so1 = []" "so_low so1 = []" "so_direct_write_buffer so1 = None"
    "so_sending_count so1 = so_sending_count so" "so_fd so1 = so_fd so"
    using c empty by (simp_all add: so1_def statistics_send_def conn_ok_def)
  show ?thesis
  proof (cases "m = length d")
    case True
    define S' where "S' = put_sock sid so1 (S\<lparr>ss_kernel := k\<rparr>)"
    have "direct_send (user_data sid d) S = Some (0, S')"
      using w True tcp by (simp add: direct_send_def S'_def so1_def m_def flip: so_def)
    moreover have "streams sid n d S S'"
      using inv c1 so1 no' wire True empty
      by (simp add: streams_def link_inv_def S'_def unsent_def pending_def direct_rest_def cmds
          overcounted_def flip: so_def)
    ultimately show ?thesis
      using True w by (auto simp: m_def simp flip: so_def)
  next
    case False
    define so2 where "so2 = so1\<lparr>so_direct_write_buffer := Some d, so_direct_write_offset := m\<rparr>"
    have c2: "conn_ok sid so2"
      using c1 m by (simp add: so2_def conn_ok_def)
    have cnt2: "so_sending_count so2 = so_sending_count so" "so_fd so2 = so_fd so"
      by (simp_all add: so2_def so1)
    note inc = inc_count [OF c2 cnt [folded cnt2]]
    define S' where "S' = send_ctrl_cmd (prepare_trigger_write sid)
      (put_sock sid (so2\<lparr>so_sending_count := so_sending_count so2 + 1\<rparr>) (S\<lparr>ss_kernel := k\<rparr>))"
    have "direct_send (user_data sid d) S = Some (0, S')"
      using w False tcp inc(1) by (simp add: direct_send_def S'_def so2_def so1_def m_def Let_def flip: so_def)
    moreover have "pending (so2\<lparr>so_sending_count := so_sending_count so2 + 1\<rparr>) = drop m d"
      using so1 by (simp add: pending_def direct_rest_def so2_def)
    ultimately show ?thesis
      using inv conn_ok_update(3) [OF c2] inc cnt cnt2 so1 no' wire unsent empty
      by (auto simp: streams_def link_inv_def S'_def unsent_def so2_def cmds overcounted_def simp flip: so_def)
  qed
qed

lemma send_step:
  assumes inv: "link_inv sid (Suc n) S"
  shows "\<exists>S'. sock_step sid (OP_SEND d busy) S = Some S' \<and> streams sid n d S S'"
proof -
  have "\<not> is_invalid (sock S sid) sid"
    using inv by (simp add: link_inv_def conn_ok_def is_invalid_def)
  then show ?thesis
    using direct_send_step [OF inv, of d] send_by_command_step [OF inv, of d]
    by (cases "can_direct_send (sock S sid) sid \<and> \<not> busy") (auto simp: server_send_def)
qed

lemma writable_step:
  assumes inv: "link_inv sid n S"
  shows "\<exists>S'. sock_step sid (OP_WRITABLE busy) S = Some S' \<and> streams sid n [] S S'"
proof -
  have same: "streams sid n [] S S" and c: "conn_ok sid (sock S sid)"
    and no: "IO_ERROR \<notin> set (k_answers (ss_kernel S))"
    using inv by (simp_all add: streams_def link_inv_def)
  obtain ev r' S' where S': "send_write_buffer False sid no_message S = Some (ev, r', S')"
    "conn_ok sid (sock S' sid)" "ss_pipe S' = ss_pipe S" "so_fd (sock S' sid) = so_fd (sock S sid)"
    "so_sending_count (sock S' sid) = so_sending_count (sock S sid)"
    "set (k_answers (ss_kernel S')) \<subseteq> set (k_answers (ss_kernel S))"
    "so_low (sock S sid) = [] \<longrightarrow> so_low (sock S' sid) = []"
    "k_wire (ss_kernel S') (so_fd (sock S sid)) @ pending (sock S' sid)
     = k_wire (ss_kernel S) (so_fd (sock S sid)) @ pending (sock S sid)"
    by (rule send_write_buffer_correct [OF c no, where r = no_message])
  have "link_inv sid n S'"
    using inv S' by (auto simp: link_inv_def)
  then have "streams sid n [] S S'"
    using S' by (simp add: streams_def unsent_def overcounted_def flip: append_assoc)
  then show ?thesis
    using same S'(1) by (cases busy) (simp_all add: send_write_buffer_def)
qed

text \<open>A data command: the buffer goes to the high priority list.\<close>

lemma append_step:
  assumes c: "conn_ok sid so" and low: "so_low so = []"
  obtains so' where "append_send_buffer (MEMORY d) True None so = Some so'" "conn_ok sid so'"
    "so_low so' = []" "pending so' = pending so @ d" "so_fd so' = so_fd so"
    "so_sending_count so' = so_sending_count so"
proof -
  define wb where "wb = \<lparr>wb_buffer = d, wb_ptr = 0, wb_sz = length d, wb_is_user_object = False,
    wb_udp_address = []\<rparr>"
  have wb: "wb_ok wb" "wb_data wb = d"
    by (simp_all add: wb_def wb_ok_def wb_data_def)
  show thesis
    using assms wb
    by (intro that [of "so\<lparr>so_high := so_high so @ [wb],
        so_write_buffer_size := so_write_buffer_size so + int (wb_sz wb)\<rparr>"])
      (auto simp: append_send_buffer_def alloc_write_buffer_def wb_def conn_ok_def total_sz_def
        pending_def direct_rest_def split: option.splits)
qed

lemma warn_correct:
  obtains ev r' z where "warn_write_size sid r S
    = Some (ev, r', put_sock sid ((sock S sid)\<lparr>so_warn_size := z\<rparr>) S)"
proof (cases "so_write_buffer_size (sock S sid) \<ge> WARNING_SIZE \<and>
    so_write_buffer_size (sock S sid) \<ge> so_warn_size (sock S sid)")
  case True
  then show thesis
    by (intro that) (simp add: warn_write_size_def Let_def)
next
  case False
  have "put_sock sid ((sock S sid)\<lparr>so_warn_size := so_warn_size (sock S sid)\<rparr>) S = S"
    by (simp add: put_sock_def set_socket_def get_socket_def)
  with False show thesis
    by (intro that [of None r "so_warn_size (sock S sid)"]) (simp add: warn_write_size_def Let_def)
qed

lemma handle_send_correct:
  assumes c: "conn_ok sid (sock S sid)" and low: "so_low (sock S sid) = []"
  obtains ev r' S' where "handle_send_socket sid (MEMORY d) True None r S = Some (ev, r', S')"
    "conn_ok sid (sock S' sid)" "so_low (sock S' sid) = []"
    "pending (sock S' sid) = pending (sock S sid) @ d" "so_fd (sock S' sid) = so_fd (sock S sid)"
    "so_sending_count (sock S' sid) = so_sending_count (sock S sid)" "ss_pipe S' = ss_pipe S"
    "k_wire (ss_kernel S') = k_wire (ss_kernel S)" "k_answers (ss_kernel S') = k_answers (ss_kernel S)"
proof -
  define so where "so = sock S sid"
  obtain so1 where so1: "append_send_buffer (MEMORY d) True None so = Some so1" "conn_ok sid so1"
    "so_low so1 = []" "pending so1 = pending so @ d" "so_fd so1 = so_fd so"
    "so_sending_count so1 = so_sending_count so"
    by (rule append_step [of sid so d]) (use assms in \<open>simp_all add: so_def\<close>)
  obtain err S1 where S1: "enable_write sid True (put_sock sid so1 S) = (err, S1)"
    "sock S1 sid = so1\<lparr>so_writing := True\<rparr>" "ss_pipe S1 = ss_pipe S"
    "k_wire (ss_kernel S1) = k_wire (ss_kernel S)" "k_answers (ss_kernel S1) = k_answers (ss_kernel S)"
    using enable_write_correct [of sid True "put_sock sid so1 S"] by (metis put_sock_simps)
  obtain ev1 r1 z1 where w1: "warn_write_size sid r S1
      = Some (ev1, r1, put_sock sid ((sock S1 sid)\<lparr>so_warn_size := z1\<rparr>) S1)"
    by (rule warn_correct)
  obtain ev2 r2 z2 where w2: "warn_write_size sid r (put_sock sid so1 S)
      = Some (ev2, r2, put_sock sid (so1\<lparr>so_warn_size := z2\<rparr>) (put_sock sid so1 S))"
    using warn_correct [of sid r "put_sock sid so1 S"] by (metis put_sock_simps(1))
  have guards: "\<not> is_invalid so sid" "\<not> is_close_write so" "so_status so = SOCKET_STATUS_CONNECTED"
    "\<not> so_closing so" "so_type so = SOCKET_TYPE_TCP"
    using c by (simp_all add: conn_ok_def is_invalid_def is_close_write_def so_def)
  note intro = that
  have fin: thesis if h: "handle_send_socket sid (MEMORY d) True None r S = Some (ev, r', S')"
    "sock S' sid = so1\<lparr>so_writing := b, so_warn_size := z\<rparr>" "ss_pipe S' = ss_pipe S"
    "k_wire (ss_kernel S') = k_wire (ss_kernel S)" "k_answers (ss_kernel S') = k_answers (ss_kernel S)"
    for ev r' S' b z
    by (rule intro [OF h(1)]) (use h(2-) so1 conn_ok_update in \<open>simp_all add: so_def\<close>)
  show thesis
  proof (cases "is_write_buffer_empty so")
    case True
    then have eq: "handle_send_socket sid (MEMORY d) True None r S = queue_and_enable sid so1 r S"
      using guards so1(1) by (simp add: handle_send_socket_def Let_def flip: so_def)
    show thesis
    proof (cases err)
      case True
      show thesis
        by (rule fin [where S' = S1 and b = True and z = "so_warn_size so1"])
          (use eq S1 True in \<open>simp_all add: queue_and_enable_def Let_def\<close>)
    next
      case False
      show thesis
        by (rule fin [where S' = "put_sock sid ((sock S1 sid)\<lparr>so_warn_size := z1\<rparr>) S1" and b = True and z = z1])
          (use eq S1 w1 False in \<open>simp_all add: queue_and_enable_def Let_def\<close>)
    qed
  next
    case False
    show thesis
      by (rule fin [where b = "so_writing so1" and z = z2
          and S' = "put_sock sid (so1\<lparr>so_warn_size := z2\<rparr>) (put_sock sid so1 S)"])
        (use guards so1(1) w2 False in \<open>simp_all add: handle_send_socket_def Let_def flip: so_def\<close>)
  qed
qed

lemma command_step:
  assumes inv: "link_inv sid n S"
  shows "\<exists>S'. sock_step sid OP_COMMAND S = Some S' \<and> streams sid n [] S S'"
proof (cases "ss_pipe S")
  case Nil
  with inv show ?thesis by (simp add: streams_def)
next
  case (Cons c cs)
  define S0 where "S0 = S\<lparr>ss_pipe := cs\<rparr>"
  have S0: "sock S0 sid = sock S sid" "ss_kernel S0 = ss_kernel S" "ss_pipe S0 = cs"
    by (simp_all add: S0_def)
  have handle: "sock_step sid OP_COMMAND S = map_option (snd \<circ> snd) (run_ctrl_cmd c no_message S0)"
    using Cons by (simp add: handle_ctrl_cmd_def S0_def)
  have ok: "conn_ok sid (sock S0 sid)" "so_low (sock S0 sid) = []"
    using inv by (simp_all add: link_inv_def S0)
  from inv Cons consider "c = prepare_trigger_write sid" | d where "c = prepare_send sid (Some (MEMORY d)) True"
    by (auto simp: link_inv_def)
  then show ?thesis
  proof cases
    case 1
    obtain err S1 where S1: "enable_write sid True S0 = (err, S1)"
      "sock S1 sid = (sock S0 sid)\<lparr>so_writing := True\<rparr>" "ss_pipe S1 = ss_pipe S0"
      "k_wire (ss_kernel S1) = k_wire (ss_kernel S0)" "k_answers (ss_kernel S1) = k_answers (ss_kernel S0)"
      by (rule enable_write_correct)
    have "\<not> is_invalid (sock S0 sid) sid"
      using ok by (simp add: conn_ok_def is_invalid_def)
    then have "\<exists>ev r. run_ctrl_cmd c no_message S0 = Some (ev, r, S1)"
      using S1(1) by (simp add: 1 run_ctrl_cmd_def prepare_trigger_write_def handle_trigger_write_def)
    moreover have "streams sid n [] S S1"
      using inv S1 ok conn_ok_update(1) [OF ok(1)] Cons 1
      by (simp add: streams_def link_inv_def S0 unsent_def overcounted_def)
    ultimately show ?thesis
      using handle by auto
  next
    case (2 d)
    obtain ev r S1 where S1: "handle_send_socket sid (MEMORY d) True None no_message S0 = Some (ev, r, S1)"
      "conn_ok sid (sock S1 sid)" "so_low (sock S1 sid) = []"
      "pending (sock S1 sid) = pending (sock S0 sid) @ d" "so_fd (sock S1 sid) = so_fd (sock S0 sid)"
      "so_sending_count (sock S1 sid) = so_sending_count (sock S0 sid)" "ss_pipe S1 = ss_pipe S0"
      "k_wire (ss_kernel S1) = k_wire (ss_kernel S0)" "k_answers (ss_kernel S1) = k_answers (ss_kernel S0)"
      by (rule handle_send_correct [OF ok, where d = d and r = no_message])
    define cnt where "cnt = so_sending_count (sock S sid)"
    have cnt: "Suc (length (filter is_data_cmd cs)) \<le> cnt mod 0x10000"
      using inv Cons 2 by (simp add: link_inv_def cnt_def)
    then have ne: "so_sending_count (sock S1 sid) mod 0x10000 \<noteq> 0"
      using S1(6) by (simp add: S0 cnt_def)
    note dec = dec_count [OF S1(2) ne]
    define S2 where "S2 = put_sock sid ((sock S1 sid)\<lparr>so_sending_count := so_sending_count (sock S1 sid) - 1\<rparr>) S1"
    have "run_ctrl_cmd c no_message S0 = Some (ev, r, S2)"
      using S1(1) dec(1) by (simp add: 2 run_ctrl_cmd_def prepare_send_def S2_def)
    moreover have "streams sid n [] S S2"
    proof -
      have pipe: "\<forall>c \<in> set cs. c = prepare_trigger_write sid \<or> (\<exists>d. c = prepare_send sid (Some (MEMORY d)) True)"
        and rest: "IO_ERROR \<notin> set (k_answers (ss_kernel S))" "cnt div 0x10000 = socket_id_high16 sid"
          "cnt mod 0x10000 + n < 0x10000"
        using inv Cons by (simp_all add: link_inv_def cnt_def)
      have less: "length (filter is_data_cmd cs) \<le> cnt mod 0x10000 - 1" "cnt mod 0x10000 - 1 + n < 0x10000"
        using cnt rest(3) by linarith+
      have S2: "sock S2 sid = (sock S1 sid)\<lparr>so_sending_count := cnt - 1\<rparr>" "ss_pipe S2 = cs"
        "ss_kernel S2 = ss_kernel S1" "(cnt - 1) div 0x10000 = cnt div 0x10000"
        "(cnt - 1) mod 0x10000 = cnt mod 0x10000 - 1"
        using S1(6,7) dec(2,3) by (simp_all add: S2_def S0 cnt_def)
      have "link_inv sid n S2"
        unfolding link_inv_def S2 using S1 rest less pipe conn_ok_update(3) [OF S1(2)]
        by (simp add: S0 S2 [unfolded One_nat_def])
      moreover have "overcounted sid S2" if "overcounted sid S"
        unfolding overcounted_def S2 using that Cons 2 by (simp add: overcounted_def S2 [unfolded One_nat_def] flip: cnt_def)
      ultimately show ?thesis
        using S1 Cons 2 by (simp add: streams_def S2 S0 unsent_def)
    qed
    ultimately show ?thesis
      using handle by simp
  qed
qed

lemma link_inv_less: "link_inv sid (Suc n) S \<Longrightarrow> link_inv sid n S"
  by (simp add: link_inv_def)

lemma sock_step_streams:
  assumes "link_inv sid (Suc n) S"
  obtains S' where "sock_step sid op S = Some S'" "streams sid n (sent_by op) S S'"
proof (cases op)
  case (OP_SEND d busy)
  then show thesis using send_step [OF assms, of d busy] that by auto
next
  case OP_COMMAND
  then show thesis using command_step [OF link_inv_less [OF assms]] that by auto
next
  case (OP_WRITABLE busy)
  then show thesis using writable_step [OF link_inv_less [OF assms], of busy] that by auto
qed

lemma sock_run_streams:
  assumes "link_inv sid (length ops) S"
  shows "\<exists>S'. sock_run sid ops S = Some S' \<and> link_inv sid 0 S' \<and> (overcounted sid S \<longrightarrow> overcounted sid S') \<and>
     k_wire (ss_kernel S') (so_fd (sock S sid)) @ unsent sid S'
       = k_wire (ss_kernel S) (so_fd (sock S sid)) @ unsent sid S @ concat (map sent_by ops)"
  using assms
proof (induction ops arbitrary: S)
  case (Cons op ops)
  from Cons.prems have "link_inv sid (Suc (length ops)) S" by simp
  then obtain S1 where step: "sock_step sid op S = Some S1"
    and s: "streams sid (length ops) (sent_by op) S S1"
    by (rule sock_step_streams [where op = op])
  then obtain S' where "sock_run sid ops S1 = Some S'" "link_inv sid 0 S'"
    "overcounted sid S1 \<longrightarrow> overcounted sid S'"
    "k_wire (ss_kernel S') (so_fd (sock S1 sid)) @ unsent sid S'
       = k_wire (ss_kernel S1) (so_fd (sock S1 sid)) @ unsent sid S1 @ concat (map sent_by ops)"
    using Cons.IH [of S1] by (auto simp: streams_def)
  then show ?case
    using step s by (auto simp: streams_def simp flip: append_assoc)
qed simp


definition demo_kernel :: "io_result list \<Rightarrow> kernel" where
  "demo_kernel answers =
     \<lparr>k_answers = answers, k_wire = (\<lambda>_. []), k_datagrams = [], k_interest = (\<lambda>_. None), k_closed = [],
      k_shutdown = [], k_ctl_error = (\<lambda>_. False), k_add_error = (\<lambda>_. False),
      k_resolve = (\<lambda>_ _. None), k_bind = (\<lambda>_ _ _. (- 1, 0)), k_listen_error = (\<lambda>_. False),
      k_peer = (\<lambda>_. None), k_input = (\<lambda>_. []), k_accept = (\<lambda>_. []), k_datagrams_in = (\<lambda>_. []),
      k_so_error = (\<lambda>_. None), k_resolve_udp = (\<lambda>_ _. None)\<rparr>"

definition demo_socket :: socket_object where
  "demo_socket = new_socket_object\<lparr>so_id := 5, so_fd := 7, so_type := SOCKET_TYPE_TCP,
     so_status := SOCKET_STATUS_CONNECTED, so_reading := True\<rparr>"

definition demo_server :: "io_result list \<Rightarrow> socket_server" where
  "demo_server answers =
     \<lparr>ss_time_ticks = 0, ss_pipe = [],
      ss_pool = set_socket 5 demo_socket empty_pool, ss_kernel = demo_kernel answers\<rparr>"

lemma demo_server_sock: "sock (demo_server answers) 5 = demo_socket"
  by (simp add: demo_server_def)

lemma high16_5: "socket_id_high16 5 = 0"
  by (simp add: socket_id_high16_def)

lemma demo_link:
  "IO_ERROR \<notin> set answers \<Longrightarrow> n < 0x10000 \<Longrightarrow> link_inv 5 n (demo_server answers)"
  by (simp add: link_inv_def demo_server_sock)
    (simp add: demo_server_def demo_kernel_def demo_socket_def new_socket_object_def conn_ok_def
      total_sz_def high16_5)


theorem write_event_keeps_order_witness:
  "\<exists>ev r' S'. send_write_buffer False 5 no_message (demo_server [IO_EINTR]) = Some (ev, r', S') \<and>
     conn_ok 5 (sock S' 5)"
  using write_event_keeps_order [of 5 "demo_server [IO_EINTR]" no_message] demo_link [of "[IO_EINTR]" 0]
  by (auto simp: link_inv_def)

end
