(* ===== verification/Socket_Faults.thy ===== *)
theory Socket_Faults
  imports Socket_Stream
begin

text \<open>
  Commands on the pipe and the places where the socket server does not do what it means to: memory
  that is sent directly, the sending count of a cut direct write, and \<open>exit\<close>.
\<close>

subsection \<open>Commands are well typed\<close>

lemma prepared_well_typed:
  "well_typed (prepare_resume h i)" "well_typed (prepare_pause h i)" "well_typed (prepare_close h i)"
  "well_typed (prepare_shutdown h i)" "well_typed (prepare_bind h i fd)" "well_typed (prepare_listen h i fd)"
  "well_typed (prepare_send i (Some p) b)" "well_typed (prepare_trigger_write i)" "well_typed (prepare_set_opt i)"
  "well_typed (prepare_udp_socket h i fd f)"
  by (simp_all add: well_typed_def prepare_defs)

lemma connect_well_typed: "prepare_connect h i ip port = Some c \<Longrightarrow> well_typed c"
  by (auto simp: prepare_connect_def well_typed_def split: if_splits)

lemma udp_connect_well_typed:
  "prepare_set_udp i (case ep of EP_V4 _ _ \<Rightarrow> SOCKET_TYPE_UDP | EP_V6 _ _ \<Rightarrow> SOCKET_TYPE_UDPv6) ep = Some c \<Longrightarrow>
   endpoint_ok ep \<Longrightarrow> well_typed c"
  by (cases ep) (auto simp: prepare_set_udp_def well_typed_def)

lemma prepare_send_udp_well_typed: "n \<le> 19 \<Longrightarrow> well_typed (prepare_send_udp i (Some p) (take n a))"
  by (simp add: well_typed_def prepare_send_udp_def)

lemma direct_pipe:
  assumes "direct_send sd S = Some (x, S')"
  shows "ss_pipe S' = ss_pipe S \<or> ss_pipe S' = ss_pipe S @ [prepare_trigger_write (sd_socket_id sd)]"
proof -
  obtain b f where i: "init_send_user_object_sd sd = Some (b, f)"
    using assms by (cases "init_send_user_object_sd sd") (auto simp: direct_send_def Let_def)
  define so where "so = sock S (sd_socket_id sd)"
  obtain r k where rk: "(case if so_type so = SOCKET_TYPE_TCP then None else from_udp_address (so_type so) (so_p_udp_address so) of
      None \<Rightarrow> os_write (so_fd so) b (ss_kernel S) | Some e \<Rightarrow> os_sendto (so_fd so) b e (ss_kernel S)) = (r, k)"
    by fastforce
  show ?thesis
    using assms i rk unfolding so_def
    by (auto simp: direct_send_def Let_def bind_eq_Some_conv split: if_splits)
qed

lemma send_pipe:
  assumes "server_send busy sd S = Some (x, S') \<or> server_send_low_priority sd S = Some (x, S')"
    and "list_all well_typed (ss_pipe S)"
  shows "list_all well_typed (ss_pipe S')"
proof -
  have "send_by_command b sd S = Some (x, S') \<Longrightarrow> list_all well_typed (ss_pipe S')" for b
    using assms(2) prepared_well_typed(7) by (auto simp: send_by_command_def Let_def bind_eq_Some_conv)
  then show ?thesis
    using assms direct_pipe [of sd S x S'] prepared_well_typed(8)
    by (auto simp: server_send_def server_send_low_priority_def Let_def bind_eq_Some_conv split: if_splits)
qed

lemma connect_pipe:
  assumes "list_all well_typed (ss_pipe S)"
  shows "list_all well_typed (ss_pipe (snd (server_connect h ip port S)))"
  using assms connect_well_typed
  by (auto simp: server_connect_def Let_def send_ctrl_cmd_def split: prod.splits option.splits)

lemma udp_connect_pipe:
  assumes "list_all well_typed (ss_pipe S)"
    and "\<And>ep. k_resolve_udp (ss_kernel S) ip port = Some (Some ep) \<Longrightarrow> endpoint_ok ep"
  shows "list_all well_typed (ss_pipe (snd (server_udp_connect i ip port S)))"
  using assms udp_connect_well_typed
  by (auto simp: server_udp_connect_def Let_def send_ctrl_cmd_def split: option.splits)

lemma udp_send_pipe:
  assumes "server_udp_send busy a sd S = Some (x, S')" and "list_all well_typed (ss_pipe S)"
  shows "list_all well_typed (ss_pipe S')"
proof -
  have "ss_pipe S1 = ss_pipe S" if h: "udp_direct_send a sd S = Some (y, S1)" for y S1
  proof (cases "from_udp_address (so_type (sock S (sd_socket_id sd))) a")
    case None
    with h show ?thesis by (auto simp: udp_direct_send_def Let_def bind_eq_Some_conv)
  next
    case (Some ep)
    obtain b f where b: "init_send_user_object_sd sd = Some (b, f)"
      using h by (auto simp: udp_direct_send_def Let_def bind_eq_Some_conv)
    obtain res k where "os_sendto (so_fd (sock S (sd_socket_id sd))) b ep (ss_kernel S) = (res, k)"
      by fastforce
    with h Some b show ?thesis
      by (cases res) (auto simp: udp_direct_send_def Let_def bind_eq_Some_conv)
  qed
  then show ?thesis
    using assms prepare_send_udp_well_typed
    by (auto simp: server_udp_send_def Let_def bind_eq_Some_conv udp_address_size_def send_ctrl_cmd_def
        split: option.splits if_splits)
qed



text \<open>
  \<open>exit\<close> sends a package that it has not prepared; the socket thread does not recognise it and
  raises no exit event.
\<close>

lemma exit_command_ignored:
  assumes "ss_pipe S = []"
  shows "handle_ctrl_cmd r (server_exit S) = Some (None, r, S)"
  using assms by (simp add: handle_ctrl_cmd_def server_exit_def send_ctrl_cmd_def run_ctrl_cmd_def empty_package_def)

subsection \<open>Memory that is sent directly\<close>

text \<open>
  A worker that sends plain memory on an idle connection, all of which the kernel accepts, calls
  the free function that \<open>init_send_user_object\<close> has left uninitialised.
\<close>

theorem memory_send_calls_unset_function:
  assumes "conn_ok sid (sock S sid)" and "can_direct_send (sock S sid) sid"
    and "k_answers (ss_kernel S) = IO_OK n # as" and "length d \<le> n"
  shows "server_send False \<lparr>sd_socket_id = sid, sd_type = SEND_DATA_TYPE_MEMORY, sd_data = d\<rparr> S = None"
proof -
  have "\<not> is_invalid (sock S sid) sid" "so_type (sock S sid) = SOCKET_TYPE_TCP"
    using assms(1) by (simp_all add: conn_ok_def is_invalid_def)
  moreover obtain k where "os_write (so_fd (sock S sid)) d (ss_kernel S) = (IO_OK (length d), k)"
    using assms(3,4) by (simp add: os_write_def next_answer_def min_def)
  ultimately show ?thesis
    using assms(2) by (simp add: server_send_def direct_send_def init_send_user_object_sd_def Let_def)
qed

lemma demo_can_direct: "can_direct_send (sock (demo_server answers) 5) 5"
  by (simp add: demo_server_sock demo_socket_def new_socket_object_def can_direct_send_def
      nomore_sending_data_def is_write_buffer_empty_def)

theorem memory_send_calls_unset_function_witness:
  "server_send False \<lparr>sd_socket_id = 5, sd_type = SEND_DATA_TYPE_MEMORY, sd_data = [1]\<rparr>
     (demo_server [IO_OK 1]) = None"
proof (rule memory_send_calls_unset_function [where n = 1 and as = "[]"])
  show "conn_ok 5 (sock (demo_server [IO_OK 1]) 5)"
    using demo_link [of "[IO_OK 1]" 0] by (simp add: link_inv_def)
  show "can_direct_send (sock (demo_server [IO_OK 1]) 5) 5"
    by (rule demo_can_direct)
qed (simp_all add: demo_server_def demo_kernel_def)

subsection \<open>A cut direct write and closing\<close>

lemma close_overcounted:
  assumes inv: "link_inv sid n S" and over: "overcounted sid S"
  shows "\<exists>r' S'. handle_close_socket sid 0 r S = Some (Some SOCKET_EVENT_CLOSE, r', S') \<and>
    so_status (sock S' sid) = SOCKET_STATUS_HALF_CLOSE_READ \<and> so_closing (sock S' sid) \<and>
    so_writing (sock S' sid) = so_writing (sock S sid) \<and>
    k_closed (ss_kernel S') = k_closed (ss_kernel S)"
proof -
  define so where "so = sock S sid"
  have st: "so_status so = SOCKET_STATUS_CONNECTED" "so_id so = sid"
    using inv by (simp_all add: link_inv_def conn_ok_def so_def)
  then have "\<not> nomore_sending_data so" "\<not> is_invalid so sid" "\<not> is_close_read so"
    using over by (auto simp: nomore_sending_data_def is_close_write_def is_invalid_def is_close_read_def
        overcounted_def so_def)
  then have close: "handle_close_socket sid 0 r S
      = (case close_read sid (put_sock sid (so\<lparr>so_closing := True\<rparr>) S) of
           (r', S') \<Rightarrow> Some (Some SOCKET_EVENT_CLOSE, r', S'))"
    by (simp add: handle_close_socket_def Let_def flip: so_def)
  show ?thesis
    unfolding close close_read_def enable_read_def poller_enable_def
    by (auto simp: Let_def os_shutdown_def so_def split: prod.splits if_splits)
qed

text \<open>
  C39. A direct write that the kernel cuts raises the sending count for a trigger command, whose
  handler does not lower it. The count never returns to zero: whatever happens on the connection
  afterwards, even when everything has been written, a later \<open>close\<close> takes the connection for one
  that still has data to send. It shuts the reading side and leaves the descriptor open, waiting
  for a write event that nothing enables.
\<close>

theorem cut_send_blocks_close:
  assumes inv: "link_inv sid (Suc (length ops)) S" and direct: "can_direct_send (sock S sid) sid"
    and "k_answers (ss_kernel S) = IO_OK m # as" and "m < length d"
  shows "\<exists>S' r' S2. sock_run sid (OP_SEND d False # ops) S = Some S' \<and>
    handle_close_socket sid 0 r S' = Some (Some SOCKET_EVENT_CLOSE, r', S2) \<and>
    so_status (sock S2 sid) = SOCKET_STATUS_HALF_CLOSE_READ \<and> so_writing (sock S2 sid) = so_writing (sock S' sid) \<and>
    k_closed (ss_kernel S2) = k_closed (ss_kernel S')"
proof -
  have "fst (os_write (so_fd (sock S sid)) d (ss_kernel S)) = IO_OK m"
    using assms(3,4) by (simp add: os_write_def next_answer_def min_def)
  then obtain S1 where S1: "direct_send (user_data sid d) S = Some (0, S1)"
    "link_inv sid (length ops) S1" "overcounted sid S1"
    using direct_send_step [OF inv direct, of d] assms(4) by (auto simp: streams_def)
  obtain S' where S': "sock_run sid ops S1 = Some S'" "link_inv sid 0 S'" "overcounted sid S'"
    using sock_run_streams [OF S1(2)] S1(3) by blast
  have "\<not> is_invalid (sock S sid) sid"
    using inv by (simp add: link_inv_def conn_ok_def is_invalid_def)
  then have "sock_run sid (OP_SEND d False # ops) S = Some S'"
    using S1(1) S'(1) direct by (simp add: server_send_def)
  then show ?thesis
    using close_overcounted [OF S'(2,3), of r] by blast
qed

theorem cut_send_blocks_close_witness:
  "\<exists>S' r' S2. sock_run 5 [OP_SEND [1, 2, 3] False, OP_COMMAND, OP_WRITABLE False] (demo_server [IO_OK 1, IO_OK 2]) = Some S' \<and>
    handle_close_socket 5 0 no_message S' = Some (Some SOCKET_EVENT_CLOSE, r', S2) \<and>
    so_status (sock S2 5) = SOCKET_STATUS_HALF_CLOSE_READ"
proof -
  have "link_inv 5 (Suc (length [OP_COMMAND, OP_WRITABLE False])) (demo_server [IO_OK 1, IO_OK 2])"
    by (rule demo_link) simp_all
  moreover have "k_answers (ss_kernel (demo_server [IO_OK 1, IO_OK 2])) = IO_OK 1 # [IO_OK 2]"
    by (simp add: demo_server_def demo_kernel_def)
  ultimately show ?thesis
    using cut_send_blocks_close [of 5 "[OP_COMMAND, OP_WRITABLE False]" "demo_server [IO_OK 1, IO_OK 2]" 1
        "[IO_OK 2]" "[1, 2, 3]" no_message] demo_can_direct by auto
qed

end
