(* ===== verification/Netpack.thy ===== *)
theory Netpack
  imports Skynet_Prelude
begin

text \<open>
  The framing library of the gate services (\<open>luaclib-src/lua-netpack.cpp\<close>). A package on the
  wire is a two byte big-endian length followed by that many bytes. TCP delivers the stream in
  chunks of any size; \<open>filter\<close> keeps, per socket, the part of a package that has arrived
  (\<open>uncomplete\<close>, in a hash table of linked lists), and returns complete packages either directly
  or through a ring buffer that \<open>pop\<close> empties. The theory specifies the framing as a function on
  the whole byte stream of a socket and shows that every operation refines it, so that packed
  messages come out unchanged and in order however the stream is cut.
\<close>

subsection \<open>Memory\<close>

text \<open>
  A block of the C heap: bytes, or \<open>None\<close> where nothing has been stored since the allocation.
  A copy that leaves the block is an error (\<open>None\<close>).
\<close>

type_synonym block = "u8 option list"

definition skynet_malloc :: "nat \<Rightarrow> block" where
  "skynet_malloc n = replicate n None"

definition memcpy_to :: "block \<Rightarrow> nat \<Rightarrow> bytes \<Rightarrow> block option" where
  "memcpy_to m off bs =
     (if off + length bs \<le> length m
      then Some (take off m @ map Some bs @ drop (off + length bs) m) else None)"

subsection \<open>Packages, incomplete packages and the queue\<close>

definition QUEUE_SIZE :: nat where
  "QUEUE_SIZE = 1024"

definition HASH_SIZE :: nat where
  "HASH_SIZE = 4096"

record netpack =
  np_socket_id :: u32
  np_size :: nat
  np_buf_ptr :: "block option"

record uncomplete =
  uc_pack :: netpack
  uc_read :: int
  uc_header :: nat

text \<open>
  The lists that start at \<open>hash[h]\<close> are linked by \<open>next\<close>; the cells of \<open>queue\<close> are
  uninitialised (\<open>None\<close>) until something is stored there.
\<close>

record msg_queue =
  nq_cap :: nat
  nq_head :: nat
  nq_tail :: nat
  nq_hash :: "nat \<Rightarrow> uncomplete list"
  nq_queue :: "nat \<Rightarrow> netpack option"

text \<open>The queue at index 1 of the Lua stack; \<open>None\<close> is \<open>nil\<close>, before the first package.\<close>

type_synonym lua_queue = "msg_queue option"

definition hash_socket_id :: "u32 \<Rightarrow> nat" where
  "hash_socket_id socket_id =
     unat (signed_drop_bit 24 socket_id + signed_drop_bit 12 socket_id + socket_id) mod HASH_SIZE"

text \<open>The walk along one list: unlink the first entry of the socket.\<close>

fun unlink_uncomplete :: "u32 \<Rightarrow> uncomplete list \<Rightarrow> (uncomplete \<times> uncomplete list) option" where
  "unlink_uncomplete s [] = None"
| "unlink_uncomplete s (uc # ucs) =
     (if np_socket_id (uc_pack uc) = s then Some (uc, ucs)
      else map_option (map_prod id (Cons uc)) (unlink_uncomplete s ucs))"

definition find_uncomplete :: "lua_queue \<Rightarrow> u32 \<Rightarrow> uncomplete option \<times> lua_queue" where
  "find_uncomplete L s =
     (case L of
        None \<Rightarrow> (None, None)
      | Some q \<Rightarrow>
          let h = hash_socket_id s in
          (case unlink_uncomplete s (nq_hash q h) of
             None \<Rightarrow> (None, Some q)
           | Some (uc, rest) \<Rightarrow> (Some uc, Some (q\<lparr>nq_hash := (nq_hash q)(h := rest)\<rparr>))))"

definition get_queue :: "lua_queue \<Rightarrow> msg_queue" where
  "get_queue L =
     (case L of
        Some q \<Rightarrow> q
      | None \<Rightarrow> \<lparr>nq_cap = QUEUE_SIZE, nq_head = 0, nq_tail = 0, nq_hash = (\<lambda>_. []),
                 nq_queue = (\<lambda>_. None)\<rparr>)"

text \<open>\<open>expand_queue\<close>: the new queue takes over the hash table and the packages in order.\<close>

definition np_expand_queue :: "msg_queue \<Rightarrow> msg_queue" where
  "np_expand_queue q =
     \<lparr>nq_cap = nq_cap q + QUEUE_SIZE, nq_head = 0, nq_tail = nq_cap q, nq_hash = nq_hash q,
      nq_queue = (\<lambda>i. if i < nq_cap q then nq_queue q ((nq_head q + i) mod nq_cap q) else None)\<rparr>"

definition push_data :: "lua_queue \<Rightarrow> u32 \<Rightarrow> block \<Rightarrow> nat \<Rightarrow> lua_queue" where
  "push_data L s buffer sz =
     (let q = get_queue L;
          t = Suc (nq_tail q);
          q' = q\<lparr>nq_queue := (nq_queue q)(nq_tail q \<mapsto>
                   \<lparr>np_socket_id = s, np_size = sz, np_buf_ptr = Some buffer\<rparr>),
                 nq_tail := (if t \<ge> nq_cap q then t - nq_cap q else t)\<rparr>
      in Some (if nq_head q' = nq_tail q' then np_expand_queue q' else q'))"

text \<open>The zeroed block that \<open>save_uncomplete\<close> allocates, and its insertion into the hash table.\<close>

definition new_uncomplete :: "u32 \<Rightarrow> uncomplete" where
  "new_uncomplete s =
     \<lparr>uc_pack = \<lparr>np_socket_id = s, np_size = 0, np_buf_ptr = None\<rparr>, uc_read = 0, uc_header = 0\<rparr>"

definition link_uncomplete :: "u32 \<Rightarrow> uncomplete \<Rightarrow> msg_queue \<Rightarrow> msg_queue" where
  "link_uncomplete s uc q =
     (let h = hash_socket_id s in q\<lparr>nq_hash := (nq_hash q)(h := uc # nq_hash q h)\<rparr>)"

definition save_uncomplete :: "lua_queue \<Rightarrow> u32 \<Rightarrow> (uncomplete \<Rightarrow> uncomplete) \<Rightarrow> lua_queue" where
  "save_uncomplete L s fill = Some (link_uncomplete s (fill (new_uncomplete s)) (get_queue L))"

definition read_size :: "bytes \<Rightarrow> nat" where
  "read_size buffer = push_bit 8 (unat (buffer ! 0)) OR unat (buffer ! 1)"

definition header_only :: "u8 \<Rightarrow> uncomplete \<Rightarrow> uncomplete" where
  "header_only b uc = uc\<lparr>uc_read := - 1, uc_header := unat b\<rparr>"

definition part_only :: "nat \<Rightarrow> nat \<Rightarrow> block \<Rightarrow> uncomplete \<Rightarrow> uncomplete" where
  "part_only sz pack_size buf uc =
     uc\<lparr>uc_read := int sz,
        uc_pack := (uc_pack uc)\<lparr>np_size := pack_size, np_buf_ptr := Some buf\<rparr>\<rparr>"

text \<open>\<open>_push_more\<close> splits the rest of a chunk; it is never called with nothing left.\<close>

function push_more :: "lua_queue \<Rightarrow> u32 \<Rightarrow> bytes \<Rightarrow> lua_queue option" where
  "push_more L s buffer =
     (if buffer = [] then None
      else if length buffer = 1 then Some (save_uncomplete L s (header_only (buffer ! 0)))
      else
        let pack_size = read_size buffer; buffer2 = drop 2 buffer in
        if length buffer2 < pack_size then do {
          buf \<leftarrow> memcpy_to (skynet_malloc pack_size) 0 buffer2;
          Some (save_uncomplete L s (part_only (length buffer2) pack_size buf))
        } else do {
          buf \<leftarrow> memcpy_to (skynet_malloc pack_size) 0 (take pack_size buffer2);
          let L2 = push_data L s buf pack_size; buffer3 = drop pack_size buffer2 in
          (if buffer3 \<noteq> [] then push_more L2 s buffer3 else Some L2)
        })"
  by pat_completeness auto
termination
  by (relation "measure (\<lambda>(L, s, buffer). length buffer)") (auto simp flip: length_greater_0_conv)

declare push_more.simps [simp del]

definition close_uncomplete :: "lua_queue \<Rightarrow> u32 \<Rightarrow> lua_queue" where
  "close_uncomplete L s = snd (find_uncomplete L s)"

subsection \<open>filter, pop, pack, clear and tostring\<close>

text \<open>What \<open>filter\<close> returns after the queue: nothing, or a type and its values.\<close>

datatype filter_result =
    FILTER_NONE
  | FILTER_DATA u32 "block option" nat
  | FILTER_MORE
  | FILTER_ERROR u32 bytes
  | FILTER_OPEN int bytes
  | FILTER_CLOSE u32
  | FILTER_WARNING u32 int

text \<open>A package of which only the first length byte was known: the second one completes it.\<close>

definition start_package :: "uncomplete \<Rightarrow> bytes \<Rightarrow> (uncomplete \<times> bytes) option" where
  "start_package uc buffer =
     (if uc_read uc < 0 then do {
        c_assert (uc_read uc = - 1);
        c_assert (buffer \<noteq> []);
        let pack_size = unat (buffer ! 0) OR push_bit 8 (uc_header uc) in
        Some (uc\<lparr>uc_pack := (uc_pack uc)\<lparr>np_buf_ptr := Some (skynet_malloc pack_size),
                                         np_size := pack_size\<rparr>,
                 uc_read := 0\<rparr>, tl buffer)
      } else Some (uc, buffer))"

definition filter_data :: "lua_queue \<Rightarrow> u32 \<Rightarrow> bytes \<Rightarrow> (filter_result \<times> lua_queue) option" where
  "filter_data L s buffer0 =
     (case find_uncomplete L s of
        (Some uc0, L1) \<Rightarrow> do {
          (uc, buffer) \<leftarrow> start_package uc0 buffer0;
          old \<leftarrow> np_buf_ptr (uc_pack uc);
          let need = np_size (uc_pack uc) - nat (uc_read uc) in
          if length buffer < need then do {
            buf \<leftarrow> memcpy_to old (nat (uc_read uc)) buffer;
            let uc' = uc\<lparr>uc_pack := (uc_pack uc)\<lparr>np_buf_ptr := Some buf\<rparr>,
                         uc_read := uc_read uc + int (length buffer)\<rparr> in
            Some (FILTER_NONE, map_option (link_uncomplete s uc') L1)
          } else do {
            buf \<leftarrow> memcpy_to old (nat (uc_read uc)) (take need buffer);
            let buffer2 = drop need buffer in
            if buffer2 = [] then Some (FILTER_DATA s (Some buf) (np_size (uc_pack uc)), L1)
            else do {
              L3 \<leftarrow> push_more (push_data L1 s buf (np_size (uc_pack uc))) s buffer2;
              Some (FILTER_MORE, L3)
            }
          }
        }
      | (None, L1) \<Rightarrow>
          if buffer0 = [] then None
          else if length buffer0 = 1 then
            Some (FILTER_NONE, save_uncomplete L1 s (header_only (buffer0 ! 0)))
          else
            let pack_size = read_size buffer0; buffer2 = drop 2 buffer0 in
            if length buffer2 < pack_size then do {
              buf \<leftarrow> memcpy_to (skynet_malloc pack_size) 0 buffer2;
              Some (FILTER_NONE, save_uncomplete L1 s (part_only (length buffer2) pack_size buf))
            } else if length buffer2 = pack_size then do {
              buf \<leftarrow> memcpy_to (skynet_malloc pack_size) 0 buffer2;
              Some (FILTER_DATA s (Some buf) (length buffer2), L1)
            } else do {
              buf \<leftarrow> memcpy_to (skynet_malloc pack_size) 0 (take pack_size buffer2);
              L3 \<leftarrow> push_more (push_data L1 s buf pack_size) s (drop pack_size buffer2);
              Some (FILTER_MORE, L3)
            })"

text \<open>
  The socket message that the node posts (\<open>skynet-src/node/node_socket.h\<close>). A null \<open>buffer\<close>
  means that a string follows the structure in the same block (\<open>sm_padding\<close>); the events that
  carry a string always do.
\<close>

datatype skynet_socket_event =
    SKYNET_SOCKET_EVENT_DATA
  | SKYNET_SOCKET_EVENT_CONNECT
  | SKYNET_SOCKET_EVENT_CLOSE
  | SKYNET_SOCKET_EVENT_ACCEPT
  | SKYNET_SOCKET_EVENT_ERROR
  | SKYNET_SOCKET_EVENT_UDP
  | SKYNET_SOCKET_EVENT_WARNING

record skynet_socket_message =
  sm_event :: skynet_socket_event
  sm_socket_id :: u32
  sm_ud :: int
  sm_buffer :: "bytes option"
  sm_padding :: bytes

text \<open>The string argument of \<open>_pushstring\<close>: with a buffer of its own the size is \<open>-1\<close>, an error.\<close>

definition padded_string :: "skynet_socket_message \<Rightarrow> bytes option" where
  "padded_string m = (case sm_buffer m of None \<Rightarrow> Some (sm_padding m) | Some _ \<Rightarrow> None)"

definition l_filter :: "lua_queue \<Rightarrow> skynet_socket_message \<Rightarrow> (filter_result \<times> lua_queue) option" where
  "l_filter L m =
     (case sm_event m of
        SKYNET_SOCKET_EVENT_DATA \<Rightarrow> do {
          data_ptr \<leftarrow> sm_buffer m;
          filter_data L (sm_socket_id m) (take (nat (sm_ud m)) data_ptr)
        }
      | SKYNET_SOCKET_EVENT_CONNECT \<Rightarrow> Some (FILTER_NONE, L)
      | SKYNET_SOCKET_EVENT_CLOSE \<Rightarrow>
          Some (FILTER_CLOSE (sm_socket_id m), close_uncomplete L (sm_socket_id m))
      | SKYNET_SOCKET_EVENT_ACCEPT \<Rightarrow> do {
          msg \<leftarrow> padded_string m;
          Some (FILTER_OPEN (sm_ud m) msg, L)
        }
      | SKYNET_SOCKET_EVENT_ERROR \<Rightarrow> do {
          msg \<leftarrow> padded_string m;
          Some (FILTER_ERROR (sm_socket_id m) msg, close_uncomplete L (sm_socket_id m))
        }
      | SKYNET_SOCKET_EVENT_WARNING \<Rightarrow> Some (FILTER_WARNING (sm_socket_id m) (sm_ud m), L)
      | SKYNET_SOCKET_EVENT_UDP \<Rightarrow> Some (FILTER_NONE, L))"

text \<open>\<open>pop\<close>: nothing when the queue is empty, else the oldest package.\<close>

definition l_pop :: "lua_queue \<Rightarrow> (netpack option \<times> lua_queue) option" where
  "l_pop L =
     (case L of
        None \<Rightarrow> Some (None, None)
      | Some q \<Rightarrow>
          if nq_head q = nq_tail q then Some (None, Some q)
          else do {
            np \<leftarrow> nq_queue q (nq_head q);
            Some (Some np, Some (q\<lparr>nq_head :=
                     (if Suc (nq_head q) \<ge> nq_cap q then 0 else Suc (nq_head q))\<rparr>))
          })"

text \<open>\<open>pack\<close>: the framed message, or the error for a message that is too long.\<close>

definition l_pack :: "bytes \<Rightarrow> bytes option" where
  "l_pack ptr =
     (let len = length ptr in
      if len \<ge> 0x10000 then None
      else Some ([of_nat (drop_bit 8 len AND 0xff), of_nat (len AND 0xff)] @ ptr))"

definition l_clear :: "lua_queue \<Rightarrow> lua_queue" where
  "l_clear L = map_option (\<lambda>q. q\<lparr>nq_hash := (\<lambda>_. []), nq_head := 0, nq_tail := 0\<rparr>) L"

text \<open>\<open>tostring\<close> reads \<open>size\<close> bytes of the block it is given; reading past it or reading
  uninitialised bytes is an error.\<close>

definition l_tostring :: "block option \<Rightarrow> nat \<Rightarrow> bytes option" where
  "l_tostring ptr sz =
     (case ptr of
        None \<Rightarrow> Some []
      | Some b \<Rightarrow> if sz \<le> length b \<and> None \<notin> set (take sz b)
                  then Some (map the (take sz b)) else None)"

subsection \<open>The ring buffer\<close>

definition nq_length :: "msg_queue \<Rightarrow> nat" where
  "nq_length q =
     (if nq_head q \<le> nq_tail q then nq_tail q - nq_head q else nq_tail q + nq_cap q - nq_head q)"

definition nq_cells :: "msg_queue \<Rightarrow> netpack option list" where
  "nq_cells q = map (\<lambda>i. nq_queue q ((nq_head q + i) mod nq_cap q)) [0..<nq_length q]"

definition ring_ok :: "msg_queue \<Rightarrow> bool" where
  "ring_ok q \<longleftrightarrow> nq_head q < nq_cap q \<and> nq_tail q < nq_cap q \<and> None \<notin> set (nq_cells q)"

lemma nq_cells_hash [simp]: "nq_cells (q\<lparr>nq_hash := f\<rparr>) = nq_cells q"
  by (simp add: nq_cells_def nq_length_def)

lemma ring_ok_hash [simp]: "ring_ok (q\<lparr>nq_hash := f\<rparr>) = ring_ok q"
  by (simp add: ring_ok_def)

text \<open>The packages that wait for \<open>pop\<close>, oldest first.\<close>

definition queued_packs :: "lua_queue \<Rightarrow> netpack list" where
  "queued_packs L = map the (nq_cells (get_queue L))"

definition stored :: "netpack \<Rightarrow> msg_queue \<Rightarrow> msg_queue" where
  "stored np q =
     q\<lparr>nq_queue := (nq_queue q)(nq_tail q \<mapsto> np),
       nq_tail := (if Suc (nq_tail q) \<ge> nq_cap q then 0 else Suc (nq_tail q))\<rparr>"

lemma push_data_stored:
  assumes "ring_ok (get_queue L)"
    and q: "q = stored \<lparr>np_socket_id = s, np_size = n, np_buf_ptr = Some b\<rparr> (get_queue L)"
  shows "push_data L s b n = Some (if nq_head q = nq_tail q then np_expand_queue q else q)"
proof -
  have "(if Suc (nq_tail (get_queue L)) \<ge> nq_cap (get_queue L)
         then Suc (nq_tail (get_queue L)) - nq_cap (get_queue L) else Suc (nq_tail (get_queue L)))
      = (if Suc (nq_tail (get_queue L)) \<ge> nq_cap (get_queue L) then 0 else Suc (nq_tail (get_queue L)))"
    using assms(1) by (auto simp: ring_ok_def)
  then show ?thesis
    by (simp only: push_data_def q stored_def Let_def)
qed

lemma nq_tail_mod: "ring_ok q \<Longrightarrow> nq_tail q = (nq_head q + nq_length q) mod nq_cap q"
  by (auto simp: ring_ok_def nq_length_def)

lemma nq_length_less: "ring_ok q \<Longrightarrow> nq_length q < nq_cap q"
  by (auto simp: ring_ok_def nq_length_def)

lemma stored_cells:
  assumes "ring_ok q"
  shows "map (\<lambda>i. nq_queue (stored np q) ((nq_head q + i) mod nq_cap q)) [0..<Suc (nq_length q)]
         = nq_cells q @ [Some np]"
  using ring_cells_store [OF nq_length_less [OF assms] nq_tail_mod [OF assms],
      of "nq_queue q" "Some np"]
  by (simp add: stored_def nq_cells_def)

lemma stored_fields:
  "nq_head (stored np q) = nq_head q" "nq_cap (stored np q) = nq_cap q"
  "nq_hash (stored np q) = nq_hash q"
  by (simp_all add: stored_def)

lemma stored_full:
  assumes "ring_ok q" and "nq_head q = nq_tail (stored np q)"
  shows "nq_cap q = Suc (nq_length q)"
  using assms by (auto simp: ring_ok_def stored_def nq_length_def split: if_splits)

lemma stored_length:
  assumes "ring_ok q" and "nq_head q \<noteq> nq_tail (stored np q)"
  shows "nq_length (stored np q) = Suc (nq_length q)"
  using assms by (auto simp: ring_ok_def stored_def nq_length_def split: if_splits)

lemma expand_cells:
  assumes "0 < nq_cap q"
  shows "nq_cells (np_expand_queue q)
         = map (\<lambda>i. nq_queue q ((nq_head q + i) mod nq_cap q)) [0..<nq_cap q]"
  using assms by (auto simp: nq_cells_def np_expand_queue_def nq_length_def)

lemma push_data_correct:
  assumes ok: "ring_ok (get_queue L)"
  obtains q where "push_data L s b n = Some q" "ring_ok q" "nq_hash q = nq_hash (get_queue L)"
    "queued_packs (Some q)
     = queued_packs L @ [\<lparr>np_socket_id = s, np_size = n, np_buf_ptr = Some b\<rparr>]"
proof -
  define np where "np = \<lparr>np_socket_id = s, np_size = n, np_buf_ptr = Some b\<rparr>"
  define q where "q = stored np (get_queue L)"
  define q' where "q' = (if nq_head q = nq_tail q then np_expand_queue q else q)"
  have push: "push_data L s b n = Some q'"
    using push_data_stored [OF ok refl] by (simp only: q'_def q_def np_def)
  have cells: "nq_cells q' = nq_cells (get_queue L) @ [Some np]"
  proof (cases "nq_head q = nq_tail q")
    case True
    then have "nq_cap (get_queue L) = Suc (nq_length (get_queue L))"
      using stored_full [OF ok, of np] by (simp add: q_def stored_fields)
    with True show ?thesis
      using stored_cells [OF ok, of np]
      by (simp add: q'_def q_def expand_cells stored_fields del: upt_Suc)
  next
    case False
    then have "nq_length q = Suc (nq_length (get_queue L))"
      using stored_length [OF ok, of np] by (simp add: q_def stored_fields)
    with False show ?thesis
      using stored_cells [OF ok, of np]
      by (simp add: q'_def q_def nq_cells_def stored_fields del: upt_Suc)
  qed
  moreover have "nq_head q' < nq_cap q'" "nq_tail q' < nq_cap q'"
    using ok by (auto simp: q'_def q_def np_expand_queue_def stored_def ring_ok_def QUEUE_SIZE_def)
  ultimately have "ring_ok q'"
    using ok by (simp add: ring_ok_def)
  moreover have "nq_hash q' = nq_hash (get_queue L)"
    by (simp add: q'_def q_def np_expand_queue_def stored_fields)
  moreover have "queued_packs (Some q') = queued_packs L @ [np]"
    using cells by (simp add: queued_packs_def get_queue_def [of "Some q'"])
  ultimately show thesis
    using push that unfolding np_def by blast
qed

lemma l_pop_correct:
  assumes ok: "ring_ok (get_queue L)"
  shows "\<exists>L'. l_pop L = Some (case queued_packs L of [] \<Rightarrow> None | np # _ \<Rightarrow> Some np, L') \<and>
     ring_ok (get_queue L') \<and> nq_hash (get_queue L') = nq_hash (get_queue L) \<and>
     queued_packs L' = tl (queued_packs L)"
proof (cases "nq_head (get_queue L) = nq_tail (get_queue L)")
  case True
  then have "queued_packs L = []"
    by (simp add: queued_packs_def nq_cells_def nq_length_def)
  with True ok show ?thesis
    by (auto simp: l_pop_def get_queue_def split: option.splits)
next
  case False
  then obtain q where L: "L = Some q"
    by (cases L) (auto simp: get_queue_def)
  with ok False have ok: "ring_ok q" and ne: "nq_head q \<noteq> nq_tail q"
    by (simp_all add: get_queue_def)
  define q' where "q' = q\<lparr>nq_head := (if Suc (nq_head q) \<ge> nq_cap q then 0 else Suc (nq_head q))\<rparr>"
  have len: "nq_length q = Suc (nq_length q')"
    using ok ne by (auto simp: ring_ok_def q'_def nq_length_def)
  have cells: "nq_cells q = nq_queue q (nq_head q) # nq_cells q'"
    using ring_cells_Cons [of "nq_head q" "nq_cap q" "nq_head q'" "nq_queue q" "nq_length q'"] ok
    by (simp add: nq_cells_def len q'_def ring_ok_def del: upt_Suc)
  with ok obtain np where np: "nq_queue q (nq_head q) = Some np"
    by (cases "nq_queue q (nq_head q)") (auto simp: ring_ok_def)
  have "ring_ok q'"
    using ok cells by (auto simp: ring_ok_def q'_def)
  with ne np cells show ?thesis
    by (auto simp: L l_pop_def get_queue_def queued_packs_def q'_def)
qed

subsection \<open>The hash table of incomplete packages\<close>

abbreviation uc_id :: "uncomplete \<Rightarrow> u32" where
  "uc_id uc \<equiv> np_socket_id (uc_pack uc)"

definition uc_ok :: "uncomplete \<Rightarrow> bool" where
  "uc_ok uc \<longleftrightarrow>
     (if uc_read uc < 0 then uc_read uc = - 1 \<and> uc_header uc < 256
      else nat (uc_read uc) < np_size (uc_pack uc) \<and> np_size (uc_pack uc) < 65536 \<and>
        (\<exists>b. np_buf_ptr (uc_pack uc) = Some b \<and> length b = np_size (uc_pack uc) \<and>
             None \<notin> set (take (nat (uc_read uc)) b)))"

definition table_ok :: "(nat \<Rightarrow> uncomplete list) \<Rightarrow> bool" where
  "table_ok hash \<longleftrightarrow>
     (\<forall>h. distinct (map uc_id (hash h)) \<and> (\<forall>uc \<in> set (hash h). uc_ok uc \<and> hash_socket_id (uc_id uc) = h))"

definition table_of :: "(nat \<Rightarrow> uncomplete list) \<Rightarrow> u32 \<Rightarrow> uncomplete option" where
  "table_of hash s = map_of (map (\<lambda>uc. (uc_id uc, uc)) (hash (hash_socket_id s))) s"

definition np_inv :: "lua_queue \<Rightarrow> bool" where
  "np_inv L \<longleftrightarrow> ring_ok (get_queue L) \<and> table_ok (nq_hash (get_queue L))"

abbreviation incomplete :: "lua_queue \<Rightarrow> u32 \<Rightarrow> uncomplete option" where
  "incomplete L \<equiv> table_of (nq_hash (get_queue L))"

lemma unlink_uncomplete_correct:
  assumes "distinct (map uc_id ucs)"
  shows "unlink_uncomplete s ucs =
    map_option (\<lambda>uc. (uc, filter (\<lambda>u. uc_id u \<noteq> s) ucs))
      (map_of (map (\<lambda>uc. (uc_id uc, uc)) ucs) s)"
  using assms
proof (induction ucs)
  case (Cons uc ucs)
  from Cons.prems have "uc_id u \<noteq> uc_id uc" if "u \<in> set ucs" for u
    using that by (auto simp: image_iff)
  then have "filter (\<lambda>u. uc_id u \<noteq> uc_id uc) ucs = ucs"
    by (simp add: filter_id_conv)
  with Cons show ?case
    by (auto simp: option.map_comp comp_def)
qed simp

lemma map_of_ids_filter:
  "map_of (map (\<lambda>uc. (uc_id uc, uc)) (filter (\<lambda>u. uc_id u \<noteq> s) ucs)) t
   = (if t = s then None else map_of (map (\<lambda>uc. (uc_id uc, uc)) ucs) t)"
  by (induction ucs) auto

lemma table_of_Some: "table_ok hash \<Longrightarrow> table_of hash s = Some uc \<Longrightarrow> uc_ok uc \<and> uc_id uc = s"
  by (fastforce simp: table_ok_def table_of_def dest!: map_of_SomeD)

lemma table_unlink:
  assumes ok: "table_ok hash" and h_def: "h = hash_socket_id s"
  shows "table_ok (hash(h := filter (\<lambda>u. uc_id u \<noteq> s) (hash h)))"
    and "table_of (hash(h := filter (\<lambda>u. uc_id u \<noteq> s) (hash h))) = (table_of hash)(s := None)"
proof -
  show "table_ok (hash(h := filter (\<lambda>u. uc_id u \<noteq> s) (hash h)))"
    using ok by (auto simp: table_ok_def distinct_map_filter)
  show "table_of (hash(h := filter (\<lambda>u. uc_id u \<noteq> s) (hash h))) = (table_of hash)(s := None)"
    by (rule ext) (auto simp: table_of_def map_of_ids_filter h_def)
qed

lemma table_link:
  assumes ok: "table_ok hash" and new: "table_of hash s = None" and uc: "uc_ok uc" "uc_id uc = s"
    and h_def: "h = hash_socket_id s"
  shows "table_ok (hash(h := uc # hash h))"
    and "table_of (hash(h := uc # hash h)) = (table_of hash)(s \<mapsto> uc)"
proof -
  have "s \<notin> uc_id ` set (hash h)"
    using new by (force simp: table_of_def h_def map_of_eq_None_iff)
  then show "table_ok (hash(h := uc # hash h))"
    using ok uc by (auto simp: table_ok_def h_def)
  show "table_of (hash(h := uc # hash h)) = (table_of hash)(s \<mapsto> uc)"
    using uc by (intro ext) (auto simp: table_of_def h_def)
qed

lemma find_uncomplete_correct:
  assumes inv: "np_inv L"
  obtains L1 where "find_uncomplete L s = (incomplete L s, L1)" "np_inv L1"
    "incomplete L1 = (incomplete L)(s := None)" "queued_packs L1 = queued_packs L"
    "incomplete L s = None \<or> L1 \<noteq> None"
proof (cases L)
  case None
  then have "incomplete L = Map.empty"
    by (auto simp: get_queue_def table_of_def)
  with None inv show thesis
    by (intro that [of None]) (simp_all add: find_uncomplete_def)
next
  case (Some q)
  define h where "h = hash_socket_id s"
  define hash' where "hash' = (nq_hash q)(h := filter (\<lambda>u. uc_id u \<noteq> s) (nq_hash q h))"
  have ok: "table_ok (nq_hash q)" "ring_ok q"
    using inv Some by (simp_all add: np_inv_def get_queue_def)
  then have unlink: "unlink_uncomplete s (nq_hash q h) =
      map_option (\<lambda>uc. (uc, filter (\<lambda>u. uc_id u \<noteq> s) (nq_hash q h))) (table_of (nq_hash q) s)"
    by (simp add: unlink_uncomplete_correct table_ok_def table_of_def h_def)
  note table = table_unlink [OF ok(1) h_def, folded hash'_def]
  show thesis
  proof (cases "table_of (nq_hash q) s")
    case None
    then have "(table_of (nq_hash q))(s := None) = table_of (nq_hash q)"
      by (simp add: fun_upd_idem)
    with None Some inv unlink show thesis
      by (intro that [of L])
        (simp_all add: find_uncomplete_def h_def Let_def get_queue_def)
  next
    case uc: (Some uc)
    from uc Some unlink table ok(2) show thesis
      by (intro that [of "Some (q\<lparr>nq_hash := hash'\<rparr>)"])
        (simp_all add: find_uncomplete_def get_queue_def np_inv_def queued_packs_def Let_def
          hash'_def flip: h_def)
  qed
qed

lemma link_uncomplete_correct:
  assumes "np_inv L" and "incomplete L s = None" and "uc_ok uc" "uc_id uc = s"
    and L'_def: "L' = Some (link_uncomplete s uc (get_queue L))"
  shows "np_inv L'" "incomplete L' = (incomplete L)(s \<mapsto> uc)" "queued_packs L' = queued_packs L"
  using table_link [of "nq_hash (get_queue L)" s uc "hash_socket_id s"] assms
  by (simp_all add: np_inv_def get_queue_def [of "Some _"] L'_def link_uncomplete_def Let_def
      queued_packs_def)

lemma push_data_inv:
  assumes "np_inv L"
  obtains L' where "push_data L s b n = L'" "np_inv L'" "incomplete L' = incomplete L"
    "queued_packs L'
     = queued_packs L @ [\<lparr>np_socket_id = s, np_size = n, np_buf_ptr = Some b\<rparr>]"
proof -
  obtain q where "push_data L s b n = Some q" "ring_ok q" "nq_hash q = nq_hash (get_queue L)"
    "queued_packs (Some q)
     = queued_packs L @ [\<lparr>np_socket_id = s, np_size = n, np_buf_ptr = Some b\<rparr>]"
    by (rule push_data_correct [of L s b n]) (use assms in \<open>simp add: np_inv_def\<close>)
  with assms show thesis
    by (intro that [of "Some q"]) (simp_all add: np_inv_def get_queue_def [of "Some q"])
qed

subsection \<open>The framing of a byte stream\<close>

abbreviation frame_size :: "u8 \<Rightarrow> u8 \<Rightarrow> nat" where
  "frame_size hi lo \<equiv> unat hi * 256 + unat lo"

text \<open>
  The specification: the packages of a stream and the bytes left over, with no notion of chunks,
  hash table or queue.
\<close>

function split_frames :: "bytes \<Rightarrow> bytes list \<times> bytes" where
  "split_frames bs =
     (if length bs < 2 then ([], bs)
      else
        let n = frame_size (bs ! 0) (bs ! 1); rest = drop 2 bs in
        if length rest < n then ([], bs)
        else let (ps, r) = split_frames (drop n rest) in (take n rest # ps, r))"
  by pat_completeness auto
termination
  by (relation "measure length") auto

declare split_frames.simps [simp del]

lemma split_frames_short: "length bs < 2 \<Longrightarrow> split_frames bs = ([], bs)"
  by (subst split_frames.simps) simp

lemma split_frames_part:
  "length r < frame_size hi lo \<Longrightarrow> split_frames (hi # lo # r) = ([], hi # lo # r)"
  by (subst split_frames.simps) simp

lemma split_frames_full:
  assumes "length a = frame_size hi lo"
  shows "split_frames (hi # lo # a @ b) = (a # fst (split_frames b), snd (split_frames b))"
proof -
  have "drop (frame_size hi lo) (a @ b) = b" "take (frame_size hi lo) (a @ b) = a"
    "\<not> length (a @ b) < frame_size hi lo"
    using assms by simp_all
  then show ?thesis
    by (subst split_frames.simps) (simp add: Let_def split_beta del: length_append)
qed

lemmas split_frames_rules = split_frames_short split_frames_part split_frames_full

lemma bytes_cases [case_names short part full]:
  assumes "length bs < 2 \<Longrightarrow> P"
    and "\<And>hi lo r. bs = hi # lo # r \<Longrightarrow> length r < frame_size hi lo \<Longrightarrow> P"
    and "\<And>hi lo a b. bs = hi # lo # a @ b \<Longrightarrow> length a = frame_size hi lo \<Longrightarrow> P"
  shows P
proof (cases "length bs < 2")
  case False
  then obtain hi lo r where bs: "bs = hi # lo # r"
    by (cases bs; cases "tl bs") auto
  show P
  proof (cases "length r < frame_size hi lo")
    case False
    then show P
      using assms(3) [of hi lo "take (frame_size hi lo) r" "drop (frame_size hi lo) r"] bs by simp
  qed (use assms(2) bs in blast)
qed (use assms(1) in blast)

text \<open>The framing may stop anywhere and resume with the bytes left over.\<close>

lemma split_frames_append:
  "split_frames (a @ b) =
     (fst (split_frames a) @ fst (split_frames (snd (split_frames a) @ b)),
      snd (split_frames (snd (split_frames a) @ b)))"
proof (induction "length a" arbitrary: a rule: less_induct)
  case less
  show ?case
  proof (cases a rule: bytes_cases)
    case (full hi lo x y)
    then show ?thesis
      using less [of y] by (simp add: split_frames_full)
  qed (simp_all add: split_frames_rules)
qed

lemma split_frames_rest: "split_frames (snd (split_frames a)) = ([], snd (split_frames a))"
proof (induction "length a" arbitrary: a rule: less_induct)
  case less
  show ?case
  proof (cases a rule: bytes_cases)
    case (full hi lo x y)
    then show ?thesis
      using less [of y] by (simp add: split_frames_full)
  qed (simp_all add: split_frames_rules)
qed

lemma push_bit_or: "b < 256 \<Longrightarrow> push_bit 8 a OR b = a * 256 + (b :: nat)"
proof -
  assume b: "b < 256"
  have "push_bit 8 a AND b = 0"
  proof (rule bit_eqI)
    fix n
    have "take_bit 8 b = b"
      using b by (simp add: take_bit_nat_eq_self_iff)
    then have "bit b n \<Longrightarrow> n < 8"
      by (metis bit_take_bit_iff)
    then show "bit (push_bit 8 a AND b) n = bit 0 n"
      by (auto simp: bit_simps)
  qed
  then show ?thesis
    using disjunctive_add_eq_or [of "push_bit 8 a" b] by (simp add: push_bit_nat_def)
qed

lemma u8_less: "unat (b :: u8) < 256"
  using unsigned_less [of b] by simp

lemma read_size_frame: "read_size (hi # lo # r) = frame_size hi lo"
  by (simp add: read_size_def push_bit_or u8_less)

lemma frame_size_bytes:
  "of_nat (frame_size hi lo div 256) = hi" "of_nat (frame_size hi lo mod 256) = lo"
  "frame_size hi lo < 65536"
  using u8_less [of hi] u8_less [of lo] by simp_all

lemma l_pack_eq:
  "l_pack p = (if length p < 65536
     then Some (of_nat (length p div 256 mod 256) # of_nat (length p mod 256) # p) else None)"
  by (simp add: l_pack_def Let_def drop_bit_eq_div and_size_mask [of 256 8, simplified])

lemma pack_frame:
  assumes "l_pack p = Some bs"
  obtains hi lo where "bs = hi # lo # p" "frame_size hi lo = length p"
proof -
  from assms have len: "length p < 65536"
    and bs: "bs = of_nat (length p div 256 mod 256) # of_nat (length p mod 256) # p"
    by (auto simp: l_pack_eq split: if_splits)
  show thesis
    by (rule that [OF bs]) (use len in \<open>simp add: unat_of_nat\<close>)
qed

text \<open>A stream of packed messages splits into the messages.\<close>

lemma split_frames_packed:
  "those (map l_pack ps) = Some bss \<Longrightarrow> split_frames (concat bss @ r)
    = (ps @ fst (split_frames r), snd (split_frames r))"
proof (induction ps arbitrary: bss)
  case (Cons p ps)
  then obtain b bss' where b: "l_pack p = Some b" and bss: "bss = b # bss'"
    and rest: "those (map l_pack ps) = Some bss'"
    by (auto split: option.splits)
  from b obtain hi lo where "b = hi # lo # p" "frame_size hi lo = length p"
    by (rule pack_frame)
  then show ?case
    using Cons.IH [OF rest] by (simp add: bss split_frames_full)
qed simp

subsection \<open>The operations refine the framing\<close>

text \<open>The part of the stream of a socket that has arrived but is not yet a whole package.\<close>

definition uc_bytes :: "uncomplete \<Rightarrow> bytes" where
  "uc_bytes uc =
     (if uc_read uc < 0 then [of_nat (uc_header uc)]
      else [of_nat (np_size (uc_pack uc) div 256), of_nat (np_size (uc_pack uc) mod 256)]
        @ map the (take (nat (uc_read uc)) (the (np_buf_ptr (uc_pack uc)))))"

definition leftover :: "lua_queue \<Rightarrow> u32 \<Rightarrow> bytes" where
  "leftover L s = (case incomplete L s of None \<Rightarrow> [] | Some uc \<Rightarrow> uc_bytes uc)"

definition pack_of :: "u32 \<Rightarrow> bytes \<Rightarrow> netpack" where
  "pack_of s p = \<lparr>np_socket_id = s, np_size = length p, np_buf_ptr = Some (map Some p)\<rparr>"

lemma memcpy_to_block:
  assumes "length c \<le> length u"
  shows "memcpy_to (map Some part @ u) (length part) c
         = Some (map Some (part @ c) @ drop (length c) u)"
  using assms by (simp add: memcpy_to_def)

lemma memcpy_to_fresh:
  "length c \<le> n \<Longrightarrow> memcpy_to (skynet_malloc n) 0 c
     = Some (map Some c @ replicate (n - length c) None)"
  using memcpy_to_block [of c "skynet_malloc n" "[]"] by (simp add: skynet_malloc_def)

lemma incomplete_leftover: "incomplete L s = None \<Longrightarrow> leftover L s = []"
  by (simp add: leftover_def)

lemma leftover_update:
  "incomplete L' = (incomplete L)(s \<mapsto> uc) \<Longrightarrow> leftover L' = (leftover L)(s := uc_bytes uc)"
  by (auto simp: leftover_def)

lemma leftover_delete:
  "incomplete L' = (incomplete L)(s := None) \<Longrightarrow> leftover L' = (leftover L)(s := [])"
  by (auto simp: leftover_def)

lemma header_only_ok:
  "uc_ok (header_only b (new_uncomplete s))" "uc_id (header_only b (new_uncomplete s)) = s"
  "uc_bytes (header_only b (new_uncomplete s)) = [b]"
  using u8_less [of b] by (simp_all add: uc_ok_def header_only_def new_uncomplete_def uc_bytes_def)

lemma part_only_ok:
  fixes s :: u32
  assumes "length r < n" and n: "n = frame_size hi lo"
  defines "uc \<equiv> part_only (length r) n (map Some r @ replicate (n - length r) None) (new_uncomplete s)"
  shows "uc_ok uc" "uc_id uc = s" "uc_bytes uc = hi # lo # r"
proof -
  show "uc_ok uc"
    using assms frame_size_bytes(3) [of hi lo]
    by (auto simp: uc_ok_def part_only_def new_uncomplete_def)
  show "uc_id uc = s"
    by (simp add: uc_def part_only_def new_uncomplete_def)
  have "of_nat (n div 256) = hi" "of_nat (n mod 256) = lo"
    unfolding n by (rule frame_size_bytes)+
  then show "uc_bytes uc = hi # lo # r"
    using assms(1) by (simp add: uc_bytes_def uc_def part_only_def new_uncomplete_def)
qed

text \<open>Keeping the start of a package: the two places where the code does it.\<close>

lemma save_header:
  fixes b :: u8
  assumes "np_inv L" and "incomplete L s = None"
  defines "L' \<equiv> save_uncomplete L s (header_only b)"
  shows "np_inv L' \<and> leftover L' = (leftover L)(s := [b]) \<and> queued_packs L' = queued_packs L"
  using link_uncomplete_correct [OF assms(1,2) header_only_ok(1,2) refl, of b]
    leftover_update [of L' L s "header_only b (new_uncomplete s)"]
  by (simp add: L'_def save_uncomplete_def header_only_ok)

lemma save_part:
  assumes "np_inv L" and "incomplete L s = None"
    and "length r < n" and "n = frame_size hi lo"
  defines "L' \<equiv> save_uncomplete L s
    (part_only (length r) n (map Some r @ replicate (n - length r) None))"
  shows "np_inv L' \<and> leftover L' = (leftover L)(s := hi # lo # r) \<and> queued_packs L' = queued_packs L"
  using link_uncomplete_correct [OF assms(1,2) part_only_ok(1,2) [OF assms(3,4)] refl]
    leftover_update [of L' L s]
  by (simp add: L'_def save_uncomplete_def part_only_ok [OF assms(3,4)])

lemma push_more_step:
  assumes "length a = frame_size hi lo"
  shows "push_more L s (hi # lo # a @ b) =
    (let L2 = push_data L s (map Some a) (length a) in if b \<noteq> [] then push_more L2 s b else Some L2)"
  using assms by (subst push_more.simps) (simp add: read_size_frame memcpy_to_fresh Let_def)

lemma push_more_correct:
  assumes "np_inv L" and "incomplete L s = None" and "buffer \<noteq> []"
  shows "\<exists>L'. push_more L s buffer = Some L' \<and> np_inv L' \<and>
    leftover L' = (leftover L)(s := snd (split_frames buffer)) \<and>
    queued_packs L' = queued_packs L @ map (pack_of s) (fst (split_frames buffer))"
  using assms
proof (induction "length buffer" arbitrary: L buffer rule: less_induct)
  case less
  note inv = less.prems(1) and new = less.prems(2)
  show ?case
  proof (cases buffer rule: bytes_cases)
    case short
    with less.prems(3) obtain x where x: "buffer = [x]"
      by (cases buffer) auto
    then show ?thesis
      using save_header [OF inv new, of x]
      by (simp add: push_more.simps [of L s "[x]"] split_frames_short)
  next
    case (part hi lo r)
    then show ?thesis
      using save_part [OF inv new part(2) refl]
      by (simp add: push_more.simps [of L s "hi # lo # r"] split_frames_part read_size_frame
          memcpy_to_fresh Let_def)
  next
    case (full hi lo a b)
    obtain L2 where L2: "push_data L s (map Some a) (length a) = L2" "np_inv L2"
      "incomplete L2 = incomplete L" "queued_packs L2 = queued_packs L @ [pack_of s a]"
      using push_data_inv [OF inv, of s "map Some a" "length a"] unfolding pack_of_def by blast
    then have left: "leftover L2 = leftover L"
      by (simp add: leftover_def fun_eq_iff)
    show ?thesis
    proof (cases "b = []")
      case True
      with L2 left full incomplete_leftover [OF new] show ?thesis
        using push_more_step [OF full(2), of L s b] split_frames_full [OF full(2), of b]
        by (simp add: split_frames_short fun_upd_idem)
    next
      case False
      with L2 left full new show ?thesis
        using push_more_step [OF full(2), of L s b] split_frames_full [OF full(2), of b]
          less.hyps [of b L2] by simp
    qed
  qed
qed

text \<open>
  What one call of \<open>filter\<close> does with the packages \<open>ps\<close> that a chunk completes: nothing, a
  single package with nothing after it returned directly, or all of them queued.
\<close>

definition handed_over :: "u32 \<Rightarrow> bytes list \<Rightarrow> lua_queue \<Rightarrow> filter_result \<Rightarrow> lua_queue \<Rightarrow> bool" where
  "handed_over s ps L res L' \<longleftrightarrow>
     (res = FILTER_NONE \<and> ps = [] \<and> queued_packs L' = queued_packs L) \<or>
     (\<exists>p. res = FILTER_DATA s (Some (map Some p)) (length p) \<and> ps = [p] \<and>
          queued_packs L' = queued_packs L) \<or>
     (res = FILTER_MORE \<and> queued_packs L' = queued_packs L @ map (pack_of s) ps)"

lemma start_package_correct:
  assumes ok: "uc_ok uc" and c: "c \<noteq> []"
  obtains uc' c' hi lo part u where
    "start_package uc c = Some (uc', c')" "uc_id uc' = uc_id uc"
    "np_size (uc_pack uc') = frame_size hi lo" "uc_read uc' = int (length part)"
    "np_buf_ptr (uc_pack uc') = Some (map Some part @ u)"
    "length part + length u = frame_size hi lo" "uc_bytes uc @ c = hi # lo # part @ c'"
proof (cases "uc_read uc < 0")
  case True
  with ok have r: "uc_read uc = - 1" and h: "uc_header uc < 256"
    by (simp_all add: uc_ok_def)
  obtain lo c' where c: "c = lo # c'"
    using c by (cases c) auto
  define hi :: u8 where "hi = of_nat (uc_header uc)"
  have "unat lo OR push_bit 8 (uc_header uc) = frame_size hi lo"
    using h by (subst or.commute) (simp add: push_bit_or u8_less hi_def unat_of_nat)
  then show thesis
    by (intro that [of "uc\<lparr>uc_pack := (uc_pack uc)\<lparr>
          np_buf_ptr := Some (skynet_malloc (frame_size hi lo)), np_size := frame_size hi lo\<rparr>,
          uc_read := 0\<rparr>" c' hi lo "[]" "skynet_malloc (frame_size hi lo)"])
      (simp_all add: start_package_def r c skynet_malloc_def uc_bytes_def hi_def Let_def)
next
  case False
  define n where "n = np_size (uc_pack uc)"
  from False ok obtain b where b: "np_buf_ptr (uc_pack uc) = Some b" "length b = n"
    and n: "n < 65536" "nat (uc_read uc) < n" and set: "None \<notin> set (take (nat (uc_read uc)) b)"
    by (auto simp: uc_ok_def n_def)
  define part where "part = map the (take (nat (uc_read uc)) b)"
  define hi lo :: u8 where "hi = of_nat (n div 256)" and "lo = of_nat (n mod 256)"
  have "map Some part = take (nat (uc_read uc)) b"
    using set by (auto simp: part_def intro!: map_idI) (metis option.exhaust_sel)
  then have "b = map Some part @ drop (nat (uc_read uc)) b"
    by simp
  moreover have "length part = nat (uc_read uc)"
    using b n by (simp add: part_def)
  moreover have "frame_size hi lo = n"
    using n by (simp add: hi_def lo_def unat_of_nat)
  ultimately show thesis
    using False b n
    by (intro that [of uc c hi lo part "drop (nat (uc_read uc)) b"])
      (simp_all add: start_package_def n_def uc_bytes_def part_def hi_def lo_def)
qed

definition framed :: "u32 \<Rightarrow> bytes \<Rightarrow> lua_queue \<Rightarrow> (filter_result \<times> lua_queue) option \<Rightarrow> bool" where
  "framed s stream L out \<longleftrightarrow>
     (\<exists>res L'. out = Some (res, L') \<and> np_inv L' \<and>
        leftover L' = (leftover L)(s := snd (split_frames stream)) \<and>
        handed_over s (fst (split_frames stream)) L res L')"

lemma framedI:
  assumes "out = Some (res, L')" "np_inv L'"
    "leftover L' = (leftover L)(s := snd (split_frames stream))"
    "handed_over s (fst (split_frames stream)) L res L'"
  shows "framed s stream L out"
  using assms by (auto simp: framed_def)

text \<open>A whole package followed by more: everything goes through the queue.\<close>

lemma framed_more:
  assumes "np_inv L" "incomplete L s = None" and a: "length a = frame_size hi lo" and b: "b \<noteq> []"
  shows "framed s (hi # lo # a @ b) L
    (do { L3 \<leftarrow> push_more (push_data L s (map Some a) (length a)) s b; Some (FILTER_MORE, L3) })"
proof -
  obtain L3 where "push_more L s (hi # lo # a @ b) = Some L3" "np_inv L3"
    "leftover L3 = (leftover L)(s := snd (split_frames (hi # lo # a @ b)))"
    "queued_packs L3 = queued_packs L @ map (pack_of s) (fst (split_frames (hi # lo # a @ b)))"
    using push_more_correct [OF assms(1,2), of "hi # lo # a @ b"] by auto
  then show ?thesis
    using push_more_step [OF a, of L s b] b
    by (intro framedI [of _ FILTER_MORE L3]) (simp_all add: handed_over_def Let_def)
qed

text \<open>A whole package and nothing else: it is returned directly.\<close>

lemma framed_one:
  assumes "np_inv L" "incomplete L s = None" and "length a = frame_size hi lo"
  shows "framed s (hi # lo # a) L (Some (FILTER_DATA s (Some (map Some a)) (length a), L))"
  using assms split_frames_full [OF assms(3), of "[]"] incomplete_leftover [OF assms(2)]
  by (intro framedI [OF refl]) (simp_all add: handed_over_def split_frames_short fun_upd_idem)

lemma filter_fresh:
  assumes inv: "np_inv L1" "incomplete L1 s = None"
    and find: "find_uncomplete L s = (None, L1)" and c: "c \<noteq> []"
  shows "framed s c L1 (filter_data L s c)"
proof (cases c rule: bytes_cases)
  case short
  with c obtain x where "c = [x]"
    by (cases c) auto
  then show ?thesis
    using save_header [OF inv, of x] find
    by (intro framedI [of _ FILTER_NONE "save_uncomplete L1 s (header_only x)"])
      (simp_all add: filter_data_def handed_over_def split_frames_short)
next
  case (part hi lo r)
  then show ?thesis
    using save_part [OF inv part(2) refl] find
    by (intro framedI [of _ FILTER_NONE "save_uncomplete L1 s (part_only (length r) (frame_size hi lo)
          (map Some r @ replicate (frame_size hi lo - length r) None))"])
      (simp_all add: filter_data_def handed_over_def split_frames_part
        read_size_frame memcpy_to_fresh Let_def)
next
  case (full hi lo a b)
  then show ?thesis
    using framed_one [OF inv full(2)] framed_more [OF inv full(2)] find
    by (cases "b = []") (simp_all add: filter_data_def read_size_frame memcpy_to_fresh Let_def)
qed

lemma filter_resume:
  assumes inv: "np_inv L1" "incomplete L1 s = None" "L1 \<noteq> None"
    and find: "find_uncomplete L s = (Some uc, L1)" and uc: "uc_ok uc" "uc_id uc = s"
    and c: "c \<noteq> []"
  shows "framed s (uc_bytes uc @ c) L1 (filter_data L s c)"
proof -
  obtain uc' c' hi lo part u where uc':
    "start_package uc c = Some (uc', c')" "uc_id uc' = uc_id uc"
    "np_size (uc_pack uc') = frame_size hi lo" "uc_read uc' = int (length part)"
    "np_buf_ptr (uc_pack uc') = Some (map Some part @ u)"
    "length part + length u = frame_size hi lo" "uc_bytes uc @ c = hi # lo # part @ c'"
    by (rule start_package_correct [OF uc(1) c])
  have need: "frame_size hi lo - length part = length u"
    using uc'(6) by simp
  obtain q where q: "L1 = Some q" "get_queue L1 = q"
    using inv(3) by (auto simp: get_queue_def)
  show ?thesis
  proof (cases "length c' < length u")
    case True
    define uc2 where "uc2 = uc'\<lparr>uc_pack := (uc_pack uc')\<lparr>np_buf_ptr :=
        Some (map Some (part @ c') @ drop (length c') u)\<rparr>,
      uc_read := int (length part) + int (length c')\<rparr>"
    have read: "nat (uc_read uc2) = length (part @ c')" "\<not> uc_read uc2 < 0"
      by (simp_all add: uc2_def)
    have "uc_ok uc2" "uc_id uc2 = s" "uc_bytes uc2 = hi # lo # part @ c'"
      using True uc' uc(2) frame_size_bytes [of hi lo]
      by (simp_all add: uc_ok_def uc_bytes_def read) (auto simp: uc2_def)
    then show ?thesis
      using True uc' need find q link_uncomplete_correct [OF inv(1,2) _ _ refl, of uc2]
        leftover_update [of "Some (link_uncomplete s uc2 q)" L1 s uc2]
      by (intro framedI [of _ FILTER_NONE "Some (link_uncomplete s uc2 q)"])
        (simp_all add: filter_data_def memcpy_to_block handed_over_def split_frames_part Let_def uc2_def)
  next
    case False
    define a where "a = part @ take (length u) c'"
    have a: "length a = frame_size hi lo" and stream: "uc_bytes uc @ c = hi # lo # a @ drop (length u) c'"
      using False uc'(6,7) by (simp_all add: a_def)
    have "filter_data L s c = (if drop (length u) c' = []
        then Some (FILTER_DATA s (Some (map Some a)) (length a), L1)
        else do { L3 \<leftarrow> push_more (push_data L1 s (map Some a) (length a)) s (drop (length u) c');
                  Some (FILTER_MORE, L3) })"
      using False uc' need find a by (simp add: filter_data_def memcpy_to_block Let_def a_def)
    then show ?thesis
      using framed_one [OF inv(1,2) a] framed_more [OF inv(1,2) a] stream
      by (cases "drop (length u) c' = []") (simp_all del: drop_eq_Nil)
  qed
qed

theorem filter_data_correct:
  assumes inv: "np_inv L" and c: "c \<noteq> []"
  shows "framed s (leftover L s @ c) L (filter_data L s c)"
proof -
  obtain L1 where L1: "find_uncomplete L s = (incomplete L s, L1)" "np_inv L1"
    "incomplete L1 = (incomplete L)(s := None)" "queued_packs L1 = queued_packs L"
    "incomplete L s = None \<or> L1 \<noteq> None"
    by (rule find_uncomplete_correct [OF inv, where s = s])
  have new: "incomplete L1 s = None" and left1: "leftover L1 = (leftover L)(s := [])"
    using L1(3) leftover_delete [OF L1(3)] by simp_all
  have "framed s (leftover L s @ c) L1 (filter_data L s c)"
  proof (cases "incomplete L s")
    case None
    then show ?thesis
      using filter_fresh [OF L1(2) new _ c] L1(1) by (simp add: incomplete_leftover)
  next
    case (Some uc)
    moreover have "uc_ok uc" "uc_id uc = s"
      using table_of_Some [OF _ Some] inv by (simp_all add: np_inv_def)
    ultimately show ?thesis
      using filter_resume [OF L1(2) new, of L uc c] L1(1,5) c by (simp add: leftover_def)
  qed
  then show ?thesis
    using L1(4) left1 by (simp add: framed_def handed_over_def)
qed

subsection \<open>The gate that uses the library\<close>

text \<open>
  The receiving side of \<open>lualib/snax/gateserver.lua\<close>: every socket message goes through \<open>filter\<close>;
  \<open>data\<close> is dispatched, on \<open>more\<close> the queue is popped until it is empty. The handler reads a
  package with \<open>tostring\<close>. A ring of capacity \<open>c\<close> holds fewer than \<open>c\<close> packages, so that the
  capacity bounds the loop.
\<close>

fun pop_loop :: "nat \<Rightarrow> lua_queue \<Rightarrow> (netpack list \<times> lua_queue) option" where
  "pop_loop 0 L = None"
| "pop_loop (Suc n) L = do {
     (r, L') \<leftarrow> l_pop L;
     case r of
       None \<Rightarrow> Some ([], L')
     | Some np \<Rightarrow> do { (nps, L'') \<leftarrow> pop_loop n L'; Some (np # nps, L'') }
   }"

definition read_pack :: "netpack \<Rightarrow> (u32 \<times> bytes) option" where
  "read_pack np = map_option (Pair (np_socket_id np)) (l_tostring (np_buf_ptr np) (np_size np))"

definition gate_message :: "lua_queue \<Rightarrow> skynet_socket_message \<Rightarrow> ((u32 \<times> bytes) list \<times> lua_queue) option" where
  "gate_message L m = do {
     (res, L1) \<leftarrow> l_filter L m;
     case res of
       FILTER_DATA s b n \<Rightarrow> do { str \<leftarrow> l_tostring b n; Some ([(s, str)], L1) }
     | FILTER_MORE \<Rightarrow> do {
         (nps, L2) \<leftarrow> pop_loop (nq_cap (get_queue L1)) L1;
         strs \<leftarrow> those (map read_pack nps);
         Some (strs, L2)
       }
     | _ \<Rightarrow> Some ([], L1)
   }"

fun gate_messages :: "lua_queue \<Rightarrow> skynet_socket_message list \<Rightarrow> ((u32 \<times> bytes) list \<times> lua_queue) option" where
  "gate_messages L [] = Some ([], L)"
| "gate_messages L (m # ms) = do {
     (out, L1) \<leftarrow> gate_message L m;
     (outs, L2) \<leftarrow> gate_messages L1 ms;
     Some (out @ outs, L2)
   }"

text \<open>The message that the node posts for data of a socket, and the bytes of one socket.\<close>

definition data_message :: "u32 \<times> bytes \<Rightarrow> skynet_socket_message" where
  "data_message sc =
     \<lparr>sm_event = SKYNET_SOCKET_EVENT_DATA, sm_socket_id = fst sc, sm_ud = int (length (snd sc)),
      sm_buffer = Some (snd sc), sm_padding = []\<rparr>"

definition of_socket :: "u32 \<Rightarrow> (u32 \<times> bytes) list \<Rightarrow> bytes list" where
  "of_socket s = map snd \<circ> filter (\<lambda>sc. fst sc = s)"

lemma of_socket_simps [simp]:
  "of_socket s [] = []" "of_socket s (x # xs) = (if fst x = s then [snd x] else []) @ of_socket s xs"
  "of_socket s (xs @ ys) = of_socket s xs @ of_socket s ys"
  "of_socket s (map (Pair t) ps) = (if t = s then ps else [])"
  by (simp_all add: of_socket_def filter_map comp_def)

lemma tostring_whole: "l_tostring (Some (map Some p)) (length p) = Some p"
  by (auto simp: l_tostring_def comp_def)

lemma read_packs: "those (map read_pack (map (pack_of s) ps)) = Some (map (Pair s) ps)"
  by (induction ps) (simp_all add: read_pack_def pack_of_def tostring_whole)

lemma pop_loop_correct:
  assumes "np_inv L" and "length (queued_packs L) < n"
  shows "\<exists>L'. pop_loop n L = Some (queued_packs L, L') \<and> np_inv L' \<and> queued_packs L' = [] \<and>
    leftover L' = leftover L"
  using assms
proof (induction n arbitrary: L)
  case (Suc n)
  obtain L' where pop: "l_pop L = Some (case queued_packs L of [] \<Rightarrow> None | np # _ \<Rightarrow> Some np, L')"
    and "ring_ok (get_queue L')" and hash: "nq_hash (get_queue L') = nq_hash (get_queue L)"
    and q: "queued_packs L' = tl (queued_packs L)"
    using l_pop_correct [of L] Suc.prems(1) by (auto simp: np_inv_def)
  then have inv: "np_inv L'" and left: "leftover L' = leftover L"
    using Suc.prems(1) by (simp_all add: np_inv_def leftover_def [abs_def])
  show ?case
  proof (cases "queued_packs L")
    case Nil
    with pop inv left q show ?thesis by simp
  next
    case (Cons np nps)
    with pop inv left q show ?thesis
      using Suc.IH [of L'] Suc.prems(2) by auto
  qed
qed simp

lemma queued_less: "np_inv L \<Longrightarrow> length (queued_packs L) < nq_cap (get_queue L)"
  by (simp add: np_inv_def queued_packs_def nq_cells_def nq_length_less)

lemma gate_data:
  assumes inv: "np_inv L" "queued_packs L = []" and c: "c \<noteq> []"
    and fr: "fr = split_frames (leftover L s @ c)"
  shows "\<exists>L'. gate_message L (data_message (s, c)) = Some (map (Pair s) (fst fr), L') \<and> np_inv L' \<and>
    queued_packs L' = [] \<and> leftover L' = (leftover L)(s := snd fr)"
proof -
  obtain res L1 where L1: "filter_data L s c = Some (res, L1)" "np_inv L1"
    "leftover L1 = (leftover L)(s := snd fr)" and out: "handed_over s (fst fr) L res L1"
    using filter_data_correct [OF inv(1) c, of s] by (auto simp: framed_def fr)
  have flt: "l_filter L (data_message (s, c)) = Some (res, L1)"
    using L1(1) by (simp add: l_filter_def data_message_def)
  from out consider (none) "res = FILTER_NONE" "fst fr = []" "queued_packs L1 = []"
    | (one) p where "res = FILTER_DATA s (Some (map Some p)) (length p)" "fst fr = [p]"
        "queued_packs L1 = []"
    | (more) "res = FILTER_MORE" "queued_packs L1 = map (pack_of s) (fst fr)"
    using inv(2) by (auto simp: handed_over_def)
  then show ?thesis
  proof cases
    case more
    then show ?thesis
      using pop_loop_correct [OF L1(2) queued_less [OF L1(2)]] flt L1
      by (auto simp: gate_message_def read_packs simp del: map_map)
  qed (use flt L1 in \<open>simp_all add: gate_message_def tostring_whole\<close>)
qed

lemma gate_stream:
  assumes "np_inv L" "queued_packs L = []" and "\<forall>sc \<in> set chunks. snd sc \<noteq> []"
    and "\<And>s. split_frames (leftover L s) = ([], leftover L s)"
  shows "\<exists>out L'. gate_messages L (map data_message chunks) = Some (out, L') \<and>
    (\<forall>s. split_frames (leftover L s @ concat (of_socket s chunks)) = (of_socket s out, leftover L' s))"
  using assms
proof (induction chunks arbitrary: L)
  case (Cons sc chunks)
  obtain t c where sc: "sc = (t, c)" by fastforce
  define fr where "fr = split_frames (leftover L t @ c)"
  obtain L1 where L1: "gate_message L (data_message (t, c)) = Some (map (Pair t) (fst fr), L1)"
    "np_inv L1" "queued_packs L1 = []" "leftover L1 = (leftover L)(t := snd fr)"
    using gate_data [OF Cons.prems(1,2) _ fr_def] Cons.prems(3) by (auto simp: sc)
  have rest: "split_frames (leftover L1 s) = ([], leftover L1 s)" for s
    using Cons.prems(4) split_frames_rest by (simp add: L1(4) fr_def)
  obtain out L' where out: "gate_messages L1 (map data_message chunks) = Some (out, L')"
    and all: "split_frames (leftover L1 s @ concat (of_socket s chunks))
      = (of_socket s out, leftover L' s)" for s
    using Cons.IH [OF L1(2,3) _ rest] Cons.prems(3) by auto
  have "split_frames (leftover L s @ concat (of_socket s (sc # chunks)))
      = (of_socket s (map (Pair t) (fst fr) @ out), leftover L' s)" for s
    using all [of s] split_frames_append [of "leftover L t @ c" "concat (of_socket t chunks)"]
    by (auto simp: sc L1(4) fr_def)
  with L1(1) out show ?case
    by (auto simp: sc)
qed simp

lemma initial_queue:
  "np_inv None" "queued_packs None = []" "leftover None = (\<lambda>_. [])"
  by (simp_all add: np_inv_def ring_ok_def get_queue_def nq_cells_def nq_length_def table_ok_def
      queued_packs_def leftover_def table_of_def QUEUE_SIZE_def fun_eq_iff)

text \<open>
  C17. The gate refines the framing of the streams: whatever chunks arrive, from however many sockets
  and however they interleave, the packages handed to the handler for each socket are exactly
  the packages of its byte stream, in order, and the rest of the stream is kept.
\<close>

theorem gate_refines_framing:
  assumes "\<forall>sc \<in> set chunks. snd sc \<noteq> []"
  shows "\<exists>out L'. gate_messages None (map data_message chunks) = Some (out, L') \<and>
    (\<forall>s. split_frames (concat (of_socket s chunks)) = (of_socket s out, leftover L' s))"
  using gate_stream [OF initial_queue(1,2) assms] initial_queue(3) by (simp add: split_frames_short)

theorem gate_refines_framing_witness:
  "\<exists>out L'. gate_messages None (map data_message [(1, [0]), (2, [0, 1, 7, 0]), (1, [2, 5, 6])])
     = Some (out, L') \<and> of_socket 1 out = [[5, 6]] \<and> of_socket 2 out = [[7]] \<and> leftover L' 2 = [0]"
proof -
  define chunks :: "(u32 \<times> bytes) list" where "chunks = [(1, [0]), (2, [0, 1, 7, 0]), (1, [2, 5, 6])]"
  obtain out L' where out: "gate_messages None (map data_message chunks) = Some (out, L')"
    and all: "split_frames (concat (of_socket s chunks)) = (of_socket s out, leftover L' s)" for s
    using gate_refines_framing [of chunks] by (auto simp: chunks_def)
  have "split_frames [0, 2, 5, 6] = ([[5, 6]], [])" "split_frames [0, 1, 7, 0] = ([[7]], [0])"
    using split_frames_full [of "[5, 6]" 0 2 "[]"] split_frames_full [of "[7]" 0 1 "[0]"]
    by (simp_all add: split_frames_short)
  then show ?thesis
    using out all [of 1] all [of 2] unfolding chunks_def by auto
qed

text \<open>
  C8. Messages that are packed with \<open>pack\<close> and sent over any number of sockets come out of the gate
  unchanged, complete and in order, however TCP cuts and interleaves the streams.
\<close>

theorem packed_messages_arrive:
  assumes "\<forall>sc \<in> set chunks. snd sc \<noteq> []"
    and "\<And>s. those (map l_pack (sent s)) = Some (wire s)"
    and "\<And>s. concat (of_socket s chunks) = concat (wire s)"
  shows "\<exists>out L'. gate_messages None (map data_message chunks) = Some (out, L') \<and>
    (\<forall>s. of_socket s out = sent s \<and> leftover L' s = [])"
proof -
  have "split_frames (concat (of_socket s chunks)) = (sent s, [])" for s
    using split_frames_packed [OF assms(2), of s "[]"] by (simp add: assms(3) split_frames_short)
  then show ?thesis
    using gate_stream [OF initial_queue(1,2) assms(1)] initial_queue(3)
    by (fastforce simp: split_frames_short)
qed

theorem packed_messages_arrive_witness:
  "\<exists>out L'. gate_messages None (map data_message [(1, [0, 2]), (1, [5, 6, 0]), (1, [0])])
     = Some (out, L') \<and> of_socket 1 out = [[5, 6], []]"
proof -
  define sent wire :: "u32 \<Rightarrow> bytes list" where
    "sent = (\<lambda>s. if s = 1 then [[5, 6], []] else [])" and
    "wire = (\<lambda>s. if s = 1 then [[0, 2, 5, 6], [0, 0]] else [])"
  have "l_pack [5, 6] = Some [0, 2, 5, 6]" "l_pack [] = Some [0, 0]"
    by (simp_all add: l_pack_eq)
  then have "those (map l_pack (sent s)) = Some (wire s)" for s
    by (simp add: sent_def wire_def)
  moreover have "concat (of_socket s [(1, [0, 2]), (1, [5, 6, 0]), (1, [0])]) = concat (wire s)" for s
    by (simp add: wire_def)
  ultimately show ?thesis
    using packed_messages_arrive [of "[(1, [0, 2]), (1, [5, 6, 0]), (1, [0])]" sent wire]
    by (fastforce simp: sent_def)
qed

end
