(* ===== verification/Little_Endian.thy ===== *)
theory Little_Endian
  imports Skynet_Prelude
begin

text \<open>Integers in memory: little-endian byte order, as the code copies them with \<open>memcpy\<close>.\<close>

definition le_bytes :: "nat \<Rightarrow> u64 \<Rightarrow> bytes" where
  "le_bytes n w = map (\<lambda>i. ucast (drop_bit (8 * i) w)) [0..<n]"

fun le_word :: "bytes \<Rightarrow> u64" where
  "le_word [] = 0"
| "le_word (b # bs) = ucast b OR push_bit 8 (le_word bs)"

lemma le_bytes_length [simp]: "length (le_bytes n w) = n"
  by (simp add: le_bytes_def)

lemma le_bytes_Suc: "le_bytes (Suc n) w = ucast w # le_bytes n (drop_bit 8 w)"
  unfolding le_bytes_def upt_conv_Cons [OF zero_less_Suc] map_Suc_upt [symmetric]
  by (simp add: add.commute)

lemma le_word_le_bytes: "le_word (le_bytes n w) = take_bit (8 * n) w"
proof (induction n arbitrary: w)
  case (Suc n)
  then show ?case
    by (intro bit_word_eqI) (auto simp: le_bytes_Suc bit_simps)
qed (simp add: le_bytes_def)

lemma le_word_8 [simp]: "le_word (le_bytes 8 w) = w"
  by (rule bit_word_eqI) (simp add: le_word_le_bytes bit_simps)

lemma le_word_4: "(ucast (le_word (le_bytes 4 (of_int x))) :: u32) = of_int x"
  by (rule bit_word_eqI) (auto simp: le_word_le_bytes bit_simps)

lemma le_word_small:
  assumes "n < 2 ^ (8 * k)" and "n < 2 ^ 64"
  shows "unat (le_word (le_bytes k (of_nat n))) = n"
  using assms
  by (simp add: le_word_le_bytes unsigned_take_bit_eq take_bit_nat_eq_self unat_of_nat)

end
