(* ===== verification/Socket_Events.thy ===== *)
theory Socket_Events
  imports Socket_Stream
begin

text \<open>
  The event loop of the socket thread (\<open>poll_socket_event\<close> of \<open>skynet-src/socket/socket_server.cpp\<close>)
  with the reading side: received data, datagrams, new connections and finished connects.
\<close>

subsection \<open>Reading\<close>

datatype read_result = READ_OK bytes | READ_EINTR | READ_EAGAIN | READ_ERROR

text \<open>
  \<open>read\<close> with a buffer of \<open>n\<close> bytes. The end of the stream stays; an empty answer list means that
  nothing has arrived.
\<close>

definition os_read :: "int \<Rightarrow> nat \<Rightarrow> kernel \<Rightarrow> read_result \<times> kernel" where
  "os_read fd n k =
     (let upd = (\<lambda>xs. k\<lparr>k_input := (k_input k)(fd := xs)\<rparr>) in
      case k_input k fd of
        [] \<Rightarrow> (READ_EAGAIN, k)
      | IN_BYTES bs # rest \<Rightarrow>
          if bs = [] then (READ_EAGAIN, upd rest)
          else if length bs \<le> n then (READ_OK bs, upd rest)
          else (READ_OK (take n bs), upd (IN_BYTES (drop n bs) # rest))
      | IN_EOF # rest \<Rightarrow> (READ_OK [], k)
      | IN_EINTR # rest \<Rightarrow> (READ_EINTR, upd rest)
      | IN_EAGAIN # rest \<Rightarrow> (READ_EAGAIN, upd rest)
      | IN_ERROR # rest \<Rightarrow> (READ_ERROR, upd rest))"

fun item_size :: "input_item \<Rightarrow> nat" where
  "item_size (IN_BYTES bs) = Suc (length bs)"
| "item_size _ = 1"

definition input_size :: "int \<Rightarrow> kernel \<Rightarrow> nat" where
  "input_size fd k = sum_list (map item_size (k_input k fd))"

lemma os_read_shorter:
  assumes "os_read fd n k = (READ_OK bs, k1)" and "bs \<noteq> []"
  shows "input_size fd k1 < input_size fd k"
  using assms
  by (auto simp: os_read_def input_size_def Let_def split: list.splits input_item.splits if_splits)

text \<open>
  The loop of \<open>read_socket\<close>: a read that fills the buffer is followed by one of twice the size; an
  error after some data is ignored. The sizes are natural numbers (\<open>int\<close> in the code, far below its bound).
\<close>

function read_loop :: "int \<Rightarrow> nat \<Rightarrow> bytes \<Rightarrow> kernel \<Rightarrow> read_result \<times> kernel" where
  "read_loop fd rsz acc k =
     (case os_read fd rsz k of
        (READ_OK bs, k1) \<Rightarrow>
          if bs = [] then (READ_OK acc, k1)
          else if length bs < rsz then (READ_OK (acc @ bs), k1)
          else read_loop fd (rsz * 2) (acc @ bs) k1
      | (e, k1) \<Rightarrow> (if acc = [] then e else READ_OK acc, k1))"
  by pat_completeness auto
termination
  by (relation "measure (\<lambda>(fd, rsz, acc, k). input_size fd k)") (auto dest!: os_read_shorter [OF sym])

declare read_loop.simps [simp del]

definition MIN_READ_BUFFER :: nat where
  "MIN_READ_BUFFER = 64"

text \<open>\<open>read_socket\<close>: the read size follows the amount of data.\<close>

definition next_read_size :: "nat \<Rightarrow> nat \<Rightarrow> nat" where
  "next_read_size sz r =
     (if r > sz then sz * 2 else if sz > MIN_READ_BUFFER \<and> r * 2 < sz then sz div 2 else sz)"

definition read_socket :: "int \<Rightarrow> socket_server \<Rightarrow> read_result \<times> socket_server" where
  "read_socket i S =
     (let so = sock S i; (res, k) = read_loop (so_fd so) (so_p_size so) [] (ss_kernel S);
          S1 = S\<lparr>ss_kernel := k\<rparr> in
      case res of
        READ_OK bs \<Rightarrow>
          (res, if bs = [] then S1
                else put_sock i (so\<lparr>so_p_size := next_read_size (so_p_size so) (length bs)\<rparr>) S1)
      | _ \<Rightarrow> (res, S1))"

definition forward_message_tcp :: "int \<Rightarrow> socket_message \<Rightarrow> socket_server \<Rightarrow> handled" where
  "forward_message_tcp i result S =
     (let (res, S1) = read_socket i S; so = sock S1 i in
      case res of
        READ_EINTR \<Rightarrow> Some (None, result, S1)
      | READ_EAGAIN \<Rightarrow> Some (None, result, S1)
      | READ_ERROR \<Rightarrow> do {
          (result1, S2) \<leftarrow> force_close i S1;
          Some (Some SOCKET_EVENT_ERROR, result1\<lparr>rm_data := MSG_ERRNO\<rparr>, S2)
        }
      | READ_OK bs \<Rightarrow>
          if bs = [] then
            if so_closing so then
              if nomore_sending_data so then do {
                (result1, S2) \<leftarrow> force_close i S1;
                Some (None, result1, S2)
              } else Some (None, result, S1)
            else if is_close_read so then Some (None, result, S1)
            else if is_close_write so then do {
              (result1, S2) \<leftarrow> force_close i S1;
              Some (Some SOCKET_EVENT_CLOSE, result1, S2)
            } else
              let (result1, S2) = close_read i S1 in
              Some (Some SOCKET_EVENT_CLOSE, result1, S2)
          else if is_close_read so then Some (None, result, S1)
          else
            let so1 = statistics_recv (length bs) (ss_time_ticks S1) so in
            Some (Some SOCKET_EVENT_DATA, about so1 (int (length bs)) (MSG_BYTES bs), put_sock i so1 S1))"

definition os_recvfrom :: "int \<Rightarrow> kernel \<Rightarrow> recv_item \<times> kernel" where
  "os_recvfrom fd k =
     (case k_datagrams_in k fd of
        [] \<Rightarrow> (RECV_AGAIN, k)
      | x # xs \<Rightarrow> (x, k\<lparr>k_datagrams_in := (k_datagrams_in k)(fd := xs)\<rparr>))"

definition MAX_UDP_PACKAGE :: nat where
  "MAX_UDP_PACKAGE = 64 * 1024"

text \<open>
  \<open>forward_message_udp\<close>: the address is appended to the data; \<open>ud\<close> is the length without it.
\<close>

definition forward_message_udp :: "int \<Rightarrow> socket_message \<Rightarrow> socket_server \<Rightarrow> handled" where
  "forward_message_udp i result S =
     (let (res, k) = os_recvfrom (so_fd (sock S i)) (ss_kernel S); S1 = S\<lparr>ss_kernel := k\<rparr> in
      case res of
        RECV_AGAIN \<Rightarrow> Some (None, result, S1)
      | RECV_ERROR \<Rightarrow> do {
          (result1, S2) \<leftarrow> force_close i S1;
          Some (Some SOCKET_EVENT_ERROR, result1\<lparr>rm_data := MSG_ERRNO\<rparr>, S2)
        }
      | RECEIVED bytes ep \<Rightarrow>
          let bs = take MAX_UDP_PACKAGE bytes;
              so = statistics_recv (length bs) (ss_time_ticks S1) (sock S1 i);
              S2 = put_sock i so S1;
              t = (case ep of EP_V4 _ _ \<Rightarrow> SOCKET_TYPE_UDP | EP_V6 _ _ \<Rightarrow> SOCKET_TYPE_UDPv6) in
          if so_type so \<noteq> t then Some (None, result, S2)
          else do {
            address \<leftarrow> to_udp_address t ep;
            Some (Some SOCKET_EVENT_UDP, about so (int (length bs)) (MSG_BYTES (bs @ address)), S2)
          })"

subsection \<open>Connections\<close>

definition os_accept :: "int \<Rightarrow> kernel \<Rightarrow> accept_item \<times> kernel" where
  "os_accept fd k =
     (case k_accept k fd of
        [] \<Rightarrow> (ACCEPT_FAILED, k)
      | x # xs \<Rightarrow> (x, k\<lparr>k_accept := (k_accept k)(fd := xs)\<rparr>))"

definition text_data :: "string option \<Rightarrow> msg_data" where
  "text_data t = (case t of None \<Rightarrow> MSG_NULL | Some s \<Rightarrow> MSG_TEXT s)"

text \<open>
  \<open>handle_accept\<close>, with the event that \<open>poll_socket_event\<close> raises for its result (1: accepted, -1:
  out of descriptors, 0: nothing).
\<close>

definition handle_accept :: "int \<Rightarrow> socket_message \<Rightarrow> socket_server \<Rightarrow> handled" where
  "handle_accept i result S =
     (let so = sock S i; (res, k) = os_accept (so_fd so) (ss_kernel S); S1 = S\<lparr>ss_kernel := k\<rparr> in
      case res of
        ACCEPT_FAILED \<Rightarrow> Some (None, result, S1)
      | ACCEPT_FILE_LIMIT \<Rightarrow> Some (Some SOCKET_EVENT_ERROR, about so 0 MSG_ERRNO, S1)
      | ACCEPTED client_fd peer \<Rightarrow>
          let (socket_id, p) = alloc_socket (ss_pool S1); S2 = S1\<lparr>ss_pool := p\<rparr> in
          if socket_id < 0 then
            Some (None, result, S2\<lparr>ss_kernel := os_close client_fd (ss_kernel S2)\<rparr>)
          else do {
            (ok, S3) \<leftarrow> new_socket socket_id client_fd SOCKET_TYPE_TCP (so_svc_handle so) False S2;
            if \<not> ok then Some (None, result, S3\<lparr>ss_kernel := os_close client_fd (ss_kernel S3)\<rparr>)
            else
              let S4 = put_sock i (statistics_recv 1 (ss_time_ticks S3) (sock S3 i)) S3;
                  S5 = set_status socket_id SOCKET_STATUS_PREPARE_ACCEPT S4 in
              Some (Some SOCKET_EVENT_ACCEPT, about (sock S5 i) socket_id (text_data peer), S5)
          })"

definition handle_connect :: "int \<Rightarrow> socket_server \<Rightarrow> handled" where
  "handle_connect i S =
     (case k_so_error (ss_kernel S) (so_fd (sock S i)) of
        Some err \<Rightarrow> do {
          (result, S1) \<leftarrow> force_close i S;
          Some (Some SOCKET_EVENT_ERROR, result\<lparr>rm_data := MSG_TEXT err\<rparr>, S1)
        }
      | None \<Rightarrow>
          let S1 = set_status i SOCKET_STATUS_CONNECTED S;
              (err, S2) = (if nomore_sending_data (sock S1 i) then enable_write i False S1 else (False, S1)) in
          if err then do {
            (result, S3) \<leftarrow> force_close i S2;
            Some (Some SOCKET_EVENT_ERROR, result\<lparr>rm_data := MSG_TEXT ''disable write failed''\<rparr>, S3)
          } else
            Some (Some SOCKET_EVENT_OPEN,
              about (sock S2 i) 0 (text_data (k_peer (ss_kernel S2) (so_fd (sock S2 i)))), S2))"

subsection \<open>The event loop\<close>

text \<open>
  An event of the poller: the slot of its socket (\<open>None\<close> for the pipe and for a cleared event) and
  the flags. The loop keeps the events still to be processed; \<open>el_batches\<close> is what the next waits of
  the poller will return (\<open>None\<close>: interrupted).
\<close>

record poll_event =
  ev_socket :: "int option"
  ev_readable :: bool
  ev_writeable :: bool
  ev_error :: bool
  ev_eof :: bool

record event_loop =
  el_server :: socket_server
  el_check_cmd :: bool
  el_events :: "poll_event list"
  el_batches :: "poll_event list option list"

fun clear_closed_event :: "int \<Rightarrow> socket_server \<Rightarrow> poll_event list \<Rightarrow> poll_event list" where
  "clear_closed_event socket_id S [] = []"
| "clear_closed_event socket_id S (e # rest) =
     (case ev_socket e of
        None \<Rightarrow> e # clear_closed_event socket_id S rest
      | Some i \<Rightarrow>
          if is_invalid (sock S i) socket_id then e\<lparr>ev_socket := None\<rparr> # rest
          else e # clear_closed_event socket_id S rest)"

text \<open>
  What a pass of the loop ends with: the function returns an event (\<open>None\<close> is -1), or goes on. Both
  carry the caller's message as the pass has left it.
\<close>

datatype poll_result = POLL_RETURN "socket_event option" socket_message | POLL_CONTINUE socket_message

definition poll_result_of :: "socket_event option \<Rightarrow> socket_message \<Rightarrow> poll_result" where
  "poll_result_of ev result = (if ev = None then POLL_CONTINUE result else POLL_RETURN ev result)"

text \<open>
  One event of a socket (\<open>busy\<close>: the lock of the direct write is held), with the event that is to be
  processed again, if any.
\<close>

definition handle_event ::
  "bool \<Rightarrow> poll_event \<Rightarrow> int \<Rightarrow> socket_message \<Rightarrow> socket_server \<Rightarrow>
   (poll_result \<times> socket_server \<times> poll_event list) option" where
  "handle_event busy e i result S =
     (let st = so_status (sock S i) in
      if st = SOCKET_STATUS_CONNECTING then do {
        (ev, result1, S1) \<leftarrow> handle_connect i S;
        Some (POLL_RETURN ev result1, S1, [])
      } else if st = SOCKET_STATUS_LISTEN then do {
        (ev, result1, S1) \<leftarrow> handle_accept i result S;
        Some (poll_result_of ev result1, S1, [])
      } else if st = SOCKET_STATUS_INVALID then Some (POLL_CONTINUE result, S, [])
      else if ev_readable e then do {
        (ev, result1, S1) \<leftarrow> (if so_type (sock S i) = SOCKET_TYPE_TCP then forward_message_tcp i result S
                              else forward_message_udp i result S);
        if so_type (sock S i) \<noteq> SOCKET_TYPE_TCP \<and> ev = Some SOCKET_EVENT_UDP
        then Some (POLL_RETURN ev result1, S1, [e])
        else
          Some (poll_result_of ev result1, S1,
            if ev_writeable e \<and> ev \<noteq> Some SOCKET_EVENT_CLOSE \<and> ev \<noteq> Some SOCKET_EVENT_ERROR
            then [e\<lparr>ev_readable := False\<rparr>] else [])
      } else if ev_writeable e then do {
        (ev, result1, S1) \<leftarrow> send_write_buffer busy i result S;
        Some (poll_result_of ev result1, S1, [])
      } else if ev_error e then do {
        (result1, S1) \<leftarrow> force_close i S;
        Some (POLL_RETURN (Some SOCKET_EVENT_ERROR)
          (result1\<lparr>rm_data := MSG_TEXT (case k_so_error (ss_kernel S) (so_fd (sock S i)) of
                                          None \<Rightarrow> ''Unknown error'' | Some err \<Rightarrow> err)\<rparr>), S1, [])
      } else if ev_eof e then do {
        (result1, S1) \<leftarrow> force_close i S;
        Some (POLL_RETURN (if is_close_read (sock S1 i) then None else Some SOCKET_EVENT_CLOSE) result1, S1, [])
      } else Some (POLL_CONTINUE result, S, []))"

text \<open>
  One pass of the loop of \<open>poll_socket_event\<close>, in three steps: a command of the pipe, the next batch
  of events when all are done, and one event. \<open>None\<close> as a whole: the process aborts, or the poller
  waits for ever. \<open>is_more\<close> is the caller's flag.
\<close>

definition poll_command ::
  "bool \<Rightarrow> socket_message \<Rightarrow> event_loop \<Rightarrow> (poll_result \<times> bool \<times> event_loop) option" where
  "poll_command is_more result E = do {
     (ev, result1, S1) \<leftarrow> handle_ctrl_cmd result (el_server E);
     Some (poll_result_of ev result1, is_more,
       if ev = Some SOCKET_EVENT_CLOSE \<or> ev = Some SOCKET_EVENT_ERROR
       then E\<lparr>el_server := S1, el_events := clear_closed_event (rm_socket_id result1) S1 (el_events E)\<rparr>
       else E\<lparr>el_server := S1\<rparr>)
   }"

definition poll_one ::
  "bool \<Rightarrow> bool \<Rightarrow> socket_message \<Rightarrow> event_loop \<Rightarrow> poll_event \<Rightarrow> poll_event list \<Rightarrow>
   (poll_result \<times> bool \<times> event_loop) option" where
  "poll_one busy is_more result E e rest =
     (case ev_socket e of
        None \<Rightarrow> Some (POLL_CONTINUE result, is_more, E\<lparr>el_events := rest\<rparr>)
      | Some i \<Rightarrow> do {
          (r, S1, again) \<leftarrow> handle_event busy e i result (el_server E);
          Some (r, is_more, E\<lparr>el_server := S1, el_events := again @ rest\<rparr>)
        })"

definition poll_round ::
  "bool \<Rightarrow> bool \<Rightarrow> socket_message \<Rightarrow> event_loop \<Rightarrow> (poll_result \<times> bool \<times> event_loop) option" where
  "poll_round busy is_more result E =
     (if el_check_cmd E \<and> ss_pipe (el_server E) \<noteq> [] then poll_command is_more result E
      else
        let E0 = E\<lparr>el_check_cmd := False\<rparr> in
        case el_events E0 of
          e # rest \<Rightarrow> poll_one busy is_more result E0 e rest
        | [] \<Rightarrow>
            (case el_batches E0 of
               [] \<Rightarrow> None
             | b # bs \<Rightarrow>
                 let E1 = E0\<lparr>el_check_cmd := True, el_batches := bs\<rparr> in
                 (case b of
                    None \<Rightarrow> Some (POLL_CONTINUE result, False, E1)
                  | Some [] \<Rightarrow> Some (POLL_RETURN None result, False, E1)
                  | Some (e # rest) \<Rightarrow> poll_one busy False result E1 e rest)))"

text \<open>The loop, for as many passes as it needs.\<close>

partial_function (option) poll_socket_event ::
  "bool \<Rightarrow> bool \<Rightarrow> socket_message \<Rightarrow> event_loop \<Rightarrow>
   ((socket_event option \<times> socket_message \<times> bool) \<times> event_loop) option"
where
  "poll_socket_event busy is_more result E =
     (case poll_round busy is_more result E of
        None \<Rightarrow> None
      | Some (r, is_more1, E1) \<Rightarrow>
          (case r of
             POLL_RETURN ev result1 \<Rightarrow> Some ((ev, result1, is_more1), E1)
           | POLL_CONTINUE result1 \<Rightarrow> poll_socket_event busy is_more1 result1 E1))"

subsection \<open>Start and end of the server\<close>

text \<open>
  \<open>init\<close>, with the success of the three system calls it makes: the poller, the pipe and the
  registration of the pipe. \<open>fini\<close> (the destructor) closes every socket that is not just allocated.
\<close>

definition server_init :: "u64 \<Rightarrow> bool \<times> bool \<times> bool \<Rightarrow> kernel \<Rightarrow> socket_server option" where
  "server_init ticks calls k =
     (let (poller, pipe, added) = calls in
      if \<not> poller then None
      else if \<not> pipe then None
      else if \<not> added then None
      else Some \<lparr>ss_time_ticks = ticks, ss_pipe = [], ss_pool = empty_pool, ss_kernel = k\<rparr>)"

fun close_all :: "nat list \<Rightarrow> socket_server \<Rightarrow> socket_server option" where
  "close_all [] S = Some S"
| "close_all (i # is) S =
     (if so_status (sock S (int i)) \<noteq> SOCKET_STATUS_ALLOCED then do {
        (_, S1) \<leftarrow> force_close (int i) S;
        close_all is S1
      } else close_all is S)"

definition server_fini :: "socket_server \<Rightarrow> socket_server option" where
  "server_fini = close_all [0..<MAX_SOCKET]"

definition server_update_time :: "u64 \<Rightarrow> socket_server \<Rightarrow> socket_server" where
  "server_update_time ticks S = S\<lparr>ss_time_ticks := ticks\<rparr>"

subsection \<open>Nothing that arrives is lost\<close>

fun item_bytes :: "input_item \<Rightarrow> bytes" where
  "item_bytes (IN_BYTES bs) = bs"
| "item_bytes _ = []"

definition incoming :: "int \<Rightarrow> kernel \<Rightarrow> bytes" where
  "incoming fd k = concat (map item_bytes (k_input k fd))"

fun result_bytes :: "read_result \<Rightarrow> bytes" where
  "result_bytes (READ_OK bs) = bs"
| "result_bytes _ = []"

lemma os_read_incoming:
  "os_read fd n k = (r, k1) \<Longrightarrow> incoming fd k = result_bytes r @ incoming fd k1"
  by (auto simp: os_read_def incoming_def Let_def split: list.splits input_item.splits if_splits)

lemma read_loop_incoming:
  "read_loop fd rsz acc k = (r, k1) \<Longrightarrow> acc @ incoming fd k = result_bytes r @ incoming fd k1"
proof (induction fd rsz acc k rule: read_loop.induct)
  case (1 fd rsz acc k)
  obtain r' k' where rd: "os_read fd rsz k = (r', k')" by fastforce
  note inc = os_read_incoming [OF rd]
  show ?case
  proof (cases r')
    case (READ_OK bs)
    then show ?thesis
      using 1 rd inc by (auto simp: read_loop.simps [of fd rsz acc k] split: if_splits)
  qed (use 1(2) rd inc in \<open>auto simp: read_loop.simps [of fd rsz acc k] split: if_splits\<close>)
qed

text \<open>Input that consists of data only.\<close>

definition only_data :: "input_item list \<Rightarrow> bool" where
  "only_data items \<longleftrightarrow> (\<forall>x \<in> set items. \<exists>bs. x = IN_BYTES bs \<and> bs \<noteq> [])"

lemma read_loop_progress:
  assumes "only_data (k_input k fd)" "0 < rsz" "k_input k fd \<noteq> [] \<or> acc \<noteq> []"
  shows "\<exists>out k1. read_loop fd rsz acc k = (READ_OK out, k1) \<and> out \<noteq> [] \<and> only_data (k_input k1 fd) \<and>
    length (k_input k1 fd) \<le> length (k_input k fd) - 1"
  using assms
proof (induction fd rsz acc k rule: read_loop.induct)
  case (1 fd rsz acc k)
  show ?case
  proof (cases "k_input k fd")
    case Nil
    with 1(4) show ?thesis
      by (auto simp: read_loop.simps [of fd rsz acc k] os_read_def only_data_def)
  next
    case (Cons x rest)
    then obtain bs where x: "x = IN_BYTES bs" "bs \<noteq> []" and rest: "only_data rest"
      using 1(2) by (auto simp: only_data_def)
    define k1 where "k1 = k\<lparr>k_input := (k_input k)(fd :=
      if length bs \<le> rsz then rest else IN_BYTES (drop rsz bs) # rest)\<rparr>"
    have rd: "os_read fd rsz k = (READ_OK (take rsz bs), k1)"
      using Cons x by (simp add: os_read_def k1_def)
    have ne: "take rsz bs \<noteq> []"
      using x(2) 1(3) by simp
    have k1: "only_data (k_input k1 fd)" "length (k_input k1 fd) \<le> length (k_input k fd)"
      "length bs \<le> rsz \<Longrightarrow> k_input k1 fd = rest"
      using rest Cons by (auto simp: k1_def only_data_def)
    show ?thesis
    proof (cases "length bs < rsz")
      case True
      then show ?thesis
        using rd ne k1 Cons by (auto simp: read_loop.simps [of fd rsz acc k])
    next
      case False
      then have loop: "read_loop fd rsz acc k = read_loop fd (rsz * 2) (acc @ take rsz bs) k1"
        using rd ne by (simp add: read_loop.simps [of fd rsz acc k])
      obtain out k2 where "read_loop fd (rsz * 2) (acc @ take rsz bs) k1 = (READ_OK out, k2)" "out \<noteq> []"
        "only_data (k_input k2 fd)" "length (k_input k2 fd) \<le> length (k_input k1 fd) - 1"
        using 1(1) [OF rd [symmetric] refl ne] False k1(1) 1(3) ne by auto
      with loop k1(2) show ?thesis by fastforce
    qed
  qed
qed

text \<open>A connected socket that reads.\<close>

definition reading_ok :: "int \<Rightarrow> socket_server \<Rightarrow> bool" where
  "reading_ok sid S \<longleftrightarrow>
     so_status (sock S sid) = SOCKET_STATUS_CONNECTED \<and> so_type (sock S sid) = SOCKET_TYPE_TCP \<and>
     0 < so_p_size (sock S sid)"

lemma next_read_size_pos: "0 < sz \<Longrightarrow> 0 < next_read_size sz r"
  by (simp add: next_read_size_def MIN_READ_BUFFER_def)

lemma forward_data:
  assumes ok: "reading_ok sid S" and data: "only_data (k_input (ss_kernel S) (so_fd (sock S sid)))"
    and ne: "k_input (ss_kernel S) (so_fd (sock S sid)) \<noteq> []"
  obtains d S' where "forward_message_tcp sid r S
      = Some (Some SOCKET_EVENT_DATA, about (sock S sid) (int (length d)) (MSG_BYTES d), S')"
    "d \<noteq> []" "reading_ok sid S'" "so_fd (sock S' sid) = so_fd (sock S sid)"
    "only_data (k_input (ss_kernel S') (so_fd (sock S sid)))"
    "length (k_input (ss_kernel S') (so_fd (sock S sid))) < length (k_input (ss_kernel S) (so_fd (sock S sid)))"
    "incoming (so_fd (sock S sid)) (ss_kernel S) = d @ incoming (so_fd (sock S sid)) (ss_kernel S')"
proof -
  define so where "so = sock S sid"
  obtain d k where loop: "read_loop (so_fd so) (so_p_size so) [] (ss_kernel S) = (READ_OK d, k)" "d \<noteq> []"
    "only_data (k_input k (so_fd so))"
    "length (k_input k (so_fd so)) \<le> length (k_input (ss_kernel S) (so_fd so)) - 1"
    using read_loop_progress [of "ss_kernel S" "so_fd so" "so_p_size so" "[]"] ok data ne
    by (auto simp: reading_ok_def so_def)
  define so1 where "so1 = so\<lparr>so_p_size := next_read_size (so_p_size so) (length d)\<rparr>"
  define S' where "S' = put_sock sid (statistics_recv (length d) (ss_time_ticks S) so1)
    (put_sock sid so1 (S\<lparr>ss_kernel := k\<rparr>))"
  have read: "read_socket sid S = (READ_OK d, put_sock sid so1 (S\<lparr>ss_kernel := k\<rparr>))"
    using loop by (simp add: read_socket_def so1_def flip: so_def)
  have st: "so_status so1 = SOCKET_STATUS_CONNECTED"
    using ok by (simp add: so1_def reading_ok_def so_def)
  have "forward_message_tcp sid r S
      = Some (Some SOCKET_EVENT_DATA, about so (int (length d)) (MSG_BYTES d), S')"
    using read loop(2) st
    by (simp add: forward_message_tcp_def is_close_read_def S'_def about_def statistics_recv_def so1_def Let_def)
  moreover have "reading_ok sid S'" "so_fd (sock S' sid) = so_fd so"
    using ok next_read_size_pos [of "so_p_size so"]
    by (simp_all add: reading_ok_def S'_def so1_def statistics_recv_def so_def)
  moreover have "ss_kernel S' = k"
    by (simp add: S'_def)
  moreover have "length (k_input k (so_fd so)) < length (k_input (ss_kernel S) (so_fd so))"
    using loop(4) ne by (cases "k_input (ss_kernel S) (so_fd so)") (auto simp: so_def)
  ultimately show thesis
    using loop read_loop_incoming [OF loop(1)] that unfolding so_def by simp
qed

text \<open>A number of read events of one socket, and the data they report.\<close>

fun read_events :: "nat \<Rightarrow> int \<Rightarrow> socket_server \<Rightarrow> (bytes list \<times> socket_server) option" where
  "read_events 0 i S = Some ([], S)"
| "read_events (Suc n) i S = do {
     (ev, r, S1) \<leftarrow> forward_message_tcp i no_message S;
     (ds, S2) \<leftarrow> read_events n i S1;
     Some ((case (ev, rm_data r) of (Some SOCKET_EVENT_DATA, MSG_BYTES d) \<Rightarrow> [d] | _ \<Rightarrow> []) @ ds, S2)
   }"

lemma forward_nothing:
  assumes "k_input (ss_kernel S) (so_fd (sock S sid)) = []"
  shows "forward_message_tcp sid r S = Some (None, r, S)"
  using assms by (simp add: forward_message_tcp_def read_socket_def read_loop.simps os_read_def)

text \<open>Enough read events report everything that has arrived, in order and in non-empty pieces.\<close>

lemma read_events_complete:
  assumes "reading_ok sid S" and "only_data (k_input (ss_kernel S) (so_fd (sock S sid)))"
    and "length (k_input (ss_kernel S) (so_fd (sock S sid))) \<le> n"
  shows "\<exists>ds S'. read_events n sid S = Some (ds, S') \<and> [] \<notin> set ds \<and>
    concat ds = incoming (so_fd (sock S sid)) (ss_kernel S)"
  using assms
proof (induction n arbitrary: S)
  case 0
  then show ?case by (simp add: incoming_def)
next
  case (Suc n)
  define fd where "fd = so_fd (sock S sid)"
  show ?case
  proof (cases "k_input (ss_kernel S) fd = []")
    case True
    then show ?thesis
      using Suc forward_nothing [of S sid] by (fastforce simp: no_message_def fd_def)
  next
    case False
    obtain d S' where d: "forward_message_tcp sid no_message S
        = Some (Some SOCKET_EVENT_DATA, about (sock S sid) (int (length d)) (MSG_BYTES d), S')"
      "d \<noteq> []" "reading_ok sid S'" "so_fd (sock S' sid) = fd" "only_data (k_input (ss_kernel S') fd)"
      "length (k_input (ss_kernel S') fd) < length (k_input (ss_kernel S) fd)"
      "incoming fd (ss_kernel S) = d @ incoming fd (ss_kernel S')"
      using forward_data [OF Suc.prems(1,2) False [unfolded fd_def], where r = no_message]
      unfolding fd_def by metis
    obtain ds S2 where "read_events n sid S' = Some (ds, S2)" "[] \<notin> set ds"
      "concat ds = incoming fd (ss_kernel S')"
      using Suc.IH [OF d(3)] d(4-6) Suc.prems(3) by (auto simp: fd_def)
    with d show ?thesis
      by (auto simp: about_def simp flip: fd_def)
  qed
qed

end
