(* ===== verification/Socket_Loop.thy ===== *)
theory Socket_Loop
  imports Socket_Events
begin

text \<open>
  The loop of \<open>poll_socket_event\<close>: it ends, and it reports the data of a connection that has become
  readable. Each pass that does not return uses up a command, an event or a batch of the poller.
\<close>

subsection \<open>The handlers leave the pipe alone\<close>

named_theorems pipe_kept

lemma enable_pipe [pipe_kept]:
  "enable_write i b S = (e, S') \<Longrightarrow> ss_pipe S' = ss_pipe S"
  "enable_read i b S = (e, S') \<Longrightarrow> ss_pipe S' = ss_pipe S"
  by (auto simp: enable_write_def enable_read_def Let_def split: prod.splits if_splits)

lemma force_close_pipe [pipe_kept]: "force_close i S = Some (r, S') \<Longrightarrow> ss_pipe S' = ss_pipe S"
  by (auto simp: force_close_def Let_def bind_eq_Some_conv split: if_splits)

lemma close_read_pipe [pipe_kept]: "close_read i S = (r, S') \<Longrightarrow> ss_pipe S' = ss_pipe S"
  by (auto simp: close_read_def Let_def split: prod.splits dest: pipe_kept)

lemma set_status_pipe [simp]: "ss_pipe (set_status i st S) = ss_pipe S"
  by (simp add: set_status_def)

lemma new_socket_pipe [pipe_kept]:
  "new_socket i fd t h b S = Some (ok, S') \<Longrightarrow> ss_pipe S' = ss_pipe S"
  by (auto simp: new_socket_def Let_def bind_eq_Some_conv split: prod.splits if_splits dest: pipe_kept)

lemma connect_socket_pipe [pipe_kept]:
  "handle_connect_socket i p h host S = Some (ev, r, S') \<Longrightarrow> ss_pipe S' = ss_pipe S"
  by (auto simp: handle_connect_socket_def Let_def bind_eq_Some_conv
      split: prod.splits if_splits option.splits dest!: pipe_kept)

lemma close_socket_pipe [pipe_kept]:
  "handle_close_socket i sh r S = Some (ev, r', S') \<Longrightarrow> ss_pipe S' = ss_pipe S"
  by (auto simp: handle_close_socket_def Let_def bind_eq_Some_conv split: prod.splits if_splits dest!: pipe_kept)

lemma warn_pipe [pipe_kept]: "warn_write_size i r S = Some (ev, r', S') \<Longrightarrow> ss_pipe S' = ss_pipe S"
  by (auto simp: warn_write_size_def Let_def split: if_splits)

lemma queue_pipe [pipe_kept]: "queue_and_enable i so r S = Some (ev, r', S') \<Longrightarrow> ss_pipe S' = ss_pipe S"
  by (auto simp: queue_and_enable_def Let_def split: prod.splits if_splits dest!: pipe_kept)

lemma send_socket_pipe [pipe_kept]:
  "handle_send_socket i p b a r S = Some (ev, r', S') \<Longrightarrow> ss_pipe S' = ss_pipe S"
  by (auto simp: handle_send_socket_def Let_def bind_eq_Some_conv
      split: prod.splits if_splits option.splits dest!: pipe_kept)

lemma other_handlers_pipe [pipe_kept]:
  "handle_bind_os_fd i fd h r S = Some (ev, r', S') \<Longrightarrow> ss_pipe S' = ss_pipe S"
  "handle_listen_socket i fd h r S = Some (ev, r', S') \<Longrightarrow> ss_pipe S' = ss_pipe S"
  "handle_udp_socket i fd f h r S = Some (ev, r', S') \<Longrightarrow> ss_pipe S' = ss_pipe S"
  "handle_resume_socket i h S = Some (ev, r', S') \<Longrightarrow> ss_pipe S' = ss_pipe S"
  "handle_pause_socket i h r S = Some (ev, r', S') \<Longrightarrow> ss_pipe S' = ss_pipe S"
  "handle_trigger_write i r S = Some (ev, r', S') \<Longrightarrow> ss_pipe S' = ss_pipe S"
  "handle_set_udp_address i addr r S = Some (ev, r', S') \<Longrightarrow> ss_pipe S' = ss_pipe S"
  "handle_setopt_socket i r S = Some (ev, r', S') \<Longrightarrow> ss_pipe S' = ss_pipe S"
  "handle_exit_socket S = Some (ev, r', S') \<Longrightarrow> ss_pipe S' = ss_pipe S"
  by (auto simp: handle_bind_os_fd_def handle_listen_socket_def handle_udp_socket_def handle_resume_socket_def
      handle_pause_socket_def handle_trigger_write_def handle_set_udp_address_def handle_setopt_socket_def
      handle_exit_socket_def Let_def bind_eq_Some_conv split: prod.splits if_splits dest!: pipe_kept)

lemma run_ctrl_cmd_pipe: "run_ctrl_cmd c r S = Some (ev, r', S') \<Longrightarrow> ss_pipe S' = ss_pipe S"
  by (auto simp: run_ctrl_cmd_def bind_eq_Some_conv
      split: if_splits cmd_request.splits option.splits dest: pipe_kept)

lemma handle_ctrl_cmd_shorter:
  "handle_ctrl_cmd r S = Some (ev, r', S') \<Longrightarrow> length (ss_pipe S') < length (ss_pipe S)"
  by (auto simp: handle_ctrl_cmd_def split: list.splits dest!: run_ctrl_cmd_pipe)

subsection \<open>The loop ends\<close>

definition event_weight :: "poll_event \<Rightarrow> nat" where
  "event_weight e = (if ev_readable e then 2 else 1)"

definition events_weight :: "poll_event list \<Rightarrow> nat" where
  "events_weight evs = sum_list (map event_weight evs)"

lemma events_weight_simps [simp]:
  "events_weight [] = 0" "events_weight (e # es) = event_weight e + events_weight es"
  "events_weight (es @ fs) = events_weight es + events_weight fs"
  by (simp_all add: events_weight_def)

lemma clear_closed_event_weight: "events_weight (clear_closed_event i S evs) = events_weight evs"
  by (induction evs) (auto simp: event_weight_def split: option.split)

text \<open>An event that does not make the loop return is processed again only with less to do.\<close>

lemma handle_event_again:
  "handle_event busy e i r S = Some (POLL_CONTINUE r', S', again) \<Longrightarrow> events_weight again < event_weight e"
  by (auto simp: handle_event_def Let_def bind_eq_Some_conv poll_result_of_def event_weight_def
      split: if_splits)

type_synonym poll_state = "bool \<times> socket_message \<times> event_loop"

definition poll_continues :: "bool \<Rightarrow> poll_state \<Rightarrow> poll_state \<Rightarrow> bool" where
  "poll_continues busy = (\<lambda>(m, r, E) (m', r', E'). poll_round busy m r E = Some (POLL_CONTINUE r', m', E'))"

definition poll_measure :: "(poll_state \<times> poll_state) set" where
  "poll_measure = measures
     [\<lambda>(m, r, E). length (el_batches E), \<lambda>(m, r, E). events_weight (el_events E),
      \<lambda>(m, r, E). length (ss_pipe (el_server E))]"

lemma poll_one_decreases:
  assumes "poll_one busy m r E e rest = Some (POLL_CONTINUE r', m', E')"
  shows "el_batches E' = el_batches E" "events_weight (el_events E') < event_weight e + events_weight rest"
  using assms
  by (auto simp: poll_one_def bind_eq_Some_conv event_weight_def split: option.splits dest: handle_event_again)

lemma poll_continues_decreases:
  assumes "poll_continues busy s s'"
  shows "(s', s) \<in> poll_measure"
proof -
  obtain m r E m' r' E' where s: "s = (m, r, E)" "s' = (m', r', E')"
    by (metis prod_cases3)
  have round: "poll_round busy m r E = Some (POLL_CONTINUE r', m', E')"
    using assms by (simp add: s poll_continues_def)
  show ?thesis
  proof (cases "el_check_cmd E \<and> ss_pipe (el_server E) \<noteq> []")
    case True
    then show ?thesis
      using round
      by (auto simp: s poll_measure_def poll_round_def poll_command_def bind_eq_Some_conv poll_result_of_def
          clear_closed_event_weight dest!: handle_ctrl_cmd_shorter split: if_splits)
  next
    case False
    then show ?thesis
      using round
      by (auto simp: s poll_measure_def poll_round_def Let_def split: list.splits option.splits if_splits
          dest: poll_one_decreases)
  qed
qed

text \<open>The states that the loop passes through.\<close>

inductive poll_reaches :: "bool \<Rightarrow> poll_state \<Rightarrow> poll_state \<Rightarrow> bool" for busy where
  start: "poll_reaches busy s s"
| pass: "poll_continues busy s s' \<Longrightarrow> poll_reaches busy s' s'' \<Longrightarrow> poll_reaches busy s s''"

lemma poll_measure_wf: "wf poll_measure"
  by (simp add: poll_measure_def)

lemma poll_loop_outcome:
  "(\<exists>res. poll_socket_event busy m r E = Some res) \<or>
   (\<exists>m' r' E'. poll_reaches busy (m, r, E) (m', r', E') \<and> poll_round busy m' r' E' = None)"
  (is "?P m r E")
proof -
  have "\<forall>m r E. s = (m, r, E) \<longrightarrow> ?P m r E" for s
  proof (induction s rule: wf_induct_rule [OF poll_measure_wf])
    case (1 s)
    show ?case
    proof (intro allI impI)
      fix m r E
      assume s: "s = (m, r, E)"
      show "?P m r E"
      proof (cases "poll_round busy m r E")
        case None
        then show ?thesis using start by metis
      next
        case (Some x)
        obtain res m1 E1 where x: "x = (res, m1, E1)" by (cases x)
        show ?thesis
        proof (cases res)
          case (POLL_RETURN ev r1)
          then show ?thesis using Some x by (simp add: poll_socket_event.simps [of busy m r E])
        next
          case (POLL_CONTINUE r1)
          then have c: "poll_continues busy (m, r, E) (m1, r1, E1)"
            using Some x by (simp add: poll_continues_def)
          have "poll_socket_event busy m r E = poll_socket_event busy m1 r1 E1"
            using Some x POLL_CONTINUE by (simp add: poll_socket_event.simps [of busy m r E])
          moreover have "?P m1 r1 E1"
            using 1 [OF poll_continues_decreases [OF c [folded s]]] by simp
          ultimately show ?thesis
            by (metis pass [OF c])
        qed
      qed
    qed
  qed
  then show ?thesis by simp
qed

text \<open>Why a pass has no outcome: the poller waits, or a handler aborts the process.\<close>

definition poll_waits :: "event_loop \<Rightarrow> bool" where
  "poll_waits E \<longleftrightarrow>
     \<not> (el_check_cmd E \<and> ss_pipe (el_server E) \<noteq> []) \<and> el_events E = [] \<and> el_batches E = []"

definition next_events :: "event_loop \<Rightarrow> poll_event list" where
  "next_events E =
     (if el_events E \<noteq> [] then el_events E else case el_batches E of Some evs # _ \<Rightarrow> evs | _ \<Rightarrow> [])"

definition poll_aborts :: "bool \<Rightarrow> poll_state \<Rightarrow> bool" where
  "poll_aborts busy = (\<lambda>(m, r, E).
     (el_check_cmd E \<and> ss_pipe (el_server E) \<noteq> [] \<and> handle_ctrl_cmd r (el_server E) = None) \<or>
     (\<exists>e i. next_events E \<noteq> [] \<and> e = hd (next_events E) \<and> ev_socket e = Some i \<and>
        handle_event busy e i r (el_server E) = None))"

lemma poll_round_None:
  assumes "poll_round busy m r E = None"
  shows "poll_waits E \<or> poll_aborts busy (m, r, E)"
proof (cases "el_check_cmd E \<and> ss_pipe (el_server E) \<noteq> []")
  case True
  then show ?thesis
    using assms by (auto simp: poll_round_def poll_command_def poll_aborts_def bind_eq_None_conv)
next
  case False
  then show ?thesis
    using assms
    by (auto simp: poll_round_def poll_one_def poll_aborts_def poll_waits_def next_events_def Let_def
        bind_eq_None_conv split: list.splits option.splits)
qed


subsection \<open>Received data is reported\<close>

text \<open>The loop at a readable connection that has data, with no command waiting.\<close>

definition readable_event :: "int \<Rightarrow> poll_event" where
  "readable_event i = \<lparr>ev_socket = Some i, ev_readable = True, ev_writeable = False, ev_error = False, ev_eof = False\<rparr>"

definition has_data :: "int \<Rightarrow> socket_server \<Rightarrow> bool" where
  "has_data sid S \<longleftrightarrow> reading_ok sid S \<and> ss_pipe S = [] \<and>
     only_data (k_input (ss_kernel S) (so_fd (sock S sid))) \<and> k_input (ss_kernel S) (so_fd (sock S sid)) \<noteq> []"

lemma poll_reports_data:
  assumes data: "has_data sid (el_server E)" and ev: "el_events E = []"
    and batch: "el_batches E = Some [readable_event sid] # bs"
  obtains d S' where "poll_socket_event busy m r E =
      Some ((Some SOCKET_EVENT_DATA, about (sock (el_server E) sid) (int (length d)) (MSG_BYTES d), False),
            E\<lparr>el_server := S', el_check_cmd := True, el_batches := bs\<rparr>)"
    "d \<noteq> []" "reading_ok sid S'" "so_fd (sock S' sid) = so_fd (sock (el_server E) sid)"
    "incoming (so_fd (sock (el_server E) sid)) (ss_kernel (el_server E))
       = d @ incoming (so_fd (sock (el_server E) sid)) (ss_kernel S')"
proof -
  define S where "S = el_server E"
  obtain d S' where d: "forward_message_tcp sid r S
      = Some (Some SOCKET_EVENT_DATA, about (sock S sid) (int (length d)) (MSG_BYTES d), S')"
    "d \<noteq> []" "reading_ok sid S'" "so_fd (sock S' sid) = so_fd (sock S sid)"
    "incoming (so_fd (sock S sid)) (ss_kernel S) = d @ incoming (so_fd (sock S sid)) (ss_kernel S')"
    using data by (auto simp: has_data_def S_def elim: forward_data [where r = r])
  have "handle_event busy (readable_event sid) sid r S =
      Some (POLL_RETURN (Some SOCKET_EVENT_DATA) (about (sock S sid) (int (length d)) (MSG_BYTES d)), S', [])"
    using data d(1) by (simp add: handle_event_def has_data_def reading_ok_def readable_event_def poll_result_of_def S_def)
  then have "poll_round busy m r E =
      Some (POLL_RETURN (Some SOCKET_EVENT_DATA) (about (sock S sid) (int (length d)) (MSG_BYTES d)), False,
            E\<lparr>el_server := S', el_check_cmd := True, el_batches := bs\<rparr>)"
    using data ev batch
    by (simp add: poll_round_def poll_one_def has_data_def S_def readable_event_def)
  then show thesis
    using d(2-) that [unfolded S_def [symmetric]] by (simp add: poll_socket_event.simps [of busy m r E])
qed

definition demo_receiver :: "input_item list \<Rightarrow> socket_server" where
  "demo_receiver items =
     (demo_server [])\<lparr>ss_pool := set_socket 5 (demo_socket\<lparr>so_svc_handle := 1, so_p_size := 64\<rparr>) empty_pool,
       ss_kernel := (demo_kernel [])\<lparr>k_input := (\<lambda>_. items)\<rparr>\<rparr>"

lemma demo_receiver_fields:
  "sock (demo_receiver items) 5 = demo_socket\<lparr>so_svc_handle := 1, so_p_size := 64\<rparr>"
  "k_input (ss_kernel (demo_receiver items)) 7 = items" "ss_pipe (demo_receiver items) = []"
  "so_fd demo_socket = 7" "so_id demo_socket = 5"
  by (simp_all add: demo_receiver_def demo_server_def demo_socket_def)

lemma demo_receiver_ready: "reading_ok 5 (demo_receiver items)"
  by (simp add: reading_ok_def demo_receiver_fields) (simp add: demo_socket_def)

end
