(* ===== verification/Socket_Udp.thy ===== *)
theory Socket_Udp
  imports Socket_Events
begin

text \<open>
  Datagrams: the address that the socket server appends to received data is the address that an
  answer is sent to; and the connecting count of \<open>udp_connect\<close>.
\<close>

lemma address_of_endpoint:
  assumes "endpoint_ok ep" and "t = (case ep of EP_V4 _ _ \<Rightarrow> SOCKET_TYPE_UDP | EP_V6 _ _ \<Rightarrow> SOCKET_TYPE_UDPv6)"
  obtains a where "to_udp_address t ep = Some a" "udp_address_size a = Some (length a)" "from_udp_address t a = Some ep"
proof (cases ep)
  case (EP_V4 port ip)
  then show thesis
    using assms by (intro that [of "1 # port @ ip"]) (auto simp: udp_address_size_def from_udp_address_def take_at_def)
next
  case (EP_V6 port ip)
  then show thesis
    using assms
    by (intro that [of "2 # port @ ip"]) (auto simp: udp_address_size_def from_udp_address_def take_at_def)
qed

text \<open>
  An answer to a datagram goes back to its sender: a datagram that arrives on a UDP socket of
  either family is reported with its data and an address; an answer that a service sends to this
  address, when the socket is idle and the kernel accepts it, is one datagram with exactly the data
  given, to the endpoint that the received datagram came from.
\<close>

theorem datagram_answer_goes_back:
  assumes ep: "endpoint_ok ep"
    and type: "so_type (sock S sid) = (case ep of EP_V4 _ _ \<Rightarrow> SOCKET_TYPE_UDP | EP_V6 _ _ \<Rightarrow> SOCKET_TYPE_UDPv6)"
    and idle: "can_direct_send (sock S sid) sid" "\<not> is_invalid (sock S sid) sid"
    and arrived: "k_datagrams_in (ss_kernel S) (so_fd (sock S sid)) = RECEIVED bs ep # rest" "length bs \<le> MAX_UDP_PACKAGE"
    and accepted: "k_answers (ss_kernel S) = IO_OK n # as" "length d \<le> n"
  shows "\<exists>r S1 a S2. forward_message_udp sid no_message S = Some (Some SOCKET_EVENT_UDP, r, S1) \<and>
    (\<exists>data. rm_data r = MSG_BYTES data \<and> take (nat (rm_ud r)) data = bs) \<and> rm_socket_id r = so_id (sock S sid) \<and>
    msg_udp_address r = Some a \<and> server_udp_send False a (user_data sid d) S1 = Some (0, S2) \<and>
    k_datagrams (ss_kernel S2) = k_datagrams (ss_kernel S) @ [(so_fd (sock S sid), d, ep)]"
proof -
  define so where "so = sock S sid"
  define k where "k = (ss_kernel S)\<lparr>k_datagrams_in := (k_datagrams_in (ss_kernel S))(so_fd so := rest)\<rparr>"
  define so1 where "so1 = statistics_recv (length bs) (ss_time_ticks S) so"
  define S1 where "S1 = put_sock sid so1 (S\<lparr>ss_kernel := k\<rparr>)"
  obtain a where a: "to_udp_address (so_type so) ep = Some a" "udp_address_size a = Some (length a)"
    "from_udp_address (so_type so) a = Some ep"
    using address_of_endpoint [OF ep type] so_def by metis
  define r where "r = about so1 (int (length bs)) (MSG_BYTES (bs @ a))"
  have so1: "so_type so1 = so_type so" "so_fd so1 = so_fd so" "so_id so1 = so_id so" "can_direct_send so1 sid"
    "\<not> is_invalid so1 sid"
    using idle by (auto simp: so1_def statistics_recv_def so_def can_direct_send_def is_invalid_def
        nomore_sending_data_def is_write_buffer_empty_def is_close_write_def)
  have fwd: "forward_message_udp sid no_message S = Some (Some SOCKET_EVENT_UDP, r, S1)"
    using arrived type a(1) so1
    by (simp add: forward_message_udp_def os_recvfrom_def Let_def S1_def k_def r_def flip: so_def so1_def)
  have addr: "msg_udp_address r = Some a"
    using a(2) by (simp add: msg_udp_address_def r_def about_def)
  obtain k2 where k2: "os_sendto (so_fd so) d ep k = (IO_OK (length d), k2)"
    "k_datagrams k2 = k_datagrams (ss_kernel S) @ [(so_fd so, d, ep)]"
    using accepted by (simp add: os_sendto_def next_answer_def k_def min_def)
  obtain S2 where S2: "server_udp_send False a (user_data sid d) S1 = Some (0, S2)" "ss_kernel S2 = k2"
    using so1 a k2(1)
    by (simp add: server_udp_send_def udp_direct_send_def init_send_user_object_sd_def user_data_def S1_def Let_def)
  then show ?thesis
    using fwd addr k2(2) so1(3)
    by (intro exI [of _ r] exI [of _ S1] exI [of _ a] exI [of _ S2]) (simp add: r_def about_def so_def)
qed

definition demo_udp :: socket_server where
  "demo_udp =
     (demo_server [])\<lparr>ss_pool := set_socket 5 (demo_socket\<lparr>so_type := SOCKET_TYPE_UDP\<rparr>) empty_pool,
       ss_kernel := (demo_kernel [IO_OK 1])\<lparr>k_datagrams_in := (\<lambda>_. [RECEIVED [7] (EP_V4 [0, 80] [1, 2, 3, 4])])\<rparr>\<rparr>"

theorem datagram_answer_goes_back_witness:
  "\<exists>r S1 a S2. forward_message_udp 5 no_message demo_udp = Some (Some SOCKET_EVENT_UDP, r, S1) \<and>
    msg_udp_address r = Some a \<and> server_udp_send False a (user_data 5 [9]) S1 = Some (0, S2) \<and>
    k_datagrams (ss_kernel S2) = [(7, [9], EP_V4 [0, 80] [1, 2, 3, 4])]"
proof -
  have sock: "sock demo_udp 5 = demo_socket\<lparr>so_type := SOCKET_TYPE_UDP\<rparr>" and fd: "so_fd (sock demo_udp 5) = 7"
    by (simp_all add: demo_udp_def demo_socket_def)
  have idle: "can_direct_send (sock demo_udp 5) 5" "\<not> is_invalid (sock demo_udp 5) 5"
    by (simp_all add: sock demo_socket_def new_socket_object_def can_direct_send_def is_invalid_def
        nomore_sending_data_def is_write_buffer_empty_def)
  have k: "k_answers (ss_kernel demo_udp) = IO_OK 1 # []" "k_datagrams (ss_kernel demo_udp) = []"
    "k_datagrams_in (ss_kernel demo_udp) 7 = RECEIVED [7] (EP_V4 [0, 80] [1, 2, 3, 4]) # []"
    by (simp_all add: demo_udp_def demo_kernel_def)
  show ?thesis
    using datagram_answer_goes_back [of "EP_V4 [0, 80] [1, 2, 3, 4]" demo_udp 5 "[7]" "[]" 1 "[]" "[9]"] idle k fd sock
    by (auto simp: MAX_UDP_PACKAGE_def)
qed

text \<open>
  A \<open>udp_connect\<close> whose name is not resolved fails, and leaves the connecting count raised: the
  socket never sends directly again.
\<close>

lemma failed_udp_connect_blocks_direct_send:
  assumes "\<not> is_invalid (sock S sid) sid" and "k_resolve_udp (ss_kernel S) host port = None"
    and "so_udp_connecting_count (sock S sid) = 0"
  shows "\<exists>S'. server_udp_connect sid host port S = (- 1, S') \<and> ss_pipe S' = ss_pipe S \<and>
    so_udp_connecting_count (sock S' sid) = 1 \<and> \<not> can_direct_send (sock S' sid) sid"
  using assms
  by (simp add: server_udp_connect_def Let_def inc_udp_connecting_count_def can_direct_send_def)

end
