(* ===== verification/Node_Socket.thy ===== *)
theory Node_Socket
  imports Dispatch Netpack Little_Endian Socket_Loop Socket_Udp
begin

text \<open>
  The socket interface of the node (\<open>skynet-src/node/node_socket.cpp\<close>): the socket thread turns each
  event of the socket server into a \<open>skynet_socket_message\<close> in memory and posts it to the service
  that owns the socket; the Lua library reads the structure back (\<open>unpack\<close> of
  \<open>luaclib-src/lua-socket.cpp\<close>). The theory connects the socket server with the service manager and
  with the gate.
\<close>

subsection \<open>The message structure\<close>

text \<open>
  The memory blocks that messages point to, by address. The structure takes 24 bytes: three
  \<open>int\<close>, a gap that the code does not write, and the pointer.
\<close>

type_synonym blocks = "u64 \<rightharpoonup> bytes"

definition SIZEOF_SOCKET_MESSAGE :: nat where
  "SIZEOF_SOCKET_MESSAGE = 24"

fun skynet_event_code :: "skynet_socket_event \<Rightarrow> nat" where
  "skynet_event_code SKYNET_SOCKET_EVENT_DATA = 1"
| "skynet_event_code SKYNET_SOCKET_EVENT_CONNECT = 2"
| "skynet_event_code SKYNET_SOCKET_EVENT_CLOSE = 3"
| "skynet_event_code SKYNET_SOCKET_EVENT_ACCEPT = 4"
| "skynet_event_code SKYNET_SOCKET_EVENT_ERROR = 5"
| "skynet_event_code SKYNET_SOCKET_EVENT_UDP = 6"
| "skynet_event_code SKYNET_SOCKET_EVENT_WARNING = 7"

definition event_of_code :: "nat \<Rightarrow> skynet_socket_event option" where
  "event_of_code n =
     find (\<lambda>e. skynet_event_code e = n)
       [SKYNET_SOCKET_EVENT_DATA, SKYNET_SOCKET_EVENT_CONNECT, SKYNET_SOCKET_EVENT_CLOSE,
        SKYNET_SOCKET_EVENT_ACCEPT, SKYNET_SOCKET_EVENT_ERROR, SKYNET_SOCKET_EVENT_UDP,
        SKYNET_SOCKET_EVENT_WARNING]"

lemma event_of_code [simp]: "event_of_code (skynet_event_code e) = Some e"
  by (cases e) (simp_all add: event_of_code_def)

definition message_bytes :: "bytes \<Rightarrow> skynet_socket_event \<Rightarrow> int \<Rightarrow> int \<Rightarrow> u64 \<Rightarrow> bytes \<Rightarrow> bytes" where
  "message_bytes gap e socket_id ud ptr text =
     le_bytes 4 (of_nat (skynet_event_code e)) @ le_bytes 4 (of_int socket_id) @ le_bytes 4 (of_int ud) @
     gap @ le_bytes 8 ptr @ text"

text \<open>The fields, as \<open>unpack\<close> and the \<open>filter\<close> of the gate read them.\<close>

definition read_message :: "blocks \<Rightarrow> bytes \<Rightarrow> skynet_socket_message option" where
  "read_message blocks bs = do {
     e \<leftarrow> event_of_code (unat (le_word (take 4 bs)));
     let ptr = le_word (take 8 (drop 16 bs));
         sm = \<lparr>sm_event = e, sm_socket_id = ucast (le_word (take 4 (drop 4 bs))),
               sm_ud = sint (ucast (le_word (take 4 (drop 8 bs))) :: u32),
               sm_buffer = None, sm_padding = drop SIZEOF_SOCKET_MESSAGE bs\<rparr> in
     if ptr = 0 then Some sm
     else do {
       b \<leftarrow> blocks ptr;
       Some (sm\<lparr>sm_buffer := Some b, sm_padding := []\<rparr>)
     }
   }"

subsection \<open>Posting a message\<close>

record node =
  nd_svc :: svc_state
  nd_blocks :: blocks
  nd_loop :: event_loop

text \<open>
  The environment of the code: where the allocator puts the next block, what the gap of a new
  structure holds, and the text of \<open>strerror\<close>.
\<close>

record node_memory =
  nm_alloc :: "blocks \<Rightarrow> u64"
  nm_gap :: bytes
  nm_strerror :: string

definition c_strlen :: "string \<Rightarrow> nat" where
  "c_strlen t = length (takeWhile (\<lambda>c. c \<noteq> CHR 0x00) t)"

definition MAX_PADDING :: nat where
  "MAX_PADDING = 128"

text \<open>The string after the structure: a null pointer becomes an empty string.\<close>

definition padding_text :: "node_memory \<Rightarrow> msg_data \<Rightarrow> bytes" where
  "padding_text M d =
     (let cut = (\<lambda>t. take (min (c_strlen t) MAX_PADDING) (str_bytes t)) in
      case d of
        MSG_NULL \<Rightarrow> []
      | MSG_TEXT t \<Rightarrow> cut t
      | MSG_ERRNO \<Rightarrow> cut (nm_strerror M)
      | MSG_BYTES b \<Rightarrow> take (min (length (takeWhile (\<lambda>x. x \<noteq> 0) b)) MAX_PADDING) b)"

text \<open>The pointer of a message without padding.\<close>

definition data_pointer :: "node_memory \<Rightarrow> msg_data \<Rightarrow> blocks \<Rightarrow> u64 \<times> blocks" where
  "data_pointer M d blocks =
     (let at = nm_alloc M blocks in
      case d of
        MSG_NULL \<Rightarrow> (0, blocks)
      | MSG_TEXT t \<Rightarrow> (at, blocks(at \<mapsto> str_bytes t))
      | MSG_ERRNO \<Rightarrow> (at, blocks(at \<mapsto> str_bytes (nm_strerror M)))
      | MSG_BYTES b \<Rightarrow> (at, blocks(at \<mapsto> b)))"

definition forward_message ::
  "node_memory \<Rightarrow> skynet_socket_event \<Rightarrow> bool \<Rightarrow> socket_message \<Rightarrow> node \<Rightarrow> node option" where
  "forward_message M e padding msg N =
     (let text = (if padding then padding_text M (rm_data msg) else []);
          sz = SIZEOF_SOCKET_MESSAGE + length text;
          (ptr, blocks) = (if padding then (0, nd_blocks N) else data_pointer M (rm_data msg) (nd_blocks N));
          svc_msg = \<lparr>src_svc_handle = 0, session_id = 0,
                     data_ptr = Some (message_bytes (nm_gap M) e (rm_socket_id msg) (rm_ud msg) ptr text),
                     data_size = of_nat sz OR
                       push_bit MESSAGE_TYPE_SHIFT (of_nat (msg_type_code SERVICE_MSG_TYPE_SOCKET))\<rparr> in
      do {
        (r, s) \<leftarrow> push_service_message (rm_svc_handle msg) svc_msg (nd_svc N);
        Some (N\<lparr>nd_svc := s, nd_blocks := (if r \<noteq> 0 then blocks(ptr := None) else blocks)\<rparr>)
      })"

text \<open>
  \<open>node_socket::poll_socket_event\<close>: 0 on exit, -1 when the caller should go on at once, 1 when the
  events of the last wait are processed.
\<close>

definition socket_event_text :: "socket_event option \<Rightarrow> string" where
  "socket_event_text ev = (if ev = None then ''-1'' else ''8'')"

definition node_poll_socket_event :: "node_memory \<Rightarrow> bool \<Rightarrow> node \<Rightarrow> (int \<times> node) option" where
  "node_poll_socket_event M busy N = do {
     ((ev, msg, is_more), E) \<leftarrow> poll_socket_event busy True no_message (nd_loop N);
     let N1 = N\<lparr>nd_loop := E\<rparr>;
         forward = (\<lambda>e padding. do {
           N2 \<leftarrow> forward_message M e padding msg N1;
           Some (if is_more then - 1 else 1, N2)
         }) in
     case ev of
       Some SOCKET_EVENT_EXIT \<Rightarrow> Some (0, N1)
     | Some SOCKET_EVENT_DATA \<Rightarrow> forward SKYNET_SOCKET_EVENT_DATA False
     | Some SOCKET_EVENT_CLOSE \<Rightarrow> forward SKYNET_SOCKET_EVENT_CLOSE False
     | Some SOCKET_EVENT_OPEN \<Rightarrow> forward SKYNET_SOCKET_EVENT_CONNECT True
     | Some SOCKET_EVENT_ERROR \<Rightarrow> forward SKYNET_SOCKET_EVENT_ERROR True
     | Some SOCKET_EVENT_ACCEPT \<Rightarrow> forward SKYNET_SOCKET_EVENT_ACCEPT True
     | Some SOCKET_EVENT_UDP \<Rightarrow> forward SKYNET_SOCKET_EVENT_UDP False
     | Some SOCKET_EVENT_WARNING \<Rightarrow> forward SKYNET_SOCKET_EVENT_WARNING False
     | _ \<Rightarrow> do {
         s \<leftarrow> log_msg None LOG_LEVEL_ERROR
                (''Unknown socket message type '' @ socket_event_text ev @ ''.'') (nd_svc N1);
         Some (- 1, N1\<lparr>nd_svc := s\<rparr>)
       }
   }"

subsection \<open>The calls of the services\<close>

text \<open>The other functions of the node pass the call to the socket server.\<close>

definition on_server :: "(socket_server \<Rightarrow> 'a \<times> socket_server) \<Rightarrow> node \<Rightarrow> 'a \<times> node" where
  "on_server f N =
     (let (r, S) = f (el_server (nd_loop N)) in (r, N\<lparr>nd_loop := (nd_loop N)\<lparr>el_server := S\<rparr>\<rparr>))"

definition try_server :: "(socket_server \<Rightarrow> ('a \<times> socket_server) option) \<Rightarrow> node \<Rightarrow> ('a \<times> node) option" where
  "try_server f N = do {
     (r, S) \<leftarrow> f (el_server (nd_loop N));
     Some (r, N\<lparr>nd_loop := (nd_loop N)\<lparr>el_server := S\<rparr>\<rparr>)
   }"

definition node_listen :: "handle \<Rightarrow> string \<Rightarrow> nat \<Rightarrow> node \<Rightarrow> int \<times> node" where
  "node_listen h ip port = on_server (server_listen h ip port)"

definition node_connect :: "handle \<Rightarrow> string \<Rightarrow> nat \<Rightarrow> node \<Rightarrow> int \<times> node" where
  "node_connect h host port = on_server (server_connect h host port)"

definition node_close :: "handle \<Rightarrow> int \<Rightarrow> node \<Rightarrow> node" where
  "node_close h i N = snd (on_server (Pair () \<circ> server_close h i) N)"

definition node_shutdown :: "handle \<Rightarrow> int \<Rightarrow> node \<Rightarrow> node" where
  "node_shutdown h i N = snd (on_server (Pair () \<circ> server_shutdown h i) N)"

definition node_start :: "handle \<Rightarrow> int \<Rightarrow> node \<Rightarrow> node" where
  "node_start h i N = snd (on_server (Pair () \<circ> server_start h i) N)"

definition node_pause :: "handle \<Rightarrow> int \<Rightarrow> node \<Rightarrow> node" where
  "node_pause h i N = snd (on_server (Pair () \<circ> server_pause h i) N)"

definition node_nodelay :: "int \<Rightarrow> node \<Rightarrow> node" where
  "node_nodelay i N = snd (on_server (Pair () \<circ> server_nodelay i) N)"

definition node_exit :: "node \<Rightarrow> node" where
  "node_exit N = snd (on_server (Pair () \<circ> server_exit) N)"

definition node_update_time :: "u64 \<Rightarrow> node \<Rightarrow> node" where
  "node_update_time now N = snd (on_server (Pair () \<circ> server_update_time now) N)"

definition node_bind_os_fd :: "handle \<Rightarrow> int \<Rightarrow> node \<Rightarrow> int \<times> node" where
  "node_bind_os_fd h fd = on_server (server_bind_os_fd h fd)"

definition node_udp_socket :: "handle \<Rightarrow> string \<Rightarrow> nat \<Rightarrow> node \<Rightarrow> int \<times> node" where
  "node_udp_socket h ip port = on_server (server_udp_socket h ip port)"

definition node_udp_connect :: "int \<Rightarrow> string \<Rightarrow> int \<Rightarrow> node \<Rightarrow> int \<times> node" where
  "node_udp_connect i ip port = on_server (server_udp_connect i ip port)"

definition node_send :: "bool \<Rightarrow> send_data \<Rightarrow> node \<Rightarrow> (int \<times> node) option" where
  "node_send busy sd = try_server (server_send busy sd)"

definition node_send_low_priority :: "send_data \<Rightarrow> node \<Rightarrow> (int \<times> node) option" where
  "node_send_low_priority sd = try_server (server_send_low_priority sd)"

definition node_udp_sendbuffer :: "bool \<Rightarrow> bytes \<Rightarrow> send_data \<Rightarrow> node \<Rightarrow> (int \<times> node) option" where
  "node_udp_sendbuffer busy addr sd = try_server (server_udp_send busy addr sd)"

definition node_udp_address :: "skynet_socket_message \<Rightarrow> bytes option" where
  "node_udp_address msg =
     (if sm_event msg \<noteq> SKYNET_SOCKET_EVENT_UDP then None
      else msg_udp_address \<lparr>rm_socket_id = uint (sm_socket_id msg), rm_svc_handle = 0, rm_ud = sm_ud msg,
             rm_data = (case sm_buffer msg of None \<Rightarrow> MSG_NULL | Some b \<Rightarrow> MSG_BYTES b)\<rparr>)"

text \<open>\<open>unpack\<close>: the values for Lua; the text is a string, the data a pointer.\<close>

datatype unpacked_data = LUA_STRING bytes | LUA_POINTER bytes

definition l_unpack ::
  "blocks \<Rightarrow> bytes \<Rightarrow> (nat \<times> u32 \<times> int \<times> unpacked_data \<times> bytes option) option" where
  "l_unpack blocks bs = do {
     msg \<leftarrow> read_message blocks bs;
     Some (skynet_event_code (sm_event msg), sm_socket_id msg, sm_ud msg,
       (case sm_buffer msg of None \<Rightarrow> LUA_STRING (sm_padding msg) | Some b \<Rightarrow> LUA_POINTER b),
       if sm_event msg = SKYNET_SOCKET_EVENT_UDP then node_udp_address msg else None)
   }"

subsection \<open>What is posted is what is read\<close>

lemma read_message_bytes:
  assumes "length gap = 4" and "- (2 ^ 31) \<le> ud" "ud < 2 ^ 31"
  shows "read_message blocks (message_bytes gap e sid ud ptr text) =
    (if ptr = 0 then Some \<lparr>sm_event = e, sm_socket_id = of_int sid, sm_ud = ud, sm_buffer = None, sm_padding = text\<rparr>
     else map_option (\<lambda>b. \<lparr>sm_event = e, sm_socket_id = of_int sid, sm_ud = ud, sm_buffer = Some b, sm_padding = []\<rparr>)
            (blocks ptr))"
proof -
  have "unat (take_bit 32 (of_nat (skynet_event_code e) :: u64)) = skynet_event_code e"
    by (cases e) (simp_all add: unsigned_take_bit_eq take_bit_nat_eq_self_iff)
  moreover have "sint (of_int ud :: u32) = ud"
    using assms(2,3) by (simp add: sint_sbintrunc' signed_take_bit_int_eq_self)
  ultimately show ?thesis
    using assms(1)
    by (cases "blocks ptr") (simp_all add: read_message_def message_bytes_def le_word_4 SIZEOF_SOCKET_MESSAGE_def
        le_word_le_bytes [of 4 "of_nat (skynet_event_code e)"] Let_def)
qed

lemma socket_message_type:
  fixes n :: nat
  assumes "n < 2 ^ 56" and "sz = of_nat n OR push_bit MESSAGE_TYPE_SHIFT (of_nat (msg_type_code t))"
  shows "drop_bit MESSAGE_TYPE_SHIFT sz = (of_nat (msg_type_code t) :: u64)" "sz AND MESSAGE_TYPE_MASK = of_nat n"
proof -
  note small_size(1) [OF assms(1)]
  moreover have "msg_type_code t < 256"
    by (cases t) simp_all
  ultimately show "drop_bit MESSAGE_TYPE_SHIFT sz = (of_nat (msg_type_code t) :: u64)" "sz AND MESSAGE_TYPE_MASK = of_nat n"
    unfolding assms(2) by (rule message_size_decodes)+
qed

text \<open>
  A message that the owner of a socket finds in its inbox: a socket message by its type, which
  reads as the given structure.
\<close>

definition carries :: "blocks \<Rightarrow> service_message \<Rightarrow> skynet_socket_message \<Rightarrow> bool" where
  "carries blocks m sm \<longleftrightarrow>
     drop_bit MESSAGE_TYPE_SHIFT (data_size m) = of_nat (msg_type_code SERVICE_MSG_TYPE_SOCKET) \<and>
     (\<exists>bs. data_ptr m = Some bs \<and> data_size m AND MESSAGE_TYPE_MASK = of_nat (length bs) \<and>
           read_message blocks bs = Some sm)"

lemma forward_data_message:
  assumes inv: "svc_inv (nd_svc N)" and known: "h \<in> known_handles (nd_svc N)"
    and mem: "length (nm_gap M) = 4" "nm_alloc M (nd_blocks N) \<noteq> 0" and d: "length d < 2 ^ 31"
    and msg: "msg = \<lparr>rm_socket_id = sid, rm_svc_handle = h, rm_ud = int (length d), rm_data = MSG_BYTES d\<rparr>"
  obtains m s where "forward_message M SKYNET_SOCKET_EVENT_DATA False msg N
      = Some (N\<lparr>nd_svc := s, nd_blocks := (nd_blocks N)(nm_alloc M (nd_blocks N) \<mapsto> d)\<rparr>)"
    "svc_inv s" "inbox s = (inbox (nd_svc N))(h := inbox (nd_svc N) h @ [m])"
    "carries ((nd_blocks N)(nm_alloc M (nd_blocks N) \<mapsto> d)) m (data_message (of_int sid, d))"
proof -
  let ?at = "nm_alloc M (nd_blocks N)"
  let ?blocks = "(nd_blocks N)(?at \<mapsto> d)"
  define bs where "bs = message_bytes (nm_gap M) SKYNET_SOCKET_EVENT_DATA sid (int (length d)) ?at []"
  define m where "m = \<lparr>src_svc_handle = 0, session_id = 0, data_ptr = Some bs,
    data_size = of_nat 24 OR push_bit MESSAGE_TYPE_SHIFT (of_nat (msg_type_code SERVICE_MSG_TYPE_SOCKET))\<rparr>"
  obtain s where s: "push_service_message h m (nd_svc N) = Some (0, s)" "svc_inv s"
    "inbox s = (inbox (nd_svc N))(h := inbox (nd_svc N) h @ [m])"
    using services.post_known [OF inv known, of m] by auto
  have "length bs = 24"
    using mem by (simp add: bs_def message_bytes_def)
  moreover have "read_message ?blocks bs = Some (data_message (of_int sid, d))"
    unfolding bs_def using d mem by (subst read_message_bytes) (simp_all add: data_message_def)
  ultimately have "carries ?blocks m (data_message (of_int sid, d))"
    using socket_message_type [of 24 "data_size m" SERVICE_MSG_TYPE_SOCKET] by (simp add: carries_def m_def)
  moreover have "forward_message M SKYNET_SOCKET_EVENT_DATA False msg N = Some (N\<lparr>nd_svc := s, nd_blocks := ?blocks\<rparr>)"
    using s(1) unfolding m_def bs_def
    by (simp add: forward_message_def msg data_pointer_def Let_def SIZEOF_SOCKET_MESSAGE_def del: msg_type_code.simps)
  ultimately show thesis
    using s(2,3) by (intro that)
qed

text \<open>
  C7. What arrives on a connection reaches the service that owns it: when the poller reports the
  connection as readable, one call of \<open>poll_socket_event\<close> takes the data from the kernel, and the
  inbox of the owner - no other inbox - gets one message, of the socket type, whose structure
  reads as a data event of this socket with exactly the bytes taken; nothing of the stream is
  skipped.
\<close>

theorem socket_data_reaches_service:
  assumes inv: "svc_inv (nd_svc N)" and S: "S = el_server (nd_loop N)"
    and owner: "so_svc_handle (sock S sid) = h" "h \<in> known_handles (nd_svc N)" and id: "so_id (sock S sid) = sid"
    and data: "has_data sid S" and small: "length (incoming (so_fd (sock S sid)) (ss_kernel S)) < 2 ^ 31"
    and ev: "el_events (nd_loop N) = []" "el_batches (nd_loop N) = Some [readable_event sid] # bs"
    and mem: "length (nm_gap M) = 4" "nm_alloc M (nd_blocks N) \<noteq> 0"
  shows "\<exists>d m N' S'. node_poll_socket_event M busy N = Some (1, N') \<and> S' = el_server (nd_loop N') \<and> d \<noteq> [] \<and>
    inbox (nd_svc N') = (inbox (nd_svc N))(h := inbox (nd_svc N) h @ [m]) \<and>
    carries (nd_blocks N') m (data_message (of_int sid, d)) \<and> svc_inv (nd_svc N') \<and>
    incoming (so_fd (sock S sid)) (ss_kernel S) = d @ incoming (so_fd (sock S sid)) (ss_kernel S')"
proof -
  obtain d S' where poll: "poll_socket_event busy True no_message (nd_loop N) =
      Some ((Some SOCKET_EVENT_DATA, about (sock S sid) (int (length d)) (MSG_BYTES d), False),
            (nd_loop N)\<lparr>el_server := S', el_check_cmd := True, el_batches := bs\<rparr>)"
    and d: "d \<noteq> []" "incoming (so_fd (sock S sid)) (ss_kernel S) = d @ incoming (so_fd (sock S sid)) (ss_kernel S')"
    using poll_reports_data [OF data [unfolded S] ev] unfolding S by metis
  define N1 where "N1 = N\<lparr>nd_loop := (nd_loop N)\<lparr>el_server := S', el_check_cmd := True, el_batches := bs\<rparr>\<rparr>"
  have N1: "nd_svc N1 = nd_svc N" "nd_blocks N1 = nd_blocks N" "el_server (nd_loop N1) = S'"
    by (simp_all add: N1_def)
  define msg where "msg = \<lparr>rm_socket_id = sid, rm_svc_handle = h, rm_ud = int (length d), rm_data = MSG_BYTES d\<rparr>"
  have about: "about (sock S sid) (int (length d)) (MSG_BYTES d) = msg"
    using owner id by (simp add: about_def msg_def)
  have "length d < 2 ^ 31"
    using small d(2) by simp
  then obtain m s where fwd: "forward_message M SKYNET_SOCKET_EVENT_DATA False msg N1
      = Some (N1\<lparr>nd_svc := s, nd_blocks := (nd_blocks N1)(nm_alloc M (nd_blocks N1) \<mapsto> d)\<rparr>)"
    "svc_inv s" "inbox s = (inbox (nd_svc N))(h := inbox (nd_svc N) h @ [m])"
    "carries ((nd_blocks N1)(nm_alloc M (nd_blocks N1) \<mapsto> d)) m (data_message (of_int sid, d))"
    using forward_data_message [of N1 h M d msg sid] inv owner(2) mem msg_def by (metis N1(1,2))
  have "node_poll_socket_event M busy N
      = Some (1, N1\<lparr>nd_svc := s, nd_blocks := (nd_blocks N1)(nm_alloc M (nd_blocks N1) \<mapsto> d)\<rparr>)"
    using poll about fwd(1) by (simp add: node_poll_socket_event_def N1_def)
  then show ?thesis
    using fwd(2-) d N1(3) by (intro exI [of _ d] exI [of _ m]) auto
qed

definition demo_node :: node where
  "demo_node =
     \<lparr>nd_svc = demo_state, nd_blocks = Map.empty,
      nd_loop = \<lparr>el_server = demo_receiver [IN_BYTES [1, 2, 3]], el_check_cmd = True, el_events = [],
                 el_batches = [Some [readable_event 5]]\<rparr>\<rparr>"

definition demo_memory :: node_memory where
  "demo_memory = \<lparr>nm_alloc = (\<lambda>_. 64), nm_gap = [0, 0, 0, 0], nm_strerror = ''error''\<rparr>"

theorem socket_data_reaches_service_witness:
  "\<exists>d m N'. node_poll_socket_event demo_memory False demo_node = Some (1, N') \<and> d \<noteq> [] \<and>
    inbox (nd_svc N') 1 = inbox demo_state 1 @ [m] \<and> carries (nd_blocks N') m (data_message (5, d))"
proof -
  define S where "S = demo_receiver [IN_BYTES [1, 2, 3]]"
  have fd: "so_fd (sock S 5) = 7"
    by (simp add: S_def demo_receiver_fields)
  have inc: "incoming 7 (ss_kernel S) = [1, 2, 3]" and data: "has_data 5 S"
    using demo_receiver_ready fd by (simp_all add: S_def demo_receiver_fields incoming_def has_data_def only_data_def)
  have N: "nd_svc demo_node = demo_state" "el_server (nd_loop demo_node) = S" "el_events (nd_loop demo_node) = []"
    "el_batches (nd_loop demo_node) = Some [readable_event 5] # []" "nm_alloc demo_memory (nd_blocks demo_node) \<noteq> 0"
    by (simp_all add: demo_node_def demo_memory_def S_def)
  have owner: "so_svc_handle (sock S 5) = 1" "so_id (sock S 5) = 5"
    by (simp_all add: S_def demo_receiver_fields)
  note ok = socket_data_reaches_service [OF _ N(2) [symmetric] owner(1) _ owner(2) data _ N(3,4) _ N(5), of False]
  obtain d m N' where "node_poll_socket_event demo_memory False demo_node = Some (1, N')" "d \<noteq> []"
    "inbox (nd_svc N') = (inbox demo_state)(1 := inbox demo_state 1 @ [m])"
    "carries (nd_blocks N') m (data_message (of_int 5, d))"
    using ok demo_inv demo_known inc fd N(1) by (auto simp: demo_memory_def)
  then show ?thesis
    by (intro exI [of _ d] exI [of _ m] exI [of _ N']) simp
qed

end
