(* ===== verification/Lua_Seri.thy ===== *)
theory Lua_Seri
  imports Little_Endian
begin

text \<open>
  Serialisation of Lua values (\<open>luaclib-src/lua-seri.cpp\<close>), which every message between Lua services
  goes through: the writer with its chain of blocks, the encoding of each type with its size
  classes, the depth limit, and the reader with its checks.
\<close>

subsection \<open>Lua values\<close>

text \<open>
  Integers and the bits of doubles are 64-bit words, a light user data is an address, a string is
  its bytes. A table is its length (\<open>lua_rawlen\<close>) with its entries in the order of \<open>lua_next\<close>;
  \<open>LPairs\<close> is a table with a \<open>__pairs\<close> metamethod and what the iteration returns. \<open>LOther\<close> stands
  for functions, threads and full user data. Lengths are natural numbers; the code keeps them in an
  \<open>int\<close>, so a string or an array of \<open>2 ^ 31\<close> elements or more is outside of the model of the writer.
\<close>

datatype lua_value =
    LNil
  | LBool bool
  | LInteger u64
  | LReal u64
  | LString bytes
  | LPointer u64
  | LTable nat "(lua_value \<times> lua_value) list"
  | LPairs "(lua_value \<times> lua_value) list"
  | LOther

definition raw_get :: "(lua_value \<times> lua_value) list \<Rightarrow> lua_value \<Rightarrow> lua_value" where
  "raw_get ps k = (case map_of ps k of None \<Rightarrow> LNil | Some v \<Rightarrow> v)"

text \<open>The errors of the library; \<open>SERI_OVERRUN\<close> is a read outside of the buffer.\<close>

datatype seri_error = SERI_TOO_DEEP | SERI_UNSUPPORTED | SERI_INVALID | SERI_NAN_KEY | SERI_OVERRUN | SERI_FUEL

definition seri_bind :: "seri_error + 'a \<Rightarrow> ('a \<Rightarrow> seri_error + 'b) \<Rightarrow> seri_error + 'b" where
  "seri_bind r f = (case r of Inl e \<Rightarrow> Inl e | Inr x \<Rightarrow> f x)"

lemma seri_bind_simps [simp]:
  "seri_bind (Inl e) f = Inl e" "seri_bind (Inr x) f = f x"
  by (simp_all add: seri_bind_def)

lemma seri_bind_cong [fundef_cong]:
  "r = r' \<Longrightarrow> (\<And>x. r' = Inr x \<Longrightarrow> f x = g x) \<Longrightarrow> seri_bind r f = seri_bind r' g"
  by (cases r') simp_all

lemma seri_bind_Inr: "seri_bind r f = Inr y \<longleftrightarrow> (\<exists>x. r = Inr x \<and> f x = Inr y)"
  by (cases r) simp_all

fun seri_fold :: "('a \<Rightarrow> 's \<Rightarrow> seri_error + 's) \<Rightarrow> 'a list \<Rightarrow> 's \<Rightarrow> seri_error + 's" where
  "seri_fold f [] s = Inr s"
| "seri_fold f (x # xs) s = seri_bind (f x s) (seri_fold f xs)"

lemma seri_fold_cong [fundef_cong]:
  "xs = ys \<Longrightarrow> s = t \<Longrightarrow> (\<And>x s. x \<in> set ys \<Longrightarrow> f x s = g x s) \<Longrightarrow> seri_fold f xs s = seri_fold g ys t"
  by (induction xs arbitrary: ys s t) (auto intro!: seri_bind_cong)

subsection \<open>The writer\<close>

definition BLOCK_SIZE :: nat where "BLOCK_SIZE = 128"
definition MAX_COOKIE :: nat where "MAX_COOKIE = 32"
definition MAX_DEPTH :: nat where "MAX_DEPTH = 32"

text \<open>
  \<open>write_block\<close>: the full blocks of the chain, then the current block, of which \<open>ptr\<close> bytes are
  written, and the total length.
\<close>

record write_block =
  wr_full :: "bytes list"
  wr_current :: bytes
  wr_len :: nat

definition wb_init :: write_block where
  "wb_init = \<lparr>wr_full = [], wr_current = [], wr_len = 0\<rparr>"

definition blk_next :: "write_block \<Rightarrow> write_block" where
  "blk_next b = b\<lparr>wr_full := wr_full b @ [wr_current b], wr_current := []\<rparr>"

definition wb_append :: "bytes \<Rightarrow> write_block \<Rightarrow> write_block" where
  "wb_append s b = b\<lparr>wr_current := wr_current b @ s, wr_len := wr_len b + length s\<rparr>"

text \<open>
  \<open>wb_push\<close>: fill the current block and go on in a new one; the jump back is the recursion. It never
  starts on a full block, which the guard \<open>wr_ptr b \<ge> BLOCK_SIZE\<close> records for the termination proof.
\<close>

definition wr_ptr :: "write_block \<Rightarrow> nat" where
  "wr_ptr b = length (wr_current b)"

function wb_fill :: "bytes \<Rightarrow> write_block \<Rightarrow> write_block" where
  "wb_fill s b =
     (if wr_ptr b + length s \<le> BLOCK_SIZE \<or> wr_ptr b \<ge> BLOCK_SIZE then wb_append s b
      else
        let copy = BLOCK_SIZE - wr_ptr b in
        wb_fill (drop copy s) (blk_next (wb_append (take copy s) b)))"
  by pat_completeness auto
termination
  by (relation "measure (\<lambda>(s, b). length s)") auto

declare wb_fill.simps [simp del]

definition wb_push :: "bytes \<Rightarrow> write_block \<Rightarrow> write_block" where
  "wb_push s b = wb_fill s (if wr_ptr b = BLOCK_SIZE then blk_next b else b)"

definition combine_type :: "nat \<Rightarrow> nat \<Rightarrow> u8" where
  "combine_type t v = of_nat t OR push_bit 3 (of_nat v)"

definition TYPE_NIL :: nat where "TYPE_NIL = 0"
definition TYPE_BOOLEAN :: nat where "TYPE_BOOLEAN = 1"
definition TYPE_NUMBER :: nat where "TYPE_NUMBER = 2"
definition TYPE_USERDATA :: nat where "TYPE_USERDATA = 3"
definition TYPE_SHORT_STRING :: nat where "TYPE_SHORT_STRING = 4"
definition TYPE_LONG_STRING :: nat where "TYPE_LONG_STRING = 5"
definition TYPE_TABLE :: nat where "TYPE_TABLE = 6"

definition TYPE_NUMBER_ZERO :: nat where "TYPE_NUMBER_ZERO = 0"
definition TYPE_NUMBER_BYTE :: nat where "TYPE_NUMBER_BYTE = 1"
definition TYPE_NUMBER_WORD :: nat where "TYPE_NUMBER_WORD = 2"
definition TYPE_NUMBER_DWORD :: nat where "TYPE_NUMBER_DWORD = 4"
definition TYPE_NUMBER_QWORD :: nat where "TYPE_NUMBER_QWORD = 6"
definition TYPE_NUMBER_REAL :: nat where "TYPE_NUMBER_REAL = 8"

definition wb_nil :: "write_block \<Rightarrow> write_block" where
  "wb_nil = wb_push [combine_type TYPE_NIL 0]"

definition wb_boolean :: "bool \<Rightarrow> write_block \<Rightarrow> write_block" where
  "wb_boolean b = wb_push [combine_type TYPE_BOOLEAN (if b then 1 else 0)]"

text \<open>\<open>wb_integer\<close>: the smallest of the size classes; the comparisons are signed.\<close>

definition wb_integer :: "u64 \<Rightarrow> write_block \<Rightarrow> write_block" where
  "wb_integer v wb =
     (if v = 0 then wb_push [combine_type TYPE_NUMBER TYPE_NUMBER_ZERO] wb
      else if sint v \<noteq> sint (ucast v :: u32) then
        wb_push (le_bytes 8 v) (wb_push [combine_type TYPE_NUMBER TYPE_NUMBER_QWORD] wb)
      else if sint v < 0 then
        wb_push (le_bytes 4 v) (wb_push [combine_type TYPE_NUMBER TYPE_NUMBER_DWORD] wb)
      else if sint v < 0x100 then
        wb_push (le_bytes 1 v) (wb_push [combine_type TYPE_NUMBER TYPE_NUMBER_BYTE] wb)
      else if sint v < 0x10000 then
        wb_push (le_bytes 2 v) (wb_push [combine_type TYPE_NUMBER TYPE_NUMBER_WORD] wb)
      else
        wb_push (le_bytes 4 v) (wb_push [combine_type TYPE_NUMBER TYPE_NUMBER_DWORD] wb))"

definition wb_real :: "u64 \<Rightarrow> write_block \<Rightarrow> write_block" where
  "wb_real v wb = wb_push (le_bytes 8 v) (wb_push [combine_type TYPE_NUMBER TYPE_NUMBER_REAL] wb)"

definition wb_pointer :: "u64 \<Rightarrow> write_block \<Rightarrow> write_block" where
  "wb_pointer v wb = wb_push (le_bytes 8 v) (wb_push [combine_type TYPE_USERDATA 0] wb)"

definition wb_string :: "bytes \<Rightarrow> write_block \<Rightarrow> write_block" where
  "wb_string str wb =
     (let len = length str in
      if len < MAX_COOKIE then
        let wb1 = wb_push [combine_type TYPE_SHORT_STRING len] wb in
        if len > 0 then wb_push str wb1 else wb1
      else if len < 0x10000 then
        wb_push str (wb_push (le_bytes 2 (of_nat len)) (wb_push [combine_type TYPE_LONG_STRING 2] wb))
      else
        wb_push str (wb_push (le_bytes 4 (of_nat len)) (wb_push [combine_type TYPE_LONG_STRING 4] wb)))"

text \<open>
  The head of a table and its parts: the elements of the sequence, then the other entries, which
  end with a nil.
\<close>

definition wb_table_head :: "nat \<Rightarrow> write_block \<Rightarrow> write_block" where
  "wb_table_head array_size wb =
     (if array_size \<ge> MAX_COOKIE - 1 then
        wb_integer (of_nat array_size) (wb_push [combine_type TYPE_TABLE (MAX_COOKIE - 1)] wb)
      else wb_push [combine_type TYPE_TABLE array_size] wb)"

definition array_part :: "nat \<Rightarrow> (lua_value \<times> lua_value) list \<Rightarrow> lua_value list" where
  "array_part n ps = map (\<lambda>i. raw_get ps (LInteger (of_nat i))) [1..<Suc n]"

definition in_array :: "nat \<Rightarrow> lua_value \<Rightarrow> bool" where
  "in_array n k = (case k of LInteger x \<Rightarrow> 0 < sint x \<and> sint x \<le> int n | _ \<Rightarrow> False)"

definition hash_part :: "nat \<Rightarrow> (lua_value \<times> lua_value) list \<Rightarrow> lua_value list" where
  "hash_part n ps = concat (map (\<lambda>(k, v). if in_array n k then [] else [k, v]) ps)"

lemma entry_size:
  assumes "(k, v) \<in> set ps"
  shows "size k < Suc (size_list (size_prod size size) ps)" "size v < Suc (size_list (size_prod size size) ps)"
proof -
  have "size_prod size size (k, v) \<le> size_list (size_prod size size) ps"
    using assms by (rule size_list_estimation') simp
  then show "size k < Suc (size_list (size_prod size size) ps)" "size v < Suc (size_list (size_prod size size) ps)"
    by simp_all
qed

lemma array_part_size:
  assumes "x \<in> set (array_part n ps)"
  shows "size x < Suc (size_list (size_prod size size) ps)"
proof -
  obtain k where "x = raw_get ps k"
    using assms by (auto simp: array_part_def)
  then show ?thesis
    by (cases "map_of ps k") (auto simp: raw_get_def dest!: map_of_SomeD intro: entry_size)
qed

lemma hash_part_size:
  assumes "x \<in> set (hash_part n ps)"
  shows "size x < Suc (size_list (size_prod size size) ps)"
  using assms entry_size by (auto simp: hash_part_def split: if_splits)

text \<open>\<open>pack_one\<close>: every branch comes after the check of the depth.\<close>

definition check_depth :: "nat \<Rightarrow> write_block \<Rightarrow> seri_error + write_block" where
  "check_depth depth wb = (if depth > MAX_DEPTH then Inl SERI_TOO_DEEP else Inr wb)"

definition wb_table_end :: "write_block \<Rightarrow> seri_error + write_block" where
  "wb_table_end wb = Inr (wb_nil wb)"

function pack_one :: "nat \<Rightarrow> lua_value \<Rightarrow> write_block \<Rightarrow> seri_error + write_block" where
  "pack_one depth LNil wb = seri_bind (check_depth depth wb) (Inr \<circ> wb_nil)"
| "pack_one depth (LInteger x) wb = seri_bind (check_depth depth wb) (Inr \<circ> wb_integer x)"
| "pack_one depth (LReal x) wb = seri_bind (check_depth depth wb) (Inr \<circ> wb_real x)"
| "pack_one depth (LBool b) wb = seri_bind (check_depth depth wb) (Inr \<circ> wb_boolean b)"
| "pack_one depth (LString s) wb = seri_bind (check_depth depth wb) (Inr \<circ> wb_string s)"
| "pack_one depth (LPointer p) wb = seri_bind (check_depth depth wb) (Inr \<circ> wb_pointer p)"
| "pack_one depth (LTable n ps) wb =
     seri_bind (check_depth depth wb) (\<lambda>wb0.
     seri_bind (seri_fold (\<lambda>x. pack_one (Suc depth) x) (array_part n ps) (wb_table_head n wb0)) (\<lambda>wb1.
     seri_bind (seri_fold (\<lambda>x. pack_one (Suc depth) x) (hash_part n ps) wb1) wb_table_end))"
| "pack_one depth (LPairs ps) wb =
     seri_bind (check_depth depth wb) (\<lambda>wb0.
     seri_bind (seri_fold (\<lambda>x. pack_one (Suc depth) x) (hash_part 0 ps)
       (wb_push [combine_type TYPE_TABLE 0] wb0)) wb_table_end)"
| "pack_one depth LOther wb = seri_bind (check_depth depth wb) (\<lambda>_. Inl SERI_UNSUPPORTED)"
  by pat_completeness auto
termination
  by (relation "measure (\<lambda>(d, v, wb). size v)") (auto dest: array_part_size hash_part_size)

text \<open>
  \<open>seri\<close> copies the chain into one buffer: whole blocks while the rest is at least a block. A null
  block would be read where the chain ends too early: \<open>None\<close>.
\<close>

fun seri_copy :: "nat \<Rightarrow> bytes list \<Rightarrow> bytes option" where
  "seri_copy len [] = (if len = 0 then Some [] else None)"
| "seri_copy len (b # bs) =
     (if len = 0 then Some []
      else if len \<ge> BLOCK_SIZE then map_option ((@) (take BLOCK_SIZE b)) (seri_copy (len - BLOCK_SIZE) bs)
      else Some (take len b))"

definition luaseri_pack :: "lua_value list \<Rightarrow> seri_error + bytes option" where
  "luaseri_pack vs =
     seri_bind (seri_fold (pack_one 0) vs wb_init) (\<lambda>wb.
     Inr (seri_copy (wr_len wb) (wr_full wb @ [wr_current wb])))"

subsection \<open>The reader\<close>

text \<open>The buffer that is left to read; \<open>rb_read\<close> with a length that is not negative.\<close>

type_synonym 'a reader = "bytes \<Rightarrow> seri_error + 'a \<times> bytes"

definition rb_read :: "nat \<Rightarrow> bytes reader" where
  "rb_read sz rb = (if length rb < sz then Inl SERI_INVALID else Inr (take sz rb, drop sz rb))"

definition get_integer :: "nat \<Rightarrow> u64 reader" where
  "get_integer cookie rb =
     (if cookie = TYPE_NUMBER_ZERO then Inr (0, rb)
      else if cookie = TYPE_NUMBER_BYTE then seri_bind (rb_read 1 rb) (\<lambda>(p, rb1). Inr (le_word p, rb1))
      else if cookie = TYPE_NUMBER_WORD then seri_bind (rb_read 2 rb) (\<lambda>(p, rb1). Inr (le_word p, rb1))
      else if cookie = TYPE_NUMBER_DWORD then
        seri_bind (rb_read 4 rb) (\<lambda>(p, rb1). Inr (scast (ucast (le_word p) :: u32), rb1))
      else if cookie = TYPE_NUMBER_QWORD then seri_bind (rb_read 8 rb) (\<lambda>(p, rb1). Inr (le_word p, rb1))
      else Inl SERI_INVALID)"

text \<open>
  \<open>get_buffer\<close> takes the length as an \<open>int\<close>: from \<open>2 ^ 31\<close> on it is negative, the check of the length
  passes and the string is read outside of the buffer.
\<close>

definition get_buffer :: "nat \<Rightarrow> lua_value reader" where
  "get_buffer len rb =
     (if len \<ge> 2 ^ 31 then Inl SERI_OVERRUN
      else seri_bind (rb_read len rb) (\<lambda>(p, rb1). Inr (LString p, rb1)))"

text \<open>
  A real as a key: Lua turns a real with an integral value into the integer (\<open>luaV_tointeger\<close>), and
  refuses a NaN.
\<close>

definition real_mantissa :: "u64 \<Rightarrow> u64" where "real_mantissa r = take_bit 52 r"
definition real_exponent :: "u64 \<Rightarrow> nat" where "real_exponent r = unat (take_bit 11 (drop_bit 52 r))"

definition real_is_nan :: "u64 \<Rightarrow> bool" where
  "real_is_nan r \<longleftrightarrow> real_exponent r = 2047 \<and> real_mantissa r \<noteq> 0"

definition real_to_integer :: "u64 \<Rightarrow> u64 option" where
  "real_to_integer r =
     (let e = real_exponent r; m = real_mantissa r; full = m OR push_bit 52 1;
          signed = (\<lambda>x. if bit r 63 then - x else x) in
      if e = 0 \<and> m = 0 then Some 0
      else if e < 1023 then None
      else if e \<le> 1075 then
        if take_bit (1075 - e) full = 0 then Some (signed (drop_bit (1075 - e) full)) else None
      else if e \<le> 1085 then Some (signed (push_bit (e - 1075) full))
      else if e = 1086 \<and> bit r 63 \<and> m = 0 then Some (push_bit 63 1)
      else None)"

definition table_key :: "lua_value \<Rightarrow> seri_error + lua_value" where
  "table_key k =
     (case k of
        LReal r \<Rightarrow>
          if real_is_nan r then Inl SERI_NAN_KEY
          else Inr (case real_to_integer r of None \<Rightarrow> k | Some x \<Rightarrow> LInteger x)
      | _ \<Rightarrow> Inr k)"

definition raw_set :: "lua_value \<Rightarrow> lua_value \<Rightarrow> (lua_value \<times> lua_value) list \<Rightarrow> (lua_value \<times> lua_value) list" where
  "raw_set k v ps =
     (let rest = filter (\<lambda>p. fst p \<noteq> k) ps in if v = LNil then rest else rest @ [(k, v)])"

text \<open>
  \<open>unpack_table\<close>: the size of the sequence, in the cookie or as an integer that follows (converted to
  \<open>int\<close>).
\<close>

definition table_size :: "nat \<Rightarrow> int reader" where
  "table_size cookie rb =
     (if cookie = MAX_COOKIE - 1 then
        seri_bind (rb_read 1 rb) (\<lambda>(p, rb1).
          let type = p ! 0; c = unat (drop_bit 3 type) in
          if unat (type AND 7) \<noteq> TYPE_NUMBER \<or> c = TYPE_NUMBER_REAL then Inl SERI_INVALID
          else seri_bind (get_integer c rb1) (\<lambda>(n, rb2). Inr (sint (ucast n :: u32), rb2)))
      else Inr (int cookie, rb))"

definition get_word :: "(u64 \<Rightarrow> lua_value) \<Rightarrow> lua_value reader" where
  "get_word f rb = seri_bind (rb_read 8 rb) (\<lambda>(p, rb1). Inr (f (le_word p), rb1))"

definition get_long_string :: "nat \<Rightarrow> lua_value reader" where
  "get_long_string n rb = seri_bind (rb_read n rb) (\<lambda>(p, rb1). get_buffer (unat (le_word p)) rb1)"

text \<open>
  The two loops of \<open>unpack_table\<close> and \<open>push_value\<close>, over the reader \<open>rd\<close> of the values inside. The
  recursion of \<open>unpack_one\<close> and the loop over the pairs have fuel; each value takes at least one byte,
  and a theorem below shows that the fuel of \<open>luaseri_unpack\<close> suffices.
\<close>

type_synonym entries = "(lua_value \<times> lua_value) list"

fun unpack_array :: "lua_value reader \<Rightarrow> nat \<Rightarrow> nat \<Rightarrow> entries \<Rightarrow> entries reader" where
  "unpack_array rd i 0 ps rb = Inr (ps, rb)"
| "unpack_array rd i (Suc m) ps rb =
     seri_bind (rd rb) (\<lambda>(v, rb1). unpack_array rd (Suc i) m (raw_set (LInteger (of_nat i)) v ps) rb1)"

fun unpack_pairs :: "lua_value reader \<Rightarrow> nat \<Rightarrow> entries \<Rightarrow> entries reader" where
  "unpack_pairs rd 0 ps rb = Inl SERI_FUEL"
| "unpack_pairs rd (Suc f) ps rb =
     seri_bind (rd rb) (\<lambda>(k, rb1).
     if k = LNil then Inr (ps, rb1)
     else
       seri_bind (rd rb1) (\<lambda>(v, rb2).
       seri_bind (table_key k) (\<lambda>k1. unpack_pairs rd f (raw_set k1 v ps) rb2)))"

definition unpack_table :: "lua_value reader \<Rightarrow> nat \<Rightarrow> nat \<Rightarrow> lua_value reader" where
  "unpack_table rd f cookie rb =
     seri_bind (table_size cookie rb) (\<lambda>(n, rb1).
     seri_bind (unpack_array rd 1 (nat n) [] rb1) (\<lambda>(ps, rb2).
     seri_bind (unpack_pairs rd f ps rb2) (\<lambda>(ps1, rb3).
     Inr (LTable (nat n) ps1, rb3))))"

definition push_value :: "lua_value reader \<Rightarrow> nat \<Rightarrow> nat \<Rightarrow> nat \<Rightarrow> lua_value reader" where
  "push_value rd f type cookie rb =
     (if type = TYPE_NIL then Inr (LNil, rb)
      else if type = TYPE_BOOLEAN then Inr (LBool (cookie \<noteq> 0), rb)
      else if type = TYPE_NUMBER then
        if cookie = TYPE_NUMBER_REAL then get_word LReal rb
        else seri_bind (get_integer cookie rb) (\<lambda>(x, rb1). Inr (LInteger x, rb1))
      else if type = TYPE_USERDATA then get_word LPointer rb
      else if type = TYPE_SHORT_STRING then get_buffer cookie rb
      else if type = TYPE_LONG_STRING then
        if cookie = 2 then get_long_string 2 rb
        else if cookie \<noteq> 4 then Inl SERI_INVALID
        else get_long_string 4 rb
      else if type = TYPE_TABLE then unpack_table rd f cookie rb
      else Inl SERI_INVALID)"

primrec unpack_one :: "nat \<Rightarrow> lua_value reader" where
  "unpack_one 0 = (\<lambda>rb. Inl SERI_FUEL)"
| "unpack_one (Suc f) = (\<lambda>rb.
     seri_bind (rb_read 1 rb) (\<lambda>(p, rb1).
     push_value (unpack_one f) f (unat (p ! 0 AND 7)) (unat (drop_bit 3 (p ! 0))) rb1))"

declare unpack_one.simps(2) [simp del]

text \<open>\<open>luaseri_unpack\<close> of a buffer that is not null: values until the buffer is used up.\<close>

fun unpack_all :: "nat \<Rightarrow> bytes \<Rightarrow> seri_error + lua_value list" where
  "unpack_all 0 rb = Inl SERI_FUEL"
| "unpack_all (Suc f) rb =
     (if rb = [] then Inr []
      else
        seri_bind (unpack_one (Suc f) rb) (\<lambda>(v, rb1).
        seri_bind (unpack_all f rb1) (\<lambda>vs. Inr (v # vs))))"

definition luaseri_unpack :: "bytes \<Rightarrow> seri_error + lua_value list" where
  "luaseri_unpack bs = unpack_all (Suc (length bs)) bs"

end
