(* ===== verification/Lua_Seri_Correct.thy ===== *)
theory Lua_Seri_Correct
  imports Lua_Seri
begin

text \<open>
  Correctness of the serialisation: what \<open>pack\<close> writes is the encoding of the values, \<open>unpack\<close>
  rebuilds tables with the same contents, \<open>pack\<close> fails exactly on values that are nested too deeply
  or of an unsupported type, and \<open>unpack\<close> answers on every input.
\<close>

subsection \<open>The writer appends\<close>

definition wb_bytes :: "write_block \<Rightarrow> bytes" where
  "wb_bytes b = concat (wr_full b) @ wr_current b"

definition wb_valid :: "write_block \<Rightarrow> bool" where
  "wb_valid b \<longleftrightarrow>
     (\<forall>x \<in> set (wr_full b). length x = BLOCK_SIZE) \<and> wr_ptr b \<le> BLOCK_SIZE \<and> wr_len b = length (wb_bytes b)"

lemma wb_init_valid: "wb_valid wb_init" "wb_bytes wb_init = []"
  by (simp_all add: wb_valid_def wb_init_def wb_bytes_def wr_ptr_def)

lemma wb_append_valid:
  "wb_valid b \<Longrightarrow> wr_ptr b + length s \<le> BLOCK_SIZE \<Longrightarrow> wb_valid (wb_append s b)"
  "wb_bytes (wb_append s b) = wb_bytes b @ s"
  by (simp_all add: wb_append_def wb_valid_def wb_bytes_def wr_ptr_def)

lemma blk_next_valid:
  "wb_valid b \<Longrightarrow> wr_ptr b = BLOCK_SIZE \<Longrightarrow> wb_valid (blk_next b)"
  "wb_bytes (blk_next b) = wb_bytes b"
  by (simp_all add: blk_next_def wb_valid_def wb_bytes_def wr_ptr_def)

lemma wb_fill_correct:
  assumes "wb_valid b" and "wr_ptr b < BLOCK_SIZE"
  shows "wb_valid (wb_fill s b) \<and> wb_bytes (wb_fill s b) = wb_bytes b @ s"
  using assms
proof (induction s b rule: wb_fill.induct)
  case (1 s b)
  show ?case
  proof (cases "wr_ptr b + length s \<le> BLOCK_SIZE")
    case True
    then show ?thesis
      using 1(2) wb_append_valid by (simp add: wb_fill.simps [of s b])
  next
    case False
    define c where "c = BLOCK_SIZE - wr_ptr b"
    define b1 where "b1 = wb_append (take c s) b"
    have c: "length (take c s) = c" "0 < c"
      using False 1(3) by (auto simp: c_def)
    then have b1: "wb_valid b1" "wr_ptr b1 = BLOCK_SIZE" "wb_bytes b1 = wb_bytes b @ take c s"
      using 1(2,3) False wb_append_valid(1) [of b "take c s"] wb_append_valid(2) [of "take c s" b] by (simp_all add: b1_def c_def wb_append_def wr_ptr_def)
    have "wb_fill s b = wb_fill (drop c s) (blk_next b1)"
      using False 1(3) by (simp add: wb_fill.simps [of s b] c_def b1_def Let_def)
    moreover have "wr_ptr (blk_next b1) < BLOCK_SIZE"
      by (simp add: blk_next_def wr_ptr_def BLOCK_SIZE_def)
    ultimately show ?thesis
      using 1(1) [OF _ c_def] False 1(3) b1 blk_next_valid [of b1] by (simp add: b1_def)
  qed
qed

lemma wb_push_valid [simp]: "wb_valid b \<Longrightarrow> wb_valid (wb_push s b)"
  and wb_push_bytes [simp]: "wb_valid b \<Longrightarrow> wb_bytes (wb_push s b) = wb_bytes b @ s"
proof -
  assume b: "wb_valid b"
  define b1 where "b1 = (if wr_ptr b = BLOCK_SIZE then blk_next b else b)"
  have "wb_valid b1" "wb_bytes b1 = wb_bytes b"
    using b blk_next_valid by (simp_all add: b1_def)
  moreover have "wr_ptr b1 < BLOCK_SIZE"
    using b by (auto simp: b1_def blk_next_def wr_ptr_def BLOCK_SIZE_def wb_valid_def)
  ultimately show "wb_valid (wb_push s b)" "wb_bytes (wb_push s b) = wb_bytes b @ s"
    using wb_fill_correct [of b1 s] by (simp_all add: wb_push_def b1_def)
qed

lemma seri_copy_correct:
  assumes "\<forall>x \<in> set full. length x = BLOCK_SIZE" and "length cur \<le> BLOCK_SIZE"
    and "len = length (concat full @ cur)"
  shows "seri_copy len (full @ [cur]) = Some (concat full @ cur)"
  using assms
proof (induction full arbitrary: len)
  case (Cons b full)
  then show ?case by (simp add: BLOCK_SIZE_def)
qed (auto simp: BLOCK_SIZE_def)

lemma seri_copy_bytes: "wb_valid b \<Longrightarrow> seri_copy (wr_len b) (wr_full b @ [wr_current b]) = Some (wb_bytes b)"
  unfolding wb_bytes_def by (rule seri_copy_correct) (simp_all add: wb_valid_def wr_ptr_def wb_bytes_def)

subsection \<open>The encoding\<close>

definition enc_integer :: "u64 \<Rightarrow> bytes" where
  "enc_integer v = wb_bytes (wb_integer v wb_init)"

definition enc_string :: "bytes \<Rightarrow> bytes" where
  "enc_string s = wb_bytes (wb_string s wb_init)"

definition enc_table_head :: "nat \<Rightarrow> bytes" where
  "enc_table_head n = wb_bytes (wb_table_head n wb_init)"

lemma wb_writes:
  assumes "wb_valid b"
  shows "wb_valid (wb_nil b) \<and> wb_bytes (wb_nil b) = wb_bytes b @ [combine_type TYPE_NIL 0]"
    "wb_valid (wb_boolean x b) \<and> wb_bytes (wb_boolean x b) = wb_bytes b @ [combine_type TYPE_BOOLEAN (if x then 1 else 0)]"
    "wb_valid (wb_integer v b) \<and> wb_bytes (wb_integer v b) = wb_bytes b @ enc_integer v"
    "wb_valid (wb_real v b) \<and> wb_bytes (wb_real v b) = wb_bytes b @ combine_type TYPE_NUMBER TYPE_NUMBER_REAL # le_bytes 8 v"
    "wb_valid (wb_pointer v b) \<and> wb_bytes (wb_pointer v b) = wb_bytes b @ combine_type TYPE_USERDATA 0 # le_bytes 8 v"
    "wb_valid (wb_string s b) \<and> wb_bytes (wb_string s b) = wb_bytes b @ enc_string s"
    "wb_valid (wb_table_head n b) \<and> wb_bytes (wb_table_head n b) = wb_bytes b @ enc_table_head n"
  using assms wb_init_valid
  by (simp_all add: wb_nil_def wb_boolean_def wb_integer_def wb_real_def wb_pointer_def wb_string_def
      wb_table_head_def enc_integer_def enc_string_def enc_table_head_def Let_def)

text \<open>The values inside a table, which are smaller than it.\<close>

fun parts :: "lua_value \<Rightarrow> lua_value list" where
  "parts (LTable n ps) = array_part n ps @ hash_part n ps"
| "parts (LPairs ps) = hash_part 0 ps"
| "parts _ = []"

lemma parts_smaller: "x \<in> set (parts v) \<Longrightarrow> size x < size v"
  by (cases v) (auto dest: array_part_size hash_part_size)

lemma parts_induct [case_names parts]:
  assumes "\<And>v. (\<And>x. x \<in> set (parts v) \<Longrightarrow> P x) \<Longrightarrow> P v"
  shows "P v"
  by (induction v rule: measure_induct_rule [of size]) (use assms parts_smaller in blast)

fun enc_atom :: "lua_value \<Rightarrow> bytes" where
  "enc_atom (LBool b) = [combine_type TYPE_BOOLEAN (if b then 1 else 0)]"
| "enc_atom (LInteger x) = enc_integer x"
| "enc_atom (LReal x) = combine_type TYPE_NUMBER TYPE_NUMBER_REAL # le_bytes 8 x"
| "enc_atom (LString s) = enc_string s"
| "enc_atom (LPointer p) = combine_type TYPE_USERDATA 0 # le_bytes 8 p"
| "enc_atom (LTable n ps) = enc_table_head n"
| "enc_atom (LPairs ps) = [combine_type TYPE_TABLE 0]"
| "enc_atom _ = []"

text \<open>The head of a value, the parts, and the nil that ends a table (which alone is the value nil).\<close>

definition closing :: "lua_value \<Rightarrow> bytes" where
  "closing v = (case v of LTable _ _ \<Rightarrow> [combine_type TYPE_NIL 0] | LPairs _ \<Rightarrow> [combine_type TYPE_NIL 0]
     | LNil \<Rightarrow> [combine_type TYPE_NIL 0] | _ \<Rightarrow> [])"

function enc :: "lua_value \<Rightarrow> bytes" where
  "enc v = enc_atom v @ concat (map enc (parts v)) @ closing v"
  by pat_completeness auto
termination
  by (relation "measure size") (simp_all add: parts_smaller)

function nesting :: "lua_value \<Rightarrow> nat" where
  "nesting v = Max (insert 0 ((\<lambda>x. Suc (nesting x)) ` set (parts v)))"
  by pat_completeness auto
termination
  by (relation "measure size") (simp_all add: parts_smaller)

function supported :: "lua_value \<Rightarrow> bool" where
  "supported v \<longleftrightarrow> v \<noteq> LOther \<and> list_all supported (parts v)"
  by pat_completeness auto
termination
  by (relation "measure size") (simp_all add: parts_smaller)

declare enc.simps [simp del] nesting.simps [simp del] supported.simps [simp del]

lemma nesting_le: "nesting v \<le> d \<longleftrightarrow> (\<forall>x \<in> set (parts v). nesting x < d)"
  by (subst nesting.simps) (auto simp: less_eq_Suc_le)

lemma seri_fold_writes:
  assumes "wb_valid wb"
    and "\<And>x b. x \<in> set xs \<Longrightarrow> wb_valid b \<Longrightarrow> \<exists>b'. f x b = Inr b' \<and> wb_valid b' \<and> wb_bytes b' = wb_bytes b @ g x"
  shows "\<exists>b'. seri_fold f xs wb = Inr b' \<and> wb_valid b' \<and> wb_bytes b' = wb_bytes wb @ concat (map g xs)"
  using assms
proof (induction xs arbitrary: wb)
  case (Cons x xs)
  obtain b' where b': "f x wb = Inr b'" "wb_valid b'" "wb_bytes b' = wb_bytes wb @ g x"
    using Cons.prems by force
  show ?case
    using Cons.IH [OF b'(2)] Cons.prems(2) b' by auto
qed simp

lemma seri_fold_fails:
  assumes "x \<in> set xs" "\<And>b. \<exists>e. f x b = Inl e"
  shows "\<exists>e. seri_fold f xs wb = Inl e"
  using assms(1)
proof (induction xs arbitrary: wb)
  case (Cons y ys)
  show ?case
  proof (cases "f y wb")
    case (Inr b)
    then show ?thesis using Cons assms(2) by (metis seri_bind_simps(2) seri_fold.simps(2) set_ConsD sum.distinct(1))
  qed simp
qed simp

definition packable :: "nat \<Rightarrow> lua_value \<Rightarrow> bool" where
  "packable d v \<longleftrightarrow> supported v \<and> nesting v + d \<le> MAX_DEPTH"

lemma packable_parts:
  assumes "v \<noteq> LOther" and "d \<le> MAX_DEPTH"
  shows "packable d v \<longleftrightarrow> (\<forall>x \<in> set (parts v). packable (Suc d) x)"
proof -
  have "nesting v + d \<le> MAX_DEPTH \<longleftrightarrow> (\<forall>x \<in> set (parts v). nesting x + Suc d \<le> MAX_DEPTH)"
    using nesting_le [of v "MAX_DEPTH - d"] assms(2) by auto
  then show ?thesis
    using assms(1) by (subst packable_def, subst supported.simps) (auto simp: packable_def list_all_iff)
qed

lemma pack_one_writes:
  "wb_valid wb \<Longrightarrow> packable d v \<Longrightarrow>
   \<exists>b. pack_one d v wb = Inr b \<and> wb_valid b \<and> wb_bytes b = wb_bytes wb @ enc v"
proof (induction v arbitrary: d wb rule: parts_induct)
  case (parts v)
  have ok: "check_depth d wb = Inr wb" "v \<noteq> LOther" and in_parts: "\<And>x. x \<in> set (parts v) \<Longrightarrow> packable (Suc d) x"
    using parts.prems(2) packable_parts [of v d]
    by (auto simp: packable_def check_depth_def supported.simps [of v])
  have writes: "\<exists>b'. seri_fold (\<lambda>x. pack_one (Suc d) x) xs b = Inr b' \<and> wb_valid b' \<and>
      wb_bytes b' = wb_bytes b @ concat (map enc xs)" if "set xs \<subseteq> set (parts v)" "wb_valid b" for xs b
    using that(2) by (rule seri_fold_writes) (use parts.IH in_parts that(1) in blast)
  show ?case
  proof (cases v)
    case (LTable n ps)
    define b0 where "b0 = wb_table_head n wb"
    have b0: "wb_valid b0" "wb_bytes b0 = wb_bytes wb @ enc_table_head n"
      using wb_writes(7) [OF parts.prems(1)] by (simp_all add: b0_def)
    obtain b1 where b1: "seri_fold (\<lambda>x. pack_one (Suc d) x) (array_part n ps) b0 = Inr b1" "wb_valid b1"
      "wb_bytes b1 = wb_bytes b0 @ concat (map enc (array_part n ps))"
      using writes [OF _ b0(1), of "array_part n ps"] LTable by auto
    obtain b2 where b2: "seri_fold (\<lambda>x. pack_one (Suc d) x) (hash_part n ps) b1 = Inr b2" "wb_valid b2"
      "wb_bytes b2 = wb_bytes b1 @ concat (map enc (hash_part n ps))"
      using writes [OF _ b1(2), of "hash_part n ps"] LTable by auto
    have "enc v = enc_table_head n @ concat (map enc (array_part n ps)) @ concat (map enc (hash_part n ps)) @ [combine_type TYPE_NIL 0]"
      by (subst enc.simps) (simp add: LTable closing_def)
    then show ?thesis
      using ok(1) b0 b1 b2 wb_writes(1) [OF b2(2)] by (simp add: LTable wb_table_end_def flip: b0_def)
  next
    case (LPairs ps)
    define b0 where "b0 = wb_push [combine_type TYPE_TABLE 0] wb"
    have b0: "wb_valid b0" "wb_bytes b0 = wb_bytes wb @ [combine_type TYPE_TABLE 0]"
      using parts.prems by (simp_all add: b0_def)
    obtain b1 where b1: "seri_fold (\<lambda>x. pack_one (Suc d) x) (hash_part 0 ps) b0 = Inr b1" "wb_valid b1"
      "wb_bytes b1 = wb_bytes b0 @ concat (map enc (hash_part 0 ps))"
      using writes [OF _ b0(1), of "hash_part 0 ps"] LPairs by auto
    have "enc v = combine_type TYPE_TABLE 0 # concat (map enc (hash_part 0 ps)) @ [combine_type TYPE_NIL 0]"
      by (subst enc.simps) (simp add: LPairs closing_def)
    then show ?thesis
      using ok(1) b0 b1 wb_writes(1) [OF b1(2)] by (simp add: LPairs wb_table_end_def flip: b0_def)
  qed (use ok wb_writes [OF parts.prems(1)] in \<open>simp_all add: enc.simps closing_def\<close>)
qed

lemma pack_one_fails:
  "\<not> packable d v \<Longrightarrow> \<exists>e. pack_one d v wb = Inl e"
proof (induction v arbitrary: d wb rule: parts_induct)
  case (parts v)
  show ?case
  proof (cases "d \<le> MAX_DEPTH \<and> v \<noteq> LOther")
    case False
    then show ?thesis by (cases v) (auto simp: check_depth_def)
  next
    case True
    then obtain x where x: "x \<in> set (parts v)" "\<not> packable (Suc d) x" and ok: "check_depth d wb = Inr wb"
      using parts.prems packable_parts [of v d] by (auto simp: check_depth_def)
    have fails: "\<exists>e. seri_fold (\<lambda>x. pack_one (Suc d) x) xs b = Inl e" if "x \<in> set xs" for xs b
      using that parts.IH [OF x] by (rule seri_fold_fails)
    show ?thesis
    proof (cases v)
      case (LTable n ps)
      show ?thesis
      proof (cases "x \<in> set (array_part n ps)")
        case True
        then show ?thesis using fails [OF True, of "wb_table_head n wb"] ok by (auto simp: LTable)
      next
        case False
        then have "x \<in> set (hash_part n ps)" using x LTable by simp
        note fails = fails [OF this]
        show ?thesis
        proof (cases "seri_fold (\<lambda>x. pack_one (Suc d) x) (array_part n ps) (wb_table_head n wb)")
          case (Inr b)
          with fails [of b] ok show ?thesis by (auto simp: LTable)
        qed (use ok in \<open>simp add: LTable\<close>)
      qed
    next
      case (LPairs ps)
      then show ?thesis using fails [of "hash_part 0 ps" "wb_push [combine_type TYPE_TABLE 0] wb"] x ok by auto
    qed (use x in simp_all)
  qed
qed

end
