(* ===== verification/Lua_Seri_Roundtrip.thy ===== *)
theory Lua_Seri_Roundtrip
  imports Lua_Seri_Correct
begin

text \<open>
  Reading what was written: each value comes back, tables with the same contents; and the reader
  answers on every input.
\<close>

subsection \<open>Atoms\<close>

lemma of_nat_bits:
  assumes "n < 2 ^ k" "bit (of_nat n :: u8) i"
  shows "i < k"
proof -
  have "bit n i"
    using assms(2) by (simp add: bit_of_nat_iff)
  then have "bit (take_bit k n) i"
    using assms(1) by (simp add: take_bit_nat_eq_self)
  then show ?thesis
    by (simp add: bit_take_bit_iff)
qed

lemma combine_type_decodes [simp]:
  assumes "t < 8" "v < 32"
  shows "unat (combine_type t v AND 7) = t" "unat (drop_bit 3 (combine_type t v)) = v"
proof -
  have t: "\<And>i. bit (of_nat t :: u8) i \<Longrightarrow> i < 3" and v: "\<And>i. bit (of_nat v :: u8) i \<Longrightarrow> i < 5"
    using assms of_nat_bits [of t 3] of_nat_bits [of v 5] by auto
  have "combine_type t v AND 7 = take_bit 3 (combine_type t v)"
    by (simp add: take_bit_eq_mask mask_eq_exp_minus_1)
  also have "\<dots> = of_nat t"
    by (rule bit_word_eqI) (use t in \<open>auto simp: combine_type_def bit_take_bit_iff bit_or_iff bit_push_bit_iff\<close>)
  finally show "unat (combine_type t v AND 7) = t"
    using assms(1) by (simp add: unat_of_nat)
  have "drop_bit 3 (combine_type t v) = of_nat v"
    by (rule bit_word_eqI) (use t v in \<open>fastforce simp: combine_type_def bit_drop_bit_eq bit_or_iff bit_push_bit_iff\<close>)
  then show "unat (drop_bit 3 (combine_type t v)) = v"
    using assms(2) by (simp add: unat_of_nat)
qed

lemmas seri_types =
  TYPE_NIL_def TYPE_BOOLEAN_def TYPE_NUMBER_def TYPE_USERDATA_def TYPE_SHORT_STRING_def
  TYPE_LONG_STRING_def TYPE_TABLE_def TYPE_NUMBER_ZERO_def TYPE_NUMBER_BYTE_def TYPE_NUMBER_WORD_def
  TYPE_NUMBER_DWORD_def TYPE_NUMBER_QWORD_def TYPE_NUMBER_REAL_def MAX_COOKIE_def

lemma rb_read_append: "length p = n \<Longrightarrow> rb_read n (p @ rb) = Inr (p, rb)"
  by (simp add: rb_read_def)

lemma unpack_one_head:
  assumes "t < 8" "c < 32"
  shows "unpack_one (Suc f) (combine_type t c # rb) = push_value (unpack_one f) f t c rb"
  using assms by (simp add: unpack_one.simps(2) rb_read_def)

lemma enc_integer_eq:
  "enc_integer v =
     (if v = 0 then [combine_type 2 0]
      else if sint v \<noteq> sint (ucast v :: u32) then combine_type 2 6 # le_bytes 8 v
      else if sint v < 0 then combine_type 2 4 # le_bytes 4 v
      else if sint v < 0x100 then combine_type 2 1 # le_bytes 1 v
      else if sint v < 0x10000 then combine_type 2 2 # le_bytes 2 v
      else combine_type 2 4 # le_bytes 4 v)"
  by (simp add: enc_integer_def wb_integer_def wb_init_valid seri_types)

lemma take_bit_small:
  fixes v :: u64
  assumes "0 \<le> sint v" "sint v < 2 ^ n" "n < 64"
  shows "take_bit n v = v"
proof -
  have "(2 :: int) ^ n \<le> 2 ^ 64"
    using assms(3) by (intro power_increasing) simp_all
  then have "sint v = uint v"
    using assms(1,2) by (simp add: uint_sint take_bit_int_eq_self)
  then have "uint v < 2 ^ n"
    using assms(2) by simp
  then have "uint (take_bit n v) = uint v"
    by (simp add: unsigned_take_bit_eq take_bit_int_eq_self)
  then show ?thesis
    by (simp add: word_uint_eq_iff)
qed

lemma sign_extend_back:
  fixes v :: u64
  assumes "sint v = sint (ucast v :: u32)"
  shows "scast (ucast (take_bit 32 v) :: u32) = v"
proof -
  have "(ucast (take_bit 32 v) :: u32) = ucast v"
    by (rule bit_word_eqI) (simp add: bit_simps)
  moreover have "sint (scast (ucast v :: u32) :: u64) = sint (ucast v :: u32)"
    by (rule sint_up_scast) (simp add: is_up)
  ultimately have "sint (scast (ucast (take_bit 32 v) :: u32) :: u64) = sint v"
    using assms by simp
  then show ?thesis
    by (metis scast_eq scast_id)
qed

text \<open>An integer is the value behind its type byte, in every size class.\<close>

lemma get_enc_integer:
  "\<exists>c p. enc_integer v = combine_type 2 c # p \<and> c < 32 \<and> c \<noteq> 8 \<and> get_integer c (p @ rb) = Inr (v, rb)"
proof -
  consider "v = 0" | "v \<noteq> 0" "sint v \<noteq> sint (ucast v :: u32)"
    | "v \<noteq> 0" "sint v = sint (ucast v :: u32)" "sint v < 0"
    | "v \<noteq> 0" "sint v = sint (ucast v :: u32)" "0 \<le> sint v" "sint v < 0x100"
    | "v \<noteq> 0" "sint v = sint (ucast v :: u32)" "0x100 \<le> sint v" "sint v < 0x10000"
    | "v \<noteq> 0" "sint v = sint (ucast v :: u32)" "0x10000 \<le> sint v"
    by linarith
  then show ?thesis
  proof cases
    case 1
    then show ?thesis
      by (intro exI [of _ 0] exI [of _ "[]"]) (simp add: enc_integer_eq get_integer_def seri_types)
  next
    case 2
    then show ?thesis
      by (intro exI [of _ 6] exI [of _ "le_bytes 8 v"])
        (simp add: enc_integer_eq get_integer_def seri_types rb_read_append)
  next
    case 4
    then show ?thesis
      using take_bit_small [of v 8]
      by (intro exI [of _ 1] exI [of _ "le_bytes 1 v"])
        (simp add: enc_integer_eq get_integer_def seri_types rb_read_append le_word_le_bytes)
  next
    case 5
    then show ?thesis
      using take_bit_small [of v 16]
      by (intro exI [of _ 2] exI [of _ "le_bytes 2 v"])
        (simp add: enc_integer_eq get_integer_def seri_types rb_read_append le_word_le_bytes)
  qed (intro exI [of _ 4] exI [of _ "le_bytes 4 v"],
    simp add: enc_integer_eq get_integer_def seri_types rb_read_append le_word_le_bytes sign_extend_back)+
qed

lemma unpack_integer: "unpack_one (Suc f) (enc_integer v @ rb) = Inr (LInteger v, rb)"
proof -
  obtain c p where "enc_integer v = combine_type 2 c # p" "c < 32" "c \<noteq> 8" "get_integer c (p @ rb) = Inr (v, rb)"
    using get_enc_integer by blast
  then show ?thesis
    by (simp add: unpack_one_head push_value_def seri_types)
qed

lemma enc_string_eq:
  "enc_string s =
     (if length s < 32 then combine_type 4 (length s) # s
      else if length s < 0x10000 then combine_type 5 2 # le_bytes 2 (of_nat (length s)) @ s
      else combine_type 5 4 # le_bytes 4 (of_nat (length s)) @ s)"
  by (simp add: enc_string_def wb_string_def wb_init_valid seri_types Let_def)

lemma unpack_string:
  assumes "length s < 2 ^ 31"
  shows "unpack_one (Suc f) (enc_string s @ rb) = Inr (LString s, rb)"
  using assms le_word_small [of "length s" 2] le_word_small [of "length s" 4]
  by (simp add: enc_string_eq unpack_one_head push_value_def seri_types get_buffer_def get_long_string_def
      rb_read_append)

text \<open>The head of a table gives the number of elements of its sequence.\<close>

lemma table_size_head:
  assumes "n < 2 ^ 31"
  obtains c p where "enc_table_head n = combine_type 6 c # p" "c < 32" "\<And>rb. table_size c (p @ rb) = Inr (int n, rb)"
proof (cases "n < 31")
  case True
  then show thesis
    by (intro that [of n "[]"]) (simp_all add: enc_table_head_def wb_table_head_def wb_init_valid seri_types table_size_def)
next
  case False
  have head: "enc_table_head n = combine_type 6 31 # enc_integer (of_nat n)"
    using False wb_writes(3) [of "wb_push [combine_type 6 31] wb_init" "of_nat n"]
    by (simp add: enc_table_head_def wb_table_head_def wb_init_valid seri_types)
  have "(ucast (of_nat n :: u64) :: u32) = of_int (int n)"
    by (rule bit_word_eqI) (simp add: bit_simps)
  also have "sint (of_int (int n) :: u32) = int n"
    using assms by (subst sint_sbintrunc') (simp add: signed_take_bit_int_eq_self)
  finally have n: "sint (ucast (of_nat n :: u64) :: u32) = int n" .
  have "table_size 31 (enc_integer (of_nat n) @ rb) = Inr (int n, rb)" for rb
  proof -
    obtain c p where "enc_integer (of_nat n) = combine_type 2 c # p" "c < 32" "c \<noteq> 8"
      "get_integer c (p @ rb) = Inr (of_nat n, rb)"
      using get_enc_integer by blast
    then show ?thesis
      using n by (simp add: table_size_def seri_types rb_read_def)
  qed
  then show thesis
    by (intro that [OF head]) simp_all
qed

subsection \<open>Tables\<close>

text \<open>The table that the reader builds: the elements of the sequence, then the other entries.\<close>

fun set_array :: "nat \<Rightarrow> lua_value list \<Rightarrow> entries \<Rightarrow> entries" where
  "set_array i [] ps = ps"
| "set_array i (v # vs) ps = set_array (Suc i) vs (raw_set (LInteger (of_nat i)) v ps)"

definition set_pairs :: "entries \<Rightarrow> entries \<Rightarrow> entries" where
  "set_pairs kvs ps = fold (\<lambda>(k, v). raw_set k v) kvs ps"

definition hash_entries :: "nat \<Rightarrow> entries \<Rightarrow> entries" where
  "hash_entries n ps = filter (\<lambda>p. \<not> in_array n (fst p)) ps"

lemma hash_part_entries: "hash_part n ps = concat (map (\<lambda>p. [fst p, snd p]) (hash_entries n ps))"
  by (induction ps) (auto simp: hash_part_def hash_entries_def)

function unpacked :: "lua_value \<Rightarrow> lua_value" where
  "unpacked (LTable n ps) =
     LTable n (set_pairs (map (\<lambda>p. (fst p, unpacked (snd p))) (hash_entries n ps))
                (set_array 1 (map unpacked (array_part n ps)) []))"
| "unpacked (LPairs ps) = LTable 0 (set_pairs (map (\<lambda>p. (fst p, unpacked (snd p))) (hash_entries 0 ps)) [])"
| "unpacked LNil = LNil"
| "unpacked (LBool b) = LBool b"
| "unpacked (LInteger x) = LInteger x"
| "unpacked (LReal x) = LReal x"
| "unpacked (LString s) = LString s"
| "unpacked (LPointer p) = LPointer p"
| "unpacked LOther = LOther"
  by pat_completeness auto
termination
  by (relation "measure size") (auto simp: hash_entries_def dest: array_part_size intro: entry_size)

text \<open>
  Values of a Lua program: strings and sequences have fewer than \<open>2 ^ 31\<close> elements, the keys of a
  table are distinct and normalised. Keys that are tables themselves are left out: a copy has no
  identity.
\<close>

fun key_ok :: "lua_value \<Rightarrow> bool" where
  "key_ok (LBool b) = True"
| "key_ok (LInteger x) = True"
| "key_ok (LReal r) = (\<not> real_is_nan r \<and> real_to_integer r = None)"
| "key_ok (LString s) = (length s < 2 ^ 31)"
| "key_ok (LPointer p) = True"
| "key_ok _ = False"

fun atom_ok :: "lua_value \<Rightarrow> bool" where
  "atom_ok (LTable n ps) = False"
| "atom_ok (LPairs ps) = False"
| "atom_ok (LString s) = (length s < 2 ^ 31)"
| "atom_ok _ = True"

inductive lua_wf :: "lua_value \<Rightarrow> bool" where
  atom: "atom_ok v \<Longrightarrow> lua_wf v"
| table: "n < 2 ^ 31 \<Longrightarrow> distinct (map fst ps) \<Longrightarrow> (\<And>k v. (k, v) \<in> set ps \<Longrightarrow> key_ok k) \<Longrightarrow>
    (\<And>k v. (k, v) \<in> set ps \<Longrightarrow> lua_wf v) \<Longrightarrow> lua_wf (LTable n ps)"
| pairs: "distinct (map fst ps) \<Longrightarrow> (\<And>k v. (k, v) \<in> set ps \<Longrightarrow> key_ok k) \<Longrightarrow>
    (\<And>k v. (k, v) \<in> set ps \<Longrightarrow> lua_wf v) \<Longrightarrow> lua_wf (LPairs ps)"

inductive_cases lua_wf_tableE: "lua_wf (LTable n ps)"
inductive_cases lua_wf_pairsE: "lua_wf (LPairs ps)"
inductive_cases lua_wf_stringE: "lua_wf (LString s)"

lemma key_ok_facts:
  assumes "key_ok k"
  shows "atom_ok k" "k \<noteq> LNil" "unpacked k = k" "table_key k = Inr k"
  using assms by (cases k; simp add: table_key_def)+

lemma raw_get_wf:
  assumes "\<And>k v. (k, v) \<in> set ps \<Longrightarrow> lua_wf v"
  shows "lua_wf (raw_get ps k)"
  using assms by (auto simp: raw_get_def atom split: option.split dest: map_of_SomeD)

lemma key_ok_wf: "key_ok k \<Longrightarrow> lua_wf k"
  by (simp add: atom key_ok_facts(1))

lemma lua_wf_parts:
  assumes "lua_wf v" "x \<in> set (parts v)"
  shows "lua_wf x"
proof -
  have wf: "lua_wf x" if "\<And>k v. (k, v) \<in> set ps \<Longrightarrow> key_ok k" "\<And>k v. (k, v) \<in> set ps \<Longrightarrow> lua_wf v"
    "x \<in> set (array_part n ps) \<union> set (hash_part n ps)" for n ps
    using that raw_get_wf [OF that(2)] key_ok_wf by (auto simp: array_part_def hash_part_def split: if_splits)
  show ?thesis
  proof (cases v)
    case (LTable n ps)
    then show ?thesis using assms wf [of ps n] by (auto elim!: lua_wf_tableE)
  next
    case (LPairs ps)
    then show ?thesis using assms wf [of ps 0] by (auto elim!: lua_wf_pairsE)
  qed (use assms in simp_all)
qed

lemma enc_atoms:
  "enc LNil = [combine_type 0 0]" "enc (LBool b) = [combine_type 1 (if b then 1 else 0)]"
  "enc (LInteger x) = enc_integer x" "enc (LReal r) = combine_type 2 8 # le_bytes 8 r"
  "enc (LString s) = enc_string s" "enc (LPointer p) = combine_type 3 0 # le_bytes 8 p"
  by (subst enc.simps, simp add: closing_def seri_types)+

lemma enc_not_empty: "supported v \<Longrightarrow> enc v \<noteq> []"
  by (subst enc.simps, subst (asm) supported.simps)
    (cases v; simp add: closing_def enc_integer_eq enc_string_eq)

lemma array_part_length: "length (array_part n ps) = n"
  by (simp add: array_part_def del: upt_Suc)

lemma unpack_array_correct:
  assumes "\<And>v rb. v \<in> set vs \<Longrightarrow> rd (enc v @ rb) = Inr (unpacked v, rb)"
  shows "unpack_array rd i (length vs) ps (concat (map enc vs) @ rb) = Inr (set_array i (map unpacked vs) ps, rb)"
  using assms by (induction vs arbitrary: i ps) auto

lemma unpack_pairs_correct:
  assumes "\<And>k v rb. (k, v) \<in> set kvs \<Longrightarrow> rd (enc k @ rb) = Inr (k, rb) \<and> rd (enc v @ rb) = Inr (unpacked v, rb) \<and> key_ok k"
    and "\<And>rb. rd (combine_type 0 0 # rb) = Inr (LNil, rb)" and "length kvs < f"
  shows "unpack_pairs rd f ps (concat (map enc (concat (map (\<lambda>p. [fst p, snd p]) kvs))) @ combine_type 0 0 # rb)
    = Inr (set_pairs (map (\<lambda>p. (fst p, unpacked (snd p))) kvs) ps, rb)"
  using assms
proof (induction kvs arbitrary: f ps)
  case Nil
  then show ?case by (cases f) (simp_all add: set_pairs_def)
next
  case (Cons kv kvs)
  obtain k v where kv: "kv = (k, v)" by fastforce
  obtain g where f: "f = Suc g" "length kvs < g"
    using Cons.prems(3) by (cases f) auto
  have "rd (enc k @ rb') = Inr (k, rb')" "rd (enc v @ rb') = Inr (unpacked v, rb')" "k \<noteq> LNil" "table_key k = Inr k" for rb'
    using Cons.prems(1) [of k v] key_ok_facts [of k] kv by auto
  moreover have "unpack_pairs rd g qs (concat (map enc (concat (map (\<lambda>p. [fst p, snd p]) kvs))) @ combine_type 0 0 # rb)
      = Inr (set_pairs (map (\<lambda>p. (fst p, unpacked (snd p))) kvs) qs, rb)" for qs
    by (rule Cons.IH [OF _ Cons.prems(2) f(2)]) (rule Cons.prems(1), simp)
  ultimately show ?case
    by (simp add: kv f(1) set_pairs_def)
qed

lemma length_parts_le: "list_all supported vs \<Longrightarrow> length vs \<le> length (concat (map enc vs))"
proof (induction vs)
  case (Cons v vs)
  then have "enc v \<noteq> []" by (simp add: enc_not_empty)
  with Cons show ?case by (cases "enc v") auto
qed simp

lemma enc_part_length: "x \<in> set vs \<Longrightarrow> length (enc x) \<le> length (concat (map enc vs))"
  by (induction vs) auto

text \<open>Reading an encoded value gives the value, with the fuel of its length.\<close>

lemma unpack_table_correct:
  assumes rd: "\<And>x rb. x \<in> set (array_part n ps @ hash_part n ps) \<Longrightarrow> rd (enc x @ rb) = Inr (unpacked x, rb)"
    and nil: "\<And>rb. rd (combine_type 0 0 # rb) = Inr (LNil, rb)"
    and keys: "\<And>k v. (k, v) \<in> set ps \<Longrightarrow> key_ok k" and fuel: "length (hash_entries n ps) < f"
    and size: "\<And>rb. table_size c (p @ rb) = Inr (int n, rb)"
  shows "unpack_table rd f c (p @ concat (map enc (array_part n ps)) @ concat (map enc (hash_part n ps)) @ combine_type 0 0 # rb)
    = Inr (unpacked (LTable n ps), rb)"
proof -
  have arr: "unpack_array rd 1 n [] (concat (map enc (array_part n ps)) @ rb')
      = Inr (set_array 1 (map unpacked (array_part n ps)) [], rb')" for rb'
    using unpack_array_correct [of "array_part n ps" rd 1 "[]" rb'] rd unfolding array_part_length by simp
  have entries: "rd (enc k @ rb') = Inr (k, rb') \<and> rd (enc v @ rb') = Inr (unpacked v, rb') \<and> key_ok k"
    if "(k, v) \<in> set (hash_entries n ps)" for k v rb'
  proof -
    have "k \<in> set (hash_part n ps)" "v \<in> set (hash_part n ps)"
      using that by (force simp: hash_part_entries)+
    moreover have "key_ok k"
      using that keys by (auto simp: hash_entries_def)
    ultimately show ?thesis
      using rd [of k rb'] rd [of v rb'] key_ok_facts(3) [of k] by auto
  qed
  show ?thesis
    using unpack_pairs_correct [OF entries nil fuel] 
    by (simp add: unpack_table_def size arr [unfolded One_nat_def] hash_part_entries)
qed

lemma unpack_enc:
  "lua_wf v \<Longrightarrow> supported v \<Longrightarrow> length (enc v) \<le> f \<Longrightarrow> unpack_one f (enc v @ rb) = Inr (unpacked v, rb)"
proof (induction v arbitrary: f rb rule: parts_induct)
  case (parts v)
  obtain g where f: "f = Suc g"
    using parts.prems(3) enc_not_empty [OF parts.prems(2)] by (cases f) auto
  have sup: "list_all supported (parts v)"
    using parts.prems(2) by (subst (asm) supported.simps) simp
  have nil: "unpack_one (Suc h) (combine_type 0 0 # rb) = Inr (LNil, rb)" for h rb
    by (simp add: unpack_one_head push_value_def seri_types)
  have table: "unpack_one (Suc g) (combine_type 6 c # p @ concat (map enc (array_part n ps)) @
      concat (map enc (hash_part n ps)) @ combine_type 0 0 # rb) = Inr (unpacked (LTable n ps), rb)"
    if h: "set (array_part n ps) \<union> set (hash_part n ps) \<subseteq> set (parts v)" "c < 32"
      "\<And>rb. table_size c (p @ rb) = Inr (int n, rb)" "\<And>k v. (k, v) \<in> set ps \<Longrightarrow> key_ok k"
      "length (concat (map enc (array_part n ps))) + length (concat (map enc (hash_part n ps))) < g" for c p n ps
  proof -
    have len: "length (enc x) \<le> g" if "x \<in> set (array_part n ps @ hash_part n ps)" for x
      using that h(5) enc_part_length [of x "array_part n ps"] enc_part_length [of x "hash_part n ps"] by auto
    have "length (hash_entries n ps) \<le> length (hash_part n ps)"
      by (simp add: hash_part_entries length_concat comp_def sum_list_triv)
    also have "\<dots> \<le> length (concat (map enc (hash_part n ps)))"
      using sup h(1) by (intro length_parts_le) (auto simp: list_all_iff)
    finally have fuel: "length (hash_entries n ps) < g"
      using h(5) by linarith
    obtain g' where g: "g = Suc g'"
      using h(5) by (cases g) auto
    have "unpack_table (unpack_one g) g c (p @ concat (map enc (array_part n ps)) @
        concat (map enc (hash_part n ps)) @ combine_type 0 0 # rb) = Inr (unpacked (LTable n ps), rb)"
    proof (rule unpack_table_correct [OF _ _ h(4) fuel h(3)])
      show "unpack_one g (enc x @ rb) = Inr (unpacked x, rb)" if "x \<in> set (array_part n ps @ hash_part n ps)" for x rb
        using parts.IH [of x g rb] len [OF that] that h(1) sup lua_wf_parts [OF parts.prems(1), of x]
        by (auto simp: list_all_iff)
      show "unpack_one g (combine_type 0 0 # rb) = Inr (LNil, rb)" for rb
        using nil g by simp
    qed
    then show ?thesis
      using h(2) by (simp add: unpack_one_head push_value_def seri_types)
  qed
  show ?case
  proof (cases v)
    case (LTable n ps)
    have wf: "n < 2 ^ 31" "\<And>k v. (k, v) \<in> set ps \<Longrightarrow> key_ok k"
      using parts.prems(1) by (auto simp: LTable elim: lua_wf_tableE)
    obtain c p where head: "enc_table_head n = combine_type 6 c # p" "c < 32" "\<And>rb. table_size c (p @ rb) = Inr (int n, rb)"
      using table_size_head [OF wf(1)] by blast
    have enc: "enc v = combine_type 6 c # p @ concat (map enc (array_part n ps)) @ concat (map enc (hash_part n ps)) @ [combine_type 0 0]"
      by (subst enc.simps) (simp add: LTable closing_def head(1) seri_types)
    have "unpack_one (Suc g) (combine_type 6 c # p @ concat (map enc (array_part n ps)) @
        concat (map enc (hash_part n ps)) @ combine_type 0 0 # rb) = Inr (unpacked v, rb)"
      unfolding LTable by (rule table [OF _ head(2,3) wf(2)]) (use parts.prems(3) in \<open>simp_all add: enc f LTable [symmetric]\<close>,
        simp add: LTable)
    then show ?thesis
      by (simp add: enc f)
  next
    case (LPairs ps)
    have keys: "\<And>k v. (k, v) \<in> set ps \<Longrightarrow> key_ok k"
      using parts.prems(1) by (auto simp: LPairs elim: lua_wf_pairsE)
    have enc: "enc v = combine_type 6 0 # [] @ concat (map enc (array_part 0 ps)) @ concat (map enc (hash_part 0 ps)) @ [combine_type 0 0]"
      by (subst enc.simps) (simp add: LPairs closing_def array_part_def seri_types)
    have "unpack_one (Suc g) (combine_type 6 0 # [] @ concat (map enc (array_part 0 ps)) @
        concat (map enc (hash_part 0 ps)) @ combine_type 0 0 # rb) = Inr (unpacked (LTable 0 ps), rb)"
      by (rule table [OF _ _ _ keys])
        (use parts.prems(3) [unfolded enc f] in \<open>simp_all add: LPairs array_part_def table_size_def seri_types\<close>)
    then show ?thesis
      unfolding enc f by (simp add: LPairs array_part_def)
  next
    case (LString s)
    then have "length s < 2 ^ 31"
      using parts.prems(1) by (auto elim: lua_wf_stringE)
    then show ?thesis
      by (simp add: f LString enc_atoms unpack_string)
  next
    case LOther
    then show ?thesis using parts.prems(2) by (simp add: supported.simps)
  qed (simp_all add: f enc_atoms unpack_integer unpack_one_head push_value_def seri_types get_word_def rb_read_append)
qed

end
