(* ===== verification/Lua_Seri_Theorems.thy ===== *)
theory Lua_Seri_Theorems
  imports Lua_Seri_Roundtrip
begin

text \<open>What the serialisation promises to its callers.\<close>

subsection \<open>The contents of a table\<close>

lemma raw_get_raw_set: "raw_get (raw_set k v ps) k' = (if k' = k then v else raw_get ps k')"
proof -
  have "map_of (filter (\<lambda>p. fst p \<noteq> k) ps) k' = (if k' = k then None else map_of ps k')" for k'
    by (induction ps) auto
  then show ?thesis
    by (simp add: raw_get_def raw_set_def Let_def map_add_def split: option.split)
qed

lemma raw_get_set_array:
  assumes "i + length vs < 2 ^ 64"
  shows "raw_get (set_array i vs ps) k =
    (case k of LInteger x \<Rightarrow> if i \<le> unat x \<and> unat x < i + length vs then vs ! (unat x - i) else raw_get ps k
     | _ \<Rightarrow> raw_get ps k)"
  using assms
proof (induction vs arbitrary: i ps)
  case Nil
  then show ?case by (cases k) auto
next
  case (Cons v vs)
  have "unat (of_nat i :: u64) = i"
    using Cons.prems by (simp add: unat_of_nat)
  then have eq: "x = of_nat i \<longleftrightarrow> unat x = i" for x :: u64
    by (metis of_nat_unat word_unat_eq_iff)
  have rest: "raw_get (set_array (Suc i) vs (raw_set (LInteger (of_nat i)) v ps)) k =
    (case k of LInteger x \<Rightarrow> if Suc i \<le> unat x \<and> unat x < Suc i + length vs then vs ! (unat x - Suc i)
       else raw_get (raw_set (LInteger (of_nat i)) v ps) k
     | _ \<Rightarrow> raw_get (raw_set (LInteger (of_nat i)) v ps) k)"
    by (rule Cons.IH) (use Cons.prems in simp)
  show ?case
  proof (cases k)
    case (LInteger x)
    then show ?thesis
      using rest eq [of x] by (auto simp: raw_get_raw_set nth_Cons' Suc_diff_Suc not_less_eq_eq le_Suc_eq)
  qed (use rest in \<open>simp_all add: raw_get_raw_set\<close>)
qed

lemma raw_get_set_pairs:
  "distinct (map fst kvs) \<Longrightarrow>
   raw_get (set_pairs kvs ps) k = (case map_of kvs k of Some v \<Rightarrow> v | None \<Rightarrow> raw_get ps k)"
proof (induction kvs arbitrary: ps)
  case (Cons kv kvs)
  obtain k1 v1 where kv: "kv = (k1, v1)" by fastforce
  have "raw_get (set_pairs kvs (raw_set k1 v1 ps)) k
      = (case map_of kvs k of Some v \<Rightarrow> v | None \<Rightarrow> raw_get (raw_set k1 v1 ps) k)"
    using Cons by simp
  moreover have "map_of kvs k1 = None"
    using Cons.prems by (simp add: kv map_of_eq_None_iff)
  ultimately show ?case
    by (auto simp: kv set_pairs_def raw_get_raw_set split: option.split)
qed (simp add: set_pairs_def)

lemma map_of_hash_entries:
  "map_of (map (\<lambda>p. (fst p, unpacked (snd p))) (hash_entries n ps)) k
     = (if in_array n k then None else map_option unpacked (map_of ps k))"
  by (induction ps) (auto simp: hash_entries_def)

lemma in_range:
  fixes x :: u64
  assumes "n < 2 ^ 31"
  shows "0 < sint x \<and> sint x \<le> int n \<longleftrightarrow> 1 \<le> unat x \<and> unat x \<le> n"
proof
  assume h: "0 < sint x \<and> sint x \<le> int n"
  then have "uint x = sint x"
    using assms by (simp add: uint_sint take_bit_int_eq_self)
  with h show "1 \<le> unat x \<and> unat x \<le> n"
    by (auto simp: unat_eq_nat_uint)
next
  assume h: "1 \<le> unat x \<and> unat x \<le> n"
  have "uint x = int (unat x)"
    by simp
  with h have u: "1 \<le> uint x" "uint x \<le> int n"
    by linarith+
  then have "sint x = uint x"
    using assms by (simp add: sint_uint signed_take_bit_int_eq_self)
  with u show "0 < sint x \<and> sint x \<le> int n"
    by simp
qed

lemma unpacked_contents:
  assumes "n < 2 ^ 31" and "distinct (map fst ps)"
    and "qs = set_pairs (map (\<lambda>p. (fst p, unpacked (snd p))) (hash_entries n ps)) (set_array 1 (map unpacked (array_part n ps)) [])"
  shows "raw_get qs k = unpacked (raw_get ps k)"
proof -
  have "distinct (map fst (map (\<lambda>p. (fst p, unpacked (snd p))) (hash_entries n ps)))"
    using assms(2) by (simp add: hash_entries_def comp_def distinct_map_filter)
  then have q: "raw_get qs k = (if in_array n k then raw_get (set_array 1 (map unpacked (array_part n ps)) []) k
      else case map_of ps k of Some v \<Rightarrow> unpacked v | None \<Rightarrow> raw_get (set_array 1 (map unpacked (array_part n ps)) []) k)"
    unfolding assms(3) by (auto simp: raw_get_set_pairs map_of_hash_entries split: option.split)
  have arr: "raw_get (set_array 1 (map unpacked (array_part n ps)) []) k =
      (case k of LInteger x \<Rightarrow> if 1 \<le> unat x \<and> unat x \<le> n then unpacked (raw_get ps k) else LNil | _ \<Rightarrow> LNil)"
    using assms(1)
    by (subst raw_get_set_array)
      (auto simp: array_part_def raw_get_def nth_append simp del: upt_Suc split: lua_value.split)
  have "in_array n k \<longleftrightarrow> (\<exists>x. k = LInteger x \<and> 1 \<le> unat x \<and> unat x \<le> n)"
    using in_range [of n] assms(1) by (auto simp: in_array_def split: lua_value.split)
  then show ?thesis
    using q arr by (auto simp: raw_get_def split: option.split lua_value.split)
qed

text \<open>
  Two values with the same contents: equal atoms, and tables of the same length that have, for
  every key, values with the same contents.
\<close>

inductive same_value :: "lua_value \<Rightarrow> lua_value \<Rightarrow> bool" where
  same_atom: "atom_ok v \<Longrightarrow> same_value v v"
| same_table: "(\<And>k. same_value (raw_get ps k) (raw_get qs k)) \<Longrightarrow> same_value (LTable n ps) (LTable n qs)"
| same_pairs: "(\<And>k. same_value (raw_get ps k) (raw_get qs k)) \<Longrightarrow> same_value (LPairs ps) (LTable 0 qs)"

lemma atom_unpacked: "atom_ok v \<Longrightarrow> unpacked v = v"
  by (cases v) simp_all

lemma unpacked_same: "lua_wf v \<Longrightarrow> same_value v (unpacked v)"
proof (induction rule: lua_wf.induct)
  case (atom v)
  then show ?case by (simp add: atom_unpacked same_atom)
next
  case (table n ps)
  have "same_value (raw_get ps k) (unpacked (raw_get ps k))" for k
    using table.IH by (auto simp: raw_get_def same_atom split: option.split dest: map_of_SomeD)
  then show ?case
    using table.hyps(1,2) by (auto simp: unpacked_contents intro!: same_table)
next
  case (pairs ps)
  have "same_value (raw_get ps k) (unpacked (raw_get ps k))" for k
    using pairs.IH by (auto simp: raw_get_def same_atom split: option.split dest: map_of_SomeD)
  then show ?case
    using pairs.hyps(1) unpacked_contents [of 0 ps]
    by (auto simp: array_part_def intro!: same_pairs)
qed

subsection \<open>The round trip\<close>

lemma luaseri_pack_bytes:
  assumes "\<forall>v \<in> set vs. packable 0 v"
  shows "luaseri_pack vs = Inr (Some (concat (map enc vs)))"
proof -
  obtain b where "seri_fold (pack_one 0) vs wb_init = Inr b" "wb_valid b" "wb_bytes b = concat (map enc vs)"
    using seri_fold_writes [OF wb_init_valid(1), of vs "pack_one 0" enc, OF pack_one_writes] assms
      wb_init_valid(2) by auto
  then show ?thesis
    by (simp add: luaseri_pack_def seri_copy_bytes)
qed

lemma luaseri_pack_fails:
  assumes "v \<in> set vs" "\<not> packable 0 v"
  shows "\<exists>e. luaseri_pack vs = Inl e"
proof -
  obtain e where "seri_fold (pack_one 0) vs wb_init = Inl e"
    using seri_fold_fails [OF assms(1), of "pack_one 0" wb_init, OF pack_one_fails [OF assms(2)]] by auto
  then show ?thesis
    by (simp add: luaseri_pack_def)
qed

lemma unpack_all_enc:
  assumes "\<forall>v \<in> set vs. lua_wf v \<and> supported v" and "length (concat (map enc vs)) < f"
  shows "unpack_all f (concat (map enc vs)) = Inr (map unpacked vs)"
  using assms
proof (induction vs arbitrary: f)
  case Nil
  then show ?case by (cases f) simp_all
next
  case (Cons v vs)
  obtain g where f: "f = Suc g"
    using Cons.prems(2) by (cases f) auto
  have "enc v \<noteq> []"
    using Cons.prems(1) by (simp add: enc_not_empty)
  then have "unpack_all g (concat (map enc vs)) = Inr (map unpacked vs)"
    using Cons.prems f by (intro Cons.IH) (auto simp flip: length_greater_0_conv)
  moreover have "unpack_one (Suc g) (enc v @ concat (map enc vs)) = Inr (unpacked v, concat (map enc vs))"
    using Cons.prems f by (intro unpack_enc) auto
  ultimately show ?case
    using \<open>enc v \<noteq> []\<close> by (simp add: f)
qed

text \<open>
  C25. Serialisation is a round trip: whatever values a Lua service packs into a message, if \<open>pack\<close>
  accepts them, the buffer it builds from its chain of blocks unpacks to the same values in the same
  order: integers of every size class, reals, strings of every length, pointers, and tables, nested
  to any depth that \<open>pack\<close> accepts, with the same value under every key.
\<close>

theorem luaseri_roundtrip:
  assumes "\<forall>v \<in> set vs. lua_wf v" and "luaseri_pack vs = Inr r"
  shows "\<exists>bs vs'. r = Some bs \<and> luaseri_unpack bs = Inr vs' \<and> list_all2 same_value vs vs'"
proof -
  have pk: "\<forall>v \<in> set vs. packable 0 v"
    using assms(2) luaseri_pack_fails by fastforce
  then have "r = Some (concat (map enc vs))"
    using luaseri_pack_bytes assms(2) by auto
  moreover have "luaseri_unpack (concat (map enc vs)) = Inr (map unpacked vs)"
    unfolding luaseri_unpack_def using pk assms(1) by (intro unpack_all_enc) (simp_all add: packable_def)
  moreover have "list_all2 same_value vs (map unpacked vs)"
    using assms(1) unpacked_same by (auto simp: list_all2_conv_all_nth)
  ultimately show ?thesis
    by blast
qed

text \<open>
  C28. The limit of the nesting: \<open>pack\<close> refuses exactly the values that contain something other than
  nil, booleans, numbers, strings, pointers and tables, and those nested more than 32 levels deep.
\<close>

theorem luaseri_pack_limit:
  assumes "\<forall>v \<in> set vs. lua_wf v"
  shows "(\<exists>bs. luaseri_pack vs = Inr (Some bs)) \<longleftrightarrow> (\<forall>v \<in> set vs. supported v \<and> nesting v \<le> MAX_DEPTH)"
proof -
  have "(\<forall>v \<in> set vs. supported v \<and> nesting v \<le> MAX_DEPTH) \<longleftrightarrow> (\<forall>v \<in> set vs. packable 0 v)"
    by (simp add: packable_def)
  then show ?thesis
    using luaseri_pack_bytes [of vs] luaseri_pack_fails [of _ vs] by fastforce
qed

theorem luaseri_pack_limit_witness:
  "(\<exists>bs. luaseri_pack [LBool True] = Inr (Some bs)) \<and> \<not> (\<exists>bs. luaseri_pack [LOther] = Inr (Some bs))"
  using luaseri_pack_limit [of "[LBool True]"] luaseri_pack_limit [of "[LOther]"] atom [of "LBool True"] atom [of LOther]
    packable_parts [of "LBool True" 0] supported.simps [of LOther]
  by (simp add: packable_def)

subsection \<open>The reader answers\<close>

text \<open>A reading step that does not run out of fuel and leaves no more than it found.\<close>

definition answers :: "seri_error + 'a \<times> bytes \<Rightarrow> nat \<Rightarrow> bool" where
  "answers r n \<longleftrightarrow> r \<noteq> Inl SERI_FUEL \<and> (\<forall>x rb. r = Inr (x, rb) \<longrightarrow> length rb \<le> n)"

lemma answers_bind:
  assumes "answers r m" and "\<And>x rb. length rb \<le> m \<Longrightarrow> answers (f (x, rb)) n"
  shows "answers (seri_bind r f) n"
  using assms by (cases r) (auto simp: answers_def)

lemma answers_simps [simp]:
  "answers (Inr (x, rb)) n \<longleftrightarrow> length rb \<le> n" "answers (Inl e) n \<longleftrightarrow> e \<noteq> SERI_FUEL"
  by (simp_all add: answers_def)

lemma answers_read: "n \<le> length rb \<Longrightarrow> answers (rb_read n rb) (length rb - n)"
  "answers (rb_read n rb) (length rb)"
  by (auto simp: rb_read_def)

lemma answers_get:
  "answers (get_integer c rb) (length rb)" "answers (get_word f rb) (length rb)"
  "answers (get_buffer n rb) (length rb)" "answers (get_long_string n rb) (length rb)"
  by (auto simp: get_integer_def get_word_def get_buffer_def get_long_string_def rb_read_def)

lemma answers_table_size: "answers (table_size c rb) (length rb)"
  unfolding table_size_def
  by (auto simp: Let_def intro!: answers_bind [OF answers_read(2)] answers_bind [OF answers_get(1)])

text \<open>A reader of values that answers on less than \<open>N\<close> bytes and takes at least one.\<close>

definition reads_below :: "nat \<Rightarrow> lua_value reader \<Rightarrow> bool" where
  "reads_below N rd \<longleftrightarrow> (\<forall>rb. length rb < N \<longrightarrow>
     rd rb \<noteq> Inl SERI_FUEL \<and> (\<forall>x rb'. rd rb = Inr (x, rb') \<longrightarrow> length rb' < length rb))"

lemma reads_belowE:
  assumes "reads_below N rd" "length rb < N"
  obtains e where "rd rb = Inl e" "e \<noteq> SERI_FUEL" | x rb' where "rd rb = Inr (x, rb')" "length rb' < length rb"
  using assms by (cases "rd rb") (auto simp: reads_below_def)

lemma unpack_array_answers:
  assumes "reads_below N rd" "length rb < N"
  shows "answers (unpack_array rd i m ps rb) (length rb)"
  using assms(2)
proof (induction m arbitrary: i ps rb)
  case (Suc m)
  show ?case
  proof (rule reads_belowE [OF assms(1) Suc.prems])
    fix v rb'
    assume h: "rd rb = Inr (v, rb')" "length rb' < length rb"
    then have "answers (unpack_array rd (Suc i) m qs rb') (length rb)" for qs
      using Suc.IH [of rb' "Suc i" qs] Suc.prems by (fastforce simp: answers_def)
    with h show ?thesis by simp
  qed simp
qed simp

lemma table_key_answers: "table_key k \<noteq> Inl SERI_FUEL"
  by (cases k) (simp_all add: table_key_def)

lemma unpack_pairs_answers:
  assumes "reads_below N rd" "length rb < N" "length rb < f"
  shows "answers (unpack_pairs rd f ps rb) (length rb)"
  using assms(2,3)
proof (induction f arbitrary: ps rb)
  case (Suc f)
  show ?case
  proof (rule reads_belowE [OF assms(1) Suc.prems(1)])
    fix k rb1
    assume k: "rd rb = Inr (k, rb1)" "length rb1 < length rb"
    then have "length rb1 < N" using Suc.prems(1) by simp
    with assms(1) show ?thesis
    proof (rule reads_belowE)
      fix v rb2
      assume v: "rd rb1 = Inr (v, rb2)" "length rb2 < length rb1"
      have "answers (unpack_pairs rd f qs rb2) (length rb)" for qs
        using Suc.IH [of rb2 qs] Suc.prems k v by (fastforce simp: answers_def)
      then show ?thesis
        using k v table_key_answers [of k] by (cases "table_key k") auto
    qed (use k in simp)
  qed simp
qed simp

lemma push_value_answers:
  assumes "reads_below f rd" "length rb < f"
  shows "answers (push_value rd f t c rb) (length rb)"
proof -
  have "answers (unpack_table rd f c rb) (length rb)"
    unfolding unpack_table_def
  proof (rule answers_bind [OF answers_table_size], simp, rule answers_bind, rule unpack_array_answers [OF assms(1)])
    fix n :: int and rb1 :: bytes
    assume "length rb1 \<le> length rb"
    with assms(2) show "length rb1 < f" by simp
  next
    fix n :: int and rb1 rb2 :: bytes and ps :: entries
    assume "length rb1 \<le> length rb" "length rb2 \<le> length rb1"
    then show "answers (case (ps, rb2) of (ps, rb2) \<Rightarrow> seri_bind (unpack_pairs rd f ps rb2)
        (\<lambda>(ps1, rb3). Inr (LTable (nat n) ps1, rb3))) (length rb)"
      using assms by (auto intro!: answers_bind [OF unpack_pairs_answers [OF assms(1)]])
  qed
  then show ?thesis
    unfolding push_value_def
    by (auto intro!: answers_get answers_bind [OF answers_get(1)])
qed

lemma unpack_one_reads: "reads_below f (unpack_one f)"
proof (induction f)
  case (Suc f)
  show ?case
    unfolding reads_below_def
  proof (intro allI impI)
    fix rb :: bytes
    assume len: "length rb < Suc f"
    show "unpack_one (Suc f) rb \<noteq> Inl SERI_FUEL \<and>
      (\<forall>x rb'. unpack_one (Suc f) rb = Inr (x, rb') \<longrightarrow> length rb' < length rb)"
    proof (cases rb)
      case (Cons b rb1)
      then show ?thesis
        using push_value_answers [OF Suc, of rb1] len
        by (fastforce simp: unpack_one.simps(2) rb_read_def answers_def)
    qed (simp add: unpack_one.simps(2) rb_read_def)
  qed
qed (simp add: reads_below_def)

lemma unpack_all_answers: "length rb < f \<Longrightarrow> unpack_all f rb \<noteq> Inl SERI_FUEL"
proof (induction f arbitrary: rb)
  case (Suc f)
  from unpack_one_reads Suc.prems show ?case
  proof (rule reads_belowE)
    fix v rb1
    assume v: "unpack_one (Suc f) rb = Inr (v, rb1)" "length rb1 < length rb"
    then have "unpack_all f rb1 \<noteq> Inl SERI_FUEL"
      using Suc.IH [of rb1] Suc.prems by simp
    with v show ?thesis by (cases "unpack_all f rb1") auto
  qed simp
qed simp

text \<open>
  C26. \<open>unpack\<close> answers on every buffer, well formed or not: the recursion and the loops over the
  elements and pairs of tables end, because every value takes at least one byte and a missing byte
  is an error; it returns values or reports an error.
\<close>

theorem luaseri_unpack_ends: "luaseri_unpack bs \<noteq> Inl SERI_FUEL"
  unfolding luaseri_unpack_def by (rule unpack_all_answers) simp



theorem luaseri_roundtrip_witness:
  "\<exists>r bs vs'. luaseri_pack [LTable 1 [(LInteger 1, LString [65]), (LString [66], LInteger 300)], LBool True] = Inr r \<and>
     r = Some bs \<and> luaseri_unpack bs = Inr vs' \<and>
     list_all2 same_value [LTable 1 [(LInteger 1, LString [65]), (LString [66], LInteger 300)], LBool True] vs'"
proof -
  define t where "t = LTable 1 [(LInteger 1, LString [65]), (LString [66], LInteger 300)]"
  have "lua_wf t"
    unfolding t_def by (rule table) (auto intro: atom)
  moreover have "lua_wf (LBool True)"
    by (rule atom) simp
  moreover have "\<forall>v \<in> set [t, LBool True]. packable 0 v"
  proof -
    have "parts t = [LString [65], LString [66], LInteger 300]"
      by (simp add: t_def array_part_def hash_part_def in_array_def raw_get_def)
    then show ?thesis
      using packable_parts [of t 0] packable_parts [of _ 1] packable_parts [of "LBool True" 0]
      by (simp add: MAX_DEPTH_def t_def)
  qed
  ultimately show ?thesis
    using luaseri_roundtrip [of "[t, LBool True]"] luaseri_pack_bytes [of "[t, LBool True]"] by (fold t_def) auto
qed

end
