(* ===== verification/Crypt_Base.thy ===== *)
theory Crypt_Base
  imports Little_Endian
begin

text \<open>
  The 64-bit quantities that the cryptographic functions take from Lua strings and give back
  (\<open>luaclib-src/lua-crypt.cpp\<close>), and the errors of these functions.
\<close>

text \<open>
  The errors raised with \<open>luaL_error\<close>; \<open>CRYPT_OVERREAD\<close> is a read outside of a buffer and
  \<open>CRYPT_DIVERGES\<close> a call that does not return.
\<close>

datatype crypt_error =
    CRYPT_KEY_SIZE
  | CRYPT_ZERO
  | CRYPT_PADDING_MODE
  | CRYPT_PADDING
  | CRYPT_TEXT_LENGTH
  | CRYPT_TEXT
  | CRYPT_HEX
  | CRYPT_BASE64
  | CRYPT_EMPTY
  | CRYPT_OVERREAD
  | CRYPT_DIVERGES

text \<open>The four bytes from \<open>i\<close> on as a little-endian word, and back.\<close>

definition get32 :: "bytes \<Rightarrow> nat \<Rightarrow> u32" where
  "get32 x i = ucast (x ! i) OR push_bit 8 (ucast (x ! (i + 1)))
     OR push_bit 16 (ucast (x ! (i + 2))) OR push_bit 24 (ucast (x ! (i + 3)))"

definition put32 :: "u32 \<Rightarrow> bytes" where
  "put32 r = [ucast r, ucast (drop_bit 8 r), ucast (drop_bit 16 r), ucast (drop_bit 24 r)]"

definition read_qword :: "bytes \<Rightarrow> u32 \<times> u32" where
  "read_qword x = (get32 x 0, get32 x 4)"

definition read64 :: "bytes \<Rightarrow> bytes \<Rightarrow> crypt_error + (u32 \<times> u32) \<times> (u32 \<times> u32)" where
  "read64 x y =
     (if length x \<noteq> 8 then Inl CRYPT_KEY_SIZE
      else if length y \<noteq> 8 then Inl CRYPT_KEY_SIZE
      else Inr (read_qword x, read_qword y))"

definition pushqword :: "u32 \<times> u32 \<Rightarrow> bytes" where
  "pushqword r = put32 (fst r) @ put32 (snd r)"

definition join64 :: "u32 \<times> u32 \<Rightarrow> u64" where
  "join64 x = ucast (fst x) OR push_bit 32 (ucast (snd x))"

definition push64 :: "u64 \<Rightarrow> bytes" where
  "push64 r = map (\<lambda>i. ucast (drop_bit (8 * i) r)) [0..<8]"

lemma length_8E:
  assumes "length x = 8"
  obtains a b c d e f g h where "x = [a, b, c, d, e, f, g, h]"
  using assms by (auto simp: numeral_eq_Suc length_Suc_conv)

lemma bit_get32:
  assumes "i + 3 < length x"
  shows "bit (get32 x i) n \<longleftrightarrow> n < 32 \<and> bit (x ! (i + n div 8)) (n mod 8)"
proof (cases "n < 32")
  case True
  then have "n div 8 < 4" by simp
  moreover have n: "n = 8 * (n div 8) + n mod 8" by simp
  moreover have "n mod 8 < 8" by simp
  ultimately consider "n div 8 = 0" | "n div 8 = 1" | "n div 8 = 2" | "n div 8 = 3"
    by linarith
  then show ?thesis
  proof cases
    case 1
    then have "n < 8" "n mod 8 = n" using n by presburger+
    with 1 show ?thesis by (simp add: get32_def bit_simps)
  next
    case 2
    then have "8 \<le> n" "n < 16" "n mod 8 = n - 8" using n by presburger+
    with 2 show ?thesis by (auto simp: get32_def bit_simps dest: bit_imp_le_length)
  next
    case 3
    then have "16 \<le> n" "n < 24" "n mod 8 = n - 16" using n by presburger+
    with 3 show ?thesis by (auto simp: get32_def bit_simps dest: bit_imp_le_length)
  next
    case 4
    then have "24 \<le> n" "n < 32" "n mod 8 = n - 24" using n by presburger+
    with 4 show ?thesis by (auto simp: get32_def bit_simps dest: bit_imp_le_length)
  qed
qed (auto dest: bit_imp_le_length)

lemma bit_le_word: "length x \<le> 8 \<Longrightarrow> bit (le_word x) n \<longleftrightarrow> n < 8 * length x \<and> bit (x ! (n div 8)) (n mod 8)"
proof (induction x arbitrary: n)
  case (Cons b x)
  show ?case
  proof (cases "n < 8")
    case False
    then obtain m where "n = m + 8" by (metis add.commute le_Suc_ex not_less)
    moreover have "\<not> bit b (m + 8)"
      using bit_imp_le_length [of b "m + 8"] by auto
    moreover have "(m + 8) div 8 = Suc (m div 8)"
      by simp
    ultimately show ?thesis
      using Cons.IH [of m] Cons.prems
      by (auto simp: bit_or_iff bit_ucast_iff bit_push_bit_iff simp del: div_add_self2)
  qed (simp add: bit_simps)
qed simp

lemma join64_read:
  assumes "length x = 8"
  shows "join64 (read_qword x) = le_word x"
proof (rule bit_word_eqI)
  fix n :: nat
  assume n: "n < LENGTH(64)"
  show "bit (join64 (read_qword x)) n = bit (le_word x) n"
  proof (cases "n < 32")
    case True
    then show ?thesis
      using assms n by (simp add: join64_def read_qword_def bit_or_iff bit_ucast_iff bit_push_bit_iff bit_get32 bit_le_word)
  next
    case False
    then obtain m where m: "n = m + 32" by (metis add.commute le_Suc_ex not_less)
    have "(m + 32) div 8 = 4 + m div 8" "(m + 32) mod 8 = m mod 8"
      by presburger+
    moreover have "\<not> bit (get32 x 0) n"
      using False by (auto dest: bit_imp_le_length)
    ultimately show ?thesis
      using assms n by (simp add: m join64_def read_qword_def bit_or_iff bit_ucast_iff bit_push_bit_iff bit_get32 bit_le_word)
  qed
qed

lemma push64_le: "push64 r = le_bytes 8 r"
  by (simp add: push64_def le_bytes_def)

lemma push64_length [simp]: "length (push64 r) = 8"
  by (simp add: push64_le)

lemma join64_push64 [simp]: "join64 (read_qword (push64 r)) = r"
  by (simp add: join64_read) (simp add: push64_le)

lemma put32_length [simp]: "length (put32 r) = 4"
  by (simp add: put32_def)

lemma bit_put32: "k < 4 \<Longrightarrow> j < 8 \<Longrightarrow> bit (put32 r ! k) j \<longleftrightarrow> bit r (8 * k + j)"
  by (cases "k = 0"; cases "k = 1"; cases "k = 2"; cases "k = 3")
    (auto simp: put32_def bit_simps add.commute)

lemma get32_put32 [simp]: "get32 (put32 r @ s) 0 = r" "get32 (put32 a @ put32 r) 4 = r"
proof -
  have "bit (put32 r ! (n div 8)) (n mod 8) \<longleftrightarrow> bit r n" if "n < 32" for n
    using that bit_put32 [of "n div 8" "n mod 8" r] by simp
  then show "get32 (put32 r @ s) 0 = r" "get32 (put32 a @ put32 r) 4 = r"
    by (auto intro!: bit_word_eqI simp: bit_get32 nth_append less_mult_imp_div_less)
qed

lemma read_pushqword [simp]: "read_qword (pushqword r) = r"
  by (simp add: read_qword_def pushqword_def)

lemma pushqword_length [simp]: "length (pushqword r) = 8"
  by (simp add: pushqword_def)

end
