(* ===== verification/Crypt_Dh.thy ===== *)
theory Crypt_Dh
  imports Crypt_Base
begin

text \<open>
  The key exchange of \<open>lua-crypt.cpp\<close>: multiplication and exponentiation modulo the largest 64-bit
  prime in 64-bit arithmetic without overflow, and the two calls of the exchange.
\<close>

definition dh_P :: u64 where "dh_P = 0xffffffffffffffc5"
definition dh_G :: u64 where "dh_G = 5"

text \<open>One turn of the loop of \<open>mul_mod_p\<close>: the sum, and the doubling of \<open>a\<close>.\<close>

definition add_mod_p :: "u64 \<Rightarrow> u64 \<Rightarrow> u64" where
  "add_mod_p m a = (let t = dh_P - a in if m \<ge> t then m - t else m + a)"

definition double_mod_p :: "u64 \<Rightarrow> u64" where
  "double_mod_p a = (if a \<ge> dh_P - a then a * 2 - dh_P else a * 2)"

function mul_loop :: "u64 \<Rightarrow> u64 \<Rightarrow> u64 \<Rightarrow> u64" where
  "mul_loop m a b =
     (if b = 0 then m
      else mul_loop (if b AND 1 \<noteq> 0 then add_mod_p m a else m) (double_mod_p a) (drop_bit 1 b))"
  by pat_completeness auto
termination
proof (relation "measure (\<lambda>(m, a, b). unat b)")
  fix m a b :: u64
  assume "b \<noteq> 0"
  then show "((if b AND 1 \<noteq> 0 then add_mod_p m a else m, double_mod_p a, drop_bit 1 b), m, a, b)
      \<in> measure (\<lambda>(m, a, b). unat b)"
    by (simp add: drop_bit_Suc unat_div unat_gt_0)
qed simp

declare mul_loop.simps [simp del]

definition mul_mod_p :: "u64 \<Rightarrow> u64 \<Rightarrow> u64" where
  "mul_mod_p a b = mul_loop 0 a b"

text \<open>\<open>pow_mod_p\<close>: by squaring; it does not return for the exponent 0.\<close>

partial_function (option) pow_mod_p :: "u64 \<Rightarrow> u64 \<Rightarrow> u64 option" where
  "pow_mod_p a b =
     (if b = 1 then Some a
      else do {
        t \<leftarrow> pow_mod_p a (drop_bit 1 b);
        let t1 = mul_mod_p t t;
        Some (if b mod 2 \<noteq> 0 then mul_mod_p t1 a else t1)
      })"

definition powmodp :: "u64 \<Rightarrow> u64 \<Rightarrow> u64 option" where
  "powmodp a b = pow_mod_p (if a > dh_P then a mod dh_P else a) b"

definition push_power :: "u64 option \<Rightarrow> crypt_error + bytes" where
  "push_power r = (case r of None \<Rightarrow> Inl CRYPT_DIVERGES | Some x \<Rightarrow> Inr (push64 x))"

definition l_dh_secret :: "bytes \<Rightarrow> bytes \<Rightarrow> crypt_error + bytes" where
  "l_dh_secret x y =
     (case read64 x y of
        Inl e \<Rightarrow> Inl e
      | Inr (xw, yw) \<Rightarrow>
          let xx = join64 xw; yy = join64 yw in
          if xx = 0 \<or> yy = 0 then Inl CRYPT_ZERO else push_power (powmodp xx yy))"

definition l_dh_exchange :: "bytes \<Rightarrow> crypt_error + bytes" where
  "l_dh_exchange x =
     (if length x \<noteq> 8 then Inl CRYPT_KEY_SIZE
      else
        let x64 = join64 (read_qword x) in
        if x64 = 0 then Inl CRYPT_ZERO else push_power (powmodp dh_G x64))"

subsection \<open>Arithmetic modulo the prime\<close>

abbreviation P :: nat where "P \<equiv> 0xffffffffffffffc5"

lemma unat_dh_P [simp]: "unat dh_P = P"
  by (simp add: dh_P_def)

lemma add_mod_p_exact:
  assumes "unat m < P" "unat a \<le> P"
  shows "unat (add_mod_p m a) = (unat m + unat a) mod P"
proof -
  have t: "unat (dh_P - a) = P - unat a"
    using assms(2) by (simp add: unat_sub word_le_nat_alt)
  show ?thesis
  proof (cases "dh_P - a \<le> m")
    case True
    then have le: "P - unat a \<le> unat m" by (simp add: word_le_nat_alt t)
    have "unat (m - (dh_P - a)) = unat m + unat a - P"
      using True assms(2) le by (simp add: unat_sub t)
    moreover have "(unat m + unat a) mod P = unat m + unat a - P"
      using assms le by (simp add: le_mod_geq)
    ultimately show ?thesis using True by (simp add: add_mod_p_def Let_def)
  next
    case False
    then have lt: "unat m + unat a < P" using assms(2) by (simp add: word_le_nat_alt t)
    then have "unat (m + a) = unat m + unat a"
      by (simp add: unat_word_ariths)
    with lt False show ?thesis by (simp add: add_mod_p_def Let_def)
  qed
qed

lemma double_mod_p_exact:
  assumes "unat a \<le> P"
  shows "unat (double_mod_p a) \<le> P" "unat (double_mod_p a) mod P = 2 * unat a mod P"
proof -
  have t: "unat (dh_P - a) = P - unat a"
    using assms by (simp add: unat_sub word_le_nat_alt)
  have "unat (double_mod_p a) \<le> P \<and> unat (double_mod_p a) mod P = 2 * unat a mod P"
  proof (cases "dh_P - a \<le> a")
    case True
    then have le: "P \<le> 2 * unat a" using assms by (simp add: word_le_nat_alt t)
    have "a * 2 - dh_P = word_of_nat (2 * unat a - P)"
      using le by (simp add: of_nat_diff dh_P_def mult.commute)
    then have "unat (a * 2 - dh_P) = 2 * unat a - P"
      using assms by (simp add: unat_of_nat)
    with True le assms show ?thesis
      by (simp add: double_mod_p_def le_mod_geq)
  next
    case False
    then have lt: "2 * unat a < P" using assms by (simp add: word_le_nat_alt t)
    then have "unat (a * 2) = 2 * unat a"
      by (simp add: unat_word_ariths mult.commute)
    with lt False show ?thesis by (simp add: double_mod_p_def)
  qed
  then show "unat (double_mod_p a) \<le> P" "unat (double_mod_p a) mod P = 2 * unat a mod P" by simp_all
qed

lemma odd_unat: "odd (unat b) \<longleftrightarrow> odd b" for b :: u64
  using bit_unsigned_iff [where ?'a = nat, of b 0] by (simp add: bit_0)

lemma mod_sum_mult: "(x + y mod p * h) mod p = (x + y * h) mod p" "(x mod p + y * h) mod p = (x + y * h) mod p" for p :: nat
  by (metis mod_add_right_eq mod_mult_left_eq) (simp add: mod_add_left_eq)

lemma mul_loop_exact:
  assumes "unat m < P" "unat a \<le> P"
  shows "unat (mul_loop m a b) = (unat m + unat a * unat b) mod P"
  using assms
proof (induction m a b rule: mul_loop.induct)
  case (1 m a b)
  show ?case
  proof (cases "b = 0")
    case False
    define m1 where "m1 = (if b AND 1 \<noteq> 0 then add_mod_p m a else m)"
    define h where "h = unat b div 2"
    have odd: "b AND 1 \<noteq> 0 \<longleftrightarrow> odd (unat b)"
      by (simp add: and_one_eq mod2_eq_if odd_unat)
    have b: "unat b = 2 * h + (if odd (unat b) then 1 else 0)"
      unfolding h_def by presburger
    have half: "unat (drop_bit 1 b) = h"
      by (simp add: drop_bit_Suc unat_div h_def)
    have m1: "unat m1 = (unat m + (if odd (unat b) then unat a else 0)) mod P"
      using 1 by (simp add: m1_def odd add_mod_p_exact)
    have "unat (mul_loop m1 (double_mod_p a) (drop_bit 1 b)) = (unat m1 + unat (double_mod_p a) * h) mod P"
      using 1 False half m1 double_mod_p_exact(1) by (auto simp: m1_def)
    also have "\<dots> = (unat m1 + 2 * unat a * h) mod P"
      by (metis 1(3) double_mod_p_exact(2) mod_sum_mult(1))
    also have "\<dots> = (unat m + (if odd (unat b) then unat a else 0) + 2 * unat a * h) mod P"
      unfolding m1 by (rule mod_sum_mult(2))
    also have "unat m + (if odd (unat b) then unat a else 0) + 2 * unat a * h = unat m + unat a * unat b"
      by (subst (2) b) (simp add: algebra_simps)
    finally show ?thesis
      using False by (subst mul_loop.simps) (simp add: m1_def)
  qed (use 1 in \<open>simp add: mul_loop.simps\<close>)
qed

lemma mul_mod_p_exact: "unat a \<le> P \<Longrightarrow> unat (mul_mod_p a b) = unat a * unat b mod P"
  by (simp add: mul_mod_p_def mul_loop_exact)

lemma pow_mod_p_exact:
  assumes "b \<noteq> 0" "unat a \<le> P"
  shows "\<exists>r. pow_mod_p a b = Some r \<and> unat r \<le> P \<and> unat r mod P = unat a ^ unat b mod P"
  using assms(1)
proof (induction "unat b" arbitrary: b rule: less_induct)
  case less
  show ?case
  proof (cases "b = 1")
    case False
    define c where "c = drop_bit 1 b"
    have c: "unat c = unat b div 2"
      by (simp add: c_def drop_bit_Suc unat_div)
    have "unat b \<noteq> 0" "unat b \<noteq> 1"
      using less.prems False by (simp_all add: unat_eq_0) (metis One_nat_def unat_1 word_unat_eq_iff)
    then have "unat c < unat b" "c \<noteq> 0"
      using c by (auto simp flip: unat_eq_0)
    then obtain t where t: "pow_mod_p a c = Some t" "unat t \<le> P" "unat t mod P = unat a ^ unat c mod P"
      using less.hyps by blast
    define t1 where "t1 = mul_mod_p t t"
    have "unat t1 = (unat t mod P) * (unat t mod P) mod P"
      using t(2) by (simp only: t1_def mul_mod_p_exact mod_mult_eq)
    then have t1: "unat t1 = unat a ^ (2 * unat c) mod P"
      by (simp add: t(3) mod_mult_eq mult_2 power_add)
    have "unat (mul_mod_p t1 a) = unat a ^ (2 * unat c) * unat a mod P"
      using t1 by (simp add: mul_mod_p_exact mod_mult_left_eq)
    moreover have "unat b = 2 * unat c + (if b mod 2 \<noteq> 0 then 1 else 0)"
    proof -
      have "b mod 2 \<noteq> 0 \<longleftrightarrow> odd (unat b)"
        by (simp add: mod2_eq_if odd_unat)
      then show ?thesis
        by (cases "b mod 2 \<noteq> 0") (auto simp: c elim: oddE evenE)
    qed
    moreover have "pow_mod_p a b = Some (if b mod 2 \<noteq> 0 then mul_mod_p t1 a else t1)"
      using False t(1) by (subst pow_mod_p.simps) (simp add: c_def t1_def Let_def)
    ultimately show ?thesis
      using t1 by (simp add: power_add less_imp_le)
  qed (use assms(2) in \<open>subst pow_mod_p.simps, simp\<close>)
qed

lemma powmodp_exact:
  assumes "b \<noteq> 0"
  shows "\<exists>r. powmodp a b = Some r \<and> unat r \<le> P \<and> unat r mod P = unat a ^ unat b mod P"
proof -
  define a1 where "a1 = (if a > dh_P then a mod dh_P else a)"
  have "unat a1 \<le> P" "unat a1 mod P = unat a mod P"
    by (auto simp: a1_def word_less_nat_alt unat_mod less_imp_le)
  then show ?thesis
    using pow_mod_p_exact [OF assms, of a1] power_mod [of "unat a1" P "unat b"] power_mod [of "unat a" P "unat b"]
    unfolding powmodp_def a1_def [symmetric] by auto
qed


text \<open>The modulus itself is not reduced: the comment promises the remainder, which would be 0.\<close>

lemma powmodp_of_modulus: "powmodp dh_P 1 = Some dh_P"
  by (simp add: powmodp_def pow_mod_p.simps)

subsection \<open>The exchange\<close>

lemma generator_power: "5 ^ n mod P \<noteq> 0"
proof
  assume "5 ^ n mod P = 0"
  then have "P dvd 5 ^ n * 7378697629483820623 ^ n"
    by (simp add: dvd_mult2 mod_eq_0_iff_dvd)
  then have "(5 * 7378697629483820623) ^ n mod P = 0"
    by (simp only: power_mult_distrib mod_eq_0_iff_dvd)
  moreover have "(5 * 7378697629483820623) ^ n mod P = (5 * 7378697629483820623 mod P) ^ n mod P"
    by (rule power_mod [symmetric])
  ultimately show False by simp
qed

lemma small_residue: "unat r \<le> P \<Longrightarrow> unat r mod P \<noteq> 0 \<Longrightarrow> unat r = unat r mod P"
  by (cases "unat r = P") simp_all

lemma dh_exchange_power:
  assumes "length x = 8" "le_word x \<noteq> 0"
  obtains r where "l_dh_exchange x = Inr (push64 r)" "r \<noteq> 0" "unat r = 5 ^ unat (le_word x) mod P"
proof -
  obtain r where r: "powmodp dh_G (le_word x) = Some r" "unat r \<le> P" "unat r mod P = 5 ^ unat (le_word x) mod P"
    using powmodp_exact [OF assms(2), of dh_G] by (auto simp: dh_G_def)
  then have n: "unat r = 5 ^ unat (le_word x) mod P"
    using small_residue [of r] generator_power [of "unat (le_word x)"] by simp
  then have "r \<noteq> 0"
    using generator_power [of "unat (le_word x)"] by (metis unat_0)
  with r(1) n assms show thesis
    by (intro that [of r]) (simp_all add: l_dh_exchange_def join64_read push_power_def)
qed

lemma dh_secret_power:
  assumes "r \<noteq> 0" "unat r = 5 ^ m mod P" "length y = 8" "le_word y \<noteq> 0"
  shows "\<exists>s. l_dh_secret (push64 r) y = Inr (push64 s) \<and> unat s = 5 ^ (m * unat (le_word y)) mod P"
proof -
  obtain s where s: "powmodp r (le_word y) = Some s" "unat s \<le> P" "unat s mod P = unat r ^ unat (le_word y) mod P"
    using powmodp_exact [OF assms(4), of r] by auto
  have "unat s mod P = 5 ^ (m * unat (le_word y)) mod P"
    unfolding s(3) assms(2) by (simp only: power_mod power_mult)
  then have "unat s = 5 ^ (m * unat (le_word y)) mod P"
    using small_residue [of s] s(2) generator_power [of "m * unat (le_word y)"] by simp
  with s(1) assms show ?thesis
    by (intro exI [of _ s]) (simp add: l_dh_secret_def read64_def push_power_def join64_read [OF assms(3)])
qed

text \<open>
  C30. Both sides of the key exchange compute the same secret: for all private keys of eight bytes that
  are not zero, the calls succeed, and each side, from its own private key and the public value of
  the other, gets the power of the generator 5 to the product of the keys, modulo the largest 64-bit
  prime; the 64-bit multiplications do not overflow on the way.
\<close>

theorem dh_secrets_agree:
  assumes "length x = 8" "length y = 8" and "le_word x \<noteq> 0" "le_word y \<noteq> 0"
  shows "\<exists>X Y s. l_dh_exchange x = Inr X \<and> l_dh_exchange y = Inr Y \<and>
    l_dh_secret Y x = Inr s \<and> l_dh_secret X y = Inr s \<and>
    unat (le_word s) = 5 ^ (unat (le_word x) * unat (le_word y)) mod unat dh_P"
proof -
  obtain r where r: "l_dh_exchange x = Inr (push64 r)" "r \<noteq> 0" "unat r = 5 ^ unat (le_word x) mod P"
    using dh_exchange_power [OF assms(1,3)] .
  obtain t where t: "l_dh_exchange y = Inr (push64 t)" "t \<noteq> 0" "unat t = 5 ^ unat (le_word y) mod P"
    using dh_exchange_power [OF assms(2,4)] .
  obtain s where s: "l_dh_secret (push64 r) y = Inr (push64 s)" "unat s = 5 ^ (unat (le_word x) * unat (le_word y)) mod P"
    using dh_secret_power [OF r(2,3) assms(2,4)] by auto
  obtain s' where s': "l_dh_secret (push64 t) x = Inr (push64 s')" "unat s' = 5 ^ (unat (le_word y) * unat (le_word x)) mod P"
    using dh_secret_power [OF t(2,3) assms(1,3)] by auto
  have "s = s'"
    using s(2) s'(2) by (simp add: mult.commute word_unat_eq_iff)
  then show ?thesis
    using r(1) t(1) s s'(1) by (auto simp: push64_le)
qed

theorem dh_secrets_agree_witness:
  "\<exists>X Y s. l_dh_exchange [3, 0, 0, 0, 0, 0, 0, 0] = Inr X \<and> l_dh_exchange [7, 0, 0, 0, 0, 0, 0, 1] = Inr Y \<and>
    l_dh_secret Y [3, 0, 0, 0, 0, 0, 0, 0] = Inr s \<and> l_dh_secret X [7, 0, 0, 0, 0, 0, 0, 1] = Inr s"
proof -
  have "length [3, 0, 0, 0, 0, 0, 0, 0 :: u8] = 8" "length [7, 0, 0, 0, 0, 0, 0, 1 :: u8] = 8"
    "le_word [3, 0, 0, 0, 0, 0, 0, 0] \<noteq> 0" "le_word [7, 0, 0, 0, 0, 0, 0, 1] \<noteq> 0"
    by simp_all
  from dh_secrets_agree [OF this] show ?thesis
    by blast
qed

end
