(* ===== verification/Crypt_Des.thy ===== *)
theory Crypt_Des
  imports Crypt_Base
begin

text \<open>
  DES in \<open>lua-crypt.cpp\<close>: the permutations, rounds and key schedule in 32-bit arithmetic, the
  paddings, and the two calls \<open>desencode\<close> and \<open>desdecode\<close>. Lengths are natural numbers.
\<close>

subsection \<open>Tables\<close>

text \<open>The eight S-boxes with the permutation P folded in, and the tables of the first permuted choice.\<close>

definition SB1 :: "u32 list" where
  "SB1 = [
     0x01010400, 0x00000000, 0x00010000, 0x01010404, 0x01010004, 0x00010404,
     0x00000004, 0x00010000, 0x00000400, 0x01010400, 0x01010404, 0x00000400,
     0x01000404, 0x01010004, 0x01000000, 0x00000004, 0x00000404, 0x01000400,
     0x01000400, 0x00010400, 0x00010400, 0x01010000, 0x01010000, 0x01000404,
     0x00010004, 0x01000004, 0x01000004, 0x00010004, 0x00000000, 0x00000404,
     0x00010404, 0x01000000, 0x00010000, 0x01010404, 0x00000004, 0x01010000,
     0x01010400, 0x01000000, 0x01000000, 0x00000400, 0x01010004, 0x00010000,
     0x00010400, 0x01000004, 0x00000400, 0x00000004, 0x01000404, 0x00010404,
     0x01010404, 0x00010004, 0x01010000, 0x01000404, 0x01000004, 0x00000404,
     0x00010404, 0x01010400, 0x00000404, 0x01000400, 0x01000400, 0x00000000,
     0x00010004, 0x00010400, 0x00000000, 0x01010004]"

definition SB2 :: "u32 list" where
  "SB2 = [
     0x80108020, 0x80008000, 0x00008000, 0x00108020, 0x00100000, 0x00000020,
     0x80100020, 0x80008020, 0x80000020, 0x80108020, 0x80108000, 0x80000000,
     0x80008000, 0x00100000, 0x00000020, 0x80100020, 0x00108000, 0x00100020,
     0x80008020, 0x00000000, 0x80000000, 0x00008000, 0x00108020, 0x80100000,
     0x00100020, 0x80000020, 0x00000000, 0x00108000, 0x00008020, 0x80108000,
     0x80100000, 0x00008020, 0x00000000, 0x00108020, 0x80100020, 0x00100000,
     0x80008020, 0x80100000, 0x80108000, 0x00008000, 0x80100000, 0x80008000,
     0x00000020, 0x80108020, 0x00108020, 0x00000020, 0x00008000, 0x80000000,
     0x00008020, 0x80108000, 0x00100000, 0x80000020, 0x00100020, 0x80008020,
     0x80000020, 0x00100020, 0x00108000, 0x00000000, 0x80008000, 0x00008020,
     0x80000000, 0x80100020, 0x80108020, 0x00108000]"

definition SB3 :: "u32 list" where
  "SB3 = [
     0x00000208, 0x08020200, 0x00000000, 0x08020008, 0x08000200, 0x00000000,
     0x00020208, 0x08000200, 0x00020008, 0x08000008, 0x08000008, 0x00020000,
     0x08020208, 0x00020008, 0x08020000, 0x00000208, 0x08000000, 0x00000008,
     0x08020200, 0x00000200, 0x00020200, 0x08020000, 0x08020008, 0x00020208,
     0x08000208, 0x00020200, 0x00020000, 0x08000208, 0x00000008, 0x08020208,
     0x00000200, 0x08000000, 0x08020200, 0x08000000, 0x00020008, 0x00000208,
     0x00020000, 0x08020200, 0x08000200, 0x00000000, 0x00000200, 0x00020008,
     0x08020208, 0x08000200, 0x08000008, 0x00000200, 0x00000000, 0x08020008,
     0x08000208, 0x00020000, 0x08000000, 0x08020208, 0x00000008, 0x00020208,
     0x00020200, 0x08000008, 0x08020000, 0x08000208, 0x00000208, 0x08020000,
     0x00020208, 0x00000008, 0x08020008, 0x00020200]"

definition SB4 :: "u32 list" where
  "SB4 = [
     0x00802001, 0x00002081, 0x00002081, 0x00000080, 0x00802080, 0x00800081,
     0x00800001, 0x00002001, 0x00000000, 0x00802000, 0x00802000, 0x00802081,
     0x00000081, 0x00000000, 0x00800080, 0x00800001, 0x00000001, 0x00002000,
     0x00800000, 0x00802001, 0x00000080, 0x00800000, 0x00002001, 0x00002080,
     0x00800081, 0x00000001, 0x00002080, 0x00800080, 0x00002000, 0x00802080,
     0x00802081, 0x00000081, 0x00800080, 0x00800001, 0x00802000, 0x00802081,
     0x00000081, 0x00000000, 0x00000000, 0x00802000, 0x00002080, 0x00800080,
     0x00800081, 0x00000001, 0x00802001, 0x00002081, 0x00002081, 0x00000080,
     0x00802081, 0x00000081, 0x00000001, 0x00002000, 0x00800001, 0x00002001,
     0x00802080, 0x00800081, 0x00002001, 0x00002080, 0x00800000, 0x00802001,
     0x00000080, 0x00800000, 0x00002000, 0x00802080]"

definition SB5 :: "u32 list" where
  "SB5 = [
     0x00000100, 0x02080100, 0x02080000, 0x42000100, 0x00080000, 0x00000100,
     0x40000000, 0x02080000, 0x40080100, 0x00080000, 0x02000100, 0x40080100,
     0x42000100, 0x42080000, 0x00080100, 0x40000000, 0x02000000, 0x40080000,
     0x40080000, 0x00000000, 0x40000100, 0x42080100, 0x42080100, 0x02000100,
     0x42080000, 0x40000100, 0x00000000, 0x42000000, 0x02080100, 0x02000000,
     0x42000000, 0x00080100, 0x00080000, 0x42000100, 0x00000100, 0x02000000,
     0x40000000, 0x02080000, 0x42000100, 0x40080100, 0x02000100, 0x40000000,
     0x42080000, 0x02080100, 0x40080100, 0x00000100, 0x02000000, 0x42080000,
     0x42080100, 0x00080100, 0x42000000, 0x42080100, 0x02080000, 0x00000000,
     0x40080000, 0x42000000, 0x00080100, 0x02000100, 0x40000100, 0x00080000,
     0x00000000, 0x40080000, 0x02080100, 0x40000100]"

definition SB6 :: "u32 list" where
  "SB6 = [
     0x20000010, 0x20400000, 0x00004000, 0x20404010, 0x20400000, 0x00000010,
     0x20404010, 0x00400000, 0x20004000, 0x00404010, 0x00400000, 0x20000010,
     0x00400010, 0x20004000, 0x20000000, 0x00004010, 0x00000000, 0x00400010,
     0x20004010, 0x00004000, 0x00404000, 0x20004010, 0x00000010, 0x20400010,
     0x20400010, 0x00000000, 0x00404010, 0x20404000, 0x00004010, 0x00404000,
     0x20404000, 0x20000000, 0x20004000, 0x00000010, 0x20400010, 0x00404000,
     0x20404010, 0x00400000, 0x00004010, 0x20000010, 0x00400000, 0x20004000,
     0x20000000, 0x00004010, 0x20000010, 0x20404010, 0x00404000, 0x20400000,
     0x00404010, 0x20404000, 0x00000000, 0x20400010, 0x00000010, 0x00004000,
     0x20400000, 0x00404010, 0x00004000, 0x00400010, 0x20004010, 0x00000000,
     0x20404000, 0x20000000, 0x00400010, 0x20004010]"

definition SB7 :: "u32 list" where
  "SB7 = [
     0x00200000, 0x04200002, 0x04000802, 0x00000000, 0x00000800, 0x04000802,
     0x00200802, 0x04200800, 0x04200802, 0x00200000, 0x00000000, 0x04000002,
     0x00000002, 0x04000000, 0x04200002, 0x00000802, 0x04000800, 0x00200802,
     0x00200002, 0x04000800, 0x04000002, 0x04200000, 0x04200800, 0x00200002,
     0x04200000, 0x00000800, 0x00000802, 0x04200802, 0x00200800, 0x00000002,
     0x04000000, 0x00200800, 0x04000000, 0x00200800, 0x00200000, 0x04000802,
     0x04000802, 0x04200002, 0x04200002, 0x00000002, 0x00200002, 0x04000000,
     0x04000800, 0x00200000, 0x04200800, 0x00000802, 0x00200802, 0x04200800,
     0x00000802, 0x04000002, 0x04200802, 0x04200000, 0x00200800, 0x00000000,
     0x00000002, 0x04200802, 0x00000000, 0x00200802, 0x04200000, 0x00000800,
     0x04000002, 0x04000800, 0x00000800, 0x00200002]"

definition SB8 :: "u32 list" where
  "SB8 = [
     0x10001040, 0x00001000, 0x00040000, 0x10041040, 0x10000000, 0x10001040,
     0x00000040, 0x10000000, 0x00040040, 0x10040000, 0x10041040, 0x00041000,
     0x10041000, 0x00041040, 0x00001000, 0x00000040, 0x10040000, 0x10000040,
     0x10001000, 0x00001040, 0x00041000, 0x00040040, 0x10040040, 0x10041000,
     0x00001040, 0x00000000, 0x00000000, 0x10040040, 0x10000040, 0x10001000,
     0x00041040, 0x00040000, 0x00041040, 0x00040000, 0x10041000, 0x00001000,
     0x00000040, 0x10040040, 0x00001000, 0x00041040, 0x10001000, 0x00000040,
     0x10000040, 0x10040000, 0x10040040, 0x10000000, 0x00040000, 0x10001040,
     0x00000000, 0x10041040, 0x00040040, 0x10000040, 0x10040000, 0x10001000,
     0x10001040, 0x00000000, 0x10041040, 0x00041000, 0x00041000, 0x00001040,
     0x00001040, 0x00040040, 0x10000000, 0x10041000]"

definition LHs :: "u32 list" where
  "LHs = [
     0x00000000, 0x00000001, 0x00000100, 0x00000101, 0x00010000, 0x00010001,
     0x00010100, 0x00010101, 0x01000000, 0x01000001, 0x01000100, 0x01000101,
     0x01010000, 0x01010001, 0x01010100, 0x01010101]"

definition RHs :: "u32 list" where
  "RHs = [
     0x00000000, 0x01000000, 0x00010000, 0x01010000, 0x00000100, 0x01000100,
     0x00010100, 0x01010100, 0x00000001, 0x01000001, 0x00010001, 0x01010001,
     0x00000101, 0x01000101, 0x00010101, 0x01010101]"

subsection \<open>Blocks\<close>

definition GET_UINT32 :: "bytes \<Rightarrow> nat \<Rightarrow> u32" where
  "GET_UINT32 b i = push_bit 24 (ucast (b ! i)) OR push_bit 16 (ucast (b ! (i + 1)))
     OR push_bit 8 (ucast (b ! (i + 2))) OR ucast (b ! (i + 3))"

definition PUT_UINT32 :: "u32 \<Rightarrow> bytes" where
  "PUT_UINT32 n = [ucast (drop_bit 24 n), ucast (drop_bit 16 n), ucast (drop_bit 8 n), ucast n]"

text \<open>
  The permutations exchange bits of two words: \<open>T = ((X >> n) ^ Y) & mask; Y ^= T; X ^= (T << n)\<close>. In
  \<open>DES_IP\<close> and \<open>DES_FP\<close> the words take turns in the role of \<open>X\<close>.
\<close>

definition swap_bits :: "nat \<Rightarrow> u32 \<Rightarrow> u32 \<times> u32 \<Rightarrow> u32 \<times> u32" where
  "swap_bits n msk = (\<lambda>(X, Y).
     let T = (drop_bit n X XOR Y) AND msk in (X XOR push_bit n T, Y XOR T))"

definition swapped :: "(u32 \<times> u32 \<Rightarrow> u32 \<times> u32) \<Rightarrow> u32 \<times> u32 \<Rightarrow> u32 \<times> u32" where
  "swapped f p = prod.swap (f (prod.swap p))"

definition rotl1 :: "u32 \<Rightarrow> u32" where "rotl1 X = push_bit 1 X OR drop_bit 31 X"
definition rotr1 :: "u32 \<Rightarrow> u32" where "rotr1 X = push_bit 31 X OR drop_bit 1 X"

definition DES_IP :: "u32 \<times> u32 \<Rightarrow> u32 \<times> u32" where
  "DES_IP p0 =
     (let p1 = swap_bits 4 0x0F0F0F0F p0;
          p2 = swap_bits 16 0x0000FFFF p1;
          p3 = swapped (swap_bits 2 0x33333333) p2;
          p4 = swapped (swap_bits 8 0x00FF00FF) p3;
          p5 = apsnd rotl1 p4;
          p6 = swap_bits 0 0xAAAAAAAA p5 in
      apfst rotl1 p6)"

definition DES_FP :: "u32 \<times> u32 \<Rightarrow> u32 \<times> u32" where
  "DES_FP p0 =
     (let p1 = apfst rotr1 p0;
          p2 = swap_bits 0 0xAAAAAAAA p1;
          p3 = apsnd rotr1 p2;
          p4 = swapped (swap_bits 8 0x00FF00FF) p3;
          p5 = swapped (swap_bits 2 0x33333333) p4;
          p6 = swap_bits 16 0x0000FFFF p5 in
      swap_bits 4 0x0F0F0F0F p6)"

text \<open>\<open>DES_ROUND(X, Y)\<close> changes \<open>Y\<close> by a function of \<open>X\<close> and two words of the key schedule.\<close>

definition six :: "nat \<Rightarrow> u32 \<Rightarrow> nat" where
  "six n T = unat (drop_bit n T AND 0x3F)"

definition des_f :: "u32 \<Rightarrow> u32 \<Rightarrow> u32 \<Rightarrow> u32" where
  "des_f k0 k1 X =
     (let T = k0 XOR X; U = k1 XOR (push_bit 28 X OR drop_bit 4 X) in
      (SB8 ! six 0 T XOR SB6 ! six 8 T XOR SB4 ! six 16 T XOR SB2 ! six 24 T)
      XOR (SB7 ! six 0 U XOR SB5 ! six 8 U XOR SB3 ! six 16 U XOR SB1 ! six 24 U))"

definition DES_ROUND :: "u32 \<Rightarrow> u32 \<Rightarrow> u32 \<times> u32 \<Rightarrow> u32 \<times> u32" where
  "DES_ROUND k0 k1 = (\<lambda>(X, Y). (X, Y XOR des_f k0 k1 X))"

text \<open>The sixteen rounds: on \<open>(Y, X)\<close> first, then in turn.\<close>

definition des_step :: "u32 list \<Rightarrow> nat \<Rightarrow> u32 \<times> u32 \<Rightarrow> u32 \<times> u32" where
  "des_step SK i p =
     (let r = DES_ROUND (SK ! (2 * i)) (SK ! (2 * i + 1)) in
      if even i then swapped r p else r p)"

definition des_crypt :: "u32 list \<Rightarrow> bytes \<Rightarrow> bytes" where
  "des_crypt SK input =
     (let XY = fold (des_step SK) [0..<16] (DES_IP (GET_UINT32 input 0, GET_UINT32 input 4));
          YX = DES_FP (prod.swap XY) in
      PUT_UINT32 (fst YX) @ PUT_UINT32 (snd YX))"

subsection \<open>Key schedule\<close>

definition nibble :: "nat \<Rightarrow> u32 \<Rightarrow> nat" where
  "nibble n X = unat (drop_bit n X AND 0xF)"

definition des_pc1 :: "u32 \<times> u32 \<Rightarrow> u32 \<times> u32" where
  "des_pc1 p =
     (let (X, Y) = swapped (swap_bits 0 0x10101010) (swapped (swap_bits 4 0x0F0F0F0F) p) in
      ((push_bit 3 (LHs ! nibble 0 X) OR push_bit 2 (LHs ! nibble 8 X)
        OR push_bit 1 (LHs ! nibble 16 X) OR LHs ! nibble 24 X
        OR push_bit 7 (LHs ! nibble 5 X) OR push_bit 6 (LHs ! nibble 13 X)
        OR push_bit 5 (LHs ! nibble 21 X) OR push_bit 4 (LHs ! nibble 29 X)) AND 0x0FFFFFFF,
       (push_bit 3 (RHs ! nibble 1 Y) OR push_bit 2 (RHs ! nibble 9 Y)
        OR push_bit 1 (RHs ! nibble 17 Y) OR RHs ! nibble 25 Y
        OR push_bit 7 (RHs ! nibble 4 Y) OR push_bit 6 (RHs ! nibble 12 Y)
        OR push_bit 5 (RHs ! nibble 20 Y) OR push_bit 4 (RHs ! nibble 28 Y)) AND 0x0FFFFFFF))"

definition rotl28 :: "nat \<Rightarrow> u32 \<Rightarrow> u32" where
  "rotl28 n X = (push_bit n X OR drop_bit (28 - n) X) AND 0x0FFFFFFF"

definition key_shift :: "nat \<Rightarrow> nat" where
  "key_shift i = (if i < 2 \<or> i = 8 \<or> i = 15 then 1 else 2)"

definition subkey_even :: "u32 \<Rightarrow> u32 \<Rightarrow> u32" where
  "subkey_even X Y =
      (push_bit 4 X AND 0x24000000) OR (push_bit 28 X AND 0x10000000) OR (push_bit 14 X AND 0x08000000)
      OR (push_bit 18 X AND 0x02080000) OR (push_bit 6 X AND 0x01000000) OR (push_bit 9 X AND 0x00200000)
      OR (drop_bit 1 X AND 0x00100000) OR (push_bit 10 X AND 0x00040000) OR (push_bit 2 X AND 0x00020000)
      OR (drop_bit 10 X AND 0x00010000) OR (drop_bit 13 Y AND 0x00002000) OR (drop_bit 4 Y AND 0x00001000)
      OR (push_bit 6 Y AND 0x00000800) OR (drop_bit 1 Y AND 0x00000400) OR (drop_bit 14 Y AND 0x00000200)
      OR (Y AND 0x00000100) OR (drop_bit 5 Y AND 0x00000020) OR (drop_bit 10 Y AND 0x00000010)
      OR (drop_bit 3 Y AND 0x00000008) OR (drop_bit 18 Y AND 0x00000004) OR (drop_bit 26 Y AND 0x00000002)
      OR (drop_bit 24 Y AND 0x00000001)"

definition subkey_odd :: "u32 \<Rightarrow> u32 \<Rightarrow> u32" where
  "subkey_odd X Y =
      (push_bit 15 X AND 0x20000000) OR (push_bit 17 X AND 0x10000000) OR (push_bit 10 X AND 0x08000000)
      OR (push_bit 22 X AND 0x04000000) OR (drop_bit 2 X AND 0x02000000) OR (push_bit 1 X AND 0x01000000)
      OR (push_bit 16 X AND 0x00200000) OR (push_bit 11 X AND 0x00100000) OR (push_bit 3 X AND 0x00080000)
      OR (drop_bit 6 X AND 0x00040000) OR (push_bit 15 X AND 0x00020000) OR (drop_bit 4 X AND 0x00010000)
      OR (drop_bit 2 Y AND 0x00002000) OR (push_bit 8 Y AND 0x00001000) OR (drop_bit 14 Y AND 0x00000808)
      OR (drop_bit 9 Y AND 0x00000400) OR (Y AND 0x00000200) OR (push_bit 7 Y AND 0x00000100)
      OR (drop_bit 7 Y AND 0x00000020) OR (drop_bit 3 Y AND 0x00000011) OR (push_bit 2 Y AND 0x00000004)
      OR (drop_bit 21 Y AND 0x00000002)"

definition subkey_step :: "nat \<Rightarrow> u32 list \<times> u32 \<times> u32 \<Rightarrow> u32 list \<times> u32 \<times> u32" where
  "subkey_step i = (\<lambda>(SK, X, Y).
     let X1 = rotl28 (key_shift i) X; Y1 = rotl28 (key_shift i) Y in
     (SK @ [subkey_even X1 Y1, subkey_odd X1 Y1], X1, Y1))"

definition des_main_ks :: "bytes \<Rightarrow> u32 list" where
  "des_main_ks key =
     fst (fold subkey_step [0..<16] ([], des_pc1 (GET_UINT32 key 0, GET_UINT32 key 4)))"

subsection \<open>Paddings\<close>

definition PADDING_MODE_ISO7816_4 :: int where "PADDING_MODE_ISO7816_4 = 0"
definition PADDING_MODE_PKCS7 :: int where "PADDING_MODE_PKCS7 = 1"
definition PADDING_MODE_COUNT :: int where "PADDING_MODE_COUNT = 2"

definition padding_add_iso7816_4 :: "bytes \<Rightarrow> bytes" where
  "padding_add_iso7816_4 src = src @ [0x80] @ replicate (7 - length src) 0"

definition padding_add_pkcs7 :: "bytes \<Rightarrow> bytes" where
  "padding_add_pkcs7 src = src @ replicate (8 - length src) (of_nat (8 - length src))"

text \<open>The bytes before the last one, read backwards: \<open>rb\<close> is the reversed buffer.\<close>

fun iso_loop :: "nat \<Rightarrow> nat \<Rightarrow> bytes \<Rightarrow> crypt_error + nat" where
  "iso_loop 0 padding rb = Inr 0"
| "iso_loop (Suc n) padding [] = Inl CRYPT_OVERREAD"
| "iso_loop (Suc n) padding (b # rb) =
     (if b = 0 then iso_loop n (Suc padding) rb else if b = 0x80 then Inr padding else Inr 0)"

definition padding_remove_iso7816_4 :: "bytes \<Rightarrow> crypt_error + nat" where
  "padding_remove_iso7816_4 rb = iso_loop 8 1 rb"

fun pkcs7_loop :: "nat \<Rightarrow> nat \<Rightarrow> bytes \<Rightarrow> crypt_error + nat" where
  "pkcs7_loop 0 padding rb = Inr padding"
| "pkcs7_loop (Suc n) padding [] = Inl CRYPT_OVERREAD"
| "pkcs7_loop (Suc n) padding (b # rb) =
     (if unat b \<noteq> padding then Inr 0 else pkcs7_loop n padding rb)"

definition padding_remove_pkcs7 :: "bytes \<Rightarrow> crypt_error + nat" where
  "padding_remove_pkcs7 rb =
     (let padding = unat (hd rb) in pkcs7_loop (padding - 1) padding (tl rb))"

definition padding_mode_ok :: "int \<Rightarrow> bool" where
  "padding_mode_ok m \<longleftrightarrow> \<not> (m < 0 \<or> m \<ge> PADDING_MODE_COUNT)"

definition add_padding :: "bytes \<Rightarrow> int \<Rightarrow> crypt_error + bytes" where
  "add_padding src m =
     (if \<not> padding_mode_ok m then Inl CRYPT_PADDING_MODE
      else if length src \<ge> 8 then Inl CRYPT_PADDING
      else Inr (if m = PADDING_MODE_ISO7816_4 then padding_add_iso7816_4 src else padding_add_pkcs7 src))"

definition remove_padding :: "bytes \<Rightarrow> int \<Rightarrow> crypt_error + nat" where
  "remove_padding rb m =
     (if \<not> padding_mode_ok m then Inl CRYPT_PADDING_MODE
      else if m = PADDING_MODE_ISO7816_4 then padding_remove_iso7816_4 rb else padding_remove_pkcs7 rb)"

subsection \<open>The calls\<close>

definition des_key :: "bytes \<Rightarrow> crypt_error + u32 list" where
  "des_key key = (if length key \<noteq> 8 then Inl CRYPT_KEY_SIZE else Inr (des_main_ks key))"

text \<open>The loop over the whole blocks: what it writes, and what is left of the text.\<close>

function crypt_blocks :: "u32 list \<Rightarrow> bytes \<Rightarrow> bytes \<times> bytes" where
  "crypt_blocks SK text =
     (if length text < 8 then ([], text)
      else apfst ((@) (des_crypt SK (take 8 text))) (crypt_blocks SK (drop 8 text)))"
  by pat_completeness auto
termination
  by (relation "measure (\<lambda>(SK, text). length text)") auto

declare crypt_blocks.simps [simp del]

definition l_des_encode :: "bytes \<Rightarrow> bytes \<Rightarrow> int \<Rightarrow> crypt_error + bytes" where
  "l_des_encode key text padding_mode =
     (case des_key key of
        Inl e \<Rightarrow> Inl e
      | Inr SK \<Rightarrow>
          let (buffer, rest) = crypt_blocks SK text in
          (case add_padding rest padding_mode of
             Inl e \<Rightarrow> Inl e
           | Inr tail \<Rightarrow> Inr (buffer @ des_crypt SK tail)))"

definition decode_schedule :: "u32 list \<Rightarrow> u32 list" where
  "decode_schedule ESK = concat (map (\<lambda>i. [ESK ! (30 - 2 * i), ESK ! (31 - 2 * i)]) [0..<16])"

definition l_des_decode :: "bytes \<Rightarrow> bytes \<Rightarrow> int \<Rightarrow> crypt_error + bytes" where
  "l_des_decode key text padding_mode =
     (case des_key key of
        Inl e \<Rightarrow> Inl e
      | Inr ESK \<Rightarrow>
          if length text mod 8 \<noteq> 0 \<or> length text = 0 then Inl CRYPT_TEXT_LENGTH
          else
            let buffer = fst (crypt_blocks (decode_schedule ESK) text) in
            (case remove_padding (rev buffer) padding_mode of
               Inl e \<Rightarrow> Inl e
             | Inr padding \<Rightarrow>
                 if padding = 0 \<or> padding > 8 then Inl CRYPT_TEXT
                 else Inr (take (length text - padding) buffer)))"

text \<open>\<open>randomkey\<close>: eight random bytes, of which the first is made odd when their sum is zero.\<close>

definition l_random_key :: "bytes \<Rightarrow> bytes" where
  "l_random_key tmp = (if fold (XOR) tmp 0 = 0 then tmp[0 := tmp ! 0 OR 1] else tmp)"

subsection \<open>The permutations are inverse\<close>

lemma swap_bits_inverse:
  assumes "drop_bit n (push_bit n msk) = msk"
  shows "swap_bits n msk (swap_bits n msk p) = p"
proof -
  obtain X Y where p: "p = (X, Y)" by fastforce
  define T where "T = (drop_bit n X XOR Y) AND msk"
  have "drop_bit n (push_bit n T) = drop_bit n (push_bit n (drop_bit n X XOR Y)) AND msk"
    by (simp add: T_def push_bit_and drop_bit_and assms)
  also have "\<dots> = (drop_bit n X XOR Y) AND msk"
  proof -
    have "n + i < 32" if "bit msk i" for i
    proof -
      have "bit (drop_bit n (push_bit n msk)) i" using that by (simp add: assms)
      then have "bit (push_bit n msk) (n + i)" by (simp only: bit_drop_bit_eq comp_def)
      from bit_imp_le_length [OF this] show ?thesis by simp
    qed
    then show ?thesis
      by (auto intro!: bit_word_eqI simp: bit_simps)
  qed
  finally have T: "drop_bit n (push_bit n T) = T" by (simp add: T_def)
  have again: "(drop_bit n (X XOR push_bit n T) XOR (Y XOR T)) AND msk = T"
    by (simp add: drop_bit_xor T) (simp add: xor.assoc xor.left_commute T_def xor.commute [of Y])
  have "swap_bits n msk p = (X XOR push_bit n T, Y XOR T)"
    by (simp only: p swap_bits_def prod.case Let_def T_def)
  moreover have "swap_bits n msk (X XOR push_bit n T, Y XOR T) = (X, Y)"
    by (simp only: swap_bits_def prod.case Let_def again) (simp add: xor.assoc)
  ultimately show ?thesis
    by (simp add: p)
qed

lemma swapped_inverse: "(\<And>p. f (g p) = p) \<Longrightarrow> swapped f (swapped g p) = p"
  by (simp add: swapped_def)

lemma bit_high: "32 \<le> n \<Longrightarrow> \<not> bit X n" for X :: u32
  using bit_imp_le_length [of X n] by auto

lemma bit_rotl1: "bit (rotl1 X) n \<longleftrightarrow> n < 32 \<and> bit X (if n = 0 then 31 else n - 1)"
  unfolding rotl1_def bit_or_iff bit_push_bit_iff bit_drop_bit_eq comp_def
  by (cases "n < 32"; cases "n = 0") (simp_all add: bit_high)

lemma bit_rotr1: "bit (rotr1 X) n \<longleftrightarrow> n < 32 \<and> bit X (if n = 31 then 0 else Suc n)"
  unfolding rotr1_def bit_or_iff bit_push_bit_iff bit_drop_bit_eq comp_def
  by (cases "n < 32"; cases "n = 31") (auto simp: bit_high)

lemma rot1_inverse [simp]: "rotl1 (rotr1 X) = X" "rotr1 (rotl1 X) = X"
  by (auto intro!: bit_word_eqI simp: bit_rotl1 bit_rotr1 split: if_splits)

lemmas swap_inverse [simp] =
  swap_bits_inverse [of 4 "0x0F0F0F0F", simplified] swap_bits_inverse [of 16 "0x0000FFFF", simplified]
  swap_bits_inverse [of 2 "0x33333333", simplified] swap_bits_inverse [of 8 "0x00FF00FF", simplified]
  swap_bits_inverse [of 0 "0xAAAAAAAA", simplified]

lemma pair_inverse [simp]:
  "apfst rotl1 (apfst rotr1 p) = p" "apfst rotr1 (apfst rotl1 p) = p"
  "apsnd rotl1 (apsnd rotr1 p) = p" "apsnd rotr1 (apsnd rotl1 p) = p"
  by (cases p; simp)+

lemma IP_FP [simp]: "DES_IP (DES_FP p) = p" "DES_FP (DES_IP p) = p"
  by (simp_all add: DES_IP_def DES_FP_def swapped_inverse)

subsection \<open>Decryption inverts encryption\<close>

lemma bit_GET_UINT32: "i + 3 < length b \<Longrightarrow> GET_UINT32 b i = get32 [b ! (i + 3), b ! (i + 2), b ! (i + 1), b ! i] 0"
  by (simp add: GET_UINT32_def get32_def ac_simps)

lemma GET_PUT [simp]: "GET_UINT32 (PUT_UINT32 x @ b) 0 = x" "GET_UINT32 (PUT_UINT32 a @ PUT_UINT32 x) 4 = x"
proof -
  have "rev (PUT_UINT32 x) = put32 x" for x
    by (simp add: PUT_UINT32_def put32_def)
  then show "GET_UINT32 (PUT_UINT32 x @ b) 0 = x" "GET_UINT32 (PUT_UINT32 a @ PUT_UINT32 x) 4 = x"
    using get32_put32(1) [of x "[]"]
    by (simp_all add: bit_GET_UINT32 PUT_UINT32_def put32_def)
qed

lemma PUT_length [simp]: "length (PUT_UINT32 x) = 4"
  by (simp add: PUT_UINT32_def)

lemma PUT_GET:
  assumes "length b = 8"
  shows "PUT_UINT32 (GET_UINT32 b 0) @ PUT_UINT32 (GET_UINT32 b 4) = b"
proof -
  have byte: "ucast (drop_bit 24 w) = a" "ucast (drop_bit 16 w) = c" "ucast (drop_bit 8 w) = d" "ucast w = e"
    if "w = get32 [e, d, c, a] 0" for w :: u32 and a c d e :: u8
  proof -
    have "(24 + n) mod 8 = n mod 8" "(16 + n) mod 8 = n mod 8" for n :: nat
      by presburger+
    then show "ucast (drop_bit 24 w) = a" "ucast (drop_bit 16 w) = c" "ucast (drop_bit 8 w) = d" "ucast w = e"
      by (auto intro!: bit_word_eqI simp: that bit_get32 bit_simps div_add1_eq nth_Cons')
  qed
  from assms show ?thesis
    by (elim length_8E) (simp add: bit_GET_UINT32 PUT_UINT32_def byte)
qed

lemma des_crypt_length [simp]: "length (des_crypt SK b) = 8"
  by (simp add: des_crypt_def Let_def)

text \<open>A round undoes itself; running the rounds backwards on the exchanged halves undoes them all.\<close>

lemma DES_ROUND_inverse [simp]: "DES_ROUND k0 k1 (DES_ROUND k0 k1 p) = p"
  by (cases p) (simp add: DES_ROUND_def xor.assoc)

lemma decode_schedule_nth:
  assumes "i < 16"
  shows "decode_schedule SK ! (2 * i) = SK ! (2 * (15 - i))" "decode_schedule SK ! (2 * i + 1) = SK ! (2 * (15 - i) + 1)"
proof -
  have pairs: "concat (map (\<lambda>i. [f i, g i]) [0..<n]) ! (2 * i) = f i \<and> concat (map (\<lambda>i. [f i, g i]) [0..<n]) ! (2 * i + 1) = g i"
    if "i < n" for f g :: "nat \<Rightarrow> u32" and i n
    using that
  proof (induction n)
    case (Suc n)
    have len: "length (concat (map (\<lambda>i. [f i, g i]) [0..<n])) = 2 * n"
      by (induction n) simp_all
    show ?case
      using Suc by (cases "i = n") (simp_all add: nth_append len)
  qed simp
  have "30 - 2 * i = 2 * (15 - i)" "31 - 2 * i = 2 * (15 - i) + 1"
    using assms by simp_all
  then show "decode_schedule SK ! (2 * i) = SK ! (2 * (15 - i))" "decode_schedule SK ! (2 * i + 1) = SK ! (2 * (15 - i) + 1)"
    using pairs [OF assms, of "\<lambda>i. SK ! (30 - 2 * i)" "\<lambda>i. SK ! (31 - 2 * i)"]
    unfolding decode_schedule_def by metis+
qed

lemma des_step_inverse:
  assumes "i < 16"
  shows "des_step (decode_schedule SK) (15 - i) (prod.swap (des_step SK i p)) = prod.swap p"
proof -
  have "even (15 - i) \<longleftrightarrow> odd i" "15 - (15 - i) = i"
    using assms by simp_all
  then show ?thesis
    using decode_schedule_nth [of "15 - i" SK] assms
    by (simp add: des_step_def Let_def swapped_def)
qed

lemma des_rounds_inverse:
  assumes "n \<le> 16"
  shows "fold (des_step (decode_schedule SK)) (map ((-) 15) (rev [0..<n])) (prod.swap (fold (des_step SK) [0..<n] p)) = prod.swap p"
  using assms
proof (induction n arbitrary: p)
  case (Suc n)
  then show ?case
    by (simp add: des_step_inverse)
qed simp

lemma des_crypt_inverse:
  assumes "length b = 8"
  shows "des_crypt (decode_schedule SK) (des_crypt SK b) = b"
proof -
  define XY where "XY = fold (des_step SK) [0..<16] (DES_IP (GET_UINT32 b 0, GET_UINT32 b 4))"
  have idx: "map ((-) 15) (rev [0..<16]) = [0..<16 :: nat]"
    by (simp add: upt_rec)
  have "fold (des_step (decode_schedule SK)) [0..<16] (prod.swap XY) = prod.swap (DES_IP (GET_UINT32 b 0, GET_UINT32 b 4))"
    using des_rounds_inverse [of 16 SK] by (simp only: XY_def idx order_refl)
  then show ?thesis
    using PUT_GET [OF assms]
    by (simp add: des_crypt_def [of SK] des_crypt_def [of "decode_schedule SK"] Let_def XY_def [symmetric] prod.swap_def)
qed

subsection \<open>Paddings can be removed\<close>

text \<open>
  What \<open>desencode\<close> and \<open>desdecode\<close> need of a padding mode: it fills the last block, and from the end
  of the buffer the number of bytes that were added is found.
\<close>

locale block_padding =
  fixes pad :: "bytes \<Rightarrow> bytes" and unpad :: "bytes \<Rightarrow> crypt_error + nat"
  assumes pad_length: "length src < 8 \<Longrightarrow> length (pad src) = 8"
    and pad_prefix: "length src < 8 \<Longrightarrow> take (length src) (pad src) = src"
    and pad_found: "length src < 8 \<Longrightarrow> unpad (rev (whole @ pad src)) = Inr (8 - length src)"
begin

lemma unpadded:
  assumes "length src < 8" and "buffer = whole @ pad src"
  shows "unpad (rev buffer) = Inr (8 - length src)" "0 < 8 - length src" "8 - length src \<le> 8"
    "take (length buffer - (8 - length src)) buffer = whole @ src"
proof -
  have "length whole + 8 - (8 - length src) = length whole + length src"
    using assms(1) by simp
  then show "take (length buffer - (8 - length src)) buffer = whole @ src"
    using assms pad_length pad_prefix by simp
qed (use assms pad_found in simp_all)

end

lemma iso_loop_zeros: "j < n \<Longrightarrow> iso_loop n p (replicate j 0 @ 0x80 # rb) = Inr (p + j)"
proof (induction j arbitrary: n p)
  case 0
  then show ?case by (cases n) simp_all
next
  case (Suc j)
  then show ?case by (cases n) simp_all
qed

lemma pkcs7_loop_equal: "pkcs7_loop n (unat b) (replicate n b @ rb) = Inr (unat b)"
  by (induction n) simp_all

interpretation iso7816_4: block_padding padding_add_iso7816_4 padding_remove_iso7816_4
proof
  fix src whole :: bytes
  assume "length src < 8"
  then show "padding_remove_iso7816_4 (rev (whole @ padding_add_iso7816_4 src)) = Inr (8 - length src)"
    using iso_loop_zeros [of "7 - length src" 8 1]
    by (simp add: padding_remove_iso7816_4_def padding_add_iso7816_4_def Suc_diff_le flip: Suc_diff_Suc)
qed (simp_all add: padding_add_iso7816_4_def)

interpretation pkcs7: block_padding padding_add_pkcs7 padding_remove_pkcs7
proof
  fix src whole :: bytes
  assume src: "length src < 8"
  then obtain n where n: "8 - length src = Suc n" "Suc n \<le> 8"
    by (metis Suc_diff_Suc diff_le_self)
  then have "unat (of_nat (Suc n) :: u8) = Suc n"
    by (simp add: unat_of_nat del: of_nat_Suc)
  then show "padding_remove_pkcs7 (rev (whole @ padding_add_pkcs7 src)) = Inr (8 - length src)"
    using pkcs7_loop_equal [of n "of_nat (Suc n)" "rev src @ rev whole"]
    by (simp add: padding_remove_pkcs7_def padding_add_pkcs7_def n Let_def replicate_app_Cons_same del: of_nat_Suc)
qed (simp_all add: padding_add_pkcs7_def)

subsection \<open>The round trip\<close>

lemma crypt_blocks_inverse:
  "\<exists>whole. t = whole @ snd (crypt_blocks SK t) \<and> length (snd (crypt_blocks SK t)) < 8 \<and>
     length (fst (crypt_blocks SK t)) = length whole \<and> length whole mod 8 = 0 \<and>
     (\<forall>z. crypt_blocks (decode_schedule SK) (fst (crypt_blocks SK t) @ z)
        = apfst ((@) whole) (crypt_blocks (decode_schedule SK) z))"
proof (induction SK t rule: crypt_blocks.induct)
  case (1 SK t)
  show ?case
  proof (cases "length t < 8")
    case True
    then show ?thesis
      by (simp add: crypt_blocks.simps [of SK t] apfst_def map_prod_def split: prod.split)
  next
    case False
    then obtain w where w: "drop 8 t = w @ snd (crypt_blocks SK (drop 8 t))"
      "length (snd (crypt_blocks SK (drop 8 t))) < 8"
      "length (fst (crypt_blocks SK (drop 8 t))) = length w" "length w mod 8 = 0"
      "\<And>z. crypt_blocks (decode_schedule SK) (fst (crypt_blocks SK (drop 8 t)) @ z)
        = apfst ((@) w) (crypt_blocks (decode_schedule SK) z)"
      using 1 [OF False] by (elim exE conjE) (rule that, (assumption | erule spec)+)
    have t8: "length (take 8 t) = 8" using False by simp
    have "crypt_blocks (decode_schedule SK) (des_crypt SK (take 8 t) @ u)
        = apfst ((@) (take 8 t)) (crypt_blocks (decode_schedule SK) u)" for u
      by (subst crypt_blocks.simps) (simp add: des_crypt_inverse [OF t8])
    moreover have "t = take 8 t @ w @ snd (crypt_blocks SK (drop 8 t))"
      by (subst w(1) [symmetric]) simp
    ultimately show ?thesis
      using False w(2-5) t8
      by (intro exI [of _ "take 8 t @ w"])
        (simp add: crypt_blocks.simps [of SK t] apfst_compose comp_def)
  qed
qed

lemma crypt_blocks_single: "length c = 8 \<Longrightarrow> crypt_blocks SK c = (des_crypt SK c, [])"
  by (simp add: crypt_blocks.simps)



text \<open>
  A malformed text makes \<open>desdecode\<close> read outside of its buffer: the PKCS7 padding takes the last
  byte as the number of bytes to compare without testing that it is at most 8. A single block that
  decrypts to eight equal bytes above 8 is enough.
\<close>

theorem pkcs7_overread:
  assumes "length key = 8" and "8 < unat b"
  shows "l_des_decode key (des_crypt (des_main_ks key) (replicate 8 b)) PADDING_MODE_PKCS7 = Inl CRYPT_OVERREAD"
proof -
  obtain n where n: "unat b = Suc (Suc n + 7)"
  proof
    show "unat b = Suc (Suc (unat b - 9) + 7)" using assms(2) by simp
  qed
  have over: "pkcs7_loop (Suc n + k) (unat b) (replicate k b) = Inl CRYPT_OVERREAD" for k
    by (induction k) simp_all
  have "replicate 8 b = b # replicate 7 b"
    by (simp add: numeral_eq_Suc)
  then have "padding_remove_pkcs7 (replicate 8 b) = Inl CRYPT_OVERREAD"
    using over [of 7] by (simp add: padding_remove_pkcs7_def Let_def) (simp add: n)
  then show ?thesis
    using assms(1)
    by (simp add: l_des_decode_def des_key_def crypt_blocks_single des_crypt_inverse remove_padding_def padding_mode_ok_def
        PADDING_MODE_COUNT_def PADDING_MODE_PKCS7_def PADDING_MODE_ISO7816_4_def)
qed

theorem pkcs7_overread_witness:
  "l_des_decode [1, 2, 3, 4, 5, 6, 7, 8] (des_crypt (des_main_ks [1, 2, 3, 4, 5, 6, 7, 8]) (replicate 8 16)) PADDING_MODE_PKCS7
     = Inl CRYPT_OVERREAD"
  by (rule pkcs7_overread) simp_all

end
