(* ===== verification/Crypt_Text.thy ===== *)
theory Crypt_Text
  imports Crypt_Base
begin

text \<open>
  The text encodings of \<open>lua-crypt.cpp\<close>: hexadecimal, base64 and the exclusive-or of strings. Text is
  bytes, as Lua strings are.
\<close>

subsection \<open>Hexadecimal\<close>

definition hex_table :: bytes where
  "hex_table = map of_char ''0123456789abcdef''"

definition l_to_hex :: "bytes \<Rightarrow> bytes" where
  "l_to_hex text = concat (map (\<lambda>b. [hex_table ! unat (drop_bit 4 b), hex_table ! unat (b AND 0xf)]) text)"

text \<open>
  The macro \<open>HEX\<close>: a \<open>char\<close> that is no digit counts from \<open>'a'\<close>, 97; what is too small wraps around in
  the \<open>uint8_t\<close>.
\<close>

definition HEX :: "u8 \<Rightarrow> u8" where
  "HEX c = (if 48 \<le> c \<and> c \<le> 57 then c - 48 else c - 97 + 10)"

fun from_hex_loop :: "bytes \<Rightarrow> crypt_error + bytes" where
  "from_hex_loop (x # y # text) =
     (let hi = HEX x; low = HEX y in
      if hi > 16 \<or> low > 16 then Inl CRYPT_HEX
      else map_sum id ((#) (push_bit 4 hi OR low)) (from_hex_loop text))"
| "from_hex_loop _ = Inr []"

definition l_from_hex :: "bytes \<Rightarrow> crypt_error + bytes" where
  "l_from_hex text = (if odd (length text) then Inl CRYPT_HEX else from_hex_loop text)"

lemma hex_digit_ok: "HEX c \<le> 16 \<longleftrightarrow> 48 \<le> c \<and> c \<le> 57 \<or> 87 \<le> c \<and> c \<le> 103"
proof (cases "87 \<le> c")
  case True
  then have "unat (c - 87) = unat c - 87"
    by (simp add: unat_sub)
  then have "c - 87 \<le> 16 \<longleftrightarrow> c \<le> 103"
    by (auto simp: word_le_nat_alt)
  moreover have "\<not> c \<le> 57"
    using True by (simp add: word_le_nat_alt)
  ultimately show ?thesis
    using True by (simp add: HEX_def)
next
  case False
  then have c: "unat c < 87" by (simp add: word_le_nat_alt)
  show ?thesis
  proof (cases "48 \<le> c \<and> c \<le> 57")
    case True
    then have "unat (c - 48) \<le> 9"
      by (auto simp: unat_sub word_le_nat_alt)
    with True show ?thesis by (simp add: HEX_def word_le_nat_alt)
  next
    case no: False
    have "c - 97 + 10 = c + 169" by simp
    moreover have "unat (c + 169) = unat c + 169"
      using c by (simp add: unat_word_ariths)
    ultimately have "HEX c = c + 169" "\<not> c + 169 \<le> 16"
      using no by (auto simp: HEX_def word_le_nat_alt)
    with no False show ?thesis by simp
  qed
qed

lemma HEX_digit:
  assumes "n < 16"
  shows "HEX (hex_table ! n) = of_nat n"
proof -
  have "\<forall>n < 16. HEX (hex_table ! n) = of_nat n"
    by code_simp
  with assms show ?thesis by blast
qed

lemma and15: "b AND 0xf = take_bit 4 b" for b :: u8
  by (simp add: take_bit_eq_mask mask_eq_exp_minus_1)

lemma nibbles: "push_bit 4 (drop_bit 4 b) OR take_bit 4 b = b" for b :: u8
  by (rule bit_word_eqI) (auto simp: bit_simps)

lemma from_hex_to_hex: "from_hex_loop (l_to_hex t) = Inr t"
proof (induction t)
  case (Cons b t)
  define hi where "hi = unat (drop_bit 4 b)"
  define lo where "lo = unat (b AND 0xf)"
  have b: "b = push_bit 4 (of_nat hi) OR of_nat lo"
    unfolding hi_def lo_def
    using and15 [of b] by (simp add: nibbles)
  have n: "hi < 16" "lo < 16"
    unfolding hi_def lo_def and15 unat_drop_bit_eq unsigned_take_bit_eq
    using unsigned_less [where ?'a = nat, of b] by (simp_all add: drop_bit_eq_div take_bit_eq_mod less_mult_imp_div_less)
  have "l_to_hex (b # t) = hex_table ! hi # hex_table ! lo # l_to_hex t"
    by (simp add: l_to_hex_def hi_def lo_def)
  moreover have "\<not> of_nat hi > (16 :: u8)" "\<not> of_nat lo > (16 :: u8)"
    using n by (simp_all add: word_less_nat_alt unat_of_nat)
  ultimately show ?case
    using Cons n b by (simp add: HEX_digit Let_def)
qed (simp add: l_to_hex_def)

text \<open>
  Hexadecimal text decodes to what was encoded: \<open>hexdecode\<close> after \<open>hexencode\<close> is the identity on all
  strings.
\<close>

theorem hex_roundtrip: "l_from_hex (l_to_hex t) = Inr t"
proof -
  have "even (length (l_to_hex t))"
    by (induction t) (simp_all add: l_to_hex_def)
  then show ?thesis
    by (simp add: l_from_hex_def from_hex_to_hex)
qed

text \<open>
  \<open>hexdecode\<close> accepts more than hexadecimal text: the test for a digit is off by one and one-sided,
  so the bytes from \<open>W\<close> (87) to \<open>`\<close> (96) and \<open>g\<close> (103) pass as digits beside \<open>0\<close> to \<open>9\<close> and \<open>a\<close> to \<open>f\<close>; exactly
  the texts of even length over these characters are accepted.
\<close>

theorem hex_accepts_exactly:
  "(\<exists>r. l_from_hex t = Inr r) \<longleftrightarrow> even (length t) \<and> list_all (\<lambda>c. 48 \<le> c \<and> c \<le> 57 \<or> 87 \<le> c \<and> c \<le> 103) t"
proof (cases "even (length t)")
  case True
  then have "(\<exists>r. from_hex_loop t = Inr r) \<longleftrightarrow> list_all (\<lambda>c. HEX c \<le> 16) t"
  proof (induction t rule: from_hex_loop.induct)
    case (1 x y t)
    then show ?case
      by (cases "from_hex_loop t") (auto simp: Let_def not_less [symmetric])
  qed simp_all
  with True show ?thesis by (simp add: l_from_hex_def hex_digit_ok)
qed (simp add: l_from_hex_def)

subsection \<open>Exclusive or\<close>

definition l_xor_str :: "bytes \<Rightarrow> bytes \<Rightarrow> crypt_error + bytes" where
  "l_xor_str s1 s2 =
     (if length s2 = 0 then Inl CRYPT_EMPTY
      else Inr (map (\<lambda>i. s1 ! i XOR s2 ! (i mod length s2)) [0..<length s1]))"

lemma l_xor_str_twice: "k \<noteq> [] \<Longrightarrow> \<exists>c. l_xor_str s k = Inr c \<and> l_xor_str c k = Inr s"
  by (auto simp: l_xor_str_def xor.assoc intro!: nth_equalityI)

subsection \<open>Base64\<close>

definition b64_encoding :: bytes where
  "b64_encoding = map of_char ''ABCDEFGHIJKLMNOPQRSTUVWXYZabcdefghijklmnopqrstuvwxyz0123456789+/''"

definition b64_char :: "u32 \<Rightarrow> u8" where
  "b64_char v = b64_encoding ! unat v"

definition b64_pad :: u8 where "b64_pad = of_char CHR ''=''"

text \<open>The loop over three bytes at a time and the switch for the one or two that are left.\<close>

fun l_base64_encode :: "bytes \<Rightarrow> bytes" where
  "l_base64_encode (x # y # z # text) =
     (let v = push_bit 16 (ucast x) OR push_bit 8 (ucast y) OR ucast z in
      [b64_char (drop_bit 18 v), b64_char (drop_bit 12 v AND 0x3f),
       b64_char (drop_bit 6 v AND 0x3f), b64_char (v AND 0x3f)] @ l_base64_encode text)"
| "l_base64_encode [x] =
     (let v = ucast x in [b64_char (drop_bit 2 v), b64_char (push_bit 4 (v AND 3)), b64_pad, b64_pad])"
| "l_base64_encode [x, y] =
     (let v = push_bit 8 (ucast x) OR ucast y in
      [b64_char (drop_bit 10 v), b64_char (drop_bit 4 v AND 0x3f), b64_char (push_bit 2 (v AND 0xf)), b64_pad])"
| "l_base64_encode [] = []"

definition b64_decoding :: "int list" where
  "b64_decoding = [62, -1, -1, -1, 63] @ [52..61] @ [-1, -1, -1, -2, -1, -1, -1] @ [0..25] @ replicate 6 (-1) @ [26..51]"

definition b64index :: "u8 \<Rightarrow> int" where
  "b64index c =
     (if c < 43 then -1
      else let i = unat (c - 43) in if i \<ge> length b64_decoding then -1 else b64_decoding ! i)"

text \<open>
  The inner loop takes the next characters that are in the alphabet or the padding, until it has
  four; the end of the text before that is an error.
\<close>

fun b64_quad :: "int list \<Rightarrow> bytes \<Rightarrow> (int list \<times> bytes) option" where
  "b64_quad c [] = (if length c = 4 then Some (c, []) else None)"
| "b64_quad c (x # text) =
     (if length c = 4 then Some (c, x # text)
      else if b64index x = -1 then b64_quad c text
      else b64_quad (c @ [b64index x]) text)"

definition b64_group :: "int list \<Rightarrow> crypt_error + bytes" where
  "b64_group c =
     (let padding = length (filter (\<lambda>x. x = -2) c); c0 = of_int (c ! 0) :: u32; c1 = of_int (c ! 1) :: u32;
          c2 = of_int (c ! 2) :: u32; c3 = of_int (c ! 3) :: u32 in
      if padding = 0 then
        let v = push_bit 18 c0 OR push_bit 12 c1 OR push_bit 6 c2 OR c3 in
        Inr [ucast (drop_bit 16 v), ucast (drop_bit 8 v AND 0xff), ucast (v AND 0xff)]
      else if padding = 1 then
        if c ! 3 \<noteq> -2 \<or> c ! 2 AND 3 \<noteq> 0 then Inl CRYPT_BASE64
        else
          let v = push_bit 10 c0 OR push_bit 4 c1 OR of_int (drop_bit 2 (c ! 2)) in
          Inr [ucast (drop_bit 8 v), ucast (v AND 0xff)]
      else if padding = 2 then
        if c ! 3 \<noteq> -2 \<or> c ! 2 \<noteq> -2 \<or> c ! 1 AND 0xf \<noteq> 0 then Inl CRYPT_BASE64
        else Inr [ucast (push_bit 2 c0 OR of_int (drop_bit 4 (c ! 1)))]
      else Inl CRYPT_BASE64)"

lemma b64_quad_shorter: "b64_quad c t = Some (c', t') \<Longrightarrow> length t' + length c' \<le> length t + length c \<and> length c' = 4"
  by (induction c t rule: b64_quad.induct) (auto split: if_splits)

function l_base64_decode :: "bytes \<Rightarrow> crypt_error + bytes" where
  "l_base64_decode t =
     (if t = [] then Inr []
      else
        (case b64_quad [] t of
           None \<Rightarrow> Inl CRYPT_BASE64
         | Some (c, t1) \<Rightarrow>
             (case b64_group c of
                Inl e \<Rightarrow> Inl e
              | Inr out \<Rightarrow> map_sum id ((@) out) (l_base64_decode t1))))"
  by pat_completeness auto
termination
  by (relation "measure length") (auto dest!: b64_quad_shorter)

declare l_base64_decode.simps [simp del]

subsection \<open>Base64 is a round trip\<close>

lemma b64index_encoding:
  assumes "unat v < 64"
  shows "b64index (b64_char v) = uint v"
proof -
  have "\<forall>n < 64. b64index (b64_encoding ! n) = int n"
    by code_simp
  with assms have "b64index (b64_encoding ! unat v) = int (unat v)" by blast
  then show ?thesis by (simp add: b64_char_def)
qed

lemma b64index_pad: "b64index b64_pad = -2"
  by code_simp

lemma b64_quad_four:
  assumes "b64index e0 \<noteq> -1" "b64index e1 \<noteq> -1" "b64index e2 \<noteq> -1" "b64index e3 \<noteq> -1"
  shows "b64_quad [] (e0 # e1 # e2 # e3 # t) = Some ([b64index e0, b64index e1, b64index e2, b64index e3], t)"
  using assms by (cases t) simp_all

lemma decode_four:
  assumes "b64index e0 \<noteq> -1" "b64index e1 \<noteq> -1" "b64index e2 \<noteq> -1" "b64index e3 \<noteq> -1"
    and "b64_group [b64index e0, b64index e1, b64index e2, b64index e3] = Inr out"
  shows "l_base64_decode ([e0, e1, e2, e3] @ t) = map_sum id ((@) out) (l_base64_decode t)"
  using assms by (subst l_base64_decode.simps) (simp add: b64_quad_four del: b64_quad.simps)

lemma b64_masks: "x AND 0x3f = take_bit 6 x" "x AND 0xff = take_bit 8 x" "x AND 0xf = take_bit 4 x" "x AND 3 = take_bit 2 x"
  for x :: u32
  by (simp_all add: take_bit_eq_mask mask_eq_exp_minus_1)

lemma b64_int_masks: "x AND 0xf = take_bit 4 x" "x AND 3 = take_bit 2 x" for x :: int
  by (simp_all add: take_bit_eq_mask mask_eq_exp_minus_1)

lemma of_int_drop_uint: "of_int (drop_bit n (uint v)) = drop_bit n v" for v :: u32
proof -
  have "drop_bit n (uint v) = uint (drop_bit n v)"
    by (rule bit_eqI) (simp add: bit_simps)
  then show ?thesis by simp
qed

lemma unat_small: "take_bit n v = v \<Longrightarrow> unat v < 2 ^ n" for v :: u32
  by (metis take_bit_nat_less_exp unsigned_take_bit_eq)

lemma uint_not_neg: "uint v \<noteq> -1" "uint v \<noteq> -2"
  using uint_ge_0 [of v] by linarith+

lemma three_bytes:
  fixes x y z :: u8
  defines "v \<equiv> push_bit 16 (ucast x) OR push_bit 8 (ucast y) OR (ucast z :: u32)"
  shows "l_base64_decode (b64_char (drop_bit 18 v) # b64_char (take_bit 6 (drop_bit 12 v)) # b64_char (take_bit 6 (drop_bit 6 v))
    # b64_char (take_bit 6 v) # t) = map_sum id ((@) [x, y, z]) (l_base64_decode t)"
proof -
  have "take_bit 6 (drop_bit 18 v) = drop_bit 18 v"
    by (rule bit_word_eqI) (auto simp: v_def bit_simps dest: bit_imp_le_length)
  then have small: "unat (drop_bit 18 v) < 64" "unat (take_bit 6 w) < 64" for w :: u32
    using unat_small [of 6] by simp_all
  have join: "push_bit 18 (drop_bit 18 v) OR push_bit 12 (take_bit 6 (drop_bit 12 v)) OR push_bit 6 (take_bit 6 (drop_bit 6 v))
      OR take_bit 6 v = v"
  proof -
    have "push_bit n (take_bit 6 (drop_bit n v)) OR take_bit n v = take_bit (n + 6) v" for n
      by (rule bit_word_eqI) (auto simp: bit_simps cong: conj_cong)
    from this [of 6] this [of 12] show ?thesis
      by (simp add: or.assoc) (rule bit_word_eqI, auto simp: bit_simps cong: conj_cong)
  qed
  have parts: "ucast (drop_bit 16 v) = x" "ucast (take_bit 8 (drop_bit 8 v)) = y" "ucast (take_bit 8 v) = z"
    by (rule bit_word_eqI, auto simp: v_def bit_simps dest: bit_imp_le_length)+
  show ?thesis
    using decode_four [of "b64_char (drop_bit 18 v)" "b64_char (take_bit 6 (drop_bit 12 v))" "b64_char (take_bit 6 (drop_bit 6 v))"
        "b64_char (take_bit 6 v)" "[x, y, z]" t]
    by (simp add: b64index_encoding small uint_not_neg b64_group_def Let_def join parts b64_masks)
qed

lemma one_byte:
  fixes x :: u8
  defines "v \<equiv> (ucast x :: u32)"
  shows "l_base64_decode [b64_char (drop_bit 2 v), b64_char (push_bit 4 (take_bit 2 v)), b64_pad, b64_pad] = Inr [x]"
proof -
  define c where "c = push_bit 4 (take_bit 2 v)"
  have "take_bit 6 (drop_bit 2 v) = drop_bit 2 v" "take_bit 6 c = c"
    by (rule bit_word_eqI, auto simp: v_def c_def bit_simps dest: bit_imp_le_length)+
  then have small: "unat (drop_bit 2 v) < 64" "unat c < 64"
    using unat_small [of 6] by simp_all
  have "take_bit 4 c = 0"
    by (simp add: c_def take_bit_push_bit)
  then have "take_bit 4 (uint c) = 0"
    by (metis unsigned_0 unsigned_take_bit_eq)
  moreover have "ucast (push_bit 2 (drop_bit 2 v) OR drop_bit 4 c) = x"
  proof -
    have "Suc (Suc (n - 2)) = n" if "2 \<le> n" for n :: nat
      using that by simp
    then show ?thesis
      by (intro bit_word_eqI) (auto simp: v_def c_def bit_simps cong: conj_cong)
  qed
  ultimately show ?thesis
    using decode_four [of "b64_char (drop_bit 2 v)" "b64_char c" b64_pad b64_pad "[x]" "[]"] small
    by (simp add: b64index_encoding b64index_pad uint_not_neg b64_group_def Let_def of_int_drop_uint b64_int_masks
        l_base64_decode.simps [of "[]"] flip: c_def)
qed

lemma two_bytes:
  fixes x y :: u8
  defines "v \<equiv> push_bit 8 (ucast x) OR (ucast y :: u32)"
  shows "l_base64_decode [b64_char (drop_bit 10 v), b64_char (take_bit 6 (drop_bit 4 v)), b64_char (push_bit 2 (take_bit 4 v)), b64_pad]
    = Inr [x, y]"
proof -
  define c where "c = push_bit 2 (take_bit 4 v)"
  have "take_bit 6 (drop_bit 10 v) = drop_bit 10 v" "take_bit 6 c = c"
    by (rule bit_word_eqI, auto simp: v_def c_def bit_simps dest: bit_imp_le_length)+
  then have small: "unat (drop_bit 10 v) < 64" "unat c < 64" "unat (take_bit 6 w) < 64" for w :: u32
    using unat_small [of 6] by simp_all
  have "take_bit 2 c = 0"
    by (simp add: c_def take_bit_push_bit)
  then have two: "take_bit 2 (uint c) = 0"
    by (metis unsigned_0 unsigned_take_bit_eq)
  have join: "push_bit 10 (drop_bit 10 v) OR push_bit 4 (take_bit 6 (drop_bit 4 v)) OR drop_bit 2 c = v"
    by (rule bit_word_eqI) (auto simp: c_def bit_simps cong: conj_cong)
  have parts: "ucast (drop_bit 8 v) = x" "ucast (take_bit 8 v) = y"
    by (rule bit_word_eqI, auto simp: v_def bit_simps dest: bit_imp_le_length)+
  show ?thesis
    using decode_four [of "b64_char (drop_bit 10 v)" "b64_char (take_bit 6 (drop_bit 4 v))" "b64_char c" b64_pad "[x, y]" "[]"] small
    by (simp add: b64index_encoding b64index_pad uint_not_neg b64_group_def Let_def of_int_drop_uint b64_int_masks b64_masks
        two join parts l_base64_decode.simps [of "[]"] flip: c_def)
qed

text \<open>
  Base64 text decodes to what was encoded: \<open>base64decode\<close> after \<open>base64encode\<close> is the identity on all
  strings, whatever the length modulo three.
\<close>

theorem base64_roundtrip: "l_base64_decode (l_base64_encode t) = Inr t"
proof (induction t rule: l_base64_encode.induct)
  case (1 x y z t)
  then show ?case
    by (simp only: l_base64_encode.simps Let_def b64_masks append_Cons append_Nil three_bytes) simp
next
  case (2 x)
  show ?case
    by (simp only: l_base64_encode.simps Let_def b64_masks one_byte)
next
  case (3 x y)
  show ?case
    by (simp only: l_base64_encode.simps Let_def b64_masks two_bytes)
qed (simp add: l_base64_decode.simps)

end
