(* ===== verification/Md5.thy ===== *)
theory Md5
  imports Sha1 Crypt_Base
begin

text \<open>
  The MD5 library for Lua (\<open>luaclib-src-3rd/lua-md5\<close>): the hash function of \<open>md5.c\<close>, shown equal to the
  function that RFC 1321 defines for messages below 4 GB, and the stream cipher of \<open>md5lib.c\<close>, whose
  decryption inverts its encryption.
\<close>

subsection \<open>The hash function\<close>

type_synonym md5_regs = "u32 \<times> u32 \<times> u32 \<times> u32"

definition md5_T :: "u32 list" where
  "md5_T = [
     0xd76aa478, 0xe8c7b756, 0x242070db, 0xc1bdceee, 0xf57c0faf, 0x4787c62a,
     0xa8304613, 0xfd469501, 0x698098d8, 0x8b44f7af, 0xffff5bb1, 0x895cd7be,
     0x6b901122, 0xfd987193, 0xa679438e, 0x49b40821, 0xf61e2562, 0xc040b340,
     0x265e5a51, 0xe9b6c7aa, 0xd62f105d, 0x02441453, 0xd8a1e681, 0xe7d3fbc8,
     0x21e1cde6, 0xc33707d6, 0xf4d50d87, 0x455a14ed, 0xa9e3e905, 0xfcefa3f8,
     0x676f02d9, 0x8d2a4c8a, 0xfffa3942, 0x8771f681, 0x6d9d6122, 0xfde5380c,
     0xa4beea44, 0x4bdecfa9, 0xf6bb4b60, 0xbebfbc70, 0x289b7ec6, 0xeaa127fa,
     0xd4ef3085, 0x04881d05, 0xd9d4d039, 0xe6db99e5, 0x1fa27cf8, 0xc4ac5665,
     0xf4292244, 0x432aff97, 0xab9423a7, 0xfc93a039, 0x655b59c3, 0x8f0ccc92,
     0xffeff47d, 0x85845dd1, 0x6fa87e4f, 0xfe2ce6e0, 0xa3014314, 0x4e0811a1,
     0xf7537e82, 0xbd3af235, 0x2ad7d2bb, 0xeb86d391]"

definition md5_rotate :: "u32 \<Rightarrow> nat \<Rightarrow> u32" where
  "md5_rotate D num = push_bit num D OR drop_bit (32 - num) D"

definition md5_F :: "u32 \<Rightarrow> u32 \<Rightarrow> u32 \<Rightarrow> u32" where "md5_F x y z = (x AND y) OR (NOT x AND z)"
definition md5_G :: "u32 \<Rightarrow> u32 \<Rightarrow> u32 \<Rightarrow> u32" where "md5_G x y z = (x AND z) OR (y AND NOT z)"
definition md5_H :: "u32 \<Rightarrow> u32 \<Rightarrow> u32 \<Rightarrow> u32" where "md5_H x y z = x XOR y XOR z"
definition md5_I :: "u32 \<Rightarrow> u32 \<Rightarrow> u32 \<Rightarrow> u32" where "md5_I x y z = y XOR (x OR NOT z)"

definition word32tobytes :: "md5_regs \<Rightarrow> bytes" where
  "word32tobytes = (\<lambda>(a, b, c, d). put32 a @ put32 b @ put32 c @ put32 d)"

definition inic_digest :: md5_regs where
  "inic_digest = (0x67452301, 0xEFCDAB89, 0x98BADCFE, 0x10325476)"

text \<open>
  A statement of \<open>digest\<close>: sum, rotation, sum. Each body of the four loops has four of them, on the
  registers in turn; \<open>f\<close> is the function of the loop, \<open>x\<close> the word of the block and \<open>t\<close> the entry of
  the table that the turn takes, \<open>s\<close> its rotations.
\<close>

definition md5_op :: "(u32 \<Rightarrow> u32 \<Rightarrow> u32 \<Rightarrow> u32) \<Rightarrow> u32 \<Rightarrow> u32 \<Rightarrow> nat \<Rightarrow> u32 \<Rightarrow> u32 \<Rightarrow> u32 \<Rightarrow> u32 \<Rightarrow> u32" where
  "md5_op f x t s a b c d = md5_rotate (a + f b c d + x + t) s + b"

definition md5_four :: "(u32 \<Rightarrow> u32 \<Rightarrow> u32 \<Rightarrow> u32) \<Rightarrow> (nat \<Rightarrow> u32) \<Rightarrow> (nat \<Rightarrow> u32) \<Rightarrow> nat \<times> nat \<times> nat \<times> nat \<Rightarrow>
    nat \<Rightarrow> md5_regs \<Rightarrow> md5_regs" where
  "md5_four f x t s j = (\<lambda>(d0, d1, d2, d3).
     let (s0, s1, s2, s3) = s;
         d0' = md5_op f (x j) (t j) s0 d0 d1 d2 d3;
         d3' = md5_op f (x (j + 1)) (t (j + 1)) s1 d3 d0' d1 d2;
         d2' = md5_op f (x (j + 2)) (t (j + 2)) s2 d2 d3' d0' d1;
         d1' = md5_op f (x (j + 3)) (t (j + 3)) s3 d1 d2' d3' d0' in
     (d0', d1', d2', d3'))"

definition md5_digest :: "u32 list \<Rightarrow> md5_regs \<Rightarrow> md5_regs" where
  "md5_digest m d0 =
     (let js = [0, 4, 8, 12];
          d1 = fold (md5_four md5_F (\<lambda>j. m ! j) (\<lambda>j. md5_T ! j) (7, 12, 17, 22)) js d0;
          d2 = fold (md5_four md5_G (\<lambda>j. m ! ((5 * j + 1) AND 0x0f)) (\<lambda>j. md5_T ! (j + 16)) (5, 9, 14, 20)) js d1;
          d3 = fold (md5_four md5_H (\<lambda>j. m ! ((3 * j + 5) AND 0x0f)) (\<lambda>j. md5_T ! (j + 32)) (4, 11, 16, 23)) js d2 in
      fold (md5_four md5_I (\<lambda>j. m ! ((7 * j) AND 0x0f)) (\<lambda>j. md5_T ! (j + 48)) (6, 10, 15, 21)) js d3)"

definition bytestoword32 :: "bytes \<Rightarrow> u32 list" where
  "bytestoword32 pt = map (\<lambda>i. get32 pt (4 * i)) [0..<16]"

text \<open>\<open>len\<close> is a 64-bit \<open>long\<close> that is not negative; the last word keeps only three bits of it.\<close>

definition put_length :: "nat \<Rightarrow> u32 list \<Rightarrow> u32 list" where
  "put_length len x = x[14 := of_nat (8 * len), 15 := of_nat (drop_bit 29 len AND 7)]"

definition converte :: "bytes \<Rightarrow> nat \<Rightarrow> u32 list \<times> nat" where
  "converte pt old_status =
     (let num = length pt;
          buff = pt @ replicate (64 - num) 0;
          buff1 = (if num < 64 \<and> old_status = 0 then buff[num := 0x80] else buff);
          new_status = (if num \<le> 64 - 9 then 2 else if num < 64 then 1 else 0) in
      (bytestoword32 buff1, new_status))"

definition add_regs :: "md5_regs \<Rightarrow> md5_regs \<Rightarrow> md5_regs" where
  "add_regs = (\<lambda>(a, b, c, d) (a', b', c', d'). (a + a', b + b', c + c', d + d'))"

text \<open>The loop of \<open>md5\<close>, from the rest of the message and the status of the turn before.\<close>

function md5_loop :: "nat \<Rightarrow> bytes \<Rightarrow> nat \<Rightarrow> md5_regs \<Rightarrow> md5_regs" where
  "md5_loop len rest status d =
     (let numbytes = min 64 (length rest);
          (wbuff, status1) = converte (take numbytes rest) status;
          wbuff1 = (if status1 = 2 then put_length len wbuff else wbuff);
          d1 = add_regs (md5_digest wbuff1 d) d in
      if status1 = 2 then d1 else md5_loop len (drop numbytes rest) status1 d1)"
  by pat_completeness auto
termination
  by (relation "measure (\<lambda>(len, rest, status, d). length rest)")
    (auto simp: converte_def Let_def split: if_splits)

declare md5_loop.simps [simp del]

definition md5 :: "bytes \<Rightarrow> bytes" where
  "md5 message = word32tobytes (md5_loop (length message) message 0 inic_digest)"

subsection \<open>RFC 1321\<close>

text \<open>
  The definition of the standard: the message with a bit 1, zeros and its length in bits modulo
  \<open>2 ^ 64\<close> in little-endian order, cut into blocks of sixteen words; 64 steps per block, of which step
  \<open>i\<close> has its own function, word and rotation.
\<close>

definition rfc_f :: "nat \<Rightarrow> u32 \<Rightarrow> u32 \<Rightarrow> u32 \<Rightarrow> u32" where
  "rfc_f i b c d =
     (if i < 16 then (b AND c) OR (NOT b AND d)
      else if i < 32 then (b AND d) OR (c AND NOT d)
      else if i < 48 then b XOR c XOR d
      else c XOR (b OR NOT d))"

definition rfc_k :: "nat \<Rightarrow> nat" where
  "rfc_k i = (if i < 16 then i else if i < 32 then (5 * i + 1) mod 16 else if i < 48 then (3 * i + 5) mod 16 else 7 * i mod 16)"

definition rfc_s :: "nat \<Rightarrow> nat" where
  "rfc_s i =
     (let row = (if i < 16 then [7, 12, 17, 22] else if i < 32 then [5, 9, 14, 20]
        else if i < 48 then [4, 11, 16, 23] else [6, 10, 15, 21]) in row ! (i mod 4))"

definition rfc_step :: "u32 list \<Rightarrow> nat \<Rightarrow> md5_regs \<Rightarrow> md5_regs" where
  "rfc_step X i = (\<lambda>(a, b, c, d).
     (d, b + word_rotl (rfc_s i) (a + rfc_f i b c d + X ! rfc_k i + md5_T ! i), b, c))"

definition rfc_compress :: "u32 list \<Rightarrow> md5_regs \<Rightarrow> md5_regs" where
  "rfc_compress X r = add_regs (fold (rfc_step X) [0..<64] r) r"

function rfc_blocks :: "md5_regs \<Rightarrow> bytes \<Rightarrow> md5_regs" where
  "rfc_blocks r m =
     (if length m < 64 then r else rfc_blocks (rfc_compress (bytestoword32 (take 64 m)) r) (drop 64 m))"
  by pat_completeness auto
termination
  by (relation "measure (\<lambda>(r, m). length m)") auto

declare rfc_blocks.simps [simp del]

definition rfc_pad :: "bytes \<Rightarrow> bytes" where
  "rfc_pad m = m @ [0x80] @ replicate ((119 - length m mod 64) mod 64) 0 @ le_bytes 8 (of_nat (8 * length m))"

definition md5_standard :: "bytes \<Rightarrow> bytes" where
  "md5_standard m = word32tobytes (rfc_blocks inic_digest (rfc_pad m))"

subsection \<open>The code computes the standard\<close>

lemma md5_rotate_rotl: "0 < n \<Longrightarrow> n < 32 \<Longrightarrow> md5_rotate D n = word_rotl n D"
  by (simp add: md5_rotate_def rol_word_rotl flip: rol_def)

lemma four_steps:
  assumes f: "\<And>k b c d. k < 4 \<Longrightarrow> f b c d = rfc_f (i + k) b c d"
    and x: "\<And>k. k < 4 \<Longrightarrow> x (j + k) = X ! rfc_k (i + k)" and t: "\<And>k. k < 4 \<Longrightarrow> t (j + k) = md5_T ! (i + k)"
    and s: "\<And>k. k < 4 \<Longrightarrow> [s0, s1, s2, s3] ! k = rfc_s (i + k) \<and> 0 < rfc_s (i + k) \<and> rfc_s (i + k) < 32"
  shows "md5_four f x t (s0, s1, s2, s3) j r = fold (rfc_step X) [i..<i + 4] r"
proof -
  have upt: "[i..<i + 4] = [i, i + 1, i + 2, i + 3]"
    by (simp add: upt_rec)
  have op: "b + word_rotl (rfc_s (i + k)) (a + rfc_f (i + k) b c d + X ! rfc_k (i + k) + md5_T ! (i + k))
      = md5_op f (x (j + k)) (t (j + k)) ([s0, s1, s2, s3] ! k) a b c d" if "k < 4" for k a b c d
    using that s by (simp add: md5_op_def f x t md5_rotate_rotl)
  show ?thesis
    using op [of 0] op [of 1] op [of 2] op [of 3]
    by (cases r) (simp add: upt rfc_step_def md5_four_def Let_def)
qed

lemma four_fours:
  assumes "\<And>j r. j \<in> {0, 4, 8, 12} \<Longrightarrow> g j r = fold h [j + i..<j + i + 4] r"
  shows "fold g [0, 4, 8, 12] r = fold h [i..<i + 16 :: nat] r"
proof -
  have "[i..<i + 16] = [i..<i + 4] @ [i + 4..<i + 8] @ [i + 8..<i + 12] @ [i + 12..<i + 16]"
    using upt_add_eq_append [of i "i + 4" 12] upt_add_eq_append [of "i + 4" "i + 8" 8]
      upt_add_eq_append [of "i + 8" "i + 12" 4] by (simp add: add.assoc)
  then show ?thesis
    by (simp add: assms add.commute [of _ i] add.assoc)
qed

lemma md5_digest_steps: "md5_digest m d = fold (rfc_step m) [0..<64] d"
proof -
  have four: "k < 4 \<Longrightarrow> k = 0 \<or> k = 1 \<or> k = 2 \<or> k = 3" for k :: nat
    by linarith
  have passo1: "md5_four md5_F (\<lambda>j. m ! j) (\<lambda>j. md5_T ! j) (7, 12, 17, 22) j r = fold (rfc_step m) [j + 0..<j + 0 + 4] r"
    if "j \<in> {0, 4, 8, 12}" for j r
    using that by (intro four_steps) (auto dest!: four simp: rfc_f_def md5_F_def rfc_k_def rfc_s_def)
  have passo2: "md5_four md5_G (\<lambda>j. m ! ((5 * j + 1) AND 0x0f)) (\<lambda>j. md5_T ! (j + 16)) (5, 9, 14, 20) j r
      = fold (rfc_step m) [j + 16..<j + 16 + 4] r" if "j \<in> {0, 4, 8, 12}" for j r
    using that by (intro four_steps) (auto dest!: four simp: rfc_f_def md5_G_def rfc_k_def rfc_s_def and_15)
  have passo3: "md5_four md5_H (\<lambda>j. m ! ((3 * j + 5) AND 0x0f)) (\<lambda>j. md5_T ! (j + 32)) (4, 11, 16, 23) j r
      = fold (rfc_step m) [j + 32..<j + 32 + 4] r" if "j \<in> {0, 4, 8, 12}" for j r
    using that by (intro four_steps) (auto dest!: four simp: rfc_f_def md5_H_def rfc_k_def rfc_s_def and_15)
  have passo4: "md5_four md5_I (\<lambda>j. m ! ((7 * j) AND 0x0f)) (\<lambda>j. md5_T ! (j + 48)) (6, 10, 15, 21) j r
      = fold (rfc_step m) [j + 48..<j + 48 + 4] r" if "j \<in> {0, 4, 8, 12}" for j r
    using that by (intro four_steps) (auto dest!: four simp: rfc_f_def md5_I_def rfc_k_def rfc_s_def and_15)
  have "[0..<64] = [0..<0 + 16] @ [16..<16 + 16] @ [32..<32 + 16] @ [48..<48 + 16 :: nat]"
    using upt_add_eq_append [of 0 16 48] upt_add_eq_append [of 16 32 32] upt_add_eq_append [of 32 48 16] by simp
  then show ?thesis
    unfolding md5_digest_def Let_def
    by (simp only: four_fours [OF passo1] four_fours [OF passo2] four_fours [OF passo3]
        four_fours [OF passo4] fold_append comp_def)
qed

lemma narrow: "ucast (of_nat n :: u64) = (of_nat n :: u32)"
  by (rule bit_word_eqI) (simp add: bit_simps)

lemma get32_at: "length a = i \<Longrightarrow> get32 (a @ b) i = get32 b 0"
  by (simp add: get32_def nth_append numeral_2_eq_2)

lemma get32_front: "i + 3 < length a \<Longrightarrow> get32 (a @ b) i = get32 a i"
  by (simp add: get32_def nth_append)

lemma le_bytes_put32: "le_bytes 8 w = put32 (ucast w) @ put32 (ucast (drop_bit 32 w))"
proof -
  have upt: "[0..<8] = [0, 1, 2, 3, 4, 5, 6, 7 :: nat]"
    by (simp add: upt_rec)
  show ?thesis
    unfolding le_bytes_def upt put32_def
    by (auto intro!: bit_word_eqI simp: bit_simps)
qed

text \<open>The last block: \<open>put_length\<close> on zeros gives the words of the length as the standard appends it.\<close>

lemma put_length_words:
  assumes "length b = 56" and "len < 2 ^ 32"
  shows "put_length len (bytestoword32 (b @ replicate 8 0)) = bytestoword32 (b @ le_bytes 8 (of_nat (8 * len)))"
proof -
  have high: "ucast (drop_bit 32 (of_nat (8 * len) :: u64)) = (of_nat (drop_bit 29 len AND 7) :: u32)"
  proof -
    have "drop_bit 29 len < 2 ^ 3"
      using assms(2) by (simp add: drop_bit_eq_div less_mult_imp_div_less)
    then have "drop_bit 29 len AND 7 = drop_bit 29 len"
      using take_bit_nat_eq_self [of "drop_bit 29 len" 3] by (simp add: take_bit_eq_mask mask_eq_exp_minus_1)
    moreover have "drop_bit 32 (of_nat (8 * len) :: u64) = of_nat (drop_bit 29 len)"
    proof -
      have "unat (of_nat (8 * len) :: u64) = 8 * len"
        using assms(2) by (simp only: unat_of_nat) simp
      then have "unat (drop_bit 32 (of_nat (8 * len) :: u64)) = 8 * len div 2 ^ 32"
        unfolding unat_drop_bit_eq by (simp only: drop_bit_eq_div)
      also have "\<dots> = drop_bit 29 len"
        by (simp add: drop_bit_eq_div)
      finally show ?thesis by (metis of_nat_unat ucast_id)
    qed
    moreover have "ucast (of_nat (drop_bit 29 len) :: u64) = (of_nat (drop_bit 29 len) :: u32)"
      by (rule narrow)
    ultimately show ?thesis by simp
  qed
  have low: "ucast (of_nat (8 * len) :: u64) = (of_nat (8 * len) :: u32)"
    by (rule narrow)
  show ?thesis
  proof (rule nth_equalityI)
    fix i
    assume i: "i < length (put_length len (bytestoword32 (b @ replicate 8 0)))"
    then have i16: "i < 16" by (simp add: put_length_def bytestoword32_def)
    then consider "i < 14" | "i = 14" | "i = 15" by linarith
    then show "put_length len (bytestoword32 (b @ replicate 8 0)) ! i = bytestoword32 (b @ le_bytes 8 (of_nat (8 * len))) ! i"
    proof cases
      case 1
      then show ?thesis
        using assms(1) by (simp add: put_length_def bytestoword32_def get32_front)
    next
      case 2
      then show ?thesis
        using assms(1) low get32_put32(1) by (simp add: put_length_def bytestoword32_def get32_at le_bytes_put32)
    next
      case 3
      have "get32 (b @ put32 u @ put32 v) 60 = v" for u v
        using get32_at [of "b @ put32 u" 60 "put32 v"] get32_put32(1) [of v "[]"] assms(1) by simp
      then show ?thesis
        using 3 assms(1) high by (simp add: put_length_def bytestoword32_def le_bytes_put32)
    qed
  qed (simp add: put_length_def bytestoword32_def)
qed

lemma rfc_blocks_long:
  "length b = 64 \<Longrightarrow> rfc_blocks r (b @ m) = rfc_blocks (rfc_compress (bytestoword32 b) r) m"
  by (subst rfc_blocks.simps) simp

lemma rfc_blocks_last: "length b = 64 \<Longrightarrow> rfc_blocks r b = rfc_compress (bytestoword32 b) r"
  using rfc_blocks_long [of b r "[]"] by (simp add: rfc_blocks.simps)

lemma md5_compress: "add_regs (md5_digest x d) d = rfc_compress x d"
  by (simp add: rfc_compress_def md5_digest_steps)

lemma md5_final_block:
  assumes "length b \<le> 55" and "len < 2 ^ 32" and "status = 0 \<or> status = 1 \<and> b = []"
  shows "md5_loop len b status d =
    rfc_blocks d (b @ (if status = 0 then [0x80] else [0]) @ replicate (55 - length b) 0 @ le_bytes 8 (of_nat (8 * len)))"
proof -
  define c where "c = b @ (if status = 0 then [0x80] else [0]) @ replicate (55 - length b) (0 :: u8)"
  have c56: "length c = 56" using assms(1) by (simp add: c_def)
  have "replicate (64 - length b) (0 :: u8) = [0] @ replicate (55 - length b) 0 @ replicate 8 0"
    using assms(1) by (simp flip: replicate_add replicate_Suc)
  then have conv: "converte b status = (bytestoword32 (c @ replicate 8 0), 2)"
    using assms(1,3) by (auto simp: converte_def Let_def c_def list_update_append)
  have "md5_loop len b status d = rfc_compress (bytestoword32 (c @ le_bytes 8 (of_nat (8 * len)))) d"
    using assms(1)
    by (subst md5_loop.simps) (simp add: conv put_length_words [OF c56 assms(2)] md5_compress Let_def)
  then show ?thesis
    using rfc_blocks_last [of "c @ le_bytes 8 (of_nat (8 * len))" d] c56 by (simp add: c_def)
qed

lemma md5_loop_standard:
  assumes "len < 2 ^ 32"
  shows "md5_loop len m 0 d =
    rfc_blocks d (m @ [0x80] @ replicate ((119 - length m mod 64) mod 64) 0 @ le_bytes 8 (of_nat (8 * len)))"
proof (induction "length m" arbitrary: m d rule: less_induct)
  case less
  consider "length m \<le> 55" | "55 < length m" "length m < 64" | "64 \<le> length m" by linarith
  then show ?case
  proof cases
    case 1
    then have "(119 - length m mod 64) mod 64 = 55 - length m"
      by (simp add: mod_if)
    then show ?thesis
      using md5_final_block [OF 1 assms, of 0] by simp
  next
    case 2
    define c where "c = m @ [0x80] @ replicate (63 - length m) (0 :: u8)"
    have c64: "length c = 64" using 2 by (simp add: c_def)
    have "replicate (64 - length m) (0 :: u8) = [0] @ replicate (63 - length m) 0"
      using 2 by (simp flip: replicate_Suc)
    then have conv: "converte m 0 = (bytestoword32 c, 1)"
      using 2 by (simp add: converte_def Let_def c_def list_update_append)
    have "(119 - length m mod 64) mod 64 = (63 - length m) + 56"
      using 2 by (simp add: mod_if)
    then have pad: "m @ [0x80] @ replicate ((119 - length m mod 64) mod 64) 0 @ z = c @ [0] @ replicate 55 0 @ z" for z
      using replicate_Suc [of 55 "0 :: u8"] by (simp add: c_def replicate_add)
    have turn: "md5_loop len m 0 d = md5_loop len [] 1 (rfc_compress (bytestoword32 c) d)"
      using 2 by (subst md5_loop.simps) (simp add: conv md5_compress Let_def)
    show ?thesis
      unfolding pad turn rfc_blocks_long [OF c64] using md5_final_block [of "[]" len 1] assms by simp
  next
    case 3
    then have conv: "converte (take 64 m) 0 = (bytestoword32 (take 64 m), 0)"
      by (simp add: converte_def Let_def)
    have "md5_loop len m 0 d = md5_loop len (drop 64 m) 0 (rfc_compress (bytestoword32 (take 64 m)) d)"
      using 3 by (subst md5_loop.simps) (simp add: conv md5_compress Let_def min_def)
    also have "\<dots> = rfc_blocks (rfc_compress (bytestoword32 (take 64 m)) d)
        (drop 64 m @ [0x80] @ replicate ((119 - length m mod 64) mod 64) 0 @ le_bytes 8 (of_nat (8 * len)))"
      using 3 less.hyps [of "drop 64 m"] by (simp add: le_mod_geq)
    also have "\<dots> = rfc_blocks d ((take 64 m @ drop 64 m) @ [0x80] @ replicate ((119 - length m mod 64) mod 64) 0 @ le_bytes 8 (of_nat (8 * len)))"
      using 3 by (simp only: append_assoc) (rule rfc_blocks_long [symmetric], simp)
    finally show ?thesis by simp
  qed
qed



text \<open>From 4 GB on the high word of the length is cut to three bits and differs from the standard.\<close>

lemma put_length_cut:
  assumes "2 ^ 32 \<le> len" "len < 2 ^ 61" "length x = 16"
  shows "put_length len x ! 15 \<noteq> ucast (drop_bit 32 (of_nat (8 * len) :: u64))"
proof -
  have "unat (of_nat (8 * len) :: u64) = 8 * len"
    using assms(2) by (simp only: unat_of_nat) simp
  then have "unat (drop_bit 32 (of_nat (8 * len) :: u64)) = 8 * len div 2 ^ 32"
    unfolding unat_drop_bit_eq by (simp only: drop_bit_eq_div)
  then have d: "drop_bit 32 (of_nat (8 * len) :: u64) = of_nat (len div 2 ^ 29)"
    by (intro word_unat_eq_iff [THEN iffD2]) (use assms(2) in \<open>simp add: unat_of_nat less_mult_imp_div_less\<close>)
  have "unat (ucast (drop_bit 32 (of_nat (8 * len) :: u64)) :: u32) = len div 2 ^ 29"
    unfolding d narrow using assms(2) by (simp add: unat_of_nat less_mult_imp_div_less)
  moreover have "8 \<le> len div 2 ^ 29"
    using div_le_mono [OF assms(1), of "2 ^ 29"] by simp
  moreover have "drop_bit 29 len AND 7 \<le> 7"
    using take_bit_nat_less_exp [of 3 "drop_bit 29 len"] by (simp add: take_bit_eq_mask mask_eq_exp_minus_1)
  moreover from this have "unat (of_nat (drop_bit 29 len AND 7) :: u32) = drop_bit 29 len AND 7"
    by (simp add: unat_of_nat)
  ultimately have "unat (of_nat (drop_bit 29 len AND 7) :: u32) \<noteq> unat (ucast (drop_bit 32 (of_nat (8 * len) :: u64)) :: u32)"
    by linarith
  then have "of_nat (drop_bit 29 len AND 7) \<noteq> (ucast (drop_bit 32 (of_nat (8 * len) :: u64)) :: u32)"
    by metis
  then show ?thesis
    using assms(3) by (simp add: put_length_def)
qed

subsection \<open>The library\<close>

datatype md5_error = MD5_LENGTHS | MD5_KEY_TOO_LONG | MD5_SEED_TOO_LONG | MD5_INVALID

definition MAXKEY :: nat where "MAXKEY = 256"
definition MD5_BLOCKSIZE :: nat where "MD5_BLOCKSIZE = 16"

definition ex_or :: "bytes \<Rightarrow> bytes \<Rightarrow> md5_error + bytes" where
  "ex_or s1 s2 = (if length s1 \<noteq> length s2 then Inl MD5_LENGTHS else Inr (map2 (XOR) s1 s2))"

text \<open>Without a seed the time is taken, \<open>tm\<close>.\<close>

definition checkseed :: "u64 \<Rightarrow> bytes option \<Rightarrow> bytes" where
  "checkseed tm seed = (case seed of None \<Rightarrow> le_bytes 8 tm | Some s \<Rightarrow> s)"

definition initblock :: "bytes \<Rightarrow> bytes \<Rightarrow> md5_error + bytes" where
  "initblock key seed =
     (if length key > MAXKEY then Inl MD5_KEY_TOO_LONG
      else Inr (seed @ replicate (MD5_BLOCKSIZE - length seed) 0 @ key))"

text \<open>
  A turn of the streams combines the hash of the block with the next at most sixteen bytes, and puts
  the encrypted bytes into the block.
\<close>

definition code_piece :: "bytes \<Rightarrow> bytes \<Rightarrow> bytes" where
  "code_piece block piece = map2 (XOR) (md5 block) piece"

function codestream :: "bytes \<Rightarrow> bytes \<Rightarrow> bytes" where
  "codestream block msg =
     (if msg = [] then []
      else
        let code = code_piece block (take MD5_BLOCKSIZE msg) in
        code @ codestream (code @ drop (length code) block) (drop MD5_BLOCKSIZE msg))"
  by pat_completeness auto
termination
  by (relation "measure (\<lambda>(block, msg). length msg)") (auto simp: MD5_BLOCKSIZE_def)

function decodestream :: "bytes \<Rightarrow> bytes \<Rightarrow> bytes" where
  "decodestream block cypher =
     (if cypher = [] then []
      else
        let piece = take MD5_BLOCKSIZE cypher; code = code_piece block piece in
        code @ decodestream (piece @ drop (length piece) block) (drop MD5_BLOCKSIZE cypher))"
  by pat_completeness auto
termination
  by (relation "measure (\<lambda>(block, cypher). length cypher)") (auto simp: MD5_BLOCKSIZE_def)

declare codestream.simps [simp del] decodestream.simps [simp del]

definition md5_crypt :: "u64 \<Rightarrow> bytes \<Rightarrow> bytes \<Rightarrow> bytes option \<Rightarrow> md5_error + bytes" where
  "md5_crypt tm msg key seed_arg =
     (let seed = checkseed tm seed_arg in
      if length seed > MD5_BLOCKSIZE then Inl MD5_SEED_TOO_LONG
      else
        (case initblock key seed of
           Inl e \<Rightarrow> Inl e
         | Inr block \<Rightarrow> Inr (of_nat (length seed) # seed @ codestream block msg)))"

text \<open>The first byte is a signed \<open>char\<close> that becomes a \<open>size_t\<close>; the empty string has its terminator there.\<close>

definition md5_decrypt :: "bytes \<Rightarrow> bytes \<Rightarrow> md5_error + bytes" where
  "md5_decrypt cyphertext key =
     (let lseed = (case cyphertext of [] \<Rightarrow> 0 | b # _ \<Rightarrow> (scast b :: u64)) in
      if \<not> (length cyphertext \<ge> unat (lseed + 1) \<and> unat lseed \<le> MD5_BLOCKSIZE) then Inl MD5_INVALID
      else
        let l = unat lseed; seed = take l (drop 1 cyphertext) in
        (case initblock key seed of
           Inl e \<Rightarrow> Inl e
         | Inr block \<Rightarrow> Inr (decodestream block (drop (l + 1) cyphertext))))"

lemma md5_length [simp]: "length (md5 m) = 16"
  by (simp add: md5_def word32tobytes_def split: prod.split)

lemma code_piece_twice: "length p \<le> 16 \<Longrightarrow> code_piece block (code_piece block p) = p"
  by (rule nth_equalityI) (simp_all add: code_piece_def xor.left_commute flip: xor.assoc)

lemma code_piece_length [simp]: "length (code_piece block p) = min 16 (length p)"
  by (simp add: code_piece_def)

lemma decode_code: "decodestream block (codestream block msg) = msg"
proof (induction block msg rule: codestream.induct)
  case (1 block msg)
  show ?case
  proof (cases "msg = []")
    case False
    define p where "p = take MD5_BLOCKSIZE msg"
    define c where "c = code_piece block p"
    define r where "r = codestream (c @ drop (length c) block) (drop MD5_BLOCKSIZE msg)"
    have p: "p \<noteq> []" "length p \<le> 16" "length c = length p"
      using False by (simp_all add: p_def c_def MD5_BLOCKSIZE_def)
    have r: "decodestream (c @ drop (length c) block) r = drop MD5_BLOCKSIZE msg"
      using 1 False by (simp add: r_def c_def p_def)
    have "take MD5_BLOCKSIZE (c @ r) = c \<and> drop MD5_BLOCKSIZE (c @ r) = r"
    proof (cases "length msg \<le> 16")
      case True
      then have "r = []" by (simp add: r_def MD5_BLOCKSIZE_def codestream.simps)
      then show ?thesis using p by (simp add: MD5_BLOCKSIZE_def)
    next
      case False
      then have "length c = 16" using p(3) by (simp add: p_def MD5_BLOCKSIZE_def)
      then show ?thesis by (simp add: MD5_BLOCKSIZE_def)
    qed
    moreover have "c \<noteq> []" using p by auto
    ultimately have "decodestream block (c @ r) = code_piece block c @ decodestream (c @ drop (length c) block) r"
      by (subst decodestream.simps) (simp add: Let_def)
    also have "\<dots> = msg"
      using code_piece_twice [OF p(2), of block] by (simp only: r flip: c_def) (simp add: p_def)
    finally show ?thesis
      using False by (subst codestream.simps) (simp add: Let_def p_def [symmetric] c_def [symmetric] r_def [symmetric])
  qed (simp add: codestream.simps decodestream.simps)
qed

text \<open>
  Decryption inverts encryption, as the documentation of \<open>md5.decrypt\<close> promises: for every message,
  every key of at most 256 bytes and every seed of at most 16 bytes, or the time as the seed,
  \<open>crypt\<close> gives a result and \<open>decrypt\<close> with the same key gives the message back.
\<close>

theorem md5_crypt_roundtrip:
  assumes "length key \<le> MAXKEY" and "length (checkseed tm seed) \<le> MD5_BLOCKSIZE"
  shows "\<exists>c. md5_crypt tm msg key seed = Inr c \<and> md5_decrypt c key = Inr msg"
proof -
  define s where "s = checkseed tm seed"
  define block where "block = s @ replicate (MD5_BLOCKSIZE - length s) 0 @ key"
  have b: "initblock key s = Inr block"
    using assms(1) by (simp add: initblock_def block_def)
  have s16: "length s \<le> 16"
    using assms(2) by (simp add: s_def MD5_BLOCKSIZE_def)
  have l: "unat (scast (of_nat (length s) :: u8) :: u64) = length s" "unat (scast (of_nat (length s) :: u8) + 1 :: u64) = length s + 1"
  proof -
    have "scast (of_nat (length s) :: u8) = (of_nat (length s) :: u64)"
      using s16 by (simp add: scast_eq sint_uint unsigned_of_nat take_bit_nat_eq_self signed_take_bit_int_eq_self)
    then show "unat (scast (of_nat (length s) :: u8) :: u64) = length s" "unat (scast (of_nat (length s) :: u8) + 1 :: u64) = length s + 1"
      using s16 by (simp_all add: unat_of_nat unat_word_ariths)
  qed
  have "md5_crypt tm msg key seed = Inr (of_nat (length s) # s @ codestream block msg)"
    using s16 b by (simp add: md5_crypt_def s_def [symmetric] MD5_BLOCKSIZE_def)
  moreover have "md5_decrypt (of_nat (length s) # s @ codestream block msg) key = Inr msg"
    using s16 b by (simp add: md5_decrypt_def l MD5_BLOCKSIZE_def decode_code)
  ultimately show ?thesis by blast
qed

theorem md5_crypt_roundtrip_witness:
  "\<exists>c. md5_crypt 0 [1, 2, 3] [4, 5] (Some [6]) = Inr c \<and> md5_decrypt c [4, 5] = Inr [1, 2, 3]"
  by (rule md5_crypt_roundtrip) (simp_all add: checkseed_def MAXKEY_def MD5_BLOCKSIZE_def)

end
