(* ===== verification/Crypt_Hash.thy ===== *)
theory Crypt_Hash
  imports Crypt_Text Md5
begin

text \<open>
  The hashes of \<open>lua-crypt.cpp\<close>: the key hash, its own MD5 compression and the three 64-bit message
  authentication codes. The comment on \<open>l_hmac64_md5\<close> relates it to the MD5 library; this is proved.
\<close>

subsection \<open>Definitions\<close>

definition hash_step :: "u8 \<Rightarrow> u32 \<times> u32 \<Rightarrow> u32 \<times> u32" where
  "hash_step c = (\<lambda>(djb_hash, js_hash).
     (djb_hash + (push_bit 5 djb_hash + ucast c),
      js_hash XOR (push_bit 5 js_hash + ucast c + drop_bit 2 js_hash)))"

definition Hash :: "bytes \<Rightarrow> bytes" where
  "Hash str = (let (djb_hash, js_hash) = fold hash_step str (5381, 1315423911) in put32 djb_hash @ put32 js_hash)"

definition l_hash_key :: "bytes \<Rightarrow> bytes" where
  "l_hash_key key = Hash key"

definition crypt_k :: "u32 list" where
  "crypt_k = [
     0xd76aa478, 0xe8c7b756, 0x242070db, 0xc1bdceee, 0xf57c0faf, 0x4787c62a,
     0xa8304613, 0xfd469501, 0x698098d8, 0x8b44f7af, 0xffff5bb1, 0x895cd7be,
     0x6b901122, 0xfd987193, 0xa679438e, 0x49b40821, 0xf61e2562, 0xc040b340,
     0x265e5a51, 0xe9b6c7aa, 0xd62f105d, 0x02441453, 0xd8a1e681, 0xe7d3fbc8,
     0x21e1cde6, 0xc33707d6, 0xf4d50d87, 0x455a14ed, 0xa9e3e905, 0xfcefa3f8,
     0x676f02d9, 0x8d2a4c8a, 0xfffa3942, 0x8771f681, 0x6d9d6122, 0xfde5380c,
     0xa4beea44, 0x4bdecfa9, 0xf6bb4b60, 0xbebfbc70, 0x289b7ec6, 0xeaa127fa,
     0xd4ef3085, 0x04881d05, 0xd9d4d039, 0xe6db99e5, 0x1fa27cf8, 0xc4ac5665,
     0xf4292244, 0x432aff97, 0xab9423a7, 0xfc93a039, 0x655b59c3, 0x8f0ccc92,
     0xffeff47d, 0x85845dd1, 0x6fa87e4f, 0xfe2ce6e0, 0xa3014314, 0x4e0811a1,
     0xf7537e82, 0xbd3af235, 0x2ad7d2bb, 0xeb86d391]"

definition crypt_r :: "nat list" where
  "crypt_r = concat (map (\<lambda>row. row @ row @ row @ row) [[7, 12, 17, 22], [5, 9, 14, 20], [4, 11, 16, 23], [6, 10, 15, 21]])"

definition LEFTROTATE :: "u32 \<Rightarrow> nat \<Rightarrow> u32" where
  "LEFTROTATE x c = push_bit c x OR drop_bit (32 - c) x"

definition md5_turn :: "u32 list \<Rightarrow> nat \<Rightarrow> md5_regs \<Rightarrow> md5_regs" where
  "md5_turn w i = (\<lambda>(a, b, c, d).
     let (f, g) =
       (if i < 16 then ((b AND c) OR (NOT b AND d), i)
        else if i < 32 then ((d AND b) OR (NOT d AND c), (5 * i + 1) mod 16)
        else if i < 48 then (b XOR c XOR d, (3 * i + 5) mod 16)
        else (c XOR (b OR NOT d), (7 * i) mod 16)) in
     (d, b + LEFTROTATE (a + f + crypt_k ! i + w ! g) (crypt_r ! i), b, c))"

definition digest_md5 :: "u32 list \<Rightarrow> md5_regs" where
  "digest_md5 w = fold (md5_turn w) [0..<64] (0x67452301, 0xefcdab89, 0x98badcfe, 0x10325476)"

definition hmac :: "u32 \<times> u32 \<Rightarrow> u32 \<times> u32 \<Rightarrow> u32 \<times> u32" where
  "hmac x y =
     (let w = concat (replicate 4 [snd x, fst x, snd y, fst y]); (a, b, c, d) = digest_md5 w in
      (c XOR d, a XOR b))"

definition hmac_md5 :: "u32 \<times> u32 \<Rightarrow> u32 \<times> u32 \<Rightarrow> u32 \<times> u32" where
  "hmac_md5 x y =
     (let w = concat (replicate 3 [fst x, snd x, fst y, snd y]) @ [0x80, 0, 384, 0]; (a, b, c, d) = digest_md5 w in
      ((a + 0x67452301) XOR (c + 0x98badcfe), (b + 0xefcdab89) XOR (d + 0x10325476)))"

definition l_hmac64 :: "bytes \<Rightarrow> bytes \<Rightarrow> crypt_error + bytes" where
  "l_hmac64 x y = map_sum id (\<lambda>(xx, yy). pushqword (hmac xx yy)) (read64 x y)"

definition l_hmac64_md5 :: "bytes \<Rightarrow> bytes \<Rightarrow> crypt_error + bytes" where
  "l_hmac64_md5 x y = map_sum id (\<lambda>(xx, yy). pushqword (hmac_md5 xx yy)) (read64 x y)"

definition l_hmac_hash :: "bytes \<Rightarrow> bytes \<Rightarrow> crypt_error + bytes" where
  "l_hmac_hash x t =
     (if length x \<noteq> 8 then Inl CRYPT_KEY_SIZE
      else Inr (pushqword (hmac (read_qword (Hash t)) (read_qword x))))"

subsection \<open>The two implementations of MD5\<close>

lemma crypt_k_T: "crypt_k = md5_T"
  by (simp add: crypt_k_def md5_T_def)

lemma crypt_r_nth: "i < 64 \<Longrightarrow> crypt_r ! i = rfc_s i \<and> 0 < rfc_s i \<and> rfc_s i < 32"
proof -
  have "\<forall>i < 64. crypt_r ! i = rfc_s i \<and> 0 < rfc_s i \<and> rfc_s i < 32"
    by code_simp
  then show "i < 64 \<Longrightarrow> ?thesis" by blast
qed

lemma md5_turn_step:
  assumes "i < 64"
  shows "md5_turn w i r = rfc_step w i r"
proof -
  have "LEFTROTATE x (crypt_r ! i) = word_rotl (rfc_s i) x" for x
    using crypt_r_nth [OF assms] by (simp add: LEFTROTATE_def md5_rotate_rotl flip: md5_rotate_def)
  then show ?thesis
    by (cases r) (simp add: md5_turn_def rfc_step_def rfc_f_def rfc_k_def crypt_k_T Let_def ac_simps and.commute)
qed

lemma digest_md5_steps: "digest_md5 w = fold (rfc_step w) [0..<64] inic_digest"
  unfolding digest_md5_def inic_digest_def by (rule fold_cong) (auto simp: md5_turn_step)

lemma xor_put32: "map2 (XOR) (put32 a) (put32 b) = put32 (a XOR b)"
  by (simp add: put32_def unsigned_xor_eq drop_bit_xor)

lemma get32_qwords:
  assumes "length x = 8" "length y = 8" "j < 3"
  shows "get32 (concat (replicate 3 (x @ y)) @ z) (16 * j) = fst (read_qword x)"
    "get32 (concat (replicate 3 (x @ y)) @ z) (16 * j + 4) = snd (read_qword x)"
    "get32 (concat (replicate 3 (x @ y)) @ z) (16 * j + 8) = fst (read_qword y)"
    "get32 (concat (replicate 3 (x @ y)) @ z) (16 * j + 12) = snd (read_qword y)"
proof -
  have at: "get32 (a @ x @ y @ b) (16 * j) = fst (read_qword x)" "get32 (a @ x @ y @ b) (16 * j + 4) = snd (read_qword x)"
    "get32 (a @ x @ y @ b) (16 * j + 8) = fst (read_qword y)" "get32 (a @ x @ y @ b) (16 * j + 12) = snd (read_qword y)"
    if "length a = 16 * j" for a b
    using that assms(1,2) by (simp_all add: get32_def read_qword_def nth_append numeral_2_eq_2)
  have split: "concat (replicate 3 (x @ y)) @ z
      = concat (replicate j (x @ y)) @ x @ y @ concat (replicate (2 - j) (x @ y)) @ z"
  proof -
    have "replicate 3 (x @ y) = replicate j (x @ y) @ (x @ y) # replicate (2 - j) (x @ y)"
      using assms(3) by (simp flip: replicate_add replicate_Suc)
    then show ?thesis by simp
  qed
  have "length (concat (replicate j (x @ y))) = 16 * j"
    using assms(1,2) by (induction j) simp_all
  from at [OF this] show
    "get32 (concat (replicate 3 (x @ y)) @ z) (16 * j) = fst (read_qword x)"
    "get32 (concat (replicate 3 (x @ y)) @ z) (16 * j + 4) = snd (read_qword x)"
    "get32 (concat (replicate 3 (x @ y)) @ z) (16 * j + 8) = fst (read_qword y)"
    "get32 (concat (replicate 3 (x @ y)) @ z) (16 * j + 12) = snd (read_qword y)"
    unfolding split by simp_all
qed

lemma three_times_words:
  assumes "length x = 8" "length y = 8"
  defines "m \<equiv> concat (replicate 3 (x @ y))"
  shows "bytestoword32 (m @ [0x80] @ replicate 7 0 @ le_bytes 8 384) =
    concat (replicate 3 [fst (read_qword x), snd (read_qword x), fst (read_qword y), snd (read_qword y)]) @ [0x80, 0, 384, 0]"
proof -
  define z where "z = [0x80] @ replicate 7 0 @ le_bytes 8 384"
  have m48: "length m = 48"
    using assms(1,2) by (simp add: m_def numeral_3_eq_3)
  have z: "z = put32 0x80 @ put32 0 @ put32 384 @ put32 0"
  proof -
    have "replicate 7 (0 :: u8) = [0, 0, 0, 0, 0, 0, 0]"
      by (simp add: numeral_eq_Suc)
    then show ?thesis
      by (simp add: z_def le_bytes_put32 put32_def)
  qed
  have tail: "get32 (m @ z) 48 = 0x80" "get32 (m @ z) 52 = 0" "get32 (m @ z) 56 = 384" "get32 (m @ z) 60 = 0"
    using get32_at [of m 48 z] get32_at [of "m @ put32 0x80" 52 "put32 0 @ put32 384 @ put32 0"]
      get32_at [of "m @ put32 0x80 @ put32 0" 56 "put32 384 @ put32 0"]
      get32_at [of "m @ put32 0x80 @ put32 0 @ put32 384" 60 "put32 0"] m48 get32_put32(1) [of 0 "[]"]
    by (simp_all add: z)
  have "[0..<16] = [0, 1, 2, 3, 4, 5, 6, 7, 8, 9, 10, 11, 12, 13, 14, 15 :: nat]"
    by (simp add: upt_rec)
  then show ?thesis
    unfolding bytestoword32_def z_def [symmetric]
    using get32_qwords [OF assms(1,2), folded m_def, of 0 z] get32_qwords [OF assms(1,2), folded m_def, of 1 z]
      get32_qwords [OF assms(1,2), folded m_def, of 2 z] tail
    by (simp add: numeral_3_eq_3)
qed

text \<open>
  \<open>hmac64_md5\<close> is what its comment says: for all keys of eight bytes it is the exclusive-or of the two
  halves of the MD5 sum, by the MD5 library, of both keys written one after the other three times.
\<close>

theorem hmac64_md5_is_md5_sum:
  assumes "length a = 8" "length b = 8"
  shows "l_hmac64_md5 a b = l_xor_str (take 8 (md5 (concat (replicate 3 (a @ b))))) (drop 8 (md5 (concat (replicate 3 (a @ b)))))"
proof -
  define m where "m = concat (replicate 3 (a @ b))"
  define w where "w = concat (replicate 3 [fst (read_qword a), snd (read_qword a), fst (read_qword b), snd (read_qword b)]) @ [0x80, 0, 384, 0]"
  have m48: "length m = 48"
    using assms by (simp add: m_def numeral_3_eq_3)
  have "md5_loop 48 m 0 inic_digest = rfc_blocks inic_digest (m @ [0x80] @ replicate 7 0 @ le_bytes 8 384)"
    using md5_final_block [of m 48 0] m48 by simp
  also have "\<dots> = rfc_compress w inic_digest"
    using rfc_blocks_last [of "m @ [0x80] @ replicate 7 0 @ le_bytes 8 384"] m48 three_times_words [OF assms]
    by (simp add: w_def m_def)
  also have "\<dots> = add_regs (digest_md5 w) inic_digest"
    by (simp add: rfc_compress_def digest_md5_steps)
  finally have sum: "md5 m = word32tobytes (add_regs (digest_md5 w) inic_digest)"
    by (simp add: md5_def m48)
  obtain r0 r1 r2 r3 where r: "digest_md5 w = (r0, r1, r2, r3)"
    by (cases "digest_md5 w") auto
  have halves: "take 8 (md5 m) = put32 (r0 + 0x67452301) @ put32 (r1 + 0xefcdab89)"
    "drop 8 (md5 m) = put32 (r2 + 0x98badcfe) @ put32 (r3 + 0x10325476)"
    by (simp_all add: sum r word32tobytes_def add_regs_def inic_digest_def)
  have xor: "l_xor_str p q = Inr (map2 (XOR) p q)" if "length p = 8" "length q = 8" for p q
  proof -
    have "map (\<lambda>i. p ! i XOR q ! (i mod 8)) [0..<8] = map2 (XOR) p q"
      using that by (intro nth_equalityI) simp_all
    with that show ?thesis by (auto simp: l_xor_str_def)
  qed
  have "l_xor_str (take 8 (md5 m)) (drop 8 (md5 m)) =
      Inr (pushqword ((r0 + 0x67452301) XOR (r2 + 0x98badcfe), (r1 + 0xefcdab89) XOR (r3 + 0x10325476)))"
    using xor_put32 by (simp add: xor halves pushqword_def)
  moreover have "l_hmac64_md5 a b =
      Inr (pushqword ((r0 + 0x67452301) XOR (r2 + 0x98badcfe), (r1 + 0xefcdab89) XOR (r3 + 0x10325476)))"
    using assms by (simp add: l_hmac64_md5_def read64_def hmac_md5_def Let_def r flip: w_def)
  ultimately show ?thesis by (simp add: m_def)
qed

theorem hmac64_md5_is_md5_sum_witness:
  "l_hmac64_md5 [1, 2, 3, 4, 5, 6, 7, 8] [9, 8, 7, 6, 5, 4, 3, 2] =
     l_xor_str (take 8 (md5 (concat (replicate 3 [1, 2, 3, 4, 5, 6, 7, 8, 9, 8, 7, 6, 5, 4, 3, 2]))))
       (drop 8 (md5 (concat (replicate 3 [1, 2, 3, 4, 5, 6, 7, 8, 9, 8, 7, 6, 5, 4, 3, 2]))))"
  using hmac64_md5_is_md5_sum [of "[1, 2, 3, 4, 5, 6, 7, 8]" "[9, 8, 7, 6, 5, 4, 3, 2]"]
  by (simp only: append_Cons append_Nil) simp

end
