(* ===== verification/Recv_Buffer.thy ===== *)
theory Recv_Buffer
  imports Skynet_Prelude
begin

text \<open>
  The receive buffers of Lua services (\<open>luaclib-src/lua-socket.cpp\<close>): a linked list of the blocks that
  arrived on a socket, whose nodes come from a pool with a free list, shared by all sockets of a
  service. Nodes live in a heap; a pointer to one is its number. \<open>None\<close> is an access through a null
  pointer or outside of a block, a failed assertion or a signed overflow.
\<close>

subsection \<open>State\<close>

text \<open>The fields \<open>msg\<close> and \<open>sz\<close> of a node are the bytes of its block.\<close>

record buffer_node =
  bn_msg :: bytes
  bn_next :: "nat option"

text \<open>
  The table of the pool: its first entry is the list of free nodes, the others are the chunks of
  nodes; \<open>bp_len\<close> is its length.
\<close>

record buffer_pool =
  bp_heap :: "nat \<rightharpoonup> buffer_node"
  bp_fresh :: nat
  bp_free :: "nat option"
  bp_len :: nat

record recv_buffer =
  rb_size :: int
  rb_offset :: nat
  rb_head :: "nat option"
  rb_tail :: "nat option"

definition LARGE_PAGE_NODE :: nat where "LARGE_PAGE_NODE = 12"

definition new_pool :: buffer_pool where
  "new_pool = \<lparr>bp_heap = Map.empty, bp_fresh = 0, bp_free = None, bp_len = 0\<rparr>"

definition l_new_socket_recv_buffer :: recv_buffer where
  "l_new_socket_recv_buffer = \<lparr>rb_size = 0, rb_offset = 0, rb_head = None, rb_tail = None\<rparr>"

subsection \<open>Operations\<close>

definition return_free_node :: "buffer_pool \<Rightarrow> recv_buffer \<Rightarrow> (buffer_pool \<times> recv_buffer) option" where
  "return_free_node p sb =
     do {
       n \<leftarrow> rb_head sb;
       x \<leftarrow> bp_heap p n;
       Some (p\<lparr>bp_heap := (bp_heap p)(n \<mapsto> \<lparr>bn_msg = [], bn_next = bp_free p\<rparr>), bp_free := Some n\<rparr>,
             sb\<lparr>rb_offset := 0, rb_head := bn_next x,
                rb_tail := (if bn_next x = None then None else rb_tail sb)\<rparr>)
     }"

text \<open>The rest of the first block, from the offset on.\<close>

definition first_rest :: "buffer_pool \<Rightarrow> recv_buffer \<Rightarrow> bytes option" where
  "first_rest p sb =
     do {
       n \<leftarrow> rb_head sb;
       x \<leftarrow> bp_heap p n;
       if rb_offset sb \<le> length (bn_msg x) then Some (drop (rb_offset sb) (bn_msg x)) else None
     }"

partial_function (option) pop_lstring_loop ::
  "buffer_pool \<Rightarrow> recv_buffer \<Rightarrow> nat \<Rightarrow> nat \<Rightarrow> bytes \<Rightarrow> (bytes \<times> buffer_pool \<times> recv_buffer) option" where
  "pop_lstring_loop p sb sz skip b =
     do {
       r \<leftarrow> first_rest p sb;
       if length r \<ge> sz then
         do {
           let b1 = (if sz > skip then b @ take (sz - skip) r else b);
           let sb1 = sb\<lparr>rb_offset := rb_offset sb + sz\<rparr>;
           if length r = sz then do { (p1, sb2) \<leftarrow> return_free_node p sb1; Some (b1, p1, sb2) }
           else Some (b1, p, sb1)
         }
       else
         do {
           let b1 = (if sz > skip then b @ take (min (sz - skip) (length r)) r else b);
           (p1, sb1) \<leftarrow> return_free_node p sb;
           if sz - length r = 0 then Some (b1, p1, sb1) else pop_lstring_loop p1 sb1 (sz - length r) skip b1
         }
     }"

definition pop_lstring ::
  "buffer_pool \<Rightarrow> recv_buffer \<Rightarrow> nat \<Rightarrow> nat \<Rightarrow> (bytes \<times> buffer_pool \<times> recv_buffer) option" where
  "pop_lstring p sb sz skip =
     do {
       r \<leftarrow> first_rest p sb;
       if sz < length r then Some (take (sz - skip) r, p, sb\<lparr>rb_offset := rb_offset sb + sz\<rparr>)
       else if sz = length r then
         do { (p1, sb1) \<leftarrow> return_free_node p sb; Some (take (sz - skip) r, p1, sb1) }
       else pop_lstring_loop p sb sz skip []
     }"

text \<open>\<open>_new_recv_buffer_pool\<close>: a chunk of nodes, linked to a list.\<close>

definition new_recv_buffer_pool :: "nat \<Rightarrow> buffer_pool \<Rightarrow> buffer_pool" where
  "new_recv_buffer_pool sz p =
     p\<lparr>bp_heap := (\<lambda>n. if bp_fresh p \<le> n \<and> n < bp_fresh p + sz
         then Some \<lparr>bn_msg = [], bn_next = (if Suc n = bp_fresh p + sz then None else Some (Suc n))\<rparr>
         else bp_heap p n),
       bp_fresh := bp_fresh p + sz\<rparr>"

definition chunk_size :: "nat \<Rightarrow> nat" where
  "chunk_size tsz = (if tsz \<le> LARGE_PAGE_NODE - 3 then push_bit tsz 8 else push_bit (LARGE_PAGE_NODE - 3) 8)"

definition take_node :: "buffer_pool \<Rightarrow> nat \<times> buffer_pool" where
  "take_node p =
     (case bp_free p of
        Some n \<Rightarrow> (n, p)
      | None \<Rightarrow>
          let tsz = (if bp_len p = 0 then 1 else bp_len p) in
          (bp_fresh p, new_recv_buffer_pool (chunk_size tsz) (p\<lparr>bp_len := tsz + 1\<rparr>)))"

definition l_push_socket_recv_buffer :: "buffer_pool \<Rightarrow> recv_buffer \<Rightarrow> bytes \<Rightarrow> (int \<times> buffer_pool \<times> recv_buffer) option" where
  "l_push_socket_recv_buffer p sb msg =
     do {
       let (n, p1) = take_node p;
       x \<leftarrow> bp_heap p1 n;
       let p2 = p1\<lparr>bp_free := bn_next x, bp_heap := (bp_heap p1)(n \<mapsto> \<lparr>bn_msg = msg, bn_next = None\<rparr>)\<rparr>;
       (p3, sb1) \<leftarrow>
         (if rb_head sb = None then
            do { c_assert (rb_tail sb = None); Some (p2, sb\<lparr>rb_head := Some n, rb_tail := Some n\<rparr>) }
          else
            do {
              t \<leftarrow> rb_tail sb;
              y \<leftarrow> bp_heap p2 t;
              Some (p2\<lparr>bp_heap := (bp_heap p2)(t \<mapsto> y\<lparr>bn_next := Some n\<rparr>)\<rparr>, sb\<lparr>rb_tail := Some n\<rparr>)
            });
       let size = rb_size sb1 + int (length msg);
       if size < 2 ^ 31 then Some (size, p3, sb1\<lparr>rb_size := size\<rparr>) else None
     }"

text \<open>A negative size passes the test and becomes a length that is far too large.\<close>

definition l_pop_socket_recv_buffer :: "buffer_pool \<Rightarrow> recv_buffer \<Rightarrow> int \<Rightarrow> ((bytes option \<times> int) \<times> buffer_pool \<times> recv_buffer) option" where
  "l_pop_socket_recv_buffer p sb sz =
     (if rb_size sb < sz \<or> sz = 0 then Some ((None, rb_size sb), p, sb)
      else if sz < 0 then None
      else do {
        (s, p1, sb1) \<leftarrow> pop_lstring p sb (nat sz) 0;
        let size = rb_size sb1 - sz;
        Some ((Some s, size), p1, sb1\<lparr>rb_size := size\<rparr>)
      })"

partial_function (option) clear_loop :: "buffer_pool \<Rightarrow> recv_buffer \<Rightarrow> (buffer_pool \<times> recv_buffer) option" where
  "clear_loop p sb =
     (if rb_head sb = None then Some (p, sb)
      else do { (p1, sb1) \<leftarrow> return_free_node p sb; clear_loop p1 sb1 })"

definition l_clear_socket_recv_buffer :: "buffer_pool \<Rightarrow> recv_buffer \<Rightarrow> (buffer_pool \<times> recv_buffer) option" where
  "l_clear_socket_recv_buffer p sb = do { (p1, sb1) \<leftarrow> clear_loop p sb; Some (p1, sb1\<lparr>rb_size := 0\<rparr>) }"

partial_function (option) read_all_loop ::
  "buffer_pool \<Rightarrow> recv_buffer \<Rightarrow> bytes \<Rightarrow> (bytes \<times> buffer_pool \<times> recv_buffer) option" where
  "read_all_loop p sb b =
     (if rb_head sb = None then Some (b, p, sb)
      else do { r \<leftarrow> first_rest p sb; (p1, sb1) \<leftarrow> return_free_node p sb; read_all_loop p1 sb1 (b @ r) })"

definition l_read_all :: "buffer_pool \<Rightarrow> recv_buffer \<Rightarrow> (bytes \<times> buffer_pool \<times> recv_buffer) option" where
  "l_read_all p sb = do { (b, p1, sb1) \<leftarrow> read_all_loop p sb []; Some (b, p1, sb1\<lparr>rb_size := 0\<rparr>) }"

text \<open>\<open>_check_sep\<close>: the separator may go on in the next blocks.\<close>

partial_function (option) check_sep :: "(nat \<rightharpoonup> buffer_node) \<Rightarrow> nat option \<Rightarrow> nat \<Rightarrow> bytes \<Rightarrow> bool option" where
  "check_sep h node from sep =
     do {
       n \<leftarrow> node;
       x \<leftarrow> h n;
       let r = drop from (bn_msg x);
       if length r \<ge> length sep then Some (take (length sep) r = sep)
       else if length r > 0 \<and> r \<noteq> take (length r) sep then Some False
       else check_sep h (bn_next x) 0 (drop (length r) sep)
     }"

text \<open>The loop of \<open>l_read_line\<close> over the positions of the separator.\<close>

function line_loop :: "(nat \<rightharpoonup> buffer_node) \<Rightarrow> int \<Rightarrow> bytes \<Rightarrow> nat \<Rightarrow> nat \<Rightarrow> nat \<Rightarrow> int \<Rightarrow> nat option option" where
  "line_loop h limit sep i node from bytes =
     (if int i \<le> limit - int (length sep) then
        do {
          hit \<leftarrow> check_sep h (Some node) from sep;
          if hit then Some (Some i)
          else if bytes - 1 = 0 then
            do {
              x \<leftarrow> h node;
              case bn_next x of
                None \<Rightarrow> Some None
              | Some n1 \<Rightarrow> do { y \<leftarrow> h n1; line_loop h limit sep (Suc i) n1 0 (int (length (bn_msg y))) }
            }
          else line_loop h limit sep (Suc i) node (Suc from) (bytes - 1)
        }
      else Some None)"
  by pat_completeness auto
termination
  by (relation "measure (\<lambda>(h, limit, sep, i, node, from, bytes). nat (limit + 1 - int i))") auto

declare line_loop.simps [simp del]

datatype line_result = NO_LINE | LINE_FOUND | LINE bytes

definition l_read_line ::
  "buffer_pool \<Rightarrow> recv_buffer \<Rightarrow> bool \<Rightarrow> bytes \<Rightarrow> (line_result \<times> buffer_pool \<times> recv_buffer) option" where
  "l_read_line p sb check sep =
     (case rb_head sb of
        None \<Rightarrow> Some (NO_LINE, p, sb)
      | Some n \<Rightarrow>
          do {
            x \<leftarrow> bp_heap p n;
            found \<leftarrow> line_loop (bp_heap p) (rb_size sb) sep 0 n (rb_offset sb)
                      (int (length (bn_msg x)) - int (rb_offset sb));
            case found of
              None \<Rightarrow> Some (NO_LINE, p, sb)
            | Some i \<Rightarrow>
                if check then Some (LINE_FOUND, p, sb)
                else do {
                  (s, p1, sb1) \<leftarrow> pop_lstring p sb (i + length sep) (length sep);
                  Some (LINE s, p1, sb1\<lparr>rb_size := rb_size sb1 - int (i + length sep)\<rparr>)
                }
          })"

end
