(* ===== verification/Step_Run.thy ===== *)
theory Step_Run
  imports Skynet_Prelude
begin

text \<open>
  Sequences of operations on a component, on its specification, and the contract under which the
  first do what the second say.
\<close>

primrec run_steps :: "('op \<Rightarrow> 's \<Rightarrow> ('r \<times> 's) option) \<Rightarrow> 'op list \<Rightarrow> 's \<Rightarrow> ('r list \<times> 's) option" where
  "run_steps step [] s = Some ([], s)"
| "run_steps step (op # ops) s = do { (r, s1) \<leftarrow> step op s; (rs, s2) \<leftarrow> run_steps step ops s1; Some (r # rs, s2) }"

primrec spec_steps :: "('op \<Rightarrow> 'a \<Rightarrow> 'r \<times> 'a) \<Rightarrow> 'op list \<Rightarrow> 'a \<Rightarrow> 'r list \<times> 'a" where
  "spec_steps spec [] a = ([], a)"
| "spec_steps spec (op # ops) a = (let (r, a1) = spec op a; (rs, a2) = spec_steps spec ops a1 in (r # rs, a2))"

lemma spec_steps_Cons:
  "fst (spec_steps spec (op # ops) a) = fst (spec op a) # fst (spec_steps spec ops (snd (spec op a)))"
  "snd (spec_steps spec (op # ops) a) = snd (spec_steps spec ops (snd (spec op a)))"
  by (simp_all add: split_def Let_def)

text \<open>Every operation is allowed in the state of the specification in which it happens.\<close>

primrec steps_allowed :: "('op \<Rightarrow> 'a \<Rightarrow> bool) \<Rightarrow> ('op \<Rightarrow> 'a \<Rightarrow> 'r \<times> 'a) \<Rightarrow> 'op list \<Rightarrow> 'a \<Rightarrow> bool" where
  "steps_allowed allowed spec [] a \<longleftrightarrow> True"
| "steps_allowed allowed spec (op # ops) a \<longleftrightarrow> allowed op a \<and> steps_allowed allowed spec ops (snd (spec op a))"

text \<open>
  An implementation of a specification: \<open>rel\<close> relates its states to those of the specification, and in
  every legal environment each allowed step gives the result of the specification and keeps the
  relation.
\<close>

locale step_refinement =
  fixes legal :: "'c \<Rightarrow> bool"
    and rel :: "'s \<Rightarrow> 'a \<Rightarrow> bool"
    and step :: "'c \<Rightarrow> 'op \<Rightarrow> 's \<Rightarrow> ('r \<times> 's) option"
    and spec :: "'op \<Rightarrow> 'a \<Rightarrow> 'r \<times> 'a"
    and allowed :: "'op \<Rightarrow> 'a \<Rightarrow> bool"
  assumes step_refines: "legal c \<Longrightarrow> rel s a \<Longrightarrow> allowed op a \<Longrightarrow>
    \<exists>s'. step c op s = Some (fst (spec op a), s') \<and> rel s' (snd (spec op a))"
begin

lemma steps_refine:
  assumes "legal c" "rel s a" "steps_allowed allowed spec ops a"
  shows "\<exists>s'. run_steps (step c) ops s = Some (fst (spec_steps spec ops a), s') \<and> rel s' (snd (spec_steps spec ops a))"
  using assms(2,3)
proof (induction ops arbitrary: s a)
  case (Cons op ops)
  obtain s1 where s1: "step c op s = Some (fst (spec op a), s1)" "rel s1 (snd (spec op a))"
    using step_refines [OF assms(1)] Cons.prems by fastforce
  then show ?case
    using Cons.IH [of s1 "snd (spec op a)"] Cons.prems(2) by (auto simp: spec_steps_Cons simp del: spec_steps.simps(2))
qed simp

end

end
