(* ===== verification/Recv_Buffer_Correct.thy ===== *)
theory Recv_Buffer_Correct
  imports Recv_Buffer Step_Run
begin

text \<open>
  A receive buffer is a queue of bytes: every operation on the linked node_blocks does what the same
  operation does on the list of bytes that they hold.
\<close>

subsection \<open>Linked nodes\<close>

primrec node_chain :: "(nat \<rightharpoonup> buffer_node) \<Rightarrow> nat option \<Rightarrow> nat list \<Rightarrow> bool" where
  "node_chain h p [] \<longleftrightarrow> p = None"
| "node_chain h p (n # ns) \<longleftrightarrow> p = Some n \<and> (\<exists>x. h n = Some x \<and> node_chain h (bn_next x) ns)"

definition block_of :: "(nat \<rightharpoonup> buffer_node) \<Rightarrow> nat \<Rightarrow> bytes" where
  "block_of h n = (case h n of None \<Rightarrow> [] | Some x \<Rightarrow> bn_msg x)"

definition node_blocks :: "(nat \<rightharpoonup> buffer_node) \<Rightarrow> nat list \<Rightarrow> bytes" where
  "node_blocks h ns = concat (map (block_of h) ns)"

lemma node_blocks_simps [simp]:
  "node_blocks h [] = []" "node_blocks h (n # ns) = block_of h n @ node_blocks h ns" "node_blocks h (ns @ ms) = node_blocks h ns @ node_blocks h ms"
  by (simp_all add: node_blocks_def)

lemma block_of_Some [simp]: "h n = Some x \<Longrightarrow> block_of h n = bn_msg x"
  by (simp add: block_of_def)

lemma node_chain_frame: "(\<And>n. n \<in> set ns \<Longrightarrow> h' n = h n) \<Longrightarrow> node_chain h' p ns = node_chain h p ns"
  by (induction ns arbitrary: p) auto

lemma node_blocks_frame: "(\<And>n. n \<in> set ns \<Longrightarrow> h' n = h n) \<Longrightarrow> node_blocks h' ns = node_blocks h ns"
  by (induction ns) (auto simp: block_of_def)

lemma node_chain_upd [simp]: "n \<notin> set ns \<Longrightarrow> node_chain (h(n := v)) p ns = node_chain h p ns"
  by (rule node_chain_frame) auto

lemma node_blocks_upd [simp]: "n \<notin> set ns \<Longrightarrow> node_blocks (h(n := v)) ns = node_blocks h ns"
  by (rule node_blocks_frame) auto

lemma node_chain_Some: "node_chain h (Some n) ns \<longleftrightarrow> (\<exists>x ms. ns = n # ms \<and> h n = Some x \<and> node_chain h (bn_next x) ms)"
  by (cases ns) auto

lemma node_chain_dom: "node_chain h p ns \<Longrightarrow> m \<in> set ns \<Longrightarrow> \<exists>y. h m = Some y"
  by (induction ns arbitrary: p) auto

text \<open>A new node behind the last one.\<close>

lemma node_chain_extend:
  assumes "node_chain h p ns" "ns \<noteq> []" "h (last ns) = Some y" "distinct ns" "n \<notin> set ns" "h n = Some x" "bn_next x = None"
  shows "node_chain (h(last ns \<mapsto> y\<lparr>bn_next := Some n\<rparr>)) p (ns @ [n])"
  using assms
proof (induction ns arbitrary: p)
  case (Cons m ns)
  show ?case
  proof (cases "ns = []")
    case False
    then have "m \<noteq> last ns" using Cons.prems(4) by auto
    with Cons False show ?thesis by auto
  qed (use Cons in auto)
qed simp

subsection \<open>The invariant\<close>

text \<open>
  \<open>links\<close>: the nodes \<open>ns\<close> of the buffer and the free nodes \<open>fs\<close> of the pool are two disjoint lists in the
  heap, and the node_blocks are not empty. \<open>holds\<close>: the buffer holds the bytes \<open>q\<close>.
\<close>

definition links :: "buffer_pool \<Rightarrow> recv_buffer \<Rightarrow> nat list \<Rightarrow> nat list \<Rightarrow> bool" where
  "links p sb ns fs \<longleftrightarrow>
     node_chain (bp_heap p) (rb_head sb) ns \<and> node_chain (bp_heap p) (bp_free p) fs \<and> distinct (ns @ fs) \<and>
     (\<forall>n \<in> set (ns @ fs). n < bp_fresh p) \<and>
     rb_tail sb = (if ns = [] then None else Some (last ns)) \<and> (\<forall>n \<in> set ns. block_of (bp_heap p) n \<noteq> [])"

definition offset_ok :: "buffer_pool \<Rightarrow> recv_buffer \<Rightarrow> nat list \<Rightarrow> bool" where
  "offset_ok p sb ns \<longleftrightarrow>
     (case ns of [] \<Rightarrow> rb_offset sb = 0 | n # _ \<Rightarrow> rb_offset sb < length (block_of (bp_heap p) n))"

definition holds :: "buffer_pool \<Rightarrow> recv_buffer \<Rightarrow> nat list \<Rightarrow> bytes \<Rightarrow> bool" where
  "holds p sb ns q \<longleftrightarrow> offset_ok p sb ns \<and> q = drop (rb_offset sb) (node_blocks (bp_heap p) ns)"

definition buffer_rel :: "buffer_pool \<times> recv_buffer \<Rightarrow> bytes \<Rightarrow> bool" where
  "buffer_rel s q \<longleftrightarrow> (\<exists>ns fs. links (fst s) (snd s) ns fs \<and> holds (fst s) (snd s) ns q) \<and> rb_size (snd s) = int (length q)"

lemma holds_empty: "holds p sb ns q \<Longrightarrow> links p sb ns fs \<Longrightarrow> q = [] \<longleftrightarrow> ns = []"
  by (cases ns) (auto simp: holds_def offset_ok_def)

lemma return_free_node_links:
  assumes "links p sb (n # ns) fs"
  shows "\<exists>p' sb'. return_free_node p sb = Some (p', sb') \<and> links p' sb' ns (n # fs) \<and>
    holds p' sb' ns (node_blocks (bp_heap p) ns) \<and> rb_size sb' = rb_size sb"
proof -
  obtain x where x: "rb_head sb = Some n" "bp_heap p n = Some x" "node_chain (bp_heap p) (bn_next x) ns"
    using assms by (auto simp: links_def)
  have nx: "bn_next x = None \<longleftrightarrow> ns = []"
    using x(3) by (cases ns) auto
  show ?thesis
    using assms x nx
    by (auto simp: return_free_node_def links_def holds_def offset_ok_def block_of_def split: list.split)
qed

lemma first_rest_eq:
  assumes "links p sb (n # ns) fs" "offset_ok p sb (n # ns)"
  shows "first_rest p sb = Some (drop (rb_offset sb) (block_of (bp_heap p) n))"
  using assms by (auto simp: first_rest_def links_def offset_ok_def)

lemma skip_bytes:
  assumes "links p sb (n # ns) fs" "sz < length (drop (rb_offset sb) (block_of (bp_heap p) n))"
  shows "links p (sb\<lparr>rb_offset := rb_offset sb + sz\<rparr>) (n # ns) fs"
    "holds p (sb\<lparr>rb_offset := rb_offset sb + sz\<rparr>) (n # ns) (drop sz (drop (rb_offset sb) (node_blocks (bp_heap p) (n # ns))))"
  using assms by (auto simp: links_def holds_def offset_ok_def add.commute)

subsection \<open>Reading\<close>

lemma pop_lstring_loop_correct:
  assumes "links p sb ns fs" "holds p sb ns q" "0 < sz" "sz \<le> length q"
  shows "\<exists>p' sb' ns' fs'. pop_lstring_loop p sb sz skip b = Some (b @ take (sz - skip) q, p', sb') \<and>
    links p' sb' ns' fs' \<and> holds p' sb' ns' (drop sz q) \<and> rb_size sb' = rb_size sb"
  using assms
proof (induction ns arbitrary: p sb fs q sz b)
  case Nil
  then show ?case by (simp add: holds_def)
next
  case (Cons n ns)
  define r where "r = drop (rb_offset sb) (block_of (bp_heap p) n)"
  have off: "offset_ok p sb (n # ns)" "r \<noteq> []" and q: "q = r @ node_blocks (bp_heap p) ns"
    using Cons.prems(2) by (auto simp: holds_def offset_ok_def r_def)
  have rest: "first_rest p sb = Some r"
    using first_rest_eq [OF Cons.prems(1) off(1)] by (simp add: r_def)
  obtain p1 sb1 where ret: "return_free_node p sb = Some (p1, sb1)" "links p1 sb1 ns (n # fs)"
    "holds p1 sb1 ns (node_blocks (bp_heap p) ns)" "rb_size sb1 = rb_size sb"
    using return_free_node_links [OF Cons.prems(1)] by blast
  consider "sz < length r" | "sz = length r" | "length r < sz" by linarith
  then show ?case
  proof cases
    case 1
    then have "pop_lstring_loop p sb sz skip b = Some (b @ take (sz - skip) q, p, sb\<lparr>rb_offset := rb_offset sb + sz\<rparr>)"
      by (subst pop_lstring_loop.simps) (simp add: rest Let_def q)
    with skip_bytes [OF Cons.prems(1), of sz] 1 Cons.prems(2) show ?thesis
      by (auto simp: r_def holds_def)
  next
    case 2
    have "return_free_node p (sb\<lparr>rb_offset := rb_offset sb + sz\<rparr>) = return_free_node p sb"
      by (simp add: return_free_node_def cong: if_cong)
    then have "pop_lstring_loop p sb sz skip b = Some (b @ take (sz - skip) q, p1, sb1)"
      using 2 by (subst pop_lstring_loop.simps) (simp add: rest Let_def q ret(1))
    with ret 2 q show ?thesis by auto
  next
    case 3
    define b1 where "b1 = b @ take (sz - skip) r"
    have "pop_lstring_loop p sb sz skip b = pop_lstring_loop p1 sb1 (sz - length r) skip b1"
      using 3 by (subst pop_lstring_loop.simps) (simp add: rest Let_def ret(1) b1_def min_def)
    moreover have "0 < sz - length r" "sz - length r \<le> length (node_blocks (bp_heap p) ns)"
      using 3 Cons.prems(4) q by simp_all
    then obtain p' sb' ns' fs' where
      "pop_lstring_loop p1 sb1 (sz - length r) skip b1 = Some (b1 @ take (sz - length r - skip) (node_blocks (bp_heap p) ns), p', sb')"
      "links p' sb' ns' fs'" "holds p' sb' ns' (drop (sz - length r) (node_blocks (bp_heap p) ns))" "rb_size sb' = rb_size sb1"
      using Cons.IH [OF ret(2,3)] by blast
    moreover have "sz - skip - length r = sz - length r - skip" by simp
    ultimately show ?thesis
      using 3 ret(4) by (auto simp: b1_def q)
  qed
qed

lemma pop_lstring_correct:
  assumes "links p sb ns fs" "holds p sb ns q" "0 < sz" "sz \<le> length q"
  shows "\<exists>p' sb' ns' fs'. pop_lstring p sb sz skip = Some (take (sz - skip) q, p', sb') \<and>
    links p' sb' ns' fs' \<and> holds p' sb' ns' (drop sz q) \<and> rb_size sb' = rb_size sb"
proof -
  obtain n ms where ns: "ns = n # ms"
    using assms by (cases ns) (auto simp: holds_def)
  define r where "r = drop (rb_offset sb) (block_of (bp_heap p) n)"
  have rest: "first_rest p sb = Some r" and q: "q = r @ node_blocks (bp_heap p) ms"
    using first_rest_eq [of p sb n ms fs] assms(1,2) by (auto simp: ns r_def holds_def offset_ok_def)
  consider "sz < length r" | "sz = length r" | "length r < sz" by linarith
  then show ?thesis
  proof cases
    case 1
    then show ?thesis
      using skip_bytes [of p sb n ms fs sz] assms(1,2) ns
      by (auto simp: pop_lstring_def rest q r_def holds_def)
  next
    case 2
    then show ?thesis
      using return_free_node_links [of p sb n ms fs] assms(1) ns by (fastforce simp: pop_lstring_def rest q)
  next
    case 3
    then show ?thesis
      using pop_lstring_loop_correct [OF assms, of skip "[]"] by (simp add: pop_lstring_def rest)
  qed
qed

lemma clear_loop_correct:
  assumes "links p sb ns fs"
  shows "\<exists>p' sb' fs'. clear_loop p sb = Some (p', sb') \<and> links p' sb' [] fs' \<and> (rb_offset sb' = 0 \<or> ns = [] \<and> rb_offset sb' = rb_offset sb)"
  using assms
proof (induction ns arbitrary: p sb fs)
  case Nil
  then show ?case by (auto simp: clear_loop.simps links_def)
next
  case (Cons n ns)
  obtain p1 sb1 where ret: "return_free_node p sb = Some (p1, sb1)" "links p1 sb1 ns (n # fs)"
    "holds p1 sb1 ns (node_blocks (bp_heap p) ns)" "rb_size sb1 = rb_size sb"
    using return_free_node_links [OF Cons.prems] by blast
  have "rb_offset sb1 = 0"
    using ret(1) by (auto simp: return_free_node_def bind_eq_Some_conv)
  moreover have "clear_loop p sb = clear_loop p1 sb1"
    using Cons.prems ret(1) by (subst clear_loop.simps) (auto simp: links_def)
  ultimately show ?case
    using Cons.IH [OF ret(2)] by auto
qed

lemma read_all_loop_correct:
  assumes "links p sb ns fs" "holds p sb ns q"
  shows "\<exists>p' sb' fs'. read_all_loop p sb b = Some (b @ q, p', sb') \<and> links p' sb' [] fs' \<and> holds p' sb' [] []"
  using assms
proof (induction ns arbitrary: p sb fs q b)
  case Nil
  then show ?case by (auto simp: read_all_loop.simps links_def holds_def)
next
  case (Cons n ns)
  obtain p1 sb1 where ret: "return_free_node p sb = Some (p1, sb1)" "links p1 sb1 ns (n # fs)"
    "holds p1 sb1 ns (node_blocks (bp_heap p) ns)"
    using return_free_node_links [OF Cons.prems(1)] by blast
  have r: "first_rest p sb = Some (drop (rb_offset sb) (block_of (bp_heap p) n))"
    "q = drop (rb_offset sb) (block_of (bp_heap p) n) @ node_blocks (bp_heap p) ns"
    using first_rest_eq [OF Cons.prems(1)] Cons.prems(2) by (auto simp: holds_def offset_ok_def)
  have "read_all_loop p sb b = read_all_loop p1 sb1 (b @ drop (rb_offset sb) (block_of (bp_heap p) n))"
    using Cons.prems(1) ret(1) r(1) by (subst read_all_loop.simps) (auto simp: links_def)
  then show ?case
    using Cons.IH [OF ret(2,3), of "b @ drop (rb_offset sb) (block_of (bp_heap p) n)"] r(2) by simp
qed

subsection \<open>Finding a line\<close>

fun find_sep :: "bytes \<Rightarrow> bytes \<Rightarrow> nat option" where
  "find_sep sep [] = (if sep = [] then Some 0 else None)"
| "find_sep sep (c # q) = (if take (length sep) (c # q) = sep then Some 0 else map_option Suc (find_sep sep q))"

lemma find_sep_short: "length q < length sep \<Longrightarrow> find_sep sep q = None"
  by (induction q) (auto dest: arg_cong [where f = length])

lemma find_sep_first:
  "find_sep sep q = Some i \<longleftrightarrow>
     i \<le> length q \<and> take (length sep) (drop i q) = sep \<and> (\<forall>j < i. take (length sep) (drop j q) \<noteq> sep)"
proof (induction q arbitrary: i)
  case (Cons c q)
  show ?case
  proof (cases i)
    case (Suc k)
    have "(\<forall>j < Suc k. take (length sep) (drop j (c # q)) \<noteq> sep) \<longleftrightarrow>
        take (length sep) (c # q) \<noteq> sep \<and> (\<forall>j < k. take (length sep) (drop j q) \<noteq> sep)"
      by (auto simp: less_Suc_eq_0_disj)
    with Cons Suc show ?thesis by auto
  qed auto
qed (auto dest: arg_cong [where f = length])

lemma check_sep_correct:
  assumes "node_chain h node ns" "ns \<noteq> []" "t = drop k (node_blocks h ns)" "k \<le> length (block_of h (hd ns))"
    and "length sep \<le> length t"
  shows "check_sep h node k sep = Some (take (length sep) t = sep)"
  using assms
proof (induction ns arbitrary: node k sep t)
  case (Cons n ns)
  obtain x where x: "node = Some n" "h n = Some x" "node_chain h (bn_next x) ns"
    using Cons.prems(1) by auto
  define r where "r = drop k (bn_msg x)"
  have rl: "length (bn_msg x) - k = length r" by (simp add: r_def)
  have t: "t = r @ node_blocks h ns"
    using Cons.prems(3,4) x(2) by (simp add: r_def)
  consider "length sep \<le> length r" | "length r < length sep" "r \<noteq> take (length r) sep" | "length r < length sep" "r = take (length r) sep"
    by linarith
  then show ?case
  proof cases
    case 1
    then show ?thesis by (subst check_sep.simps) (simp add: x Let_def t rl flip: r_def)
  next
    case 2
    then have "take (length sep) t \<noteq> sep"
      by (auto simp: t dest: arg_cong [where f = "take (length r)"])
    moreover have "r \<noteq> []" using 2(2) by auto
    ultimately show ?thesis using 2 by (subst check_sep.simps) (simp add: x Let_def rl flip: r_def)
  next
    case 3
    define sep' where "sep' = drop (length r) sep"
    have sep: "sep = r @ sep'" using 3(2) by (metis append_take_drop_id sep'_def)
    have "ns \<noteq> []" using 3(1) Cons.prems(5) t by auto
    then have "check_sep h (bn_next x) 0 sep' = Some (take (length sep') (node_blocks h ns) = sep')"
      using Cons.IH [OF x(3), of "node_blocks h ns" 0 sep'] Cons.prems(5) by (simp add: t sep)
    then show ?thesis
      using 3(1) by (subst check_sep.simps) (simp add: x Let_def t sep rl flip: r_def)
  qed
qed simp

lemma line_loop_correct:
  assumes "node_chain h (Some n) (n # ns)" "k < length (block_of h n)" "t = drop k (node_blocks h (n # ns))"
    and "\<forall>m \<in> set ns. block_of h m \<noteq> []" "sep \<noteq> []" "bytes = int (length (block_of h n)) - int k" "limit = int (i + length t)"
  shows "line_loop h limit sep i n k bytes = Some (map_option ((+) i) (find_sep sep t))"
  using assms
proof (induction "length t" arbitrary: t n ns k bytes i)
  case 0
  then show ?case by simp
next
  case (Suc l)
  obtain x where x: "h n = Some x" "node_chain h (bn_next x) ns"
    using Suc.prems(1) by auto
  obtain c t' where t: "t = c # t'" "l = length t'"
    using Suc.hyps(2) by (cases t) auto
  show ?case
  proof (cases "length sep \<le> length t")
    case True
    have check: "check_sep h (Some n) k sep = Some (take (length sep) t = sep)"
      using check_sep_correct [OF Suc.prems(1), of t k sep] Suc.prems(2,3) True by simp
    have limit: "limit = int (Suc i + length t')" "int i \<le> limit - int (length sep)"
      using Suc.prems(7) True t by simp_all
    show ?thesis
    proof (cases "take (length sep) t = sep")
      case True
      then show ?thesis
        using limit(2) t by (subst line_loop.simps) (simp add: check)
    next
      case no: False
      have map: "map_option ((+) i) (map_option Suc r) = map_option ((+) (Suc i)) r" for r
        by (cases r) simp_all
      show ?thesis
      proof (cases "Suc k = length (block_of h n)")
        case last: True
        then have t': "t' = node_blocks h ns"
          using Suc.prems(3) t by (metis append_Nil append_eq_append_conv_if node_blocks_simps(2) drop_Suc drop_all drop_append
              diff_self_eq_0 drop0 list.sel(3) order_refl tl_drop)
        show ?thesis
        proof (cases ns)
          case Nil
          then show ?thesis
            using no limit(2) last t t' x Suc.prems(5,6) by (subst line_loop.simps) (simp add: check)
        next
          case (Cons m ms)
          then obtain y where y: "bn_next x = Some m" "h m = Some y"
            using x(2) by auto
          have "line_loop h limit sep (Suc i) m 0 (int (length (bn_msg y))) = Some (map_option ((+) (Suc i)) (find_sep sep t'))"
            using Suc.hyps(1) [OF t(2), of m ms 0 "int (length (bn_msg y))" "Suc i"] x(2) y Suc.prems(4,5) limit(1) Cons t' by simp
          then show ?thesis
            using no limit(2) last t x(1) y Suc.prems(6) by (subst line_loop.simps) (simp add: check map)
        qed
      next
        case inner: False
        have "t' = drop (Suc k) (node_blocks h (n # ns))"
          using Suc.prems(3) t by (metis drop_Suc list.sel(3) tl_drop)
        then have "line_loop h limit sep (Suc i) n (Suc k) (bytes - 1) = Some (map_option ((+) (Suc i)) (find_sep sep t'))"
          using Suc.hyps(1) [OF t(2) Suc.prems(1), of "Suc k" "bytes - 1" "Suc i"] Suc.prems(2,4,5,6) limit(1) inner by simp
        moreover have "bytes - 1 \<noteq> 0"
          using Suc.prems(2,6) inner by simp
        ultimately show ?thesis
          using no limit(2) t by (subst line_loop.simps) (simp add: check map)
      qed
    qed
  next
    case False
    then show ?thesis
      using Suc.prems(7) find_sep_short [of t sep] by (subst line_loop.simps) simp
  qed
qed

subsection \<open>Pushing\<close>

lemma new_chunk_chain:
  assumes "0 < sz"
  shows "node_chain (bp_heap (new_recv_buffer_pool sz p)) (Some (bp_fresh p)) [bp_fresh p..<bp_fresh p + sz]"
proof -
  have "node_chain (bp_heap (new_recv_buffer_pool sz p)) (if a < bp_fresh p + sz then Some a else None) [a..<bp_fresh p + sz]"
    if "bp_fresh p \<le> a" for a
    using that
  proof (induction "bp_fresh p + sz - a" arbitrary: a)
    case (Suc m)
    then have "a < bp_fresh p + sz" "m = bp_fresh p + sz - Suc a" by simp_all
    then show ?case
      using Suc.hyps(1) [of "Suc a"] Suc.prems
      by (auto simp: upt_conv_Cons new_recv_buffer_pool_def split: if_splits)
  qed simp
  from this [of "bp_fresh p"] assms show ?thesis by simp
qed

lemma chunk_size_pos: "0 < chunk_size tsz"
  by (simp add: chunk_size_def push_bit_eq_mult)

text \<open>A node is taken from the free list, which a new chunk fills when it is empty.\<close>

lemma take_node_links:
  assumes "links p sb ns fs"
  shows "\<exists>n p1 fs1. take_node p = (n, p1) \<and> links (p1\<lparr>bp_free := Some n\<rparr>) sb ns (n # fs1) \<and>
    node_blocks (bp_heap p1) ns = node_blocks (bp_heap p) ns \<and> (\<forall>m \<in> set ns. bp_heap p1 m = bp_heap p m)"
proof (cases "bp_free p")
  case None
  define tsz where "tsz = (if bp_len p = 0 then 1 else bp_len p)"
  define p1 where "p1 = new_recv_buffer_pool (chunk_size tsz) (p\<lparr>bp_len := tsz + 1\<rparr>)"
  have t: "take_node p = (bp_fresh p, p1)"
    by (simp add: take_node_def None p1_def tsz_def Let_def)
  have ch: "node_chain (bp_heap p1) (Some (bp_fresh p)) [bp_fresh p..<bp_fresh p + chunk_size tsz]"
    using new_chunk_chain [OF chunk_size_pos, of tsz "p\<lparr>bp_len := tsz + 1\<rparr>"] by (simp add: p1_def)
  have old: "bp_heap p1 m = bp_heap p m" if "m \<in> set ns" for m
  proof -
    have "m < bp_fresh p" using that assms by (simp add: links_def)
    then show ?thesis by (simp add: p1_def new_recv_buffer_pool_def)
  qed
  define fs1 where "fs1 = [Suc (bp_fresh p)..<bp_fresh p + chunk_size tsz]"
  have list: "[bp_fresh p..<bp_fresh p + chunk_size tsz] = bp_fresh p # fs1"
    using chunk_size_pos by (simp add: upt_conv_Cons fs1_def)
  have fresh: "bp_fresh p1 = bp_fresh p + chunk_size tsz" "\<forall>m \<in> set ns. m < bp_fresh p"
    using assms by (auto simp: p1_def new_recv_buffer_pool_def links_def)
  have dist: "distinct (ns @ bp_fresh p # fs1)"
  proof -
    have "distinct ns" using assms by (simp add: links_def)
    moreover have "distinct fs1" "\<forall>m \<in> set fs1. bp_fresh p < m"
      by (auto simp: fs1_def)
    ultimately show ?thesis
      using fresh(2) by fastforce
  qed
  have lt: "\<forall>m \<in> set (ns @ bp_fresh p # fs1). m < bp_fresh p1"
    using fresh chunk_size_pos [of tsz] by (auto simp: fs1_def)
  have "node_chain (bp_heap p1) (rb_head sb) ns" "\<forall>m \<in> set ns. block_of (bp_heap p1) m \<noteq> []"
    using assms old node_chain_frame [of ns "bp_heap p1" "bp_heap p"] by (auto simp: links_def block_of_def)
  with dist lt ch [unfolded list] assms have "links (p1\<lparr>bp_free := Some (bp_fresh p)\<rparr>) sb ns (bp_fresh p # fs1)"
    by (simp add: links_def)
  then show ?thesis
    using t old node_blocks_frame [of ns "bp_heap p1" "bp_heap p"] by auto
next
  case (Some n)
  then obtain fs1 where "fs = n # fs1"
    using assms by (auto simp: links_def node_chain_Some)
  with Some assms show ?thesis
    by (intro exI [of _ n] exI [of _ p] exI [of _ fs1]) (simp add: take_node_def links_def)
qed

lemma recv_push_correct:
  assumes links: "links p sb ns fs" and holds: "holds p sb ns q" and msg: "msg \<noteq> []"
    and size: "rb_size sb = int (length q)" "length q + length msg < 2 ^ 31"
  shows "\<exists>p' sb'. l_push_socket_recv_buffer p sb msg = Some (int (length (q @ msg)), p', sb') \<and> buffer_rel (p', sb') (q @ msg)"
proof -
  obtain n p1 fs1 where tk: "take_node p = (n, p1)" and l1: "links (p1\<lparr>bp_free := Some n\<rparr>) sb ns (n # fs1)"
    and bl: "node_blocks (bp_heap p1) ns = node_blocks (bp_heap p) ns" and old: "\<forall>m \<in> set ns. bp_heap p1 m = bp_heap p m"
    using take_node_links [OF links] by blast
  obtain x where x: "bp_heap p1 n = Some x" "node_chain (bp_heap p1) (bn_next x) fs1"
    using l1 by (auto simp: links_def)
  have dist: "n \<notin> set ns" "n \<notin> set fs1" "distinct (ns @ fs1)"
    using l1 by (auto simp: links_def)
  define p2 where "p2 = p1\<lparr>bp_free := bn_next x, bp_heap := (bp_heap p1)(n \<mapsto> \<lparr>bn_msg = msg, bn_next = None\<rparr>)\<rparr>"
  show ?thesis
  proof (cases "ns = []")
    case True
    then have "l_push_socket_recv_buffer p sb msg = Some (int (length (q @ msg)), p2, sb\<lparr>rb_head := Some n, rb_tail := Some n, rb_size := int (length (q @ msg))\<rparr>)"
      using tk x size holds links by (simp add: l_push_socket_recv_buffer_def p2_def links_def holds_def Let_def)
    moreover have "links p2 (sb\<lparr>rb_head := Some n, rb_tail := Some n, rb_size := int (length (q @ msg))\<rparr>) [n] fs1"
      using l1 x dist msg by (auto simp: links_def p2_def)
    moreover have "holds p2 (sb\<lparr>rb_head := Some n, rb_tail := Some n, rb_size := int (length (q @ msg))\<rparr>) [n] (q @ msg)"
      using True holds msg by (auto simp: holds_def offset_ok_def p2_def)
    ultimately show ?thesis
      by (force simp: buffer_rel_def)
  next
    case False
    then have lst: "last ns \<in> set ns" "last ns \<noteq> n"
      using dist(1) by auto
    obtain y where y: "bp_heap p1 (last ns) = Some y"
      using node_chain_dom [of "bp_heap p1" "rb_head sb" ns "last ns"] l1 lst by (auto simp: links_def)
    define p3 where "p3 = p2\<lparr>bp_heap := (bp_heap p2)(last ns \<mapsto> y\<lparr>bn_next := Some n\<rparr>)\<rparr>"
    define sb' where "sb' = sb\<lparr>rb_tail := Some n, rb_size := int (length (q @ msg))\<rparr>"
    have head: "rb_head sb \<noteq> None" "rb_tail sb = Some (last ns)"
      using l1 False by (cases ns; simp add: links_def)+
    have push: "l_push_socket_recv_buffer p sb msg = Some (int (length (q @ msg)), p3, sb')"
      using tk x size head y lst by (simp add: l_push_socket_recv_buffer_def Let_def p3_def p2_def sb'_def)
    have same: "block_of (bp_heap p3) m = block_of (bp_heap p) m" if "m \<in> set ns" for m
      using that old y dist(1) by (auto simp: block_of_def p3_def p2_def)
    have new: "block_of (bp_heap p3) n = msg"
      using lst by (simp add: block_of_def p3_def p2_def)
    have c1: "node_chain (bp_heap p3) (rb_head sb) (ns @ [n])"
      unfolding p3_def using l1 False lst dist y
      by (auto simp: p2_def links_def intro!: node_chain_extend)
    have c2: "node_chain (bp_heap p3) (bp_free p3) fs1"
    proof -
      have "last ns \<notin> set fs1" using dist(3) lst(1) by auto
      then show ?thesis using x(2) dist(2) by (simp add: p3_def p2_def)
    qed
    have "\<forall>m \<in> set ((ns @ [n]) @ fs1). m < bp_fresh p3" "distinct ((ns @ [n]) @ fs1)"
      using l1 by (auto simp: links_def p3_def p2_def)
    moreover have "\<forall>m \<in> set (ns @ [n]). block_of (bp_heap p3) m \<noteq> []"
      using links same new msg by (auto simp: links_def)
    ultimately have "links p3 sb' (ns @ [n]) fs1"
      using c1 c2 by (simp add: links_def sb'_def)
    moreover have "holds p3 sb' (ns @ [n]) (q @ msg)"
    proof -
      have "node_blocks (bp_heap p3) ns = node_blocks (bp_heap p) ns"
        using same by (simp add: node_blocks_def cong: map_cong)
      then show ?thesis
        using holds False same new by (cases ns) (auto simp: holds_def offset_ok_def sb'_def)
    qed
    ultimately show ?thesis
      using push by (auto simp: buffer_rel_def sb'_def)
  qed
qed

subsection \<open>The buffer is a queue of bytes\<close>

text \<open>
  The calls of a service and their results, and the same on a list of bytes. A line is looked for at
  the first place where the separator occurs.
\<close>

datatype recv_op = RECV_PUSH bytes | RECV_POP int | RECV_LINE bool bytes | RECV_ALL | RECV_CLEAR

datatype recv_result = R_SIZE int | R_POP "bytes option" int | R_LINE line_result | R_ALL bytes | R_NONE

fun recv_step :: "recv_op \<Rightarrow> buffer_pool \<times> recv_buffer \<Rightarrow> (recv_result \<times> buffer_pool \<times> recv_buffer) option" where
  "recv_step (RECV_PUSH msg) (p, sb) = map_option (apfst R_SIZE) (l_push_socket_recv_buffer p sb msg)"
| "recv_step (RECV_POP sz) (p, sb) = map_option (apfst (\<lambda>(s, n). R_POP s n)) (l_pop_socket_recv_buffer p sb sz)"
| "recv_step (RECV_LINE check sep) (p, sb) = map_option (apfst R_LINE) (l_read_line p sb check sep)"
| "recv_step RECV_ALL (p, sb) = map_option (apfst R_ALL) (l_read_all p sb)"
| "recv_step RECV_CLEAR (p, sb) = map_option (\<lambda>s. (R_NONE, s)) (l_clear_socket_recv_buffer p sb)"

fun queue_step :: "recv_op \<Rightarrow> bytes \<Rightarrow> recv_result \<times> bytes" where
  "queue_step (RECV_PUSH msg) q = (R_SIZE (int (length (q @ msg))), q @ msg)"
| "queue_step (RECV_POP sz) q =
     (if sz = 0 \<or> int (length q) < sz then (R_POP None (int (length q)), q)
      else (R_POP (Some (take (nat sz) q)) (int (length q) - sz), drop (nat sz) q))"
| "queue_step (RECV_LINE check sep) q =
     (case find_sep sep q of
        None \<Rightarrow> (R_LINE NO_LINE, q)
      | Some i \<Rightarrow> if check then (R_LINE LINE_FOUND, q) else (R_LINE (LINE (take i q)), drop (i + length sep) q))"
| "queue_step RECV_ALL q = (R_ALL q, [])"
| "queue_step RECV_CLEAR q = (R_NONE, [])"

text \<open>Blocks and separators are not empty, sizes are not negative, and the buffer stays below 2 GB.\<close>

fun op_ok :: "recv_op \<Rightarrow> bytes \<Rightarrow> bool" where
  "op_ok (RECV_PUSH msg) q \<longleftrightarrow> msg \<noteq> [] \<and> length q + length msg < 2 ^ 31"
| "op_ok (RECV_POP sz) q \<longleftrightarrow> 0 \<le> sz"
| "op_ok (RECV_LINE check sep) q \<longleftrightarrow> sep \<noteq> []"
| "op_ok _ q \<longleftrightarrow> True"

lemma buffer_relE:
  assumes "buffer_rel (p, sb) q"
  obtains ns fs where "links p sb ns fs" "holds p sb ns q" "rb_size sb = int (length q)"
  using assms by (auto simp: buffer_rel_def)

lemma buffer_relI: "links p sb ns fs \<Longrightarrow> holds p sb ns q \<Longrightarrow> rb_size sb = int (length q) \<Longrightarrow> buffer_rel (p, sb) q"
  by (auto simp: buffer_rel_def)

lemma set_size [simp]:
  "links p (sb\<lparr>rb_size := n\<rparr>) ns fs = links p sb ns fs" "holds p (sb\<lparr>rb_size := n\<rparr>) ns q = holds p sb ns q"
  by (simp_all add: links_def holds_def offset_ok_def split: list.split)

lemma recv_pop_correct:
  assumes "buffer_rel (p, sb) q" "0 \<le> sz"
  shows "\<exists>s'. recv_step (RECV_POP sz) (p, sb) = Some (fst (queue_step (RECV_POP sz) q), s') \<and>
    buffer_rel s' (snd (queue_step (RECV_POP sz) q))"
proof -
  obtain ns fs where b: "links p sb ns fs" "holds p sb ns q" "rb_size sb = int (length q)"
    using assms(1) by (rule buffer_relE)
  show ?thesis
  proof (cases "sz = 0 \<or> int (length q) < sz")
    case True
    then show ?thesis using assms(1) b(3) by (auto simp: l_pop_socket_recv_buffer_def)
  next
    case False
    then obtain p' sb' ns' fs' where "pop_lstring p sb (nat sz) 0 = Some (take (nat sz) q, p', sb')"
      "links p' sb' ns' fs'" "holds p' sb' ns' (drop (nat sz) q)" "rb_size sb' = rb_size sb"
      using pop_lstring_correct [OF b(1,2), of "nat sz" 0] assms(2) nat_le_iff [of sz "length q"] by auto
    then show ?thesis
      using False b(3) assms(2) by (auto simp: l_pop_socket_recv_buffer_def Let_def intro!: buffer_relI)
  qed
qed

lemma zero_add_map: "map_option ((+) 0) r = r" for r :: "nat option"
  by (cases r) simp_all

lemma l_read_line_correct:
  assumes "buffer_rel (p, sb) q" "sep \<noteq> []"
  shows "\<exists>s'. recv_step (RECV_LINE check sep) (p, sb) = Some (fst (queue_step (RECV_LINE check sep) q), s') \<and>
    buffer_rel s' (snd (queue_step (RECV_LINE check sep) q))"
proof -
  obtain ns fs where b: "links p sb ns fs" "holds p sb ns q" "rb_size sb = int (length q)"
    using assms(1) by (rule buffer_relE)
  show ?thesis
  proof (cases ns)
    case Nil
    then have "rb_head sb = None" "q = []"
      using b by (auto simp: links_def holds_def)
    with assms show ?thesis by (auto simp: l_read_line_def)
  next
    case (Cons n ms)
    then obtain x where x: "rb_head sb = Some n" "bp_heap p n = Some x"
      using b(1) by (auto simp: links_def)
    have loop: "line_loop (bp_heap p) (rb_size sb) sep 0 n (rb_offset sb) (int (length (bn_msg x)) - int (rb_offset sb))
        = Some (find_sep sep q)"
      using line_loop_correct [of "bp_heap p" n ms "rb_offset sb" q sep "int (length (bn_msg x)) - int (rb_offset sb)" "rb_size sb" 0]
        b x assms(2) Cons by (auto simp: links_def holds_def offset_ok_def zero_add_map)
    show ?thesis
    proof (cases "find_sep sep q")
      case None
      then show ?thesis using assms(1) x loop by (auto simp: l_read_line_def)
    next
      case (Some i)
      then have i: "i + length sep \<le> length q"
        by (auto simp: find_sep_first dest: arg_cong [where f = length])
      show ?thesis
      proof (cases check)
        case True
        then show ?thesis using assms(1) x loop Some by (auto simp: l_read_line_def)
      next
        case False
        obtain p' sb' ns' fs' where "pop_lstring p sb (i + length sep) (length sep) = Some (take i q, p', sb')"
          "links p' sb' ns' fs'" "holds p' sb' ns' (drop (i + length sep) q)" "rb_size sb' = rb_size sb"
          using pop_lstring_correct [OF b(1,2), of "i + length sep" "length sep"] i assms(2) by auto
        then show ?thesis
          using False b(3) x loop Some i by (auto simp: l_read_line_def intro!: buffer_relI)
      qed
    qed
  qed
qed

lemma recv_step_refines:
  assumes "buffer_rel s q" "op_ok op q"
  shows "\<exists>s'. recv_step op s = Some (fst (queue_step op q), s') \<and> buffer_rel s' (snd (queue_step op q))"
proof -
  obtain p sb where s: "s = (p, sb)" by fastforce
  obtain ns fs where b: "links p sb ns fs" "holds p sb ns q" "rb_size sb = int (length q)"
    using assms(1) unfolding s by (rule buffer_relE)
  show ?thesis
  proof (cases op)
    case (RECV_PUSH msg)
    then show ?thesis using recv_push_correct [OF b(1,2) _ b(3)] assms(2) by (auto simp: s)
  next
    case (RECV_POP sz)
    then show ?thesis using recv_pop_correct assms by (simp add: s)
  next
    case (RECV_LINE check sep)
    then show ?thesis using l_read_line_correct assms by (simp add: s)
  next
    case RECV_ALL
    obtain p' sb' fs' where "read_all_loop p sb [] = Some (q, p', sb')" "links p' sb' [] fs'" "holds p' sb' [] []"
      using read_all_loop_correct [OF b(1,2), of "[]"] by auto
    then show ?thesis
      using RECV_ALL by (auto simp: s l_read_all_def intro!: buffer_relI)
  next
    case RECV_CLEAR
    obtain p' sb' fs' where c: "clear_loop p sb = Some (p', sb')" "links p' sb' [] fs'"
      "rb_offset sb' = 0 \<or> ns = [] \<and> rb_offset sb' = rb_offset sb"
      using clear_loop_correct [OF b(1)] by auto
    then have "holds p' sb' [] []"
      using b(2) by (auto simp: holds_def offset_ok_def)
    with c RECV_CLEAR show ?thesis
      by (auto simp: s l_clear_socket_recv_buffer_def intro!: buffer_relI)
  qed
qed

interpretation recv: step_refinement "\<lambda>_ :: unit. True" buffer_rel "\<lambda>_. recv_step" queue_step op_ok
  by unfold_locales (rule recv_step_refines)

lemma new_buffer_rel: "buffer_rel (new_pool, l_new_socket_recv_buffer) []"
  by (rule buffer_relI [of _ _ "[]" "[]"])
    (simp_all add: links_def holds_def offset_ok_def new_pool_def l_new_socket_recv_buffer_def)

text \<open>
  C11. A receive buffer is a queue of bytes: for every sequence of calls on a new buffer with non-empty
  node_blocks and separators, the calls return exactly what they return on the list of the bytes pushed
  so far and not yet taken: sizes, pieces across block boundaries, the text before the first
  separator even when the separator is cut by a boundary, everything that is left. No null pointer
  is followed, the search ends, and nodes are recycled through the pool without being lost.
\<close>

theorem recv_buffer_is_queue:
  assumes "steps_allowed op_ok queue_step ops []"
  shows "\<exists>s. run_steps recv_step ops (new_pool, l_new_socket_recv_buffer) = Some (fst (spec_steps queue_step ops []), s) \<and>
    buffer_rel s (snd (spec_steps queue_step ops []))"
  by (rule recv.steps_refine [OF TrueI new_buffer_rel assms])

theorem recv_buffer_is_queue_witness:
  "\<exists>s. run_steps recv_step [RECV_PUSH [1, 2, 13], RECV_PUSH [10, 3], RECV_LINE False [13, 10], RECV_POP 1]
       (new_pool, l_new_socket_recv_buffer)
     = Some ([R_SIZE 3, R_SIZE 5, R_LINE (LINE [1, 2]), R_POP (Some [3]) 0], s) \<and> buffer_rel s []"
  using recv_buffer_is_queue [of "[RECV_PUSH [1, 2, 13], RECV_PUSH [10, 3], RECV_LINE False [13, 10], RECV_POP 1]"]
  by simp

end
