(* ===== verification/Cluster.thy ===== *)
theory Cluster
  imports Crypt_Base Netpack
begin

text \<open>
  The packages that nodes of a cluster exchange (\<open>luaclib-src/lua-cluster.cpp\<close>): requests and
  responses, cut into parts when they are long, and the reassembly of the parts
  (\<open>service/cluster_agent.lua\<close>, \<open>lualib/skynet/socket_channel.lua\<close>). \<open>None\<close> is a failed assertion, a
  write beyond the buffer, a read outside of a message or an allocation of negative size; errors
  raised with \<open>luaL_error\<close> are values.
\<close>

subsection \<open>Buffers\<close>

definition TEMP_LENGTH :: nat where "TEMP_LENGTH = 0x8200"

definition MULTI_PART :: nat where "MULTI_PART = 0x8000"

definition fill_uint32 :: "u32 \<Rightarrow> bytes" where
  "fill_uint32 n =
     [ucast (n AND 0xff), ucast (drop_bit 8 n AND 0xff), ucast (drop_bit 16 n AND 0xff), ucast (drop_bit 24 n AND 0xff)]"

definition fill_header :: "nat \<Rightarrow> bytes option" where
  "fill_header sz =
     do { c_assert (sz < 0x10000); Some [of_nat (drop_bit 8 sz AND 0xff), of_nat (sz AND 0xff)] }"

text \<open>
  A package is composed in a buffer of \<open>TEMP_LENGTH\<close> bytes: the header with the size given, then
  the content.
\<close>

definition fill_package :: "nat \<Rightarrow> bytes \<Rightarrow> bytes option" where
  "fill_package sz content =
     do {
       h \<leftarrow> fill_header sz;
       c_assert (length (h @ content) \<le> TEMP_LENGTH);
       Some (h @ content)
     }"

datatype cluster_error =
    CLUSTER_MESSAGE
  | CLUSTER_SESSION
  | CLUSTER_NAME_TYPE
  | CLUSTER_NAME
  | CLUSTER_TRACE
  | CLUSTER_SIZE
  | CLUSTER_PART
  | CLUSTER_TYPE

text \<open>The address argument: what \<open>lua_tointeger\<close> gives for a number, a string, or something else.\<close>

datatype lua_address = ADDR_NUMBER u64 | ADDR_STRING bytes | ADDR_OTHER

subsection \<open>Requests\<close>

text \<open>The first package, and the number of parts that follow it.\<close>

definition packreq_number :: "u64 \<Rightarrow> u32 \<Rightarrow> bytes \<Rightarrow> bool \<Rightarrow> (bytes \<times> nat) option" where
  "packreq_number a session msg is_push =
     (let addr = (ucast a :: u32); sz = length msg in
      if sz < MULTI_PART then
        do {
          b \<leftarrow> fill_package (sz + 9) (0 # fill_uint32 addr @ fill_uint32 (if is_push then 0 else session) @ msg);
          Some (b, 0)
        }
      else
        do {
          b \<leftarrow> fill_package 13
                 ((if is_push then 0x41 else 1) # fill_uint32 addr @ fill_uint32 session @ fill_uint32 (of_nat sz));
          Some (b, (sz - 1) div MULTI_PART + 1)
        })"

definition packreq_string ::
  "lua_address \<Rightarrow> u32 \<Rightarrow> bytes \<Rightarrow> bool \<Rightarrow> (cluster_error + bytes \<times> nat) option" where
  "packreq_string a session msg is_push =
     (case a of
        ADDR_STRING name \<Rightarrow>
          if length name < 1 \<or> length name > 255 then Some (Inl CLUSTER_NAME)
          else
            let namelen = length name; sz = length msg in
            if sz < MULTI_PART then
              do {
                b \<leftarrow> fill_package (sz + 6 + namelen)
                       (0x80 # of_nat namelen # name @ fill_uint32 (if is_push then 0 else session) @ msg);
                Some (Inr (b, 0))
              }
            else
              do {
                b \<leftarrow> fill_package (10 + namelen)
                       ((if is_push then 0xc1 else 0x81) # of_nat namelen # name @
                        fill_uint32 session @ fill_uint32 (of_nat sz));
                Some (Inr (b, (sz - 1) div MULTI_PART + 1))
              }
      | _ \<Rightarrow> Some (Inl CLUSTER_NAME_TYPE))"

fun multi_parts :: "nat \<Rightarrow> u32 \<Rightarrow> bytes \<Rightarrow> bytes list option" where
  "multi_parts 0 session ptr = Some []"
| "multi_parts (Suc i) session ptr =
     do {
       let s = (if length ptr > MULTI_PART then MULTI_PART else length ptr);
       b \<leftarrow> fill_package (s + 5)
              ((if length ptr > MULTI_PART then 2 else 3) # fill_uint32 session @ take s ptr);
       bs \<leftarrow> multi_parts i session (drop s ptr);
       Some (b # bs)
     }"

definition packreq_multi :: "u32 \<Rightarrow> bytes \<Rightarrow> bytes list option" where
  "packreq_multi session msg = multi_parts ((length msg - 1) div MULTI_PART + 1) session msg"

text \<open>
  \<open>packrequest\<close>: a null message and a session that is not positive as an \<open>int\<close> are errors. The
  result is the first package, the next session and the parts. The size is 32 bits wide.
\<close>

definition packrequest ::
  "lua_address \<Rightarrow> u64 \<Rightarrow> bytes option \<Rightarrow> bool \<Rightarrow> (cluster_error + bytes \<times> u32 \<times> bytes list) option" where
  "packrequest a s m is_push =
     (case m of
        None \<Rightarrow> Some (Inl CLUSTER_MESSAGE)
      | Some block \<Rightarrow>
          let msg = take (unat (of_nat (length block) :: u32)) block; session = (ucast s :: u32) in
          if sint session \<le> 0 then Some (Inl CLUSTER_SESSION)
          else
            do {
              r \<leftarrow> (case a of
                     ADDR_NUMBER n \<Rightarrow> do { (b, k) \<leftarrow> packreq_number n session msg is_push; Some (Inr (b, k)) }
                   | _ \<Rightarrow> packreq_string a session msg is_push);
              case r of
                Inl e \<Rightarrow> Some (Inl e)
              | Inr (b, multipak) \<Rightarrow>
                  do {
                    let new_session = session + 1;
                    let next = (if new_session > 0x7FFFFFFF then 1 else new_session);
                    parts \<leftarrow> (if multipak \<noteq> 0 then packreq_multi session msg else Some []);
                    Some (Inr (b, next, parts))
                  }
            })"

definition l_packrequest where "l_packrequest a s m = packrequest a s m False"

definition l_packpush where "l_packpush a s m = packrequest a s m True"

definition l_packtrace :: "bytes \<Rightarrow> (cluster_error + bytes) option" where
  "l_packtrace tag =
     (if length tag > 0x8000 then Some (Inl CLUSTER_TRACE)
      else do { b \<leftarrow> fill_package (length tag + 1) (4 # tag); Some (Inr b) })"

subsection \<open>Reading requests\<close>

definition unpack_uint32 :: "bytes \<Rightarrow> nat \<Rightarrow> u32 option" where
  "unpack_uint32 buf i =
     (if i + 3 < length buf
      then Some (ucast (buf ! i) OR push_bit 8 (ucast (buf ! (i + 1)))
        OR push_bit 16 (ucast (buf ! (i + 2))) OR push_bit 24 (ucast (buf ! (i + 3))))
      else None)"

datatype cluster_address = CA_NUMBER u32 | CA_NAME bytes

text \<open>
  The values returned to Lua: a trace tag alone, or address (\<open>None\<close> for \<open>false\<close>), session, message
  (\<open>None\<close> for \<open>nil\<close>), size, padding and push; the last two are false when they are not returned.
\<close>

datatype unpacked_request =
    UNPACKED_TRACE bytes
  | UNPACKED "cluster_address option" u32 "bytes option" u32 bool bool

definition return_buffer :: "bytes \<Rightarrow> nat \<Rightarrow> (bytes option \<times> u32) option" where
  "return_buffer buf i =
     (if i \<le> length buf then Some (Some (drop i buf), of_nat (length buf - i)) else None)"

definition unpackreq_number :: "bytes \<Rightarrow> (cluster_error + unpacked_request) option" where
  "unpackreq_number buf =
     (if length buf < 9 then Some (Inl CLUSTER_SIZE)
      else
        do {
          address \<leftarrow> unpack_uint32 buf 1;
          session \<leftarrow> unpack_uint32 buf 5;
          (m, n) \<leftarrow> return_buffer buf 9;
          Some (Inr (UNPACKED (Some (CA_NUMBER address)) session m n False (session = 0)))
        })"

definition unpackmreq_number :: "bytes \<Rightarrow> bool \<Rightarrow> (cluster_error + unpacked_request) option" where
  "unpackmreq_number buf is_push =
     (if length buf \<noteq> 13 then Some (Inl CLUSTER_SIZE)
      else
        do {
          address \<leftarrow> unpack_uint32 buf 1;
          session \<leftarrow> unpack_uint32 buf 5;
          sz \<leftarrow> unpack_uint32 buf 9;
          Some (Inr (UNPACKED (Some (CA_NUMBER address)) session None sz True is_push))
        })"

definition unpackmreq_part :: "bytes \<Rightarrow> (cluster_error + unpacked_request) option" where
  "unpackmreq_part buf =
     (if length buf < 5 then Some (Inl CLUSTER_PART)
      else
        do {
          session \<leftarrow> unpack_uint32 buf 1;
          (m, n) \<leftarrow> return_buffer buf 5;
          Some (Inr (UNPACKED None session m n (buf ! 0 = 2) False))
        })"

definition unpacktrace :: "bytes \<Rightarrow> (cluster_error + unpacked_request) option" where
  "unpacktrace buf = Some (Inr (UNPACKED_TRACE (drop 1 buf)))"

text \<open>The name of a length given in the second byte.\<close>

definition unpackreq_string :: "bytes \<Rightarrow> (cluster_error + unpacked_request) option" where
  "unpackreq_string buf =
     (if length buf < 2 then Some (Inl CLUSTER_SIZE)
      else
        let namesz = unat (buf ! 1) in
        if length buf < namesz + 6 then Some (Inl CLUSTER_SIZE)
        else
          do {
            session \<leftarrow> unpack_uint32 buf (namesz + 2);
            (m, n) \<leftarrow> return_buffer buf (2 + namesz + 4);
            Some (Inr (UNPACKED (Some (CA_NAME (take namesz (drop 2 buf)))) session m n False (session = 0)))
          })"

definition unpackmreq_string :: "bytes \<Rightarrow> bool \<Rightarrow> (cluster_error + unpacked_request) option" where
  "unpackmreq_string buf is_push =
     (if length buf < 2 then Some (Inl CLUSTER_SIZE)
      else
        let namesz = unat (buf ! 1) in
        if length buf < namesz + 10 then Some (Inl CLUSTER_SIZE)
        else
          do {
            session \<leftarrow> unpack_uint32 buf (namesz + 2);
            sz \<leftarrow> unpack_uint32 buf (namesz + 6);
            Some (Inr (UNPACKED (Some (CA_NAME (take namesz (drop 2 buf)))) session None sz True is_push))
          })"

definition l_unpackrequest :: "bytes \<Rightarrow> (cluster_error + unpacked_request) option" where
  "l_unpackrequest msg =
     (case msg of
        [] \<Rightarrow> None
      | t # _ \<Rightarrow>
          if t = 0 then unpackreq_number msg
          else if t = 1 then unpackmreq_number msg False
          else if t = 0x41 then unpackmreq_number msg True
          else if t = 2 \<or> t = 3 then unpackmreq_part msg
          else if t = 4 then unpacktrace msg
          else if t = 0x80 then unpackreq_string msg
          else if t = 0x81 then unpackmreq_string msg False
          else if t = 0xc1 then unpackmreq_string msg True
          else Some (Inl CLUSTER_TYPE))"

subsection \<open>Responses\<close>

fun response_parts :: "nat \<Rightarrow> u32 \<Rightarrow> bytes \<Rightarrow> bytes list option" where
  "response_parts 0 session ptr = Some []"
| "response_parts (Suc i) session ptr =
     do {
       let s = (if length ptr > MULTI_PART then MULTI_PART else length ptr);
       b \<leftarrow> fill_package (s + 5)
              (fill_uint32 session @ (if length ptr > MULTI_PART then 3 else 4) # take s ptr);
       bs \<leftarrow> response_parts i session (drop s ptr);
       Some (b # bs)
     }"

text \<open>One package, or a table of packages.\<close>

definition l_packresponse :: "u64 \<Rightarrow> bool \<Rightarrow> bytes \<Rightarrow> (bytes + bytes list) option" where
  "l_packresponse s ok msg =
     (let session = (ucast s :: u32); sz = length msg in
      if ok \<and> sz > MULTI_PART then
        do {
          b \<leftarrow> fill_package 9 (fill_uint32 session @ 2 # fill_uint32 (of_nat sz));
          bs \<leftarrow> response_parts ((sz - 1) div MULTI_PART + 1) session msg;
          Some (Inr (b # bs))
        }
      else
        do {
          let sz1 = (if sz > MULTI_PART then MULTI_PART else sz);
          b \<leftarrow> fill_package (sz1 + 5) (fill_uint32 session @ (if ok then 1 else 0) # take sz1 msg);
          Some (Inl b)
        })"

text \<open>The data of a response and the entries of the table of a large message: a size or a string.\<close>

datatype cluster_item = ITEM_SIZE u32 | ITEM_PART bytes

text \<open>Session, ok, data and padding; \<open>Some None\<close> when nothing is returned.\<close>

definition l_unpackresponse :: "bytes \<Rightarrow> (u32 \<times> bool \<times> cluster_item \<times> bool) option option" where
  "l_unpackresponse buf =
     (if length buf < 5 then Some None
      else
        do {
          session \<leftarrow> unpack_uint32 buf 0;
          let t = buf ! 4;
          let data = ITEM_PART (drop 5 buf);
          if t = 0 then Some (Some (session, False, data, False))
          else if t = 1 \<or> t = 4 then Some (Some (session, True, data, False))
          else if t = 2 then
            (if length buf \<noteq> 9 then Some None
             else do { n \<leftarrow> unpack_uint32 buf 5; Some (Some (session, True, ITEM_SIZE n, True)) })
          else if t = 3 then Some (Some (session, True, data, True))
          else Some None
        })"

subsection \<open>Large messages\<close>

definition l_append :: "cluster_item list \<Rightarrow> bytes option \<Rightarrow> u32 \<Rightarrow> cluster_item list" where
  "l_append t msg sz = t @ [case msg of None \<Rightarrow> ITEM_SIZE sz | Some b \<Rightarrow> ITEM_PART (take (unat sz) b)]"

text \<open>The loop of \<open>l_concat\<close>: \<open>buff\<close> is what was copied so far.\<close>

fun concat_loop :: "nat \<Rightarrow> bytes \<Rightarrow> cluster_item list \<Rightarrow> bytes option" where
  "concat_loop sz buff (ITEM_PART s # t) =
     (if length s + length buff > sz then None else concat_loop sz (buff @ s) t)"
| "concat_loop sz buff t = (if length buff \<noteq> sz then None else Some buff)"

text \<open>\<open>Some None\<close> when nothing is returned; \<open>new char[sz]\<close> throws for a size that is negative as an \<open>int\<close>.\<close>

definition l_concat :: "cluster_item list \<Rightarrow> bytes option option" where
  "l_concat t =
     (case t of
        ITEM_SIZE n # r \<Rightarrow> if sint n < 0 then None else Some (concat_loop (unat n) [] r)
      | _ \<Rightarrow> Some None)"

definition l_is_name :: "bytes \<Rightarrow> bool" where
  "l_is_name name = (name \<noteq> [] \<and> hd name = 64)"

subsection \<open>The agent: reassembly of requests\<close>

text \<open>The entry of \<open>large_request\<close> for a session; trace tags are left out.\<close>

record large_request =
  lr_addr :: "cluster_address option"
  lr_push :: bool
  lr_items :: "cluster_item list"

type_synonym agent = "u32 \<rightharpoonup> large_request"

text \<open>What is served: address, session, message, push; or the answer that the request is invalid.\<close>

datatype agent_event =
    SERVE "cluster_address option" u32 bytes bool
  | INVALID_LARGE_REQUEST u32

definition dispatch_request :: "agent \<Rightarrow> unpacked_request \<Rightarrow> (agent_event list \<times> agent) option" where
  "dispatch_request ag u =
     (case u of
        UNPACKED_TRACE tag \<Rightarrow> Some ([], ag)
      | UNPACKED addr session msg sz padding is_push \<Rightarrow>
          if padding then
            let req = (case ag session of Some r \<Rightarrow> r | None \<Rightarrow> \<lparr>lr_addr = addr, lr_push = is_push, lr_items = []\<rparr>) in
            Some ([], ag(session \<mapsto> req\<lparr>lr_items := l_append (lr_items req) msg sz\<rparr>))
          else
            (case ag session of
               Some req \<Rightarrow>
                 do {
                   m \<leftarrow> l_concat (l_append (lr_items req) msg sz);
                   Some ([case m of None \<Rightarrow> INVALID_LARGE_REQUEST session
                                  | Some b \<Rightarrow> SERVE (lr_addr req) session b (lr_push req)],
                         ag(session := None))
                 }
             | None \<Rightarrow>
                 Some ([case msg of None \<Rightarrow> INVALID_LARGE_REQUEST session
                                  | Some b \<Rightarrow> SERVE addr session (take (unat sz) b) is_push],
                       ag)))"

text \<open>A package that does not unpack raises an error; the agent goes on with the next one.\<close>

definition agent_step :: "agent \<Rightarrow> bytes \<Rightarrow> (agent_event list \<times> agent) option" where
  "agent_step ag msg =
     do {
       r \<leftarrow> l_unpackrequest msg;
       case r of Inl e \<Rightarrow> Some ([], ag) | Inr u \<Rightarrow> dispatch_request ag u
     }"

subsection \<open>The sender\<close>

datatype cluster_command = REQ lua_address bytes | PUSH lua_address bytes

text \<open>
  \<open>CMD.req\<close> and \<open>CMD.push\<close> of \<open>service/cluster_sender.lua\<close>: the packages written, and the session of
  the next call; a push of one package does not use up a session.
\<close>

definition send_command :: "u32 \<Rightarrow> cluster_command \<Rightarrow> (bytes list \<times> u32) option" where
  "send_command session c =
     (case c of
        REQ a m \<Rightarrow>
          do {
            r \<leftarrow> l_packrequest a (ucast session) (Some m);
            case r of Inl e \<Rightarrow> Some ([], session) | Inr (b, next, parts) \<Rightarrow> Some (b # parts, next)
          }
      | PUSH a m \<Rightarrow>
          do {
            r \<leftarrow> l_packpush a (ucast session) (Some m);
            case r of
              Inl e \<Rightarrow> Some ([], session)
            | Inr (b, next, parts) \<Rightarrow> Some (b # parts, if parts \<noteq> [] then next else session)
          })"

fun send_commands :: "u32 \<Rightarrow> cluster_command list \<Rightarrow> (bytes list list \<times> u32) option" where
  "send_commands session [] = Some ([], session)"
| "send_commands session (c # cs) =
     do {
       (ps, s1) \<leftarrow> send_command session c;
       (pss, s2) \<leftarrow> send_commands s1 cs;
       Some (ps # pss, s2)
     }"

subsection \<open>The channel: reassembly of responses\<close>

datatype channel_data = DATA cluster_item | TABLE "cluster_item list"

text \<open>The threads that wait for a session, and the data collected for a thread.\<close>

record channel =
  ch_thread :: "u32 \<rightharpoonup> nat"
  ch_result :: "nat \<rightharpoonup> channel_data"

text \<open>
  One turn of \<open>dispatch_by_session\<close> for a response that was read: the thread that is woken up, with
  its result. \<open>table.insert\<close> into something that is not a table is an error (\<open>None\<close>).
\<close>

definition dispatch_by_session ::
  "channel \<Rightarrow> u32 \<times> bool \<times> cluster_item \<times> bool \<Rightarrow> ((nat \<times> bool \<times> channel_data) list \<times> channel) option" where
  "dispatch_by_session ch r =
     (case r of (session, result_ok, data, padding) \<Rightarrow>
        case ch_thread ch session of
          None \<Rightarrow> Some ([], ch)
        | Some thread \<Rightarrow>
            if padding \<and> result_ok then
              (case (case ch_result ch thread of None \<Rightarrow> TABLE [] | Some d \<Rightarrow> d) of
                 TABLE t \<Rightarrow> Some ([], ch\<lparr>ch_result := (ch_result ch)(thread \<mapsto> TABLE (t @ [data]))\<rparr>)
               | DATA d \<Rightarrow> None)
            else
              do {
                d \<leftarrow> (case ch_result ch thread of
                       Some (TABLE t) \<Rightarrow> Some (if result_ok then TABLE (t @ [data]) else DATA data)
                     | Some (DATA d) \<Rightarrow> (if result_ok then None else Some (DATA data))
                     | None \<Rightarrow> Some (DATA data));
                Some ([(thread, result_ok, d)],
                      ch\<lparr>ch_thread := (ch_thread ch)(session := None), ch_result := (ch_result ch)(thread := None)\<rparr>)
              })"

text \<open>
  What \<open>CMD.req\<close> answers when the thread goes on: the concatenated table, the string, or the failure;
  a size alone or a table that does not fit gives an empty answer.
\<close>

datatype cluster_answer = ANSWER bytes | FAILURE bytes | EMPTY_ANSWER

definition request_answer :: "bool \<Rightarrow> channel_data \<Rightarrow> cluster_answer option" where
  "request_answer ok d =
     (case d of
        DATA (ITEM_PART b) \<Rightarrow> Some (if ok then ANSWER b else FAILURE b)
      | DATA (ITEM_SIZE n) \<Rightarrow> Some EMPTY_ANSWER
      | TABLE t \<Rightarrow> do { m \<leftarrow> l_concat t; Some (case m of None \<Rightarrow> EMPTY_ANSWER | Some b \<Rightarrow> ANSWER b) })"

text \<open>A response that does not unpack closes the channel (\<open>None\<close>).\<close>

definition channel_step :: "channel \<Rightarrow> bytes \<Rightarrow> ((nat \<times> cluster_answer) list \<times> channel) option" where
  "channel_step ch buf =
     do {
       r \<leftarrow> l_unpackresponse buf;
       case r of
         None \<Rightarrow> None
       | Some x \<Rightarrow>
           do {
             (ws, ch1) \<leftarrow> dispatch_by_session ch x;
             case ws of
               [] \<Rightarrow> Some ([], ch1)
             | (t, ok, d) # _ \<Rightarrow> do { a \<leftarrow> request_answer ok d; Some ([(t, a)], ch1) }
           }
     }"

definition response_packages :: "u64 \<Rightarrow> bool \<Rightarrow> bytes \<Rightarrow> bytes list option" where
  "response_packages s ok msg =
     do { r \<leftarrow> l_packresponse s ok msg; Some (case r of Inl b \<Rightarrow> [b] | Inr bs \<Rightarrow> bs) }"

end
