(* ===== verification/Cluster_Parts.thy ===== *)
theory Cluster_Parts
  imports Cluster
begin

text \<open>
  Correctness of the exchange between nodes: long messages travel in parts that are interleaved with
  the packages of other messages, and every message arrives complete and once.
\<close>

subsection \<open>Interleaved packages\<close>

text \<open>
  A trace of numbered packages interleaves the lists \<open>pss\<close> when the packages of each number are the
  list of that number, in order.
\<close>

definition interleaving :: "'p list list \<Rightarrow> (nat \<times> 'p) list \<Rightarrow> bool" where
  "interleaving pss tr \<longleftrightarrow> fst ` set tr \<subseteq> {..<length pss} \<and>
     (\<forall>i<length pss. map snd (filter (\<lambda>x. fst x = i) tr) = pss ! i)"

fun run_packages :: "('s \<Rightarrow> 'p \<Rightarrow> ('o list \<times> 's) option) \<Rightarrow> 's \<Rightarrow> 'p list \<Rightarrow> ('o list \<times> 's) option" where
  "run_packages step s [] = Some ([], s)"
| "run_packages step s (p # ps) =
     do { (os, s1) \<leftarrow> step s p; (os', s2) \<leftarrow> run_packages step s1 ps; Some (os @ os', s2) }"

text \<open>
  The contract of a receiver that reassembles messages: it keeps what it has got of each message,
  gives the message out with its last package, and does not mix messages that may coexist.
\<close>

locale reassembly =
  fixes step :: "'s \<Rightarrow> 'p \<Rightarrow> ('o list \<times> 's) option"
    and pkgs :: "'i \<Rightarrow> 'p list"
    and out :: "'i \<Rightarrow> 'o list"
    and got :: "'i \<Rightarrow> nat \<Rightarrow> 's \<Rightarrow> bool"
    and compat :: "'i \<Rightarrow> 'i \<Rightarrow> bool"
    and ok :: "'i \<Rightarrow> bool"
  assumes part_step: "ok i \<Longrightarrow> got i k s \<Longrightarrow> Suc k < length (pkgs i) \<Longrightarrow>
      \<exists>s'. step s (pkgs i ! k) = Some ([], s') \<and> got i (Suc k) s' \<and>
        (\<forall>j m. compat i j \<longrightarrow> got j m s \<longrightarrow> got j m s')"
    and last_step: "ok i \<Longrightarrow> got i k s \<Longrightarrow> Suc k = length (pkgs i) \<Longrightarrow>
      \<exists>s'. step s (pkgs i ! k) = Some (out i, s') \<and>
        (\<forall>j m. compat i j \<longrightarrow> got j m s \<longrightarrow> got j m s')"
begin

text \<open>Every message is given out once, in the order of the last packages.\<close>

lemma interleaved_from:
  assumes "\<And>i. i < n \<Longrightarrow> ok (f i)"
    and "\<And>i j. i < n \<Longrightarrow> j < n \<Longrightarrow> i \<noteq> j \<Longrightarrow> compat (f i) (f j)"
    and "\<And>i. i < n \<Longrightarrow> pos i < length (pkgs (f i)) \<Longrightarrow> got (f i) (pos i) s"
    and "fst ` set tr \<subseteq> {..<n}"
    and "\<And>i. i < n \<Longrightarrow> map snd (filter (\<lambda>x. fst x = i) tr) = drop (pos i) (pkgs (f i))"
  shows "\<exists>s'. run_packages step s (map snd tr) = Some (concat (map (\<lambda>i. out (f i)) (remdups (map fst tr))), s')"
  using assms(3-)
proof (induction tr arbitrary: s pos)
  case (Cons x tr)
  obtain i p where x: "x = (i, p)" by fastforce
  have i: "i < n" using Cons.prems(2) x by simp
  have "drop (pos i) (pkgs (f i)) = p # map snd (filter (\<lambda>x. fst x = i) tr)"
    using Cons.prems(3) [OF i] x by simp
  then have pos: "pos i < length (pkgs (f i))" "p = pkgs (f i) ! pos i"
    and rest: "drop (Suc (pos i)) (pkgs (f i)) = map snd (filter (\<lambda>x. fst x = i) tr)"
    by (metis drop_all list.distinct(1) linorder_not_less, metis nth_via_drop, metis drop_Suc list.sel(3) tl_drop)
  have mem: "i \<in> fst ` set tr \<longleftrightarrow> Suc (pos i) < length (pkgs (f i))"
  proof -
    have "i \<in> fst ` set tr \<longleftrightarrow> map snd (filter (\<lambda>x. fst x = i) tr) \<noteq> []"
      by (auto simp: filter_empty_conv)
    also have "\<dots> \<longleftrightarrow> Suc (pos i) < length (pkgs (f i))"
      unfolding rest [symmetric] by auto
    finally show ?thesis .
  qed
  have got: "got (f i) (pos i) s"
    using Cons.prems(1) [OF i pos(1)] .
  have "\<exists>s1. step s p = Some (if i \<in> fst ` set tr then [] else out (f i), s1) \<and>
      (i \<in> fst ` set tr \<longrightarrow> got (f i) (Suc (pos i)) s1) \<and> (\<forall>j m. compat (f i) j \<longrightarrow> got j m s \<longrightarrow> got j m s1)"
  proof (cases "Suc (pos i) < length (pkgs (f i))")
    case True
    then show ?thesis using part_step [OF assms(1) [OF i] got True] mem pos(2) by simp
  next
    case False
    then have "Suc (pos i) = length (pkgs (f i))" using pos(1) by simp
    with False show ?thesis using last_step [OF assms(1) [OF i] got] mem pos(2) by simp
  qed
  then obtain s1 where s1: "step s p = Some (if i \<in> fst ` set tr then [] else out (f i), s1)"
    "i \<in> fst ` set tr \<Longrightarrow> got (f i) (Suc (pos i)) s1" "\<And>j m. compat (f i) j \<Longrightarrow> got j m s \<Longrightarrow> got j m s1"
    by blast
  have "\<exists>s'. run_packages step s1 (map snd tr) = Some (concat (map (\<lambda>i. out (f i)) (remdups (map fst tr))), s')"
  proof (rule Cons.IH [of "pos(i := Suc (pos i))"])
    fix j
    assume j: "j < n"
    show "got (f j) ((pos(i := Suc (pos i))) j) s1" if "(pos(i := Suc (pos i))) j < length (pkgs (f j))"
      using that s1 mem j i assms(2) Cons.prems(1) by (cases "j = i") auto
    show "map snd (filter (\<lambda>x. fst x = j) tr) = drop ((pos(i := Suc (pos i))) j) (pkgs (f j))"
      using rest Cons.prems(3) [OF j] x by (cases "j = i") auto
  qed (use Cons.prems(2) in auto)
  then show ?case
    using s1(1) x by auto
qed simp

lemma interleaved:
  assumes "interleaving (map pkgs is) tr"
    and "\<And>i. i \<in> set is \<Longrightarrow> ok i \<and> got i 0 s"
    and "\<And>i j. i < length is \<Longrightarrow> j < length is \<Longrightarrow> i \<noteq> j \<Longrightarrow> compat (is ! i) (is ! j)"
  shows "\<exists>s'. run_packages step s (map snd tr) = Some (concat (map (\<lambda>i. out (is ! i)) (remdups (map fst tr))), s')"
  using assms by (intro interleaved_from [of "length is" "(!) is" "\<lambda>_. 0"]) (auto simp: interleaving_def)

end

subsection \<open>Fields and frames\<close>

lemma ucast_and_ff: "(ucast (w AND 0xff) :: u8) = ucast w" for w :: u32
proof (rule bit_word_eqI)
  fix n
  have "bit (0xff :: u32) n \<longleftrightarrow> n < 8"
    using bit_mask_iff [of 8 n, where ?'a = "32 word"] by (auto simp: mask_eq_exp_minus_1)
  then show "n < LENGTH(8) \<Longrightarrow> bit (ucast (w AND 0xff) :: u8) n = bit (ucast w :: u8) n"
    by (simp add: bit_ucast_iff bit_and_iff)
qed

lemma fill_uint32_put: "fill_uint32 n = put32 n"
  by (simp add: fill_uint32_def put32_def ucast_and_ff)

lemma unpack_uint32_get: "unpack_uint32 buf i = (if i + 3 < length buf then Some (get32 buf i) else None)"
  by (simp add: unpack_uint32_def get32_def)

lemma get32_append: "i + 3 < length y \<Longrightarrow> get32 (x @ y) (length x + i) = get32 y i"
  by (simp add: get32_def nth_append)

lemma unpack_field: "i = length x \<Longrightarrow> unpack_uint32 (x @ put32 r @ y) i = Some r"
  using get32_append [of 0 "put32 r @ y" x] by (simp add: unpack_uint32_get)

lemma unpack_fields:
  "unpack_uint32 (put32 a @ s) 0 = Some a"
  "unpack_uint32 (t # put32 a @ s) (Suc 0) = Some a"
  "unpack_uint32 (t # put32 a @ put32 b @ s) 5 = Some b"
  "unpack_uint32 (t # put32 a @ put32 b @ put32 c) 9 = Some c"
  "unpack_uint32 (put32 a @ t # put32 b) 5 = Some b"
  using unpack_field [of 0 "[]" a s] unpack_field [of 1 "[t]" a s] unpack_field [of 5 "t # put32 a" b s]
    unpack_field [of 9 "t # put32 a @ put32 b" c "[]"] unpack_field [of 5 "put32 a @ [t]" b "[]"]
  by simp_all

lemma unpack_named:
  assumes "n = length name"
  shows "unpack_uint32 (t # l # name @ put32 a @ s) (n + 2) = Some a"
    and "unpack_uint32 (t # l # name @ put32 a @ put32 b) (n + 6) = Some b"
  using unpack_field [of "n + 2" "t # l # name" a s] unpack_field [of "n + 6" "t # l # name @ put32 a" b "[]"] assms
  by simp_all

lemma fill_package_frame:
  assumes "sz = length c" "length c + 2 \<le> TEMP_LENGTH"
  shows "fill_package sz c = l_pack c"
  using assms
  by (simp add: fill_package_def fill_header_def l_pack_eq TEMP_LENGTH_def drop_bit_eq_div and_size_mask [of 256 8, simplified])

subsection \<open>Parts\<close>

function chunks :: "bytes \<Rightarrow> bytes list" where
  "chunks m = (if length m \<le> MULTI_PART then [m] else take MULTI_PART m # chunks (drop MULTI_PART m))"
  by pat_completeness auto
termination
  by (relation "measure length") (auto simp: MULTI_PART_def)

declare chunks.simps [simp del]

lemma concat_chunks [simp]: "concat (chunks m) = m"
  by (induction m rule: chunks.induct) (subst chunks.simps, auto)

lemma chunks_not_Nil [simp]: "chunks m \<noteq> []" "length (chunks m) \<noteq> 0" "0 < length (chunks m)"
  by (subst chunks.simps, simp)+

lemma chunks_length: "m \<noteq> [] \<Longrightarrow> length (chunks m) = (length m - 1) div MULTI_PART + 1"
proof (induction m rule: chunks.induct)
  case (1 m)
  show ?case
  proof (cases "length m \<le> MULTI_PART")
    case True
    then have "(length m - 1) div MULTI_PART = 0"
      using 1 by (auto simp: MULTI_PART_def)
    with True show ?thesis by (subst chunks.simps) simp
  next
    case False
    then have "(length m - 1) div MULTI_PART = Suc ((length (drop MULTI_PART m) - 1) div MULTI_PART)"
      by (simp add: MULTI_PART_def le_div_geq)
    with False 1 show ?thesis by (subst chunks.simps) simp
  qed
qed

lemma chunks_short: "c \<in> set (chunks m) \<Longrightarrow> length c \<le> MULTI_PART"
proof (induction m rule: chunks.induct)
  case (1 m)
  then show ?case
    by (subst (asm) (2) chunks.simps) (auto split: if_splits)
qed

text \<open>The packages of the parts; the last one is marked.\<close>

fun mark_parts :: "(bool \<Rightarrow> bytes \<Rightarrow> 'p) \<Rightarrow> bytes list \<Rightarrow> 'p list" where
  "mark_parts f [] = []"
| "mark_parts f (c # cs) = f (cs = []) c # mark_parts f cs"

lemma mark_parts_length [simp]: "length (mark_parts f cs) = length cs"
  by (induction cs) simp_all

lemma mark_parts_nth: "k < length cs \<Longrightarrow> mark_parts f cs ! k = f (Suc k = length cs) (cs ! k)"
  by (induction cs arbitrary: k) (auto simp: nth_Cons split: nat.split)

definition request_part :: "u32 \<Rightarrow> bool \<Rightarrow> bytes \<Rightarrow> bytes" where
  "request_part s fin c = (if fin then 3 else 2) # put32 s @ c"

definition response_part :: "u32 \<Rightarrow> bool \<Rightarrow> bytes \<Rightarrow> bytes" where
  "response_part s fin c = put32 s @ (if fin then 4 else 3) # c"

lemma multi_parts_chunks:
  "multi_parts (length (chunks m)) s m = those (map l_pack (mark_parts (request_part s) (chunks m)))"
proof (induction m rule: chunks.induct)
  case (1 m)
  show ?case
  proof (cases "length m \<le> MULTI_PART")
    case True
    then show ?thesis
      by (subst (1 2) chunks.simps)
        (simp add: request_part_def fill_uint32_put fill_package_frame TEMP_LENGTH_def MULTI_PART_def split: option.splits)
  next
    case False
    then have "fill_package (MULTI_PART + 5) (2 # put32 s @ take MULTI_PART m) = l_pack (request_part s False (take MULTI_PART m))"
      by (simp add: request_part_def fill_package_frame TEMP_LENGTH_def MULTI_PART_def)
    with False 1 show ?thesis
      by (subst (1 2) chunks.simps) (auto simp: fill_uint32_put Let_def split: option.splits bind_splits)
  qed
qed

lemma response_parts_chunks:
  "response_parts (length (chunks m)) s m = those (map l_pack (mark_parts (response_part s) (chunks m)))"
proof (induction m rule: chunks.induct)
  case (1 m)
  show ?case
  proof (cases "length m \<le> MULTI_PART")
    case True
    then show ?thesis
      by (subst (1 2) chunks.simps)
        (simp add: response_part_def fill_uint32_put fill_package_frame TEMP_LENGTH_def MULTI_PART_def split: option.splits)
  next
    case False
    then have "fill_package (MULTI_PART + 5) (put32 s @ 3 # take MULTI_PART m) = l_pack (response_part s False (take MULTI_PART m))"
      by (simp add: response_part_def fill_package_frame TEMP_LENGTH_def MULTI_PART_def)
    with False 1 show ?thesis
      by (subst (1 2) chunks.simps) (auto simp: fill_uint32_put Let_def split: option.splits bind_splits)
  qed
qed

lemma concat_loop_parts:
  "length buff + length (concat cs) = sz \<Longrightarrow> concat_loop sz buff (map ITEM_PART cs) = Some (buff @ concat cs)"
  by (induction cs arbitrary: buff) auto

lemma sint_small: "n < 2 ^ 31 \<Longrightarrow> sint (of_nat n :: u32) = int n"
  using signed_take_bit_int_eq_self [of 31 "int n"] by (simp add: signed_of_nat)

lemma l_concat_chunks:
  assumes "length m < 2 ^ 31"
  shows "l_concat (ITEM_SIZE (of_nat (length m)) # map ITEM_PART (chunks m)) = Some (Some m)"
proof -
  have "unat (of_nat (length m) :: u32) = length m"
    using assms by (simp add: unat_of_nat)
  moreover have "\<not> sint (of_nat (length m) :: u32) < 0"
    using assms by (simp add: sint_small)
  ultimately show ?thesis
    using concat_loop_parts [of "[]" "chunks m"] by (simp add: l_concat_def)
qed

end
