(* ===== verification/Cluster_Correct.thy ===== *)
theory Cluster_Correct
  imports Cluster_Parts
begin

text \<open>
  The theorems on requests and responses between nodes: senders and receivers composed through the
  framing of the stream, for all interleavings of packages that the two priorities of a socket allow.
\<close>

subsection \<open>Frames\<close>

lemma frame_drop: "l_pack c = Some p \<Longrightarrow> drop 2 p = c"
  by (auto simp: l_pack_eq split: if_splits)

lemma those_frames:
  "those (map l_pack bs) = Some ps \<Longrightarrow> map (drop 2) ps = bs \<and> (\<forall>p\<in>set ps. l_pack (drop 2 p) = Some p)"
proof (induction bs arbitrary: ps)
  case (Cons c bs)
  then obtain p qs where "l_pack c = Some p" "ps = p # qs" "those (map l_pack bs) = Some qs"
    by (auto split: option.splits)
  with Cons.IH [of qs] frame_drop [of c p] show ?case by simp
qed simp

lemma split_all_frames:
  assumes "\<forall>p\<in>set ps. l_pack (drop 2 p) = Some p"
  shows "fst (split_frames (concat ps)) = map (drop 2) ps"
proof -
  from assms have "those (map l_pack (map (drop 2) ps)) = Some ps"
    by (induction ps) simp_all
  from split_frames_packed [OF this, of "[]"] show ?thesis
    by (simp add: split_frames_short)
qed

lemma interleaving_frames:
  assumes "list_all2 (\<lambda>bs ps. those (map l_pack bs) = Some ps) bss pss" "interleaving pss tr"
  shows "interleaving bss (map (apsnd (drop 2)) tr)"
    and "fst (split_frames (concat (map snd tr))) = map snd (map (apsnd (drop 2)) tr)"
proof -
  have len: "length bss = length pss"
    using assms(1) by (rule list_all2_lengthD)
  have proj: "map snd (filter (\<lambda>x. fst x = i) tr) = pss ! i" if "i < length pss" for i
    using assms(2) that by (simp add: interleaving_def)
  have frames: "map (drop 2) (pss ! i) = bss ! i \<and> (\<forall>p\<in>set (pss ! i). l_pack (drop 2 p) = Some p)" if "i < length pss" for i
    using assms(1) that len by (intro those_frames) (auto dest: list_all2_nthD)
  have "map snd (filter (\<lambda>x. fst x = i) (map (apsnd (drop 2)) tr)) = map (drop 2) (map snd (filter (\<lambda>x. fst x = i) tr))" for i
    by (simp add: filter_map o_def)
  then have "map snd (filter (\<lambda>x. fst x = i) (map (apsnd (drop 2)) tr)) = bss ! i" if "i < length pss" for i
    using proj [OF that] frames [OF that] by (simp only:)
  then show "interleaving bss (map (apsnd (drop 2)) tr)"
    using assms(2) len by (auto simp: interleaving_def)
  have "l_pack (drop 2 (snd x)) = Some (snd x)" if "x \<in> set tr" for x
  proof -
    have i: "fst x < length pss"
      using assms(2) that by (auto simp: interleaving_def)
    have "snd x \<in> set (map snd (filter (\<lambda>y. fst y = fst x) tr))"
      using that by auto
    then show ?thesis
      using frames [OF i] unfolding proj [OF i] by blast
  qed
  then show "fst (split_frames (concat (map snd tr))) = map snd (map (apsnd (drop 2)) tr)"
    by (subst split_all_frames) auto
qed

lemma map_fst_apsnd: "map fst (map (apsnd f) tr) = map fst tr"
  by (simp add: o_def)

subsection \<open>Requests\<close>

text \<open>A request: address, session on the wire, message and push.\<close>

type_synonym request = "cluster_address \<times> u32 \<times> bytes \<times> bool"

fun address_ok :: "cluster_address \<Rightarrow> bool" where
  "address_ok (CA_NUMBER a) \<longleftrightarrow> True"
| "address_ok (CA_NAME name) \<longleftrightarrow> 1 \<le> length name \<and> length name \<le> 255"

fun request_ok :: "request \<Rightarrow> bool" where
  "request_ok (a, s, m, p) \<longleftrightarrow> address_ok a \<and> length m < 2 ^ 31 \<and> (s = 0 \<longleftrightarrow> length m < MULTI_PART \<and> p)"

text \<open>The packages of a request, without their headers.\<close>

fun small_request :: "cluster_address \<Rightarrow> u32 \<Rightarrow> bytes \<Rightarrow> bytes" where
  "small_request (CA_NUMBER a) s m = 0 # put32 a @ put32 s @ m"
| "small_request (CA_NAME name) s m = 0x80 # of_nat (length name) # name @ put32 s @ m"

fun large_head :: "cluster_address \<Rightarrow> u32 \<Rightarrow> u32 \<Rightarrow> bool \<Rightarrow> bytes" where
  "large_head (CA_NUMBER a) s n p = (if p then 0x41 else 1) # put32 a @ put32 s @ put32 n"
| "large_head (CA_NAME name) s n p = (if p then 0xc1 else 0x81) # of_nat (length name) # name @ put32 s @ put32 n"

fun request_bodies :: "request \<Rightarrow> bytes list" where
  "request_bodies (a, s, m, p) =
     (if length m < MULTI_PART then [small_request a s m]
      else large_head a s (of_nat (length m)) p # mark_parts (request_part s) (chunks m))"

fun request_out :: "request \<Rightarrow> agent_event list" where
  "request_out (a, s, m, p) = [SERVE (Some a) s m p]"

text \<open>The state of the agent when it has got the first \<open>k\<close> packages.\<close>

fun request_got :: "request \<Rightarrow> nat \<Rightarrow> agent \<Rightarrow> bool" where
  "request_got (a, s, m, p) k ag \<longleftrightarrow>
     ag s = (if k = 0 then None
             else Some \<lparr>lr_addr = Some a, lr_push = p,
                        lr_items = ITEM_SIZE (of_nat (length m)) # map ITEM_PART (take (k - 1) (chunks m))\<rparr>)"

fun request_compat :: "request \<Rightarrow> request \<Rightarrow> bool" where
  "request_compat (a, s, m, p) (a', s', m', p') \<longleftrightarrow> s \<noteq> s' \<or> s = 0"

lemma unat_name_length: "length name \<le> 255 \<Longrightarrow> unat (of_nat (length name) :: u8) = length name"
  by (simp add: unat_of_nat)

lemma drop_named: "drop (6 + length name) (t # l # name @ put32 s @ m) = m"
proof -
  have "drop (length (t # l # name @ put32 s)) ((t # l # name @ put32 s) @ m) = m"
    by (simp only: drop_append drop_all diff_self_eq_0 drop0 order_refl append_Nil)
  then show ?thesis by simp
qed

lemma unpack_small:
  assumes "address_ok a"
  shows "l_unpackrequest (small_request a s m) = Some (Inr (UNPACKED (Some a) s (Some m) (of_nat (length m)) False (s = 0)))"
proof (cases a)
  case (CA_NUMBER n)
  then show ?thesis
    by (simp add: l_unpackrequest_def unpackreq_number_def unpack_fields return_buffer_def drop_append)
next
  case (CA_NAME name)
  then show ?thesis
    using assms unpack_named [of "length name" name]
    by (simp add: l_unpackrequest_def unpackreq_string_def unat_name_length Let_def return_buffer_def drop_named)
qed

lemma unpack_head:
  assumes "address_ok a"
  shows "l_unpackrequest (large_head a s n p) = Some (Inr (UNPACKED (Some a) s None n True p))"
proof (cases a)
  case (CA_NUMBER n)
  then show ?thesis
    by (simp add: l_unpackrequest_def unpackmreq_number_def unpack_fields)
next
  case (CA_NAME name)
  then show ?thesis
    using assms unpack_named [of "length name" name]
    by (simp add: l_unpackrequest_def unpackmreq_string_def unat_name_length Let_def)
qed

lemma unpack_part:
  "l_unpackrequest (request_part s fin c) = Some (Inr (UNPACKED None s (Some c) (of_nat (length c)) (\<not> fin) False))"
  by (simp add: request_part_def l_unpackrequest_def unpackmreq_part_def unpack_fields return_buffer_def)

lemma take_own_size: "length m < 2 ^ 32 \<Longrightarrow> take (unat (of_nat (length m) :: u32)) m = m"
  by (simp add: unat_of_nat)

lemma chunk_own_size: "k < length (chunks m) \<Longrightarrow> take (unat (of_nat (length (chunks m ! k)) :: u32)) (chunks m ! k) = chunks m ! k"
  using chunks_short [of "chunks m ! k" m] by (intro take_own_size) (simp add: MULTI_PART_def)

lemma request_single:
  assumes "request_ok (a, s, m, p)" "length m < MULTI_PART" "ag s = None"
  shows "agent_step ag (small_request a s m) = Some ([SERVE (Some a) s m p], ag)"
proof -
  have "take (unat (of_nat (length m) :: u32)) m = m"
    using assms(2) by (intro take_own_size) (simp add: MULTI_PART_def)
  then show ?thesis
    using assms by (auto simp: agent_step_def unpack_small dispatch_request_def)
qed

lemma request_head:
  assumes "request_ok (a, s, m, p)" "ag s = None"
  shows "agent_step ag (large_head a s (of_nat (length m)) p)
    = Some ([], ag(s \<mapsto> \<lparr>lr_addr = Some a, lr_push = p, lr_items = [ITEM_SIZE (of_nat (length m))]\<rparr>))"
  using assms by (simp add: agent_step_def unpack_head dispatch_request_def l_append_def)

lemma take_Suc_items: "k < length cs \<Longrightarrow> map ITEM_PART (take k cs) @ [ITEM_PART (cs ! k)] = map ITEM_PART (take (Suc k) cs)"
  by (simp add: take_Suc_conv_app_nth)

lemma all_items:
  assumes "Suc k = length cs"
  shows "map ITEM_PART (take k cs) @ [ITEM_PART (cs ! k)] = map ITEM_PART cs"
proof -
  have "k < length cs" using assms by simp
  then show ?thesis
    unfolding take_Suc_items [OF \<open>k < length cs\<close>] unfolding assms by simp
qed

lemma request_middle:
  assumes "request_got (a, s, m, p) (Suc k) ag" "Suc k < length (chunks m)"
  shows "agent_step ag (mark_parts (request_part s) (chunks m) ! k)
    = Some ([], ag(s \<mapsto> \<lparr>lr_addr = Some a, lr_push = p,
        lr_items = ITEM_SIZE (of_nat (length m)) # map ITEM_PART (take (Suc k) (chunks m))\<rparr>))"
  using assms
  by (simp add: agent_step_def mark_parts_nth unpack_part dispatch_request_def l_append_def chunk_own_size take_Suc_items)

lemma request_end:
  assumes "request_ok (a, s, m, p)" "request_got (a, s, m, p) (Suc k) ag" "Suc k = length (chunks m)"
  shows "agent_step ag (mark_parts (request_part s) (chunks m) ! k) = Some ([SERVE (Some a) s m p], ag(s := None))"
proof -
  have k: "k < length (chunks m)" using assms(3) by simp
  note all_items [OF assms(3)]
  moreover have "ag s = Some \<lparr>lr_addr = Some a, lr_push = p,
      lr_items = ITEM_SIZE (of_nat (length m)) # map ITEM_PART (take k (chunks m))\<rparr>"
    using assms(2) by simp
  ultimately show ?thesis
    using assms(1) l_concat_chunks [of m] k assms(3)
    by (simp add: agent_step_def mark_parts_nth unpack_part dispatch_request_def l_append_def chunk_own_size)
qed

interpretation agent: reassembly agent_step request_bodies request_out request_got request_compat request_ok
proof (unfold_locales, goal_cases)
  case (1 i k ag)
  obtain a s m p where i: "i = (a, s, m, p)" by (cases i) auto
  from 1 i have large: "\<not> length m < MULTI_PART" by (auto split: if_splits)
  then have s: "s \<noteq> 0" using 1 i by auto
  show ?case
  proof (cases k)
    case 0
    then show ?thesis using 1 large s request_head [of a s m p ag] by (auto simp: i)
  next
    case (Suc n)
    then show ?thesis using 1 large s request_middle [of a s m p n ag] by (auto simp: i)
  qed
next
  case (2 i k ag)
  obtain a s m p where i: "i = (a, s, m, p)" by (cases i) auto
  show ?case
  proof (cases "length m < MULTI_PART")
    case True
    then show ?thesis using 2 request_single [of a s m p ag] by (auto simp: i)
  next
    case False
    then have s: "s \<noteq> 0" using 2 i by auto
    obtain n where n: "k = Suc n" using 2 False i by (cases k) auto
    have "agent_step ag (mark_parts (request_part s) (chunks m) ! n) = Some ([SERVE (Some a) s m p], ag(s := None))"
    proof (rule request_end)
      show "Suc n = length (chunks m)" using 2(3) False i n by simp
    qed (use 2 i n in simp_all)
    then show ?thesis using False s n by (auto simp: i)
  qed
qed

subsection \<open>The sender\<close>

fun address_valid :: "lua_address \<Rightarrow> bool" where
  "address_valid (ADDR_NUMBER n) \<longleftrightarrow> True"
| "address_valid (ADDR_STRING name) \<longleftrightarrow> 1 \<le> length name \<and> length name \<le> 255"
| "address_valid ADDR_OTHER \<longleftrightarrow> False"

fun command_ok :: "cluster_command \<Rightarrow> bool" where
  "command_ok (REQ a m) \<longleftrightarrow> address_valid a \<and> length m < 2 ^ 31"
| "command_ok (PUSH a m) \<longleftrightarrow> address_valid a \<and> length m < 2 ^ 31"

fun address_of :: "lua_address \<Rightarrow> cluster_address" where
  "address_of (ADDR_NUMBER n) = CA_NUMBER (ucast n)"
| "address_of (ADDR_STRING name) = CA_NAME name"
| "address_of ADDR_OTHER = CA_NAME []"

definition next_session :: "u32 \<Rightarrow> u32" where
  "next_session s = (if s + 1 > 0x7FFFFFFF then 1 else s + 1)"

text \<open>What a command is on the wire, and the sessions that follow.\<close>

fun request_of :: "u32 \<Rightarrow> cluster_command \<Rightarrow> request" where
  "request_of s (REQ a m) = (address_of a, s, m, False)"
| "request_of s (PUSH a m) = (address_of a, if length m < MULTI_PART then 0 else s, m, True)"

fun session_after :: "u32 \<Rightarrow> cluster_command \<Rightarrow> u32" where
  "session_after s (REQ a m) = next_session s"
| "session_after s (PUSH a m) = (if length m < MULTI_PART then s else next_session s)"

fun requests_of :: "u32 \<Rightarrow> cluster_command list \<Rightarrow> request list" where
  "requests_of s [] = []"
| "requests_of s (c # cs) = request_of s c # requests_of (session_after s c) cs"

lemma requests_length [simp]: "length (requests_of s cs) = length cs"
  by (induction cs arbitrary: s) simp_all

definition session_ok :: "u32 \<Rightarrow> bool" where
  "session_ok s \<longleftrightarrow> 0 < unat s \<and> unat s \<le> 0x7FFFFFFF"

lemma unat_next: "session_ok s \<Longrightarrow> unat (next_session s) = (unat s - 1 + 1) mod 0x7FFFFFFF + 1"
proof -
  assume s: "session_ok s"
  have u: "unat (s + 1) = unat s + 1"
    using s by (simp add: session_ok_def unat_word_ariths)
  show ?thesis
  proof (cases "unat s = 0x7FFFFFFF")
    case True
    then show ?thesis using u by (simp add: next_session_def word_less_nat_alt)
  next
    case False
    then show ?thesis using u s by (simp add: next_session_def word_less_nat_alt session_ok_def)
  qed
qed

lemma next_session_ok: "session_ok s \<Longrightarrow> session_ok (next_session s)"
proof -
  assume "session_ok s"
  then have n: "unat (next_session s) = (unat s - 1 + 1) mod 0x7FFFFFFF + 1" by (rule unat_next)
  have "n mod 0x7FFFFFFF < 0x7FFFFFFF" for n :: nat by simp
  from this [of "unat s - 1 + 1"] show ?thesis
    unfolding session_ok_def n by linarith
qed

lemma session_positive: "session_ok s \<Longrightarrow> 0 < sint s \<and> s \<noteq> 0"
proof -
  assume s: "session_ok s"
  have "sint (of_nat (unat s) :: u32) = int (unat s)"
    by (rule sint_small) (use s in \<open>simp add: session_ok_def\<close>)
  moreover have "0 < int (unat s)"
    using s by (simp add: session_ok_def del: of_nat_unat)
  ultimately show ?thesis
    using s by (auto simp: session_ok_def)
qed

lemma those_packs: "\<forall>c\<in>set bs. length c < 65536 \<Longrightarrow> \<exists>ps. those (map l_pack bs) = Some ps"
  by (induction bs) (auto simp: l_pack_eq)

lemma parts_packs:
  assumes "\<And>fin c. length (f fin c) = length c + 5"
  shows "\<exists>ps. those (map l_pack (mark_parts f (chunks m))) = Some ps"
proof (rule those_packs, rule ballI)
  fix c
  assume "c \<in> set (mark_parts f (chunks m))"
  then obtain k where "k < length (chunks m)" "c = f (Suc k = length (chunks m)) (chunks m ! k)"
    by (auto simp: in_set_conv_nth mark_parts_nth)
  then show "length c < 65536"
    using chunks_short [of "chunks m ! k" m] by (simp add: assms MULTI_PART_def)
qed

lemma address_of_ok: "address_valid a \<Longrightarrow> address_ok (address_of a)"
  by (cases a) simp_all

lemma packreq_small:
  assumes "address_valid a" "length m < MULTI_PART"
  shows "\<exists>b. l_pack (small_request (address_of a) (if p then 0 else s) m) = Some b \<and>
    (case a of ADDR_NUMBER n \<Rightarrow> do { (b, k) \<leftarrow> packreq_number n s m p; Some (Inr (b, k)) }
     | _ \<Rightarrow> packreq_string a s m p) = Some (Inr (b, 0))"
  using assms
  by (cases a) (auto simp: packreq_number_def packreq_string_def fill_uint32_put fill_package_frame l_pack_eq
      MULTI_PART_def TEMP_LENGTH_def Let_def)

lemma packreq_large:
  assumes "address_valid a" "\<not> length m < MULTI_PART"
  shows "\<exists>b. l_pack (large_head (address_of a) s (of_nat (length m)) p) = Some b \<and>
    (case a of ADDR_NUMBER n \<Rightarrow> do { (b, k) \<leftarrow> packreq_number n s m p; Some (Inr (b, k)) }
     | _ \<Rightarrow> packreq_string a s m p) = Some (Inr (b, length (chunks m)))"
proof -
  have "length (chunks m) = (length m - 1) div MULTI_PART + 1"
    using assms(2) by (intro chunks_length) (auto simp: MULTI_PART_def)
  then show ?thesis
    using assms
    by (cases a) (auto simp: packreq_number_def packreq_string_def fill_uint32_put fill_package_frame l_pack_eq
        TEMP_LENGTH_def Let_def)
qed

lemma packrequest_correct:
  assumes "address_valid a" "length m < 2 ^ 31" "session_ok s"
  shows "\<exists>b ps. packrequest a (ucast s) (Some m) p = Some (Inr (b, next_session s, ps)) \<and>
    those (map l_pack (request_bodies (address_of a, if length m < MULTI_PART \<and> p then 0 else s, m, p))) = Some (b # ps) \<and>
    (ps = [] \<longleftrightarrow> length m < MULTI_PART)"
proof -
  have m: "take (unat (of_nat (length m) :: u32)) m = m"
    using assms(2) by (intro take_own_size) simp
  have s: "\<not> sint s \<le> 0" "(ucast (ucast s :: u64) :: u32) = s"
    using session_positive [OF assms(3)] by (auto intro!: bit_word_eqI simp: bit_ucast_iff)
  show ?thesis
  proof (cases "length m < MULTI_PART")
    case True
    from packreq_small [OF assms(1) this, of p s] True m s show ?thesis
      by (auto simp: packrequest_def Let_def next_session_def)
  next
    case False
    obtain ps where ps: "those (map l_pack (mark_parts (request_part s) (chunks m))) = Some ps"
      using parts_packs [of "request_part s" m] by (auto simp: request_part_def)
    have n: "(length m - 1) div MULTI_PART + 1 = length (chunks m)"
      using False by (intro chunks_length [symmetric]) (auto simp: MULTI_PART_def)
    have "length ps = length (chunks m)"
      using those_frames [OF ps] by (metis length_map mark_parts_length)
    then have "ps \<noteq> []" by auto
    moreover have "packreq_multi s m = Some ps"
      by (simp only: packreq_multi_def n multi_parts_chunks ps)
    ultimately show ?thesis
      using packreq_large [OF assms(1) False, of s p] False m s ps
      by (auto simp: packrequest_def Let_def next_session_def)
  qed
qed

lemma send_command_correct:
  assumes "command_ok c" "session_ok s"
  shows "\<exists>ps. send_command s c = Some (ps, session_after s c) \<and> those (map l_pack (request_bodies (request_of s c))) = Some ps"
proof (cases c)
  case (REQ a m)
  then show ?thesis
    using packrequest_correct [of a m s False] assms by (auto simp: send_command_def l_packrequest_def)
next
  case (PUSH a m)
  then show ?thesis
    using packrequest_correct [of a m s True] assms by (auto simp: send_command_def l_packpush_def)
qed

lemma session_after_ok: "session_ok s \<Longrightarrow> session_ok (session_after s c)"
  by (cases c) (simp_all add: next_session_ok)

lemma send_commands_correct:
  assumes "list_all command_ok cs" "session_ok s"
  shows "\<exists>pss s'. send_commands s cs = Some (pss, s') \<and>
    list_all2 (\<lambda>bs ps. those (map l_pack bs) = Some ps) (map request_bodies (requests_of s cs)) pss"
  using assms
proof (induction cs arbitrary: s)
  case (Cons c cs)
  then obtain ps where ps: "send_command s c = Some (ps, session_after s c)"
    "those (map l_pack (request_bodies (request_of s c))) = Some ps"
    using send_command_correct [of c s] by auto
  then show ?case
    using Cons.IH [of "session_after s c"] Cons.prems session_after_ok [of s c] by fastforce
qed simp

lemma requests_ok: "list_all command_ok cs \<Longrightarrow> session_ok s \<Longrightarrow> list_all request_ok (requests_of s cs)"
proof (induction cs arbitrary: s)
  case (Cons c cs)
  then have "request_ok (request_of s c)"
    using address_of_ok session_positive [of s] by (cases c) auto
  with Cons session_after_ok [of s c] show ?case by simp
qed simp

text \<open>Sessions are given out in a cycle of \<open>2 ^ 31 - 1\<close> values.\<close>

definition cycle_session :: "nat \<Rightarrow> nat \<Rightarrow> u32" where
  "cycle_session u k = of_nat ((u + k) mod 0x7FFFFFFF + 1)"

lemma cycle_next: "cycle_session ((u + 1) mod 0x7FFFFFFF) k = cycle_session u (Suc k)"
proof -
  have "((u + 1) mod M + k) mod M = (u + Suc k) mod M" for M :: nat
    by (simp add: mod_simps)
  then show ?thesis unfolding cycle_session_def by (simp only:)
qed

lemma cycle_first: "session_ok s \<Longrightarrow> cycle_session (unat s - 1) 0 = s"
proof -
  assume s: "session_ok s"
  then have "unat s - 1 < 0x7FFFFFFF"
    unfolding session_ok_def by linarith
  then have "(unat s - 1 + 0) mod 0x7FFFFFFF + 1 = unat s"
    using s by (simp add: session_ok_def)
  then show ?thesis
    unfolding cycle_session_def by (simp only:) simp
qed

lemma cycle_inj: "inj_on (cycle_session u) {..<0x7FFFFFFF}"
proof (rule inj_onI)
  fix a b :: nat
  assume ab: "a \<in> {..<0x7FFFFFFF}" "b \<in> {..<0x7FFFFFFF}" and eq: "cycle_session u a = cycle_session u b"
  have bound: "n mod 0x7FFFFFFF + 1 < 2 ^ 32" for n :: nat
    using mod_less_divisor [of "0x7FFFFFFF" n] by simp
  have "unat (of_nat n :: u32) = n" if "n < 2 ^ 32" for n
    using that by (simp add: unat_of_nat)
  then have un: "unat (cycle_session u k) = (u + k) mod 0x7FFFFFFF + 1" for k
    unfolding cycle_session_def using bound [of "u + k"] by blast
  have "(u + a) mod 0x7FFFFFFF + 1 = (u + b) mod 0x7FFFFFFF + 1"
    unfolding un [symmetric] eq ..
  then have eq': "(u + a) mod 0x7FFFFFFF = (u + b) mod 0x7FFFFFFF"
    by (simp only: add_right_cancel)
  have "a < 0x7FFFFFFF" "b < 0x7FFFFFFF"
    using ab by (simp_all only: lessThan_iff)
  from mod_add_inj [OF this eq'] show "a = b" .
qed

abbreviation request_session :: "request \<Rightarrow> u32" where
  "request_session r \<equiv> fst (snd r)"

lemma request_sessions:
  assumes "session_ok s"
  shows "\<exists>n\<le>length cs. filter (\<lambda>x. x \<noteq> 0) (map request_session (requests_of s cs)) = map (cycle_session (unat s - 1)) [0..<n]"
  using assms
proof (induction cs arbitrary: s)
  case (Cons c cs)
  let ?r = "request_session (request_of s c)"
  have s: "s \<noteq> 0" using session_positive [OF Cons.prems] by blast
  show ?case
  proof (cases "?r = 0")
    case True
    then have "session_after s c = s" using s by (cases c) (auto split: if_splits)
    with True Cons.IH [OF Cons.prems] show ?thesis by (auto intro: le_SucI)
  next
    case False
    then have r: "?r = s" "session_after s c = next_session s" by (cases c; auto split: if_splits)+
    obtain n where n: "n \<le> length cs" "filter (\<lambda>x. x \<noteq> 0) (map request_session (requests_of (next_session s) cs))
        = map (cycle_session (unat (next_session s) - 1)) [0..<n]"
      using Cons.IH [OF next_session_ok [OF Cons.prems]] by blast
    have "unat (next_session s) - 1 = (unat s - 1 + 1) mod 0x7FFFFFFF"
      using unat_next [OF Cons.prems] by simp
    then have "map (cycle_session (unat (next_session s) - 1)) [0..<n] = map (cycle_session (unat s - 1)) (map Suc [0..<n])"
      by (simp only: map_map) (rule map_cong [OF refl], simp only: cycle_next o_apply)
    then have "filter (\<lambda>x. x \<noteq> 0) (map request_session (requests_of s (c # cs))) = map (cycle_session (unat s - 1)) [0..<Suc n]"
      using n(2) r s cycle_first [OF Cons.prems] by (simp add: upt_conv_Cons map_Suc_upt del: upt_Suc)
    with n(1) show ?thesis by (intro exI [of _ "Suc n"]) simp
  qed
qed simp

lemma distinct_filter_nth:
  assumes "distinct (filter P xs)" "i < length xs" "j < length xs" "i \<noteq> j" "xs ! i = xs ! j"
  shows "\<not> P (xs ! i)"
proof
  assume P: "P (xs ! i)"
  have aux: False if "i < j" "j < length xs" "xs ! i = xs ! j" "P (xs ! i)" for i j
  proof -
    have "xs = take j xs @ xs ! j # drop (Suc j) xs"
      using that by (simp add: id_take_nth_drop)
    then have "distinct (filter P (take j xs) @ filter P (xs ! j # drop (Suc j) xs))"
      using assms(1) by (metis filter_append)
    moreover have "xs ! i \<in> set (take j xs)"
      using that by (auto simp: in_set_conv_nth)
    ultimately show False using that by auto
  qed
  show False
    using aux [of i j] aux [of j i] assms P by (metis linorder_neqE_nat)
qed

lemma requests_compat:
  assumes "session_ok s" "length cs \<le> 0x7FFFFFFF" "i < length cs" "j < length cs" "i \<noteq> j"
  shows "request_compat (requests_of s cs ! i) (requests_of s cs ! j)"
proof -
  obtain n where n: "n \<le> length cs"
    "filter (\<lambda>x. x \<noteq> 0) (map request_session (requests_of s cs)) = map (cycle_session (unat s - 1)) [0..<n]"
    using request_sessions [OF assms(1)] by blast
  have "inj_on (cycle_session (unat s - 1)) (set [0..<n])"
    by (rule inj_on_subset [OF cycle_inj]) (use n(1) assms(2) in auto)
  then have "distinct (filter (\<lambda>x. x \<noteq> 0) (map request_session (requests_of s cs)))"
    unfolding n(2) by (simp add: distinct_map)
  from distinct_filter_nth [OF this, of i j] assms show ?thesis
    by (cases "requests_of s cs ! i"; cases "requests_of s cs ! j") auto
qed

definition agent_run :: "agent \<Rightarrow> bytes \<Rightarrow> (agent_event list \<times> agent) option" where
  "agent_run ag stream = run_packages agent_step ag (fst (split_frames stream))"

text \<open>
  C9. Requests between nodes arrive complete, once and unmixed: the calls of a sender, requests and
  pushes to numbers and names, write packages whose parts may be interleaved arbitrarily with those of
  the other calls (long messages go with low priority); when the stream of packages is framed and
  given to the agent, it serves exactly these calls, each once, with its address, session, message and
  push flag, in the order of their last packages. Up to \<open>2 ^ 31 - 1\<close> calls may be under way, with the
  wrap of the session counter anywhere.
\<close>

theorem cluster_requests_arrive:
  assumes "list_all command_ok cs" "session_ok s" "length cs \<le> 0x7FFFFFFF"
  shows "\<exists>pss s'. send_commands s cs = Some (pss, s') \<and>
    (\<forall>tr. interleaving pss tr \<longrightarrow>
      (\<exists>ag. agent_run Map.empty (concat (map snd tr)) =
        Some (map (\<lambda>i. case requests_of s cs ! i of (a, n, m, p) \<Rightarrow> SERVE (Some a) n m p) (remdups (map fst tr)), ag)))"
proof -
  obtain pss s' where pss: "send_commands s cs = Some (pss, s')"
    "list_all2 (\<lambda>bs ps. those (map l_pack bs) = Some ps) (map request_bodies (requests_of s cs)) pss"
    using send_commands_correct [OF assms(1,2)] by blast
  have "\<exists>ag. agent_run Map.empty (concat (map snd tr)) =
      Some (map (\<lambda>i. case requests_of s cs ! i of (a, n, m, p) \<Rightarrow> SERVE (Some a) n m p) (remdups (map fst tr)), ag)"
    if "interleaving pss tr" for tr
  proof -
    note fr = interleaving_frames [OF pss(2) that]
    have "\<exists>ag. run_packages agent_step Map.empty (map snd (map (apsnd (drop 2)) tr)) =
        Some (concat (map (\<lambda>i. request_out (requests_of s cs ! i)) (remdups (map fst (map (apsnd (drop 2)) tr)))), ag)"
    proof (rule agent.interleaved [OF fr(1)])
      show "request_ok i \<and> request_got i 0 Map.empty" if "i \<in> set (requests_of s cs)" for i
        using requests_ok [OF assms(1,2)] that by (cases i) (auto simp: list_all_iff)
    qed (use requests_compat [OF assms(2,3)] in simp)
    moreover have "concat (map (\<lambda>i. request_out (requests_of s cs ! i)) is)
        = map (\<lambda>i. case requests_of s cs ! i of (a, n, m, p) \<Rightarrow> SERVE (Some a) n m p) is" for "is"
      by (induction "is") (auto split: prod.split)
    ultimately show ?thesis
      unfolding agent_run_def fr(2) by (simp only: map_fst_apsnd)
  qed
  with pss(1) show ?thesis by blast
qed

text \<open>The session counter at its end: a request, then a push that overtakes it.\<close>

theorem cluster_requests_arrive_witness:
  "\<exists>ag. agent_run Map.empty ([0, 10, 0x80, 1, 64, 0, 0, 0, 0, 7, 8, 9] @ [0, 11, 0, 5, 0, 0, 0, 0xff, 0xff, 0xff, 0x7f, 1, 2])
     = Some ([SERVE (Some (CA_NAME [64])) 0 [7, 8, 9] True, SERVE (Some (CA_NUMBER 5)) 0x7FFFFFFF [1, 2] False], ag)"
proof -
  let ?cs = "[REQ (ADDR_NUMBER 5) [1, 2], PUSH (ADDR_STRING [64]) [7, 8, 9]]"
  let ?r = "[0, 11, 0, 5, 0, 0, 0, 0xff, 0xff, 0xff, 0x7f, 1, 2] :: bytes"
  let ?p = "[0, 10, 0x80, 1, 64, 0, 0, 0, 0, 7, 8, 9] :: bytes"
  have send: "send_commands 0x7FFFFFFF ?cs = Some ([[?r], [?p]], 1)"
    by (simp add: send_command_def l_packrequest_def l_packpush_def packrequest_def packreq_number_def packreq_string_def
        fill_package_def fill_header_def fill_uint32_def MULTI_PART_def TEMP_LENGTH_def Let_def)
  have tr: "interleaving [[?r], [?p]] [(1, ?p), (0, ?r)]"
    by (auto simp: interleaving_def less_Suc_eq numeral_2_eq_2)
  have reqs: "requests_of 0x7FFFFFFF ?cs = [(CA_NUMBER 5, 0x7FFFFFFF, [1, 2], False), (CA_NAME [64], 0, [7, 8, 9], True)]"
    by (simp add: MULTI_PART_def)
  show ?thesis
    using cluster_requests_arrive [of ?cs "0x7FFFFFFF"] tr unfolding send reqs
    by (fastforce simp: session_ok_def)
qed

subsection \<open>Responses\<close>

text \<open>A response: session, waiting thread, success and message.\<close>

type_synonym response = "u32 \<times> nat \<times> bool \<times> bytes"

fun response_ok :: "response \<Rightarrow> bool" where
  "response_ok (s, t, ok, m) \<longleftrightarrow> length m < 2 ^ 31"

fun response_bodies :: "response \<Rightarrow> bytes list" where
  "response_bodies (s, t, ok, m) =
     (if ok \<and> length m > MULTI_PART
      then (put32 s @ 2 # put32 (of_nat (length m))) # mark_parts (response_part s) (chunks m)
      else [put32 s @ (if ok then 1 else 0) # take MULTI_PART m])"

text \<open>The answer to the caller; the text of an error is cut.\<close>

fun response_answer :: "response \<Rightarrow> nat \<times> cluster_answer" where
  "response_answer (s, t, ok, m) = (t, if ok then ANSWER m else FAILURE (take MULTI_PART m))"

fun response_got :: "response \<Rightarrow> nat \<Rightarrow> channel \<Rightarrow> bool" where
  "response_got (s, t, ok, m) k ch \<longleftrightarrow> ch_thread ch s = Some t \<and>
     ch_result ch t = (if k = 0 then None
       else Some (TABLE (ITEM_SIZE (of_nat (length m)) # map ITEM_PART (take (k - 1) (chunks m)))))"

fun response_compat :: "response \<Rightarrow> response \<Rightarrow> bool" where
  "response_compat (s, t, ok, m) (s', t', ok', m') \<longleftrightarrow> s \<noteq> s' \<and> t \<noteq> t'"

lemma nth_4: "(put32 s @ x # r) ! 4 = x"
  using nth_append_length [of "put32 s" x r] by simp

lemma unpack_response:
  "l_unpackresponse (put32 s @ (if ok then 1 else 0) # m) = Some (Some (s, ok, ITEM_PART m, False))"
  "l_unpackresponse (put32 s @ 2 # put32 n) = Some (Some (s, True, ITEM_SIZE n, True))"
  "l_unpackresponse (response_part s fin c) = Some (Some (s, True, ITEM_PART c, \<not> fin))"
  by (simp_all add: l_unpackresponse_def unpack_fields nth_4 response_part_def)

lemma response_single:
  assumes "ch_thread ch s = Some t" "ch_result ch t = None"
  shows "channel_step ch (put32 s @ (if ok then 1 else 0) # m) = Some ([(t, if ok then ANSWER m else FAILURE m)],
    ch\<lparr>ch_thread := (ch_thread ch)(s := None), ch_result := (ch_result ch)(t := None)\<rparr>)"
  using assms by (simp add: channel_step_def unpack_response dispatch_by_session_def request_answer_def)

lemma response_head:
  assumes "ch_thread ch s = Some t" "ch_result ch t = None"
  shows "channel_step ch (put32 s @ 2 # put32 n) = Some ([], ch\<lparr>ch_result := (ch_result ch)(t \<mapsto> TABLE [ITEM_SIZE n])\<rparr>)"
  using assms by (simp add: channel_step_def unpack_response dispatch_by_session_def)

lemma response_middle:
  assumes "response_got (s, t, ok, m) (Suc k) ch" "Suc k < length (chunks m)"
  shows "channel_step ch (mark_parts (response_part s) (chunks m) ! k) = Some ([], ch\<lparr>ch_result := (ch_result ch)(t \<mapsto>
    TABLE (ITEM_SIZE (of_nat (length m)) # map ITEM_PART (take (Suc k) (chunks m))))\<rparr>)"
  using assms by (simp add: channel_step_def mark_parts_nth unpack_response dispatch_by_session_def take_Suc_items)

lemma response_end:
  assumes "length m < 2 ^ 31" "response_got (s, t, ok, m) (Suc k) ch" "Suc k = length (chunks m)"
  shows "channel_step ch (mark_parts (response_part s) (chunks m) ! k) = Some ([(t, ANSWER m)],
    ch\<lparr>ch_thread := (ch_thread ch)(s := None), ch_result := (ch_result ch)(t := None)\<rparr>)"
proof -
  have k: "k < length (chunks m)" using assms(3) by simp
  have "ch_thread ch s = Some t"
    "ch_result ch t = Some (TABLE (ITEM_SIZE (of_nat (length m)) # map ITEM_PART (take k (chunks m))))"
    using assms(2) by simp_all
  then show ?thesis
    using l_concat_chunks [OF assms(1)] all_items [OF assms(3)] k assms(3)
    by (simp add: channel_step_def mark_parts_nth unpack_response dispatch_by_session_def request_answer_def)
qed

interpretation channel: reassembly channel_step response_bodies "\<lambda>r. [response_answer r]" response_got response_compat response_ok
proof (unfold_locales, goal_cases)
  case (1 i k ch)
  obtain s t ok m where i: "i = (s, t, ok, m)" by (cases i) auto
  from 1 i have large: "ok \<and> length m > MULTI_PART" by (auto split: if_splits)
  show ?case
  proof (cases k)
    case 0
    then show ?thesis using 1 large response_head [of ch s t "of_nat (length m)"] by (auto simp: i)
  next
    case (Suc n)
    then show ?thesis using 1 large response_middle [of s t ok m n ch] by (auto simp: i)
  qed
next
  case (2 i k ch)
  obtain s t ok m where i: "i = (s, t, ok, m)" by (cases i) auto
  show ?case
  proof (cases "ok \<and> length m > MULTI_PART")
    case False
    then have "ok \<Longrightarrow> take MULTI_PART m = m" by simp
    with False show ?thesis
      using 2 response_single [of ch s t ok "take MULTI_PART m"] by (auto simp: i)
  next
    case True
    obtain n where n: "k = Suc n" using 2 True i by (cases k) auto
    have "channel_step ch (mark_parts (response_part s) (chunks m) ! n) = Some ([(t, ANSWER m)],
        ch\<lparr>ch_thread := (ch_thread ch)(s := None), ch_result := (ch_result ch)(t := None)\<rparr>)"
    proof (rule response_end)
      show "Suc n = length (chunks m)" using 2(3) True i n by simp
    qed (use 2 i n in simp_all)
    then show ?thesis using True n by (auto simp: i)
  qed
qed

lemma response_packages_correct:
  "\<exists>ps. response_packages (ucast s) ok m = Some ps \<and> those (map l_pack (response_bodies (s, t, ok, m))) = Some ps"
proof -
  have s: "(ucast (ucast s :: u64) :: u32) = s"
    by (auto intro!: bit_word_eqI simp: bit_ucast_iff)
  show ?thesis
  proof (cases "ok \<and> length m > MULTI_PART")
    case True
    have n: "(length m - 1) div MULTI_PART + 1 = length (chunks m)"
      using True by (intro chunks_length [symmetric]) auto
    obtain ps where ps: "those (map l_pack (mark_parts (response_part s) (chunks m))) = Some ps"
      using parts_packs [of "response_part s" m] by (auto simp: response_part_def)
    have "response_parts ((length m - 1) div MULTI_PART + 1) s m = Some ps"
      by (simp only: n response_parts_chunks ps)
    with True ps s show ?thesis
      by (simp add: response_packages_def l_packresponse_def Let_def fill_uint32_put fill_package_frame TEMP_LENGTH_def l_pack_eq
          del: response_parts.simps)
  next
    case False
    have "take (if length m > MULTI_PART then MULTI_PART else length m) m = take MULTI_PART m"
      by simp
    with False s show ?thesis
      by (auto simp: response_packages_def l_packresponse_def Let_def fill_uint32_put fill_package_frame TEMP_LENGTH_def
          MULTI_PART_def l_pack_eq)
  qed
qed

definition channel_run :: "channel \<Rightarrow> bytes \<Rightarrow> ((nat \<times> cluster_answer) list \<times> channel) option" where
  "channel_run ch stream = run_packages channel_step ch (fst (split_frames stream))"

lemma responses_correct:
  "\<exists>pss. those (map (\<lambda>(s, t, ok, m). response_packages (ucast s) ok m) rs) = Some pss \<and>
    list_all2 (\<lambda>bs ps. those (map l_pack bs) = Some ps) (map response_bodies rs) pss"
proof (induction rs)
  case (Cons r rs)
  obtain s t ok m where "r = (s, t, ok, m)" by (cases r) auto
  with Cons response_packages_correct [of s ok m t] show ?case by auto
qed simp

text \<open>
  C10. Responses between nodes reach their callers: for responses to distinct sessions that threads
  wait for, the packages of long ones interleaved arbitrarily with the others, every thread is woken up
  once, in the order of the last packages, with the message it was sent, or with the first 32768 bytes
  of the error text.
\<close>

theorem cluster_responses_arrive:
  assumes "list_all response_ok rs" "distinct (map fst rs)" "distinct (map (fst \<circ> snd) rs)"
    and "list_all (\<lambda>(s, t, ok, m). ch_thread ch s = Some t \<and> ch_result ch t = None) rs"
  shows "\<exists>pss. those (map (\<lambda>(s, t, ok, m). response_packages (ucast s) ok m) rs) = Some pss \<and>
    (\<forall>tr. interleaving pss tr \<longrightarrow>
      (\<exists>ch'. channel_run ch (concat (map snd tr)) = Some (map (\<lambda>i. response_answer (rs ! i)) (remdups (map fst tr)), ch')))"
proof -
  obtain pss where pss: "those (map (\<lambda>(s, t, ok, m). response_packages (ucast s) ok m) rs) = Some pss"
    "list_all2 (\<lambda>bs ps. those (map l_pack bs) = Some ps) (map response_bodies rs) pss"
    using responses_correct by blast
  have "\<exists>ch'. channel_run ch (concat (map snd tr)) = Some (map (\<lambda>i. response_answer (rs ! i)) (remdups (map fst tr)), ch')"
    if "interleaving pss tr" for tr
  proof -
    note fr = interleaving_frames [OF pss(2) that]
    have "\<exists>ch'. run_packages channel_step ch (map snd (map (apsnd (drop 2)) tr)) =
        Some (concat (map (\<lambda>i. [response_answer (rs ! i)]) (remdups (map fst (map (apsnd (drop 2)) tr)))), ch')"
    proof (rule channel.interleaved [OF fr(1)])
      show "response_ok r \<and> response_got r 0 ch" if "r \<in> set rs" for r
        using assms(1,4) that by (cases r) (auto simp: list_all_iff)
      show "response_compat (rs ! i) (rs ! j)" if "i < length rs" "j < length rs" "i \<noteq> j" for i j
      proof -
        have "fst (rs ! i) \<noteq> fst (rs ! j)" "fst (snd (rs ! i)) \<noteq> fst (snd (rs ! j))"
          using assms(2,3) that by (auto simp: distinct_conv_nth)
        then show ?thesis by (cases "rs ! i"; cases "rs ! j") simp
      qed
    qed
    then show ?thesis
      unfolding channel_run_def fr(2) map_fst_apsnd by simp
  qed
  with pss(1) show ?thesis by blast
qed

theorem cluster_responses_arrive_witness:
  "\<exists>ch. channel_run \<lparr>ch_thread = [3 \<mapsto> 10, 4 \<mapsto> 11], ch_result = Map.empty\<rparr>
       ([0, 6, 4, 0, 0, 0, 0, 69] @ [0, 7, 3, 0, 0, 0, 1, 1, 2])
     = Some ([(11, FAILURE [69]), (10, ANSWER [1, 2])], ch)"
proof -
  let ?rs = "[(3, 10, True, [1, 2]), (4, 11, False, [69])] :: response list"
  let ?a = "[0, 7, 3, 0, 0, 0, 1, 1, 2] :: bytes"
  let ?e = "[0, 6, 4, 0, 0, 0, 0, 69] :: bytes"
  have pack: "those (map (\<lambda>(s, t, ok, m). response_packages (ucast s) ok m) ?rs) = Some [[?a], [?e]]"
    by (simp add: response_packages_def l_packresponse_def fill_package_def fill_header_def fill_uint32_def MULTI_PART_def
        TEMP_LENGTH_def Let_def)
  have tr: "interleaving [[?a], [?e]] [(1, ?e), (0, ?a)]"
    by (auto simp: interleaving_def less_Suc_eq numeral_2_eq_2)
  show ?thesis
    using cluster_responses_arrive [of ?rs "\<lparr>ch_thread = [3 \<mapsto> 10, 4 \<mapsto> 11], ch_result = Map.empty\<rparr>"] tr
    unfolding pack by (fastforce simp: MULTI_PART_def)
qed

subsection \<open>Malformed packages\<close>


end
