(* ===== verification/Stm.thy ===== *)
theory Stm
  imports Skynet_Prelude
begin

text \<open>
  Values that one service writes and others read without copying (\<open>luaclib-src/lua-stm.cpp\<close>): an object
  with a reference count points to the current copy, which has a reference count of its own; readers
  keep the copy they saw last. An operation under the lock of the object is one step; \<open>l_read\<close> and
  \<open>l_delete_reader\<close> have a second step outside of it, with which the steps of other threads interleave.
  \<open>None\<close> is a failed assertion or an access to memory that was freed. Counts are below \<open>2 ^ 31\<close>, since
  every reference takes memory.
\<close>

subsection \<open>State\<close>

record stm_copy =
  sc_reference :: int
  sc_msg :: bytes

record stm_object =
  st_reference :: int
  st_copy :: "nat option"

text \<open>
  A reader: whether \<open>obj\<close> is set, \<open>lastcopy\<close>, and the local variable \<open>copy\<close> of \<open>l_read\<close> between its two
  steps.
\<close>

record boxreader =
  br_obj :: bool
  br_last :: "nat option"
  br_pending :: "nat option option"

text \<open>
  The copies by address, the object until it is deleted, whether the writer still has it, the
  references handed out by \<open>l_copy\<close> for which no reader was made yet, and the readers.
\<close>

record stm =
  stm_copies :: "nat \<rightharpoonup> stm_copy"
  stm_obj :: "stm_object option"
  stm_writer :: bool
  stm_grabbed :: nat
  stm_readers :: "boxreader list"

text \<open>The memory allocator: an address that is not in use, possibly one that was freed.\<close>

type_synonym allocator = "(nat \<rightharpoonup> stm_copy) \<Rightarrow> nat"

subsection \<open>The object\<close>

definition stm_newcopy :: "allocator \<Rightarrow> bytes \<Rightarrow> stm \<Rightarrow> nat \<times> stm" where
  "stm_newcopy alloc msg s =
     (let a = alloc (stm_copies s) in
      (a, s\<lparr>stm_copies := (stm_copies s)(a \<mapsto> \<lparr>sc_reference = 1, sc_msg = msg\<rparr>)\<rparr>))"

definition stm_new :: "allocator \<Rightarrow> bytes \<Rightarrow> stm \<Rightarrow> stm" where
  "stm_new alloc msg s =
     (let (a, s1) = stm_newcopy alloc msg s in s1\<lparr>stm_obj := Some \<lparr>st_reference = 1, st_copy = Some a\<rparr>\<rparr>)"

definition stm_releasecopy :: "nat option \<Rightarrow> stm \<Rightarrow> stm option" where
  "stm_releasecopy c s =
     (case c of
        None \<Rightarrow> Some s
      | Some a \<Rightarrow>
          do {
            x \<leftarrow> stm_copies s a;
            Some (s\<lparr>stm_copies := (stm_copies s)(a :=
              (if sc_reference x \<le> 1 then None else Some (x\<lparr>sc_reference := sc_reference x - 1\<rparr>)))\<rparr>)
          })"

text \<open>The destructor of the lock, at the end of a scope, unlocks the mutex in the object.\<close>

definition unlock_object :: "stm \<Rightarrow> stm option" where
  "unlock_object s = (case stm_obj s of None \<Rightarrow> None | Some _ \<Rightarrow> Some s)"

definition stm_release :: "stm \<Rightarrow> stm option" where
  "stm_release s =
     do {
       ob \<leftarrow> stm_obj s;
       c_assert (st_copy ob \<noteq> None);
       s1 \<leftarrow> stm_releasecopy (st_copy ob) s;
       let ob1 = ob\<lparr>st_copy := None, st_reference := st_reference ob - 1\<rparr>;
       if st_reference ob > 1 then unlock_object (s1\<lparr>stm_obj := Some ob1\<rparr>)
       else unlock_object (s1\<lparr>stm_obj := None\<rparr>)
     }"

definition stm_releasereader :: "stm \<Rightarrow> stm option" where
  "stm_releasereader s =
     do {
       ob \<leftarrow> stm_obj s;
       if st_reference ob = 1 then do { c_assert (st_copy ob = None); unlock_object (s\<lparr>stm_obj := None\<rparr>) }
       else unlock_object (s\<lparr>stm_obj := Some (ob\<lparr>st_reference := st_reference ob - 1\<rparr>)\<rparr>)
     }"

definition stm_grab :: "stm \<Rightarrow> stm option" where
  "stm_grab s =
     do {
       ob \<leftarrow> stm_obj s;
       c_assert (st_reference ob > 0);
       unlock_object (s\<lparr>stm_obj := Some (ob\<lparr>st_reference := st_reference ob + 1\<rparr>)\<rparr>)
     }"

definition stm_getcopy :: "stm \<Rightarrow> (nat option \<times> stm) option" where
  "stm_getcopy s =
     do {
       ob \<leftarrow> stm_obj s;
       case st_copy ob of
         None \<Rightarrow> Some (None, s)
       | Some a \<Rightarrow>
           do {
             x \<leftarrow> stm_copies s a;
             c_assert (sc_reference x > 0);
             Some (Some a, s\<lparr>stm_copies := (stm_copies s)(a \<mapsto> x\<lparr>sc_reference := sc_reference x + 1\<rparr>)\<rparr>)
           }
     }"

definition stm_update :: "allocator \<Rightarrow> bytes \<Rightarrow> stm \<Rightarrow> stm option" where
  "stm_update alloc msg s =
     do {
       let (a, s1) = stm_newcopy alloc msg s;
       ob \<leftarrow> stm_obj s1;
       s2 \<leftarrow> stm_releasecopy (st_copy ob) (s1\<lparr>stm_obj := Some (ob\<lparr>st_copy := Some a\<rparr>)\<rparr>);
       unlock_object s2
     }"

subsection \<open>Calls from Lua\<close>

definition l_copy :: "stm \<Rightarrow> stm option" where
  "l_copy s = do { s1 \<leftarrow> stm_grab s; Some (s1\<lparr>stm_grabbed := stm_grabbed s1 + 1\<rparr>) }"

definition l_new_writer :: "allocator \<Rightarrow> bytes \<Rightarrow> stm" where
  "l_new_writer alloc msg =
     stm_new alloc msg
       \<lparr>stm_copies = Map.empty, stm_obj = None, stm_writer = True, stm_grabbed = 0, stm_readers = []\<rparr>"

definition l_delete_writer :: "stm \<Rightarrow> stm option" where
  "l_delete_writer s = do { s1 \<leftarrow> stm_release s; Some (s1\<lparr>stm_writer := False\<rparr>) }"

definition l_update :: "allocator \<Rightarrow> bytes \<Rightarrow> stm \<Rightarrow> stm option" where
  "l_update = stm_update"

text \<open>A reader takes over a reference that \<open>l_copy\<close> handed out.\<close>

definition l_new_reader :: "stm \<Rightarrow> stm" where
  "l_new_reader s =
     s\<lparr>stm_grabbed := stm_grabbed s - 1,
       stm_readers := stm_readers s @ [\<lparr>br_obj = True, br_last = None, br_pending = None\<rparr>]\<rparr>"

definition set_reader :: "nat \<Rightarrow> boxreader \<Rightarrow> stm \<Rightarrow> stm" where
  "set_reader i r s = s\<lparr>stm_readers := (stm_readers s)[i := r]\<rparr>"

definition delete_reader_object :: "nat \<Rightarrow> stm \<Rightarrow> stm option" where
  "delete_reader_object i s =
     do { s1 \<leftarrow> stm_releasereader s; Some (set_reader i ((stm_readers s1 ! i)\<lparr>br_obj := False\<rparr>) s1) }"

definition delete_reader_copy :: "nat \<Rightarrow> stm \<Rightarrow> stm option" where
  "delete_reader_copy i s =
     do {
       s1 \<leftarrow> stm_releasecopy (br_last (stm_readers s ! i)) s;
       Some (set_reader i ((stm_readers s1 ! i)\<lparr>br_last := None\<rparr>) s1)
     }"

definition l_delete_reader :: "nat \<Rightarrow> stm \<Rightarrow> stm option" where
  "l_delete_reader i s = do { s1 \<leftarrow> delete_reader_object i s; delete_reader_copy i s1 }"

datatype stm_read_result = NOT_UPDATED | UPDATED bytes

definition read_begin :: "nat \<Rightarrow> stm \<Rightarrow> stm option" where
  "read_begin i s =
     do { (c, s1) \<leftarrow> stm_getcopy s; Some (set_reader i ((stm_readers s1 ! i)\<lparr>br_pending := Some c\<rparr>) s1) }"

definition read_end :: "nat \<Rightarrow> stm \<Rightarrow> (stm_read_result \<times> stm) option" where
  "read_end i s =
     do {
       let r = stm_readers s ! i;
       copy \<leftarrow> br_pending r;
       if copy = br_last r then
         do { s1 \<leftarrow> stm_releasecopy copy s; Some (NOT_UPDATED, set_reader i (r\<lparr>br_pending := None\<rparr>) s1) }
       else
         do {
           s1 \<leftarrow> stm_releasecopy (br_last r) s;
           let s2 = set_reader i (r\<lparr>br_last := copy, br_pending := None\<rparr>) s1;
           case copy of
             None \<Rightarrow> Some (NOT_UPDATED, s2)
           | Some a \<Rightarrow> do { x \<leftarrow> stm_copies s2 a; Some (UPDATED (sc_msg x), s2) }
         }
     }"

definition l_read :: "nat \<Rightarrow> stm \<Rightarrow> (stm_read_result \<times> stm) option" where
  "l_read i s = do { s1 \<leftarrow> read_begin i s; read_end i s1 }"

subsection \<open>Steps\<close>

datatype stm_op =
    STM_COPY
  | STM_UPDATE bytes
  | STM_DELETE_WRITER
  | STM_NEW_READER
  | STM_READ_BEGIN nat
  | STM_READ_END nat
  | STM_DELETE_READER nat
  | STM_DROP_COPY nat

fun stm_step :: "allocator \<Rightarrow> stm_op \<Rightarrow> stm \<Rightarrow> (stm_read_result option \<times> stm) option" where
  "stm_step alloc STM_COPY s = map_option (Pair None) (l_copy s)"
| "stm_step alloc (STM_UPDATE msg) s = map_option (Pair None) (l_update alloc msg s)"
| "stm_step alloc STM_DELETE_WRITER s = map_option (Pair None) (l_delete_writer s)"
| "stm_step alloc STM_NEW_READER s = Some (None, l_new_reader s)"
| "stm_step alloc (STM_READ_BEGIN i) s = map_option (Pair None) (read_begin i s)"
| "stm_step alloc (STM_READ_END i) s = map_option (apfst Some) (read_end i s)"
| "stm_step alloc (STM_DELETE_READER i) s = map_option (Pair None) (delete_reader_object i s)"
| "stm_step alloc (STM_DROP_COPY i) s = map_option (Pair None) (delete_reader_copy i s)"

end
