(* ===== verification/Stm_Correct.thy ===== *)
theory Stm_Correct
  imports Stm Step_Run
begin

text \<open>
  The shared values refine a register with a history: readers see the value that is current when
  they look, and are told whether it is new to them. The counts are exactly the references that
  exist, so copies are freed when the last one goes, and no earlier.
\<close>

subsection \<open>The register\<close>

record reg_reader =
  rr_alive :: bool
  rr_seen :: "nat option"
  rr_pending :: "nat option option"

record register =
  rg_history :: "bytes list"
  rg_open :: bool
  rg_grabbed :: nat
  rg_readers :: "reg_reader list"

text \<open>The version that is current, as a position in the history.\<close>

definition current :: "register \<Rightarrow> nat option" where
  "current a = (if rg_open a then Some (length (rg_history a) - 1) else None)"

definition new_register :: "bytes \<Rightarrow> register" where
  "new_register msg = \<lparr>rg_history = [msg], rg_open = True, rg_grabbed = 0, rg_readers = []\<rparr>"

fun register_step :: "stm_op \<Rightarrow> register \<Rightarrow> stm_read_result option \<times> register" where
  "register_step STM_COPY a = (None, a\<lparr>rg_grabbed := rg_grabbed a + 1\<rparr>)"
| "register_step (STM_UPDATE msg) a = (None, a\<lparr>rg_history := rg_history a @ [msg]\<rparr>)"
| "register_step STM_DELETE_WRITER a = (None, a\<lparr>rg_open := False\<rparr>)"
| "register_step STM_NEW_READER a =
     (None, a\<lparr>rg_grabbed := rg_grabbed a - 1,
              rg_readers := rg_readers a @ [\<lparr>rr_alive = True, rr_seen = None, rr_pending = None\<rparr>]\<rparr>)"
| "register_step (STM_READ_BEGIN i) a =
     (None, a\<lparr>rg_readers := (rg_readers a)[i := (rg_readers a ! i)\<lparr>rr_pending := Some (current a)\<rparr>]\<rparr>)"
| "register_step (STM_READ_END i) a =
     (let r = rg_readers a ! i; v = the (rr_pending r) in
      (Some (if v = rr_seen r then NOT_UPDATED
             else case v of None \<Rightarrow> NOT_UPDATED | Some k \<Rightarrow> UPDATED (rg_history a ! k)),
       a\<lparr>rg_readers := (rg_readers a)[i := r\<lparr>rr_seen := v, rr_pending := None\<rparr>]\<rparr>))"
| "register_step (STM_DELETE_READER i) a =
     (None, a\<lparr>rg_readers := (rg_readers a)[i := (rg_readers a ! i)\<lparr>rr_alive := False\<rparr>]\<rparr>)"
| "register_step (STM_DROP_COPY i) a =
     (None, a\<lparr>rg_readers := (rg_readers a)[i := (rg_readers a ! i)\<lparr>rr_seen := None\<rparr>]\<rparr>)"

text \<open>
  The protocol: the writer is used until it is deleted, a reader is made for a reference that was
  handed out, calls of one reader do not overlap, and a reader drops its copy after the object.
\<close>

fun op_allowed :: "stm_op \<Rightarrow> register \<Rightarrow> bool" where
  "op_allowed STM_COPY a \<longleftrightarrow> rg_open a"
| "op_allowed (STM_UPDATE msg) a \<longleftrightarrow> rg_open a"
| "op_allowed STM_DELETE_WRITER a \<longleftrightarrow> rg_open a"
| "op_allowed STM_NEW_READER a \<longleftrightarrow> 0 < rg_grabbed a"
| "op_allowed (STM_READ_BEGIN i) a \<longleftrightarrow>
     i < length (rg_readers a) \<and> rr_alive (rg_readers a ! i) \<and> rr_pending (rg_readers a ! i) = None"
| "op_allowed (STM_READ_END i) a \<longleftrightarrow> i < length (rg_readers a) \<and> rr_pending (rg_readers a ! i) \<noteq> None"
| "op_allowed (STM_DELETE_READER i) a \<longleftrightarrow>
     i < length (rg_readers a) \<and> rr_alive (rg_readers a ! i) \<and> rr_pending (rg_readers a ! i) = None"
| "op_allowed (STM_DROP_COPY i) a \<longleftrightarrow>
     i < length (rg_readers a) \<and> \<not> rr_alive (rg_readers a ! i) \<and> rr_pending (rg_readers a ! i) = None"

text \<open>The references to the object, and the steps that give back the last one.\<close>

definition references :: "register \<Rightarrow> nat" where
  "references a = (if rg_open a then 1 else 0) + rg_grabbed a + length (filter rr_alive (rg_readers a))"

fun last_release :: "stm_op \<Rightarrow> register \<Rightarrow> bool" where
  "last_release STM_DELETE_WRITER a \<longleftrightarrow> references a = 1"
| "last_release (STM_DELETE_READER i) a \<longleftrightarrow> references a = 1"
| "last_release _ a \<longleftrightarrow> False"

subsection \<open>Counting references\<close>

abbreviation pts :: "nat option \<Rightarrow> nat \<Rightarrow> int" where
  "pts p c \<equiv> of_bool (p = Some c)"

definition held :: "nat \<Rightarrow> boxreader \<Rightarrow> int" where
  "held c r = pts (br_last r) c + (case br_pending r of None \<Rightarrow> 0 | Some p \<Rightarrow> pts p c)"

definition uses :: "nat option \<Rightarrow> boxreader list \<Rightarrow> nat \<Rightarrow> int" where
  "uses p rs c = pts p c + sum_list (map (held c) rs)"

definition counted :: "(nat \<rightharpoonup> stm_copy) \<Rightarrow> (nat \<Rightarrow> int) \<Rightarrow> bool" where
  "counted h f \<longleftrightarrow> (\<forall>c. h c = None \<longrightarrow> f c = 0) \<and> (\<forall>c x. h c = Some x \<longrightarrow> sc_reference x = f c \<and> 0 < f c)"

definition shrinks :: "(nat \<rightharpoonup> stm_copy) \<Rightarrow> (nat \<rightharpoonup> stm_copy) \<Rightarrow> bool" where
  "shrinks h' h \<longleftrightarrow> (\<forall>c y. h' c = Some y \<longrightarrow> (\<exists>x. h c = Some x \<and> sc_msg y = sc_msg x))"

lemma counted_None: "counted h f \<Longrightarrow> h c = None \<Longrightarrow> f c = 0"
  by (simp add: counted_def)

lemma counted_Some: "counted h f \<Longrightarrow> h c = Some x \<Longrightarrow> sc_reference x = f c \<and> 0 < f c"
  by (simp add: counted_def)

lemma counted_pos: "counted h f \<Longrightarrow> 0 < f c \<Longrightarrow> \<exists>x. h c = Some x \<and> sc_reference x = f c"
  using counted_None [of h f c] counted_Some [of h f c] by (cases "h c") auto

lemma release_counted:
  assumes "counted (stm_copies s) f" "\<And>c. p = Some c \<Longrightarrow> 0 < f c"
  shows "\<exists>h'. stm_releasecopy p s = Some (s\<lparr>stm_copies := h'\<rparr>) \<and> counted h' (\<lambda>c. f c - pts p c) \<and> shrinks h' (stm_copies s)"
proof (cases p)
  case None
  then show ?thesis
    using assms(1) by (intro exI [of _ "stm_copies s"]) (auto simp: stm_releasecopy_def shrinks_def)
next
  case (Some a)
  obtain x where x: "stm_copies s a = Some x" "sc_reference x = f a" "0 < f a"
    using counted_pos [OF assms(1) assms(2) [OF Some]] assms(2) [OF Some] by blast
  let ?h = "(stm_copies s)(a := (if sc_reference x \<le> 1 then None else Some (x\<lparr>sc_reference := sc_reference x - 1\<rparr>)))"
  have "counted ?h (\<lambda>c. f c - pts p c)"
    using Some x(1,2) assms(1) by (auto simp: counted_def) (use x(3) in linarith)
  moreover have "shrinks ?h (stm_copies s)"
    using x by (auto simp: shrinks_def split: if_splits)
  ultimately show ?thesis
    using x Some by (intro exI [of _ ?h]) (simp add: stm_releasecopy_def)
qed

lemma acquire_counted:
  assumes "counted h f" "h a = Some x"
  shows "counted (h(a \<mapsto> x\<lparr>sc_reference := sc_reference x + 1\<rparr>)) (\<lambda>c. f c + pts (Some a) c)"
  using assms by (auto simp: counted_def) (use counted_Some [OF assms] in linarith)

lemma new_counted:
  assumes "counted h f" "h a = None"
  shows "counted (h(a \<mapsto> \<lparr>sc_reference = 1, sc_msg = m\<rparr>)) (\<lambda>c. f c + pts (Some a) c)"
  using assms by (auto simp: counted_def)

lemma held_nonneg: "0 \<le> held c r"
  by (auto simp: held_def split: option.split)

lemma held_sum_nonneg: "0 \<le> sum_list (map (held c) rs)"
  by (rule sum_list_nonneg) (auto simp: held_nonneg)

lemma held_le: "i < length rs \<Longrightarrow> held c (rs ! i) \<le> sum_list (map (held c) rs)"
  using held_sum_nonneg [of c] by (induction rs arbitrary: i) (auto simp: nth_Cons held_nonneg add_increasing add_increasing2 split: nat.split)

lemma held_update:
  "i < length rs \<Longrightarrow> sum_list (map (held c) (rs[i := r])) = sum_list (map (held c) rs) - held c (rs ! i) + held c r"
  by (induction rs arbitrary: i) (auto simp: nth_Cons split: nat.split)

lemma uses_update: "i < length rs \<Longrightarrow> uses p (rs[i := r]) c = uses p rs c - held c (rs ! i) + held c r"
  by (simp add: uses_def held_update)

subsection \<open>The relation\<close>

text \<open>Every copy in use holds the value of one version, and different copies hold different versions.\<close>

definition data_ok :: "(nat \<Rightarrow> nat) \<Rightarrow> bytes list \<Rightarrow> (nat \<rightharpoonup> stm_copy) \<Rightarrow> bool" where
  "data_ok ver hist h \<longleftrightarrow> finite (dom h) \<and> inj_on ver (dom h) \<and>
     (\<forall>c x. h c = Some x \<longrightarrow> ver c < length hist \<and> sc_msg x = hist ! ver c)"

definition reader_rel :: "(nat \<Rightarrow> nat) \<Rightarrow> boxreader \<Rightarrow> reg_reader \<Rightarrow> bool" where
  "reader_rel ver r a \<longleftrightarrow> br_obj r = rr_alive a \<and> map_option ver (br_last r) = rr_seen a \<and>
     map_option (map_option ver) (br_pending r) = rr_pending a"

definition stm_rel_by :: "(nat \<Rightarrow> nat) \<Rightarrow> stm_object \<Rightarrow> stm \<Rightarrow> register \<Rightarrow> bool" where
  "stm_rel_by ver ob s a \<longleftrightarrow> stm_obj s = Some ob \<and> st_reference ob = int (references a) \<and>
     map_option ver (st_copy ob) = current a \<and> stm_writer s = rg_open a \<and> stm_grabbed s = rg_grabbed a \<and>
     list_all2 (reader_rel ver) (stm_readers s) (rg_readers a) \<and> rg_history a \<noteq> [] \<and>
     data_ok ver (rg_history a) (stm_copies s) \<and> counted (stm_copies s) (uses (st_copy ob) (stm_readers s))"

definition stm_rel :: "stm \<Rightarrow> register \<Rightarrow> bool" where
  "stm_rel s a \<longleftrightarrow> (\<exists>ver ob. stm_rel_by ver ob s a)"

lemma data_shrinks: "data_ok ver hist h \<Longrightarrow> shrinks h' h \<Longrightarrow> data_ok ver hist h'"
proof -
  assume d: "data_ok ver hist h" and s: "shrinks h' h"
  have "dom h' \<subseteq> dom h" using s by (fastforce simp: shrinks_def dom_def)
  with d s show ?thesis
    unfolding data_ok_def by (metis finite_subset inj_on_subset shrinks_def)
qed

lemma data_new:
  assumes "data_ok ver hist h" "h n = None"
  shows "data_ok (ver(n := length hist)) (hist @ [m]) (h(n \<mapsto> \<lparr>sc_reference = k, sc_msg = m\<rparr>))"
proof -
  have d: "finite (dom h)" "inj_on ver (dom h)" "\<And>c x. h c = Some x \<Longrightarrow> ver c < length hist \<and> sc_msg x = hist ! ver c"
    using assms(1) by (auto simp: data_ok_def)
  have new: "n \<notin> dom h" "length hist \<notin> ver ` dom h"
    using assms(2) d(3) by (auto simp: dom_def) (metis less_irrefl)
  then have "inj_on (ver(n := length hist)) (insert n (dom h))"
    using inj_on_fun_updI [OF d(2) new(2), of n] by (auto simp: image_iff)
  moreover have "(ver(n := length hist)) c < length (hist @ [m]) \<and> sc_msg x = (hist @ [m]) ! (ver(n := length hist)) c"
    if "(h(n \<mapsto> \<lparr>sc_reference = k, sc_msg = m\<rparr>)) c = Some x" for c x
    using d(3) [of c x] that by (cases "c = n") (auto simp: nth_append)
  ultimately show ?thesis
    using d(1) by (simp add: data_ok_def)
qed

lemma version_inj:
  assumes "data_ok ver hist h" "\<And>c. p = Some c \<Longrightarrow> h c \<noteq> None" "\<And>c. q = Some c \<Longrightarrow> h c \<noteq> None"
  shows "map_option ver p = map_option ver q \<longleftrightarrow> p = q"
proof -
  have "inj_on ver (dom h)" using assms(1) by (simp add: data_ok_def)
  then show ?thesis
    using assms(2,3) by (cases p; cases q) (auto simp: dom_def dest: inj_onD)
qed

lemma version_upd: "p \<noteq> Some n \<Longrightarrow> map_option (ver(n := v)) p = map_option ver p"
  by (cases p) auto

lemma shrinks_acquire: "h a = Some x \<Longrightarrow> shrinks (h(a \<mapsto> x\<lparr>sc_reference := n\<rparr>)) h"
  by (auto simp: shrinks_def)

lemma uses_in_dom:
  assumes "counted h (uses p rs)"
  shows "p = Some c \<Longrightarrow> h c \<noteq> None"
    and "i < length rs \<Longrightarrow> br_last (rs ! i) = Some c \<Longrightarrow> h c \<noteq> None"
    and "i < length rs \<Longrightarrow> br_pending (rs ! i) = Some (Some c) \<Longrightarrow> h c \<noteq> None"
proof -
  have pos: "h c \<noteq> None" if "0 < uses p rs c"
    using counted_None [OF assms] that by fastforce
  note pos
  moreover have "held c (rs ! i) \<le> uses p rs c" if "i < length rs"
    using held_le [OF that, of c] by (simp add: uses_def)
  moreover have "0 < held c r" if "br_last r = Some c \<or> br_pending r = Some (Some c)" for r
    using that by (auto simp: held_def split: option.splits)
  ultimately show "i < length rs \<Longrightarrow> br_last (rs ! i) = Some c \<Longrightarrow> h c \<noteq> None"
    "i < length rs \<Longrightarrow> br_pending (rs ! i) = Some (Some c) \<Longrightarrow> h c \<noteq> None"
    by (meson less_le_trans)+
  show "p = Some c \<Longrightarrow> h c \<noteq> None"
    using pos held_sum_nonneg [of c rs] by (auto simp: uses_def)
qed

lemma list_all2_set_reader:
  "list_all2 (reader_rel ver) rs as \<Longrightarrow> reader_rel ver r a \<Longrightarrow> list_all2 (reader_rel ver) (rs[i := r]) (as[i := a])"
  by (rule list_all2_update_cong)

lemma reader_at: "list_all2 (reader_rel ver) rs as \<Longrightarrow> i < length as \<Longrightarrow> i < length rs \<and> reader_rel ver (rs ! i) (as ! i)"
  by (auto dest: list_all2_lengthD list_all2_nthD2)

lemma alive_count:
  "i < length as \<Longrightarrow> length (filter rr_alive (as[i := r])) + of_bool (rr_alive (as ! i)) = length (filter rr_alive as) + of_bool (rr_alive r)"
proof (induction as arbitrary: i)
  case (Cons b as)
  then show ?case using Cons.IH [of "i - 1"] by (cases i) auto
qed simp

lemma stm_relI:
  assumes "stm_obj s = Some ob" "st_reference ob = int (references a)"
    and "map_option ver (st_copy ob) = current a" "stm_writer s = rg_open a" "stm_grabbed s = rg_grabbed a"
    and "list_all2 (reader_rel ver) (stm_readers s) (rg_readers a)" "rg_history a \<noteq> []"
    and "data_ok ver (rg_history a) (stm_copies s)" "counted (stm_copies s) (uses (st_copy ob) (stm_readers s))"
  shows "stm_rel s a"
  using assms unfolding stm_rel_def stm_rel_by_def by blast

lemmas stm_relD = stm_rel_by_def [THEN iffD1]

lemma step_copy:
  assumes "stm_rel_by ver ob s a" "rg_open a"
  shows "\<exists>s'. l_copy s = Some s' \<and> stm_rel s' (a\<lparr>rg_grabbed := rg_grabbed a + 1\<rparr>)"
proof -
  note r = stm_relD [OF assms(1)]
  let ?ob = "ob\<lparr>st_reference := st_reference ob + 1\<rparr>"
  let ?s = "s\<lparr>stm_obj := Some ?ob, stm_grabbed := stm_grabbed s + 1\<rparr>"
  have "l_copy s = Some ?s"
    using r assms(2) by (simp add: l_copy_def stm_grab_def unlock_object_def references_def)
  moreover have "stm_rel ?s (a\<lparr>rg_grabbed := rg_grabbed a + 1\<rparr>)"
    by (rule stm_relI [of _ ?ob _ ver]) (use r in \<open>simp_all add: references_def current_def\<close>)
  ultimately show ?thesis by blast
qed

lemma step_new_reader:
  assumes "stm_rel_by ver ob s a" "0 < rg_grabbed a"
  shows "stm_rel (l_new_reader s) (snd (register_step STM_NEW_READER a))"
proof -
  note r = stm_relD [OF assms(1)]
  have "uses (st_copy ob) (stm_readers (l_new_reader s)) = uses (st_copy ob) (stm_readers s)"
    by (simp add: fun_eq_iff uses_def l_new_reader_def held_def)
  then show ?thesis
    by (intro stm_relI [of _ ob _ ver])
      (use r assms(2) in \<open>auto simp: l_new_reader_def references_def current_def reader_rel_def intro!: list_all2_appendI\<close>)
qed

lemma current_copy:
  assumes "stm_rel_by ver ob s a" "rg_open a"
  obtains c x where "st_copy ob = Some c" "stm_copies s c = Some x" "ver c = length (rg_history a) - 1"
proof -
  note r = stm_relD [OF assms(1)]
  obtain c where c: "st_copy ob = Some c" "ver c = length (rg_history a) - 1"
    using r assms(2) by (auto simp: current_def)
  moreover obtain x where "stm_copies s c = Some x"
    using uses_in_dom(1) [of "stm_copies s" "st_copy ob" "stm_readers s" c] r c by auto
  ultimately show thesis using that by blast
qed

lemma step_update:
  assumes "stm_rel_by ver ob s a" "rg_open a" and alloc: "\<And>h. finite (dom h) \<Longrightarrow> h (alloc h) = None"
  shows "\<exists>s'. l_update alloc msg s = Some s' \<and> stm_rel s' (a\<lparr>rg_history := rg_history a @ [msg]\<rparr>)"
proof -
  note r = stm_relD [OF assms(1)]
  let ?h = "stm_copies s" and ?n = "alloc (stm_copies s)" and ?p = "st_copy ob"
  have n: "?h ?n = None" using alloc r by (simp add: data_ok_def)
  let ?ver = "ver(?n := length (rg_history a))"
  let ?h1 = "?h(?n \<mapsto> \<lparr>sc_reference = 1, sc_msg = msg\<rparr>)"
  let ?ob = "ob\<lparr>st_copy := Some ?n\<rparr>"
  let ?s1 = "s\<lparr>stm_copies := ?h1, stm_obj := Some ?ob\<rparr>"
  have "counted (stm_copies ?s1) (\<lambda>c. uses ?p (stm_readers s) c + pts (Some ?n) c)"
    using new_counted [of ?h "uses ?p (stm_readers s)" ?n msg] r n by simp
  moreover have "0 < uses ?p (stm_readers s) c + pts (Some ?n) c" if "?p = Some c" for c
    using that held_sum_nonneg [of c "stm_readers s"] by (simp add: uses_def)
  ultimately obtain h2 where h2: "stm_releasecopy ?p ?s1 = Some (?s1\<lparr>stm_copies := h2\<rparr>)"
    "counted h2 (\<lambda>c. uses ?p (stm_readers s) c + pts (Some ?n) c - pts ?p c)" "shrinks h2 ?h1"
    using release_counted [of ?s1 "\<lambda>c. uses ?p (stm_readers s) c + pts (Some ?n) c" ?p] by auto
  have "l_update alloc msg s = Some (?s1\<lparr>stm_copies := h2\<rparr>)"
    using r h2(1) by (simp add: l_update_def stm_update_def stm_newcopy_def unlock_object_def Let_def)
  moreover have "stm_rel (?s1\<lparr>stm_copies := h2\<rparr>) (a\<lparr>rg_history := rg_history a @ [msg]\<rparr>)"
  proof (rule stm_relI [of _ ?ob _ ?ver])
    have "data_ok ?ver (rg_history a @ [msg]) ?h1"
      using r n by (intro data_new) auto
    then show "data_ok ?ver (rg_history (a\<lparr>rg_history := rg_history a @ [msg]\<rparr>)) (stm_copies (?s1\<lparr>stm_copies := h2\<rparr>))"
      using data_shrinks h2(3) by simp
    have "(\<lambda>c. uses ?p (stm_readers s) c + pts (Some ?n) c - pts ?p c) = uses (Some ?n) (stm_readers s)"
      by (simp add: fun_eq_iff uses_def)
    then show "counted (stm_copies (?s1\<lparr>stm_copies := h2\<rparr>)) (uses (st_copy ?ob) (stm_readers (?s1\<lparr>stm_copies := h2\<rparr>)))"
      using h2(2) by simp
    have "reader_rel ?ver (stm_readers s ! i) (rg_readers a ! i)" if "i < length (rg_readers a)" for i
    proof -
      have i: "i < length (stm_readers s)" "reader_rel ver (stm_readers s ! i) (rg_readers a ! i)"
        using reader_at r that by blast+
      have "br_last (stm_readers s ! i) \<noteq> Some ?n" "br_pending (stm_readers s ! i) \<noteq> Some (Some ?n)"
        using uses_in_dom(2,3) [of ?h ?p "stm_readers s" i ?n] r n i by auto
      then show ?thesis
        using i(2) by (cases "br_pending (stm_readers s ! i)") (auto simp: reader_rel_def version_upd)
    qed
    then show "list_all2 (reader_rel ?ver) (stm_readers (?s1\<lparr>stm_copies := h2\<rparr>)) (rg_readers (a\<lparr>rg_history := rg_history a @ [msg]\<rparr>))"
      using r by (auto simp: list_all2_conv_all_nth)
  qed (use r assms(2) in \<open>simp_all add: references_def current_def\<close>)
  ultimately show ?thesis by blast
qed

lemma step_read_begin:
  assumes "stm_rel_by ver ob s a" "op_allowed (STM_READ_BEGIN i) a"
  shows "\<exists>s'. read_begin i s = Some s' \<and> stm_rel s' (snd (register_step (STM_READ_BEGIN i) a))"
proof -
  note r = stm_relD [OF assms(1)]
  let ?rs = "stm_readers s" and ?p = "st_copy ob"
  have i: "i < length ?rs" "reader_rel ver (?rs ! i) (rg_readers a ! i)" "br_pending (?rs ! i) = None"
    using reader_at [of ver ?rs "rg_readers a" i] r assms(2) by (auto simp: reader_rel_def)
  let ?rd = "(?rs ! i)\<lparr>br_pending := Some ?p\<rparr>" and ?ra = "(rg_readers a ! i)\<lparr>rr_pending := Some (current a)\<rparr>"
  have rd: "reader_rel ver ?rd ?ra"
    using i(2) r by (simp add: reader_rel_def)
  have alive: "length (filter rr_alive ((rg_readers a)[i := ?ra])) = length (filter rr_alive (rg_readers a))"
    using alive_count [of i "rg_readers a" ?ra] assms(2) by simp
  obtain h where h: "stm_getcopy s = Some (?p, s\<lparr>stm_copies := h\<rparr>)" "data_ok ver (rg_history a) h"
    "counted h (\<lambda>c. uses ?p ?rs c + pts ?p c)"
  proof (cases ?p)
    case None
    then show thesis
      using that [of "stm_copies s"] r by (simp add: stm_getcopy_def)
  next
    case (Some c)
    then obtain x where x: "stm_copies s c = Some x"
      using uses_in_dom(1) [of "stm_copies s" ?p ?rs c] r by auto
    let ?h = "(stm_copies s)(c \<mapsto> x\<lparr>sc_reference := sc_reference x + 1\<rparr>)"
    have "counted ?h (\<lambda>d. uses ?p ?rs d + pts ?p d)" "data_ok ver (rg_history a) ?h" "0 < sc_reference x"
      using acquire_counted [of "stm_copies s" _ c x] data_shrinks [of ver "rg_history a"] shrinks_acquire [of "stm_copies s" c x] r x Some
        counted_Some [of "stm_copies s" "uses ?p ?rs" c x] by auto
    then show thesis
      using that [of ?h] r x Some by (simp add: stm_getcopy_def)
  qed
  let ?s = "set_reader i ?rd (s\<lparr>stm_copies := h\<rparr>)"
  have "(\<lambda>c. uses ?p ?rs c + pts ?p c) = uses ?p (?rs[i := ?rd])"
    using i by (simp add: fun_eq_iff uses_update held_def)
  then have "stm_rel ?s (snd (register_step (STM_READ_BEGIN i) a))"
    by (intro stm_relI [of _ ob _ ver])
      (use r h(2,3) alive rd in \<open>simp_all add: set_reader_def references_def current_def list_all2_set_reader\<close>)
  moreover have "read_begin i s = Some ?s"
    using h(1) by (simp add: read_begin_def)
  ultimately show ?thesis by blast
qed

lemma step_read_end:
  assumes "stm_rel_by ver ob s a" "op_allowed (STM_READ_END i) a"
  shows "\<exists>s'. read_end i s = Some (the (fst (register_step (STM_READ_END i) a)), s') \<and>
    stm_rel s' (snd (register_step (STM_READ_END i) a))"
proof -
  note r = stm_relD [OF assms(1)]
  let ?rs = "stm_readers s" and ?p = "st_copy ob" and ?ra = "rg_readers a ! i"
  have i: "i < length ?rs" "reader_rel ver (?rs ! i) ?ra"
    using reader_at [of ver ?rs "rg_readers a" i] r assms(2) by auto
  then obtain copy where copy: "br_pending (?rs ! i) = Some copy" "rr_pending ?ra = Some (map_option ver copy)"
    using assms(2) by (auto simp: reader_rel_def)
  have seen: "rr_seen ?ra = map_option ver (br_last (?rs ! i))"
    using i(2) by (simp add: reader_rel_def)
  have dom: "copy = Some c \<Longrightarrow> stm_copies s c \<noteq> None" "br_last (?rs ! i) = Some c \<Longrightarrow> stm_copies s c \<noteq> None" for c
    using uses_in_dom(2,3) [of "stm_copies s" ?p ?rs i c] r i(1) copy by auto
  have same: "copy = br_last (?rs ! i) \<longleftrightarrow> map_option ver copy = rr_seen ?ra"
    using version_inj [of ver "rg_history a" "stm_copies s" copy "br_last (?rs ! i)"] dom r seen by auto
  let ?old = "if copy = br_last (?rs ! i) then copy else br_last (?rs ! i)"
  let ?rd = "(?rs ! i)\<lparr>br_last := copy, br_pending := None\<rparr>"
  have pos: "0 < uses ?p ?rs c" if "?old = Some c" for c
    using counted_Some [of "stm_copies s" "uses ?p ?rs" c] dom [of c] r that by (auto split: if_splits)
  obtain h where h: "stm_releasecopy ?old s = Some (s\<lparr>stm_copies := h\<rparr>)" "counted h (\<lambda>c. uses ?p ?rs c - pts ?old c)"
    "shrinks h (stm_copies s)"
    using release_counted [of s "uses ?p ?rs" ?old] r pos by auto
  let ?s = "set_reader i ?rd (s\<lparr>stm_copies := h\<rparr>)"
  have u: "(\<lambda>c. uses ?p ?rs c - pts ?old c) = uses ?p (?rs[i := ?rd])"
    using i copy by (auto simp: fun_eq_iff uses_update held_def)
  have "length (filter rr_alive ((rg_readers a)[i := ?ra\<lparr>rr_seen := map_option ver copy, rr_pending := None\<rparr>])) = length (filter rr_alive (rg_readers a))"
    using alive_count [of i "rg_readers a" "?ra\<lparr>rr_seen := map_option ver copy, rr_pending := None\<rparr>"] assms(2) by simp
  moreover have "reader_rel ver ?rd (?ra\<lparr>rr_seen := map_option ver copy, rr_pending := None\<rparr>)"
    using i(2) by (simp add: reader_rel_def)
  ultimately have rel: "stm_rel ?s (snd (register_step (STM_READ_END i) a))"
    by (intro stm_relI [of _ ob _ ver])
      (use r h(2) u data_shrinks [OF _ h(3)] copy(2)
        in \<open>simp_all add: set_reader_def references_def current_def list_all2_set_reader Let_def\<close>)
  have "read_end i s = Some (the (fst (register_step (STM_READ_END i) a)), ?s)"
  proof (cases "copy = br_last (?rs ! i)")
    case True
    then have "?rd = (?rs ! i)\<lparr>br_pending := None\<rparr>" by simp
    then show ?thesis
      using True h(1) copy same by (simp add: read_end_def Let_def)
  next
    case False
    show ?thesis
    proof (cases copy)
      case None
      then show ?thesis using False h(1) copy same by (simp add: read_end_def Let_def)
    next
      case (Some c)
      have "0 < uses ?p (?rs[i := ?rd]) c"
        using held_le [of i "?rs[i := ?rd]" c] i(1) Some by (simp add: uses_def held_def)
      then obtain x where x: "h c = Some x"
        using counted_pos [OF h(2) [unfolded u]] by blast
      have "data_ok ver (rg_history a) h"
        using data_shrinks h(3) r by blast
      with x have "sc_msg x = rg_history a ! ver c"
        unfolding data_ok_def by blast
      then show ?thesis using False h(1) copy same Some x by (simp add: read_end_def Let_def set_reader_def)
    qed
  qed
  with rel show ?thesis by blast
qed

lemma step_delete_writer:
  assumes "stm_rel_by ver ob s a" "rg_open a"
  shows "if references a = 1 then l_delete_writer s = None
    else \<exists>s'. l_delete_writer s = Some s' \<and> stm_rel s' (a\<lparr>rg_open := False\<rparr>)"
proof -
  note r = stm_relD [OF assms(1)]
  let ?p = "st_copy ob" and ?rs = "stm_readers s"
  obtain c where c: "?p = Some c" using current_copy [OF assms] by blast
  have "0 < uses ?p ?rs d" if "?p = Some d" for d
    using that held_sum_nonneg [of d ?rs] by (simp add: uses_def)
  then obtain h where h: "stm_releasecopy ?p s = Some (s\<lparr>stm_copies := h\<rparr>)" "counted h (\<lambda>d. uses ?p ?rs d - pts ?p d)"
    "shrinks h (stm_copies s)"
    using release_counted [of s "uses ?p ?rs" ?p] r by auto
  have refs: "1 \<le> references a" using assms(2) by (simp add: references_def)
  show ?thesis
  proof (cases "references a = 1")
    case True
    then show ?thesis
      using r c h(1) by (simp add: l_delete_writer_def stm_release_def unlock_object_def Let_def)
  next
    case False
    let ?ob = "ob\<lparr>st_copy := None, st_reference := st_reference ob - 1\<rparr>"
    let ?s = "s\<lparr>stm_copies := h, stm_obj := Some ?ob, stm_writer := False\<rparr>"
    have "l_delete_writer s = Some ?s"
      using r c h(1) False refs by (simp add: l_delete_writer_def stm_release_def unlock_object_def Let_def)
    moreover have "(\<lambda>d. uses ?p ?rs d - pts ?p d) = uses None ?rs"
      by (simp add: fun_eq_iff uses_def)
    with h(2) have "counted h (uses None ?rs)" by simp
    then have "stm_rel ?s (a\<lparr>rg_open := False\<rparr>)"
      by (intro stm_relI [of _ ?ob _ ver])
        (use r assms(2) data_shrinks [OF _ h(3)] in \<open>simp_all add: references_def current_def\<close>)
    ultimately show ?thesis using False by simp
  qed
qed

lemma step_delete_reader:
  assumes "stm_rel_by ver ob s a" "op_allowed (STM_DELETE_READER i) a"
  shows "if references a = 1 then delete_reader_object i s = None
    else \<exists>s'. delete_reader_object i s = Some s' \<and> stm_rel s' (snd (register_step (STM_DELETE_READER i) a))"
proof -
  note r = stm_relD [OF assms(1)]
  let ?rs = "stm_readers s"
  have i: "i < length ?rs" "reader_rel ver (?rs ! i) (rg_readers a ! i)"
    using reader_at [of ver ?rs "rg_readers a" i] r assms(2) by auto
  let ?ra = "(rg_readers a ! i)\<lparr>rr_alive := False\<rparr>" and ?rd = "(?rs ! i)\<lparr>br_obj := False\<rparr>"
  have alive: "length (filter rr_alive ((rg_readers a)[i := ?ra])) + 1 = length (filter rr_alive (rg_readers a))"
    using alive_count [of i "rg_readers a" ?ra] assms(2) by simp
  show ?thesis
  proof (cases "references a = 1")
    case True
    then show ?thesis
      using r by (simp add: delete_reader_object_def stm_releasereader_def unlock_object_def)
  next
    case False
    let ?ob = "ob\<lparr>st_reference := st_reference ob - 1\<rparr>"
    let ?s = "set_reader i ?rd (s\<lparr>stm_obj := Some ?ob\<rparr>)"
    have "delete_reader_object i s = Some ?s"
      using r False by (simp add: delete_reader_object_def stm_releasereader_def unlock_object_def)
    moreover have "uses (st_copy ob) (?rs[i := ?rd]) = uses (st_copy ob) ?rs"
      using i by (simp add: fun_eq_iff uses_update held_def)
    moreover have "reader_rel ver ?rd ?ra"
      using i(2) by (simp add: reader_rel_def)
    ultimately have "delete_reader_object i s = Some ?s \<and> stm_rel ?s (snd (register_step (STM_DELETE_READER i) a))"
      by (intro conjI stm_relI [of _ ?ob _ ver])
        (use r alive in \<open>simp_all add: set_reader_def references_def current_def list_all2_set_reader\<close>)
    then show ?thesis using False by auto
  qed
qed

lemma step_drop_copy:
  assumes "stm_rel_by ver ob s a" "op_allowed (STM_DROP_COPY i) a"
  shows "\<exists>s'. delete_reader_copy i s = Some s' \<and> stm_rel s' (snd (register_step (STM_DROP_COPY i) a))"
proof -
  note r = stm_relD [OF assms(1)]
  let ?rs = "stm_readers s" and ?p = "st_copy ob" and ?last = "br_last (stm_readers s ! i)"
  have i: "i < length ?rs" "reader_rel ver (?rs ! i) (rg_readers a ! i)"
    using reader_at [of ver ?rs "rg_readers a" i] r assms(2) by auto
  let ?ra = "(rg_readers a ! i)\<lparr>rr_seen := None\<rparr>" and ?rd = "(?rs ! i)\<lparr>br_last := None\<rparr>"
  have alive: "length (filter rr_alive ((rg_readers a)[i := ?ra])) = length (filter rr_alive (rg_readers a))"
    using alive_count [of i "rg_readers a" ?ra] assms(2) by simp
  have "0 < uses ?p ?rs c" if "?last = Some c" for c
    using counted_Some [of "stm_copies s" "uses ?p ?rs" c] uses_in_dom(2) [of "stm_copies s" ?p ?rs i c] r i(1) that by auto
  then obtain h where h: "stm_releasecopy ?last s = Some (s\<lparr>stm_copies := h\<rparr>)" "counted h (\<lambda>c. uses ?p ?rs c - pts ?last c)"
    "shrinks h (stm_copies s)"
    using release_counted [of s "uses ?p ?rs" ?last] r by auto
  let ?s = "set_reader i ?rd (s\<lparr>stm_copies := h\<rparr>)"
  have "(\<lambda>c. uses ?p ?rs c - pts ?last c) = uses ?p (?rs[i := ?rd])"
    using i by (simp add: fun_eq_iff uses_update held_def)
  moreover have "reader_rel ver ?rd ?ra"
    using i(2) by (simp add: reader_rel_def)
  ultimately have "stm_rel ?s (snd (register_step (STM_DROP_COPY i) a))"
    by (intro stm_relI [of _ ob _ ver])
      (use r h(2) alive data_shrinks [OF _ h(3)] in \<open>simp_all add: set_reader_def references_def current_def list_all2_set_reader\<close>)
  moreover have "delete_reader_copy i s = Some ?s"
    using h(1) by (simp add: delete_reader_copy_def)
  ultimately show ?thesis by blast
qed

text \<open>What the code relies on: memory that is allocated is not in use.\<close>

definition fresh_alloc :: "allocator \<Rightarrow> bool" where
  "fresh_alloc alloc \<longleftrightarrow> (\<forall>h. finite (dom h) \<longrightarrow> h (alloc h) = None)"

definition safe_op :: "stm_op \<Rightarrow> register \<Rightarrow> bool" where
  "safe_op op a \<longleftrightarrow> op_allowed op a \<and> \<not> last_release op a"

lemma stm_step_refines:
  assumes "fresh_alloc alloc" "stm_rel s a" "safe_op op a"
  shows "\<exists>s'. stm_step alloc op s = Some (fst (register_step op a), s') \<and> stm_rel s' (snd (register_step op a))"
proof -
  obtain ver ob where r: "stm_rel_by ver ob s a" using assms(2) by (auto simp: stm_rel_def)
  have ok: "op_allowed op a" "\<not> last_release op a" using assms(3) by (simp_all add: safe_op_def)
  show ?thesis
  proof (cases op)
    case STM_COPY
    then show ?thesis using step_copy [OF r] ok by auto
  next
    case (STM_UPDATE msg)
    then show ?thesis using step_update [OF r, of alloc msg] ok assms(1) by (auto simp: fresh_alloc_def)
  next
    case STM_DELETE_WRITER
    then show ?thesis using step_delete_writer [OF r] ok by auto
  next
    case STM_NEW_READER
    then show ?thesis using step_new_reader [OF r] ok by simp
  next
    case (STM_READ_BEGIN i)
    then show ?thesis using step_read_begin [OF r, of i] ok by auto
  next
    case (STM_READ_END i)
    then show ?thesis using step_read_end [OF r, of i] ok by (auto simp: Let_def)
  next
    case (STM_DELETE_READER i)
    then show ?thesis using step_delete_reader [OF r, of i] ok by auto
  next
    case (STM_DROP_COPY i)
    then show ?thesis using step_drop_copy [OF r, of i] ok by auto
  qed
qed

interpretation stm: step_refinement fresh_alloc stm_rel stm_step register_step safe_op
  by unfold_locales (rule stm_step_refines)

lemma new_writer_rel:
  assumes "fresh_alloc alloc"
  shows "stm_rel (l_new_writer alloc msg) (new_register msg)"
  by (rule stm_relI [of _ "\<lparr>st_reference = 1, st_copy = Some (alloc Map.empty)\<rparr>" _ "\<lambda>_. 0"])
    (auto simp: l_new_writer_def stm_new_def stm_newcopy_def new_register_def references_def current_def data_ok_def
      counted_def uses_def inj_on_def dom_def Let_def split: if_splits)


text \<open>The first free address, so that addresses are reused at once.\<close>

definition first_free :: allocator where
  "first_free h = (LEAST n. h n = None)"

lemma first_free_ok: "fresh_alloc first_free"
proof -
  have "\<exists>n. h n = None" if "finite (dom h)" for h :: "nat \<rightharpoonup> stm_copy"
    using that infinite_UNIV_nat by (metis UNIV_eq_I domIff)
  then show ?thesis
    unfolding fresh_alloc_def first_free_def by (metis (mono_tags, lifting) LeastI_ex)
qed


lemma last_release_fails:
  assumes "stm_rel s a" "op_allowed op a" "last_release op a"
  shows "stm_step alloc op s = None"
proof -
  obtain ver ob where r: "stm_rel_by ver ob s a" using assms(1) by (auto simp: stm_rel_def)
  show ?thesis
  proof (cases op)
    case STM_DELETE_WRITER
    then show ?thesis using step_delete_writer [OF r] assms(2,3) by simp
  next
    case (STM_DELETE_READER i)
    then show ?thesis using step_delete_reader [OF r, of i] assms(2,3) by simp
  qed (use assms(3) in auto)
qed

text \<open>
  C35. Giving back the last reference always touches freed memory: after every run that follows the
  protocol, whoever releases the object last, writer or reader, deletes it while the lock guard
  still refers to the mutex in it.
\<close>

theorem stm_last_release_fails:
  assumes "fresh_alloc alloc" "steps_allowed safe_op register_step ops (new_register msg)"
    and "op_allowed op (snd (spec_steps register_step ops (new_register msg)))"
    and "last_release op (snd (spec_steps register_step ops (new_register msg)))"
  shows "\<exists>rs s. run_steps (stm_step alloc) ops (l_new_writer alloc msg) = Some (rs, s) \<and> stm_step alloc op s = None"
  using stm.steps_refine [OF assms(1) new_writer_rel [OF assms(1)] assms(2)] last_release_fails assms(3,4) by blast

theorem stm_last_release_fails_witness:
  "stm_step first_free STM_DELETE_WRITER (l_new_writer first_free [1]) = None"
  using stm_last_release_fails [OF first_free_ok, of "[]" "[1]" STM_DELETE_WRITER]
  by (simp add: new_register_def references_def)

end
