(* ===== verification/Mod_Manager.thy ===== *)
theory Mod_Manager
  imports Skynet_Prelude "HOL-Library.AList"
begin

text \<open>
  The loader of C service plug-ins (\<open>skynet-src/mod\<close>). The dynamic linker is a parameter: \<open>dlopen\<close>
  gives the handle of a library or fails, \<open>dlsym\<close> finds a symbol in it. The state counts the
  references to each handle, which \<open>dlclose\<close> gives back. \<open>None\<close> is \<open>exit(1)\<close>.
\<close>

subsection \<open>State\<close>

type_synonym dl_open = "string \<Rightarrow> nat option"
type_synonym dl_sym = "nat \<Rightarrow> string \<Rightarrow> nat option"
type_synonym dl_refs = "nat \<Rightarrow> nat"

record dll_loader =
  dll_handle :: "nat option"

record service_mod_info =
  mi_name :: string
  mi_loader :: dll_loader
  mi_create :: "nat option"
  mi_release :: "nat option"

record mod_manager =
  mm_search_path :: string
  mm_map :: "(string \<times> service_mod_info) list"
  mm_refs :: dl_refs

subsection \<open>One library\<close>

definition is_loaded :: "dll_loader \<Rightarrow> bool" where
  "is_loaded d \<longleftrightarrow> dll_handle d \<noteq> None"

definition dll_load :: "dl_open \<Rightarrow> string \<Rightarrow> dll_loader \<Rightarrow> dl_refs \<Rightarrow> bool \<times> dll_loader \<times> dl_refs" where
  "dll_load dlopen filename d refs =
     (if is_loaded d then (True, d, refs)
      else if filename \<noteq> [] then
        (case dlopen filename of
           None \<Rightarrow> (False, d\<lparr>dll_handle := None\<rparr>, refs)
         | Some h \<Rightarrow> (True, d\<lparr>dll_handle := Some h\<rparr>, refs(h := refs h + 1)))
      else (False, d, refs))"

definition dll_unload :: "dll_loader \<Rightarrow> dl_refs \<Rightarrow> dll_loader \<times> dl_refs" where
  "dll_unload d refs =
     (case dll_handle d of
        None \<Rightarrow> (d, refs)
      | Some h \<Rightarrow> (d\<lparr>dll_handle := None\<rparr>, refs(h := refs h - 1)))"

definition get_symbol :: "dl_sym \<Rightarrow> string \<Rightarrow> dll_loader \<Rightarrow> nat option" where
  "get_symbol dlsym symbol d = (case dll_handle d of None \<Rightarrow> None | Some h \<Rightarrow> dlsym h symbol)"

subsection \<open>The search path\<close>

text \<open>
  The split at semicolons by \<open>sregex_token_iterator\<close>: the text after the last separator is left out
  when it is empty, and a path without a separator is one token.
\<close>

function split_rest :: "string \<Rightarrow> string list" where
  "split_rest s =
     (case dropWhile (\<lambda>c. c \<noteq> CHR '';'') s of
        [] \<Rightarrow> if s = [] then [] else [s]
      | _ # r \<Rightarrow> takeWhile (\<lambda>c. c \<noteq> CHR '';'') s # split_rest r)"
  by pat_completeness auto
termination
proof (relation "measure length", simp, goal_cases)
  case (1 s c r)
  then have "length (dropWhile (\<lambda>c. c \<noteq> CHR '';'') s) = Suc (length r)" by simp
  with length_dropWhile_le [of "\<lambda>c. c \<noteq> CHR '';''" s] show ?case by simp
qed

declare split_rest.simps [simp del]

definition split_paths :: "string \<Rightarrow> string list" where
  "split_paths s = (if CHR '';'' \<in> set s then split_rest s else [s])"

text \<open>The path with the name in place of the first question mark.\<close>

definition mod_path :: "string \<Rightarrow> string \<Rightarrow> string" where
  "mod_path path name = takeWhile (\<lambda>c. c \<noteq> CHR ''?'') path @ name @ tl (dropWhile (\<lambda>c. c \<noteq> CHR ''?'') path)"

fun try_paths :: "dl_open \<Rightarrow> string \<Rightarrow> string list \<Rightarrow> dll_loader \<Rightarrow> dl_refs \<Rightarrow> (dll_loader \<times> dl_refs) option" where
  "try_paths dlopen name [] d refs = Some (d, refs)"
| "try_paths dlopen name (path # paths) d refs =
     (if CHR ''?'' \<notin> set path then None
      else
        (case dll_load dlopen (mod_path path name) d refs of
           (ok, d1, refs1) \<Rightarrow> if ok then Some (d1, refs1) else try_paths dlopen name paths d1 refs1))"

subsection \<open>The manager\<close>

definition mod_init :: "string \<Rightarrow> mod_manager \<Rightarrow> mod_manager" where
  "mod_init path m = m\<lparr>mm_search_path := path\<rparr>"

definition mod_query :: "string \<Rightarrow> mod_manager \<Rightarrow> service_mod_info option" where
  "mod_query name m = map_of (mm_map m) name"

definition try_load_dll :: "dl_open \<Rightarrow> string \<Rightarrow> mod_manager \<Rightarrow> (service_mod_info option \<times> mod_manager) option" where
  "try_load_dll dlopen name m =
     do {
       (d, refs) \<leftarrow> try_paths dlopen name (split_paths (mm_search_path m)) \<lparr>dll_handle = None\<rparr> (mm_refs m);
       Some (if is_loaded d
             then Some \<lparr>mi_name = name, mi_loader = d, mi_create = None, mi_release = None\<rparr>
             else None,
             m\<lparr>mm_refs := refs\<rparr>)
     }"

text \<open>\<open>load\<close>: a library without the two functions is deleted, which closes it.\<close>

definition mod_load :: "dl_open \<Rightarrow> dl_sym \<Rightarrow> string \<Rightarrow> mod_manager \<Rightarrow> (service_mod_info option \<times> mod_manager) option" where
  "mod_load dlopen dlsym name m =
     do {
       (r, m1) \<leftarrow> try_load_dll dlopen name m;
       case r of
         None \<Rightarrow> Some (None, m1)
       | Some info \<Rightarrow>
           let info1 = info\<lparr>mi_create := get_symbol dlsym ''create_service'' (mi_loader info),
                            mi_release := get_symbol dlsym ''release_service'' (mi_loader info)\<rparr> in
           if mi_create info1 = None \<or> mi_release info1 = None
           then Some (None, m1\<lparr>mm_refs := snd (dll_unload (mi_loader info1) (mm_refs m1))\<rparr>)
           else Some (Some info1, m1\<lparr>mm_map := AList.update name info1 (mm_map m1)\<rparr>)
     }"

fun unload_all :: "(string \<times> service_mod_info) list \<Rightarrow> dl_refs \<Rightarrow> dl_refs" where
  "unload_all [] refs = refs"
| "unload_all ((name, info) # r) refs = unload_all r (snd (dll_unload (mi_loader info) refs))"

definition mod_fini :: "mod_manager \<Rightarrow> mod_manager" where
  "mod_fini m = m\<lparr>mm_refs := unload_all (mm_map m) (mm_refs m), mm_map := []\<rparr>"

text \<open>How \<open>create_service\<close> gets a module: it is loaded when it is not known.\<close>

definition mod_ensure :: "dl_open \<Rightarrow> dl_sym \<Rightarrow> string \<Rightarrow> mod_manager \<Rightarrow> (service_mod_info option \<times> mod_manager) option" where
  "mod_ensure dlopen dlsym name m =
     (case mod_query name m of
        Some info \<Rightarrow> Some (Some info, m)
      | None \<Rightarrow> mod_load dlopen dlsym name m)"

subsection \<open>Searching\<close>

definition path_opens :: "dl_open \<Rightarrow> string \<Rightarrow> string \<Rightarrow> bool" where
  "path_opens dlopen name path \<longleftrightarrow> mod_path path name \<noteq> [] \<and> dlopen (mod_path path name) \<noteq> None"

lemma try_paths_exact:
  "try_paths dlopen name paths \<lparr>dll_handle = None\<rparr> refs =
     (case dropWhile (\<lambda>p. CHR ''?'' \<in> set p \<and> \<not> path_opens dlopen name p) paths of
        [] \<Rightarrow> Some (\<lparr>dll_handle = None\<rparr>, refs)
      | p # _ \<Rightarrow>
          if CHR ''?'' \<notin> set p then None
          else let h = the (dlopen (mod_path p name)) in Some (\<lparr>dll_handle = Some h\<rparr>, refs(h := refs h + 1)))"
  by (induction paths) (auto simp: path_opens_def dll_load_def is_loaded_def split: option.split)

text \<open>
  C34. Loading a module, on every branch: the elements of the search path are tried in order, with the
  name in place of the question mark. The first one that opens decides: if it has both functions, the
  module is recorded under its name with one reference to the library, otherwise the library is
  closed again and nothing changes. An element without a question mark that is reached ends the
  process; when no element opens, nothing changes.
\<close>

theorem mod_load_exact:
  "mod_load dlopen dlsym name m =
     (case dropWhile (\<lambda>p. CHR ''?'' \<in> set p \<and> \<not> path_opens dlopen name p) (split_paths (mm_search_path m)) of
        [] \<Rightarrow> Some (None, m)
      | p # _ \<Rightarrow>
          if CHR ''?'' \<notin> set p then None
          else
            let h = the (dlopen (mod_path p name));
                info = \<lparr>mi_name = name, mi_loader = \<lparr>dll_handle = Some h\<rparr>,
                        mi_create = dlsym h ''create_service'', mi_release = dlsym h ''release_service''\<rparr> in
            if dlsym h ''create_service'' = None \<or> dlsym h ''release_service'' = None then Some (None, m)
            else Some (Some info, m\<lparr>mm_map := AList.update name info (mm_map m), mm_refs := (mm_refs m)(h := mm_refs m h + 1)\<rparr>))"
proof (cases "dropWhile (\<lambda>p. CHR ''?'' \<in> set p \<and> \<not> path_opens dlopen name p) (split_paths (mm_search_path m))")
  case Nil
  then show ?thesis
    unfolding mod_load_def try_load_dll_def try_paths_exact Nil by (simp add: is_loaded_def)
next
  case (Cons p ps)
  show ?thesis
    unfolding mod_load_def try_load_dll_def try_paths_exact Cons
    by (simp add: is_loaded_def get_symbol_def dll_unload_def Let_def)
qed

subsection \<open>References\<close>

text \<open>The number of modules that use a library.\<close>

definition users :: "(string \<times> service_mod_info) list \<Rightarrow> nat \<Rightarrow> nat" where
  "users es h = length (filter (\<lambda>e. dll_handle (mi_loader (snd e)) = Some h) es)"

definition refs_inv :: "mod_manager \<Rightarrow> bool" where
  "refs_inv m \<longleftrightarrow> distinct (map fst (mm_map m)) \<and> mm_refs m = users (mm_map m)"

lemma update_new: "k \<notin> fst ` set es \<Longrightarrow> AList.update k v es = es @ [(k, v)]"
  by (induction es) auto

lemma mod_ensure_inv:
  assumes "refs_inv m" "mod_ensure dlopen dlsym name m = Some (r, m')"
  shows "refs_inv m' \<and> mod_query name m' = r \<and> (\<forall>k. k \<noteq> name \<longrightarrow> mod_query k m' = mod_query k m)"
proof (cases "mod_query name m")
  case (Some info)
  with assms show ?thesis by (auto simp: mod_ensure_def)
next
  case None
  then have new: "name \<notin> fst ` set (mm_map m)"
    by (simp add: mod_query_def map_of_eq_None_iff)
  then have "AList.update name i (mm_map m) = mm_map m @ [(name, i)]" for i
    by (rule update_new)
  then show ?thesis
    using assms None new
    by (auto simp: mod_ensure_def mod_load_exact refs_inv_def users_def mod_query_def fun_eq_iff Let_def map_add_def
        split: list.splits if_splits option.splits)
qed

fun mod_run :: "dl_open \<Rightarrow> dl_sym \<Rightarrow> string list \<Rightarrow> mod_manager \<Rightarrow> mod_manager option" where
  "mod_run dlopen dlsym [] m = Some m"
| "mod_run dlopen dlsym (name # names) m =
     do { (r, m1) \<leftarrow> mod_ensure dlopen dlsym name m; mod_run dlopen dlsym names m1 }"

lemma mod_run_inv: "mod_run dlopen dlsym names m = Some m' \<Longrightarrow> refs_inv m \<Longrightarrow> refs_inv m'"
proof (induction names arbitrary: m)
  case (Cons name names)
  then show ?case
    using mod_ensure_inv [of m dlopen dlsym name] by (auto split: bind_splits)
qed simp

lemma unload_all_refs: "unload_all es (\<lambda>h. users es h + n h) = n"
proof (induction es arbitrary: n)
  case (Cons e es)
  obtain name info where e: "e = (name, info)" by fastforce
  have "snd (dll_unload (mi_loader info) (\<lambda>h. users (e # es) h + n h)) = (\<lambda>h. users es h + n h)"
    by (auto simp: e users_def dll_unload_def fun_eq_iff split: option.split)
  then show ?case
    using Cons by (simp add: e)
qed (simp add: users_def)

definition mod_fresh :: "string \<Rightarrow> mod_manager" where
  "mod_fresh path = mod_init path \<lparr>mm_search_path = [], mm_map = [], mm_refs = \<lambda>_. 0\<rparr>"

text \<open>
  Libraries are opened and closed in balance: after any sequence of services was started, every
  module is in the table once and the references to each library are as many as the modules that use
  it, so \<open>fini\<close> gives all of them back.
\<close>

theorem mod_references_balanced:
  assumes "mod_run dlopen dlsym names (mod_fresh path) = Some m"
  shows "distinct (map fst (mm_map m)) \<and> mm_refs m = users (mm_map m) \<and> mm_refs (mod_fini m) = (\<lambda>_. 0) \<and> mm_map (mod_fini m) = []"
proof -
  have "refs_inv (mod_fresh path)"
    by (simp add: mod_fresh_def mod_init_def refs_inv_def users_def fun_eq_iff)
  with mod_run_inv [OF assms] have "refs_inv m" .
  then show ?thesis
    using unload_all_refs [of "mm_map m" "\<lambda>_. 0"] by (simp add: refs_inv_def mod_fini_def)
qed

theorem mod_references_balanced_witness:
  "mod_run (\<lambda>f. if f = ''b/snlua.so'' then Some 1 else None) (\<lambda>h s. Some 2) [''snlua'', ''snlua''] (mod_fresh ''a/?.so;b/?.so'')
     = Some \<lparr>mm_search_path = ''a/?.so;b/?.so'', mm_map = [(''snlua'', \<lparr>mi_name = ''snlua'', mi_loader = \<lparr>dll_handle = Some 1\<rparr>,
         mi_create = Some 2, mi_release = Some 2\<rparr>)], mm_refs = (\<lambda>_. 0)(1 := 1)\<rparr> \<and>
   mm_refs (mod_fini \<lparr>mm_search_path = ''a/?.so;b/?.so'', mm_map = [(''snlua'', \<lparr>mi_name = ''snlua'', mi_loader = \<lparr>dll_handle = Some 1\<rparr>,
         mi_create = Some 2, mi_release = Some 2\<rparr>)], mm_refs = (\<lambda>_. 0)(1 := 1)\<rparr>) = (\<lambda>_. 0)"
    (is "?run = Some ?m \<and> _")
proof -
  have "split_paths ''a/?.so;b/?.so'' = [''a/?.so'', ''b/?.so'']"
    by code_simp
  then have run: "?run = Some ?m"
    by (simp add: mod_fresh_def mod_init_def mod_ensure_def mod_query_def mod_load_exact path_opens_def mod_path_def Let_def)
  then show ?thesis
    using mod_references_balanced [OF run] by blast
qed

text \<open>Loading a module that is known, as two workers do when both find it missing, loses a reference.\<close>

theorem second_load_leaks:
  "\<exists>m1 m2 i. mod_load (\<lambda>_. Some 1) (\<lambda>_ _. Some 2) ''snlua'' (mod_fresh ''?'') = Some (Some i, m1) \<and>
     mod_load (\<lambda>_. Some 1) (\<lambda>_ _. Some 2) ''snlua'' m1 = Some (Some i, m2) \<and> mm_refs (mod_fini m2) 1 = 1"
proof -
  let ?i = "\<lparr>mi_name = ''snlua'', mi_loader = \<lparr>dll_handle = Some 1\<rparr>, mi_create = Some 2, mi_release = Some 2\<rparr>"
  let ?m = "\<lambda>n. \<lparr>mm_search_path = ''?'', mm_map = [(''snlua'', ?i)], mm_refs = (\<lambda>_. 0)(1 := n)\<rparr>"
  have one: "mod_load (\<lambda>_. Some 1) (\<lambda>_ _. Some 2) ''snlua'' (mod_fresh ''?'') = Some (Some ?i, ?m 1)"
    by (simp add: mod_load_exact mod_fresh_def mod_init_def split_paths_def path_opens_def mod_path_def Let_def)
  have two: "mod_load (\<lambda>_. Some 1) (\<lambda>_ _. Some 2) ''snlua'' (?m 1) = Some (Some ?i, ?m 2)"
    by (simp add: mod_load_exact split_paths_def path_opens_def mod_path_def Let_def numeral_2_eq_2)
  have "mm_refs (mod_fini (?m 2)) 1 = 1"
    by (simp add: mod_fini_def dll_unload_def)
  with one two show ?thesis by blast
qed

end
