(* ===== verification/Sharedata.thy ===== *)
theory Sharedata
  imports Skynet_Prelude
begin

text \<open>
  Configuration tables that services share without copying (\<open>luaclib-src/lua-sharedata.cpp\<close>): a Lua
  table is converted once into arrays and hash tables in C memory, with the strings in the stack of a
  Lua state of its own; then any service looks up keys and iterates.
\<close>

subsection \<open>Lua tables\<close>

text \<open>
  A Lua table as the conversion sees it: \<open>lua_rawlen\<close>, and the entries in the order of \<open>lua_next\<close>.
  Reals are their bit patterns.
\<close>

datatype lua_key = LK_INTEGER u64 | LK_FLOAT u64 | LK_STRING bytes | LK_TABLE | LK_OTHER

datatype lua_val =
    LV_REAL u64
  | LV_INTEGER u64
  | LV_STRING bytes
  | LV_BOOLEAN bool
  | LV_TABLE lua_tab
  | LV_OTHER
and lua_tab = LT (lt_rawlen: nat) (lt_entries: "(lua_key \<times> lua_val) list")

subsection \<open>Converted tables\<close>

datatype keytype = KEYTYPE_INTEGER | KEYTYPE_STRING

text \<open>The key is an integer or the index of a string; \<open>next\<close> is negative at the end of a chain.\<close>

datatype conf_val =
    VALUE_NIL
  | VALUE_REAL u64
  | VALUE_INTEGER u64
  | VALUE_STRING nat
  | VALUE_BOOLEAN bool
  | VALUE_TABLE conf_tab
and conf_node =
    NODE (nd_value: conf_val) (nd_key: int) (nd_next: int) (nd_keyhash: u32) (nd_keytype: keytype) (nd_nocolliding: bool)
and conf_tab = CONF (cf_array: "conf_val list") (cf_hash: "conf_node list")

datatype conf_error = CONF_KEY | CONF_KEY_TYPE | CONF_VALUE_TYPE | CONF_STACK | CONF_ABORT

text \<open>
  The strings of a conversion: the one with index \<open>i + 2\<close> is at position \<open>i\<close>; the first index is
  reserved.
\<close>

type_synonym stringmap = "bytes list"

type_synonym 'a conv = "conf_error + 'a \<times> stringmap"

definition bind_conv :: "'a conv \<Rightarrow> ('a \<Rightarrow> stringmap \<Rightarrow> 'b conv) \<Rightarrow> 'b conv" where
  "bind_conv m f = (case m of Inl e \<Rightarrow> Inl e | Inr (a, c) \<Rightarrow> f a c)"

subsection \<open>Keys\<close>

text \<open>\<open>countsize\<close>: the number of entries outside of the array part.\<close>

fun countsize :: "nat \<Rightarrow> (lua_key \<times> lua_val) list \<Rightarrow> conf_error + nat" where
  "countsize sizearray [] = Inr 0"
| "countsize sizearray ((k, v) # es) =
     (case k of
        LK_FLOAT x \<Rightarrow> Inl CONF_KEY
      | LK_OTHER \<Rightarrow> Inl CONF_KEY_TYPE
      | _ \<Rightarrow>
          (case countsize sizearray es of
             Inl e \<Rightarrow> Inl e
           | Inr n \<Rightarrow>
               Inr (case k of
                      LK_INTEGER i \<Rightarrow> if 0 < sint i \<and> sint i \<le> int sizearray then n else n + 1
                    | _ \<Rightarrow> n + 1)))"

function calchash_loop :: "bytes \<Rightarrow> nat \<Rightarrow> nat \<Rightarrow> u32 \<Rightarrow> u32" where
  "calchash_loop str step l1 h =
     (if step \<le> l1 \<and> 0 < step
      then calchash_loop str step (l1 - step) (h XOR (push_bit 5 h + drop_bit 2 h + ucast (str ! (l1 - 1))))
      else h)"
  by pat_completeness auto
termination
  by (relation "measure (\<lambda>(str, step, l1, h). l1)") auto

declare calchash_loop.simps [simp del]

definition calchash :: "bytes \<Rightarrow> u32" where
  "calchash str = calchash_loop str (drop_bit 5 (length str) + 1) (length str) (of_nat (length str))"

fun position :: "'a \<Rightarrow> 'a list \<Rightarrow> nat" where
  "position x [] = 0"
| "position x (y # ys) = (if x = y then 0 else Suc (position x ys))"

definition stringindex :: "bytes \<Rightarrow> stringmap \<Rightarrow> nat \<times> stringmap" where
  "stringindex str strs =
     (if str \<in> set strs then (position str strs + 2, strs) else (length strs + 2, strs @ [str]))"

text \<open>
  \<open>ishashkey\<close>: an index of the array, or the key with its hash. An integer key is cut to an \<open>int\<close>;
  \<open>lua_tolstring\<close> gives a null pointer of length 0 for a key that is neither number nor string.
\<close>

definition key_text :: "lua_key \<Rightarrow> bytes" where
  "key_text k = (case k of LK_STRING s \<Rightarrow> s | _ \<Rightarrow> [])"

definition ishashkey :: "nat \<Rightarrow> lua_key \<Rightarrow> stringmap \<Rightarrow> (nat + int \<times> u32 \<times> keytype) \<times> stringmap" where
  "ishashkey sizearray k strs =
     (case k of
        LK_INTEGER i \<Rightarrow>
          let key = sint (ucast i :: u32) in
          if 0 < key \<and> key \<le> int sizearray then (Inl (nat key), strs)
          else (Inr (key, ucast i, KEYTYPE_INTEGER), strs)
      | _ \<Rightarrow>
          let (i, strs1) = stringindex (key_text k) strs in
          (Inr (int i, calchash (key_text k), KEYTYPE_STRING), strs1))"

subsection \<open>Filling a table\<close>

text \<open>\<open>setvalue\<close>, with the conversion of nested tables as an argument.\<close>

definition setvalue :: "(lua_tab \<Rightarrow> stringmap \<Rightarrow> conf_tab conv) \<Rightarrow> lua_val \<Rightarrow> stringmap \<Rightarrow> conf_val conv" where
  "setvalue conv v strs =
     (case v of
        LV_INTEGER i \<Rightarrow> Inr (VALUE_INTEGER i, strs)
      | LV_REAL x \<Rightarrow> Inr (VALUE_REAL x, strs)
      | LV_STRING s \<Rightarrow> let (i, strs1) = stringindex s strs in Inr (VALUE_STRING i, strs1)
      | LV_BOOLEAN b \<Rightarrow> Inr (VALUE_BOOLEAN b, strs)
      | LV_TABLE t \<Rightarrow> bind_conv (conv t strs) (\<lambda>tbl strs1. Inr (VALUE_TABLE tbl, strs1))
      | LV_OTHER \<Rightarrow> Inl CONF_VALUE_TYPE)"

abbreviation conf_slot :: "u32 \<Rightarrow> conf_node list \<Rightarrow> nat" where
  "conf_slot keyhash hash \<equiv> unat keyhash mod length hash"

fun fillnocolliding ::
  "(lua_tab \<Rightarrow> stringmap \<Rightarrow> conf_tab conv) \<Rightarrow> (lua_key \<times> lua_val) list \<Rightarrow> conf_val list \<Rightarrow> conf_node list \<Rightarrow> stringmap \<Rightarrow>
   (conf_val list \<times> conf_node list) conv" where
  "fillnocolliding conv [] arr hash strs = Inr ((arr, hash), strs)"
| "fillnocolliding conv ((k, v) # es) arr hash strs =
     (case ishashkey (length arr) k strs of
        (Inl i, strs1) \<Rightarrow>
          bind_conv (setvalue conv v strs1) (\<lambda>x strs2. fillnocolliding conv es (arr[i - 1 := x]) hash strs2)
      | (Inr (key, keyhash, kt), strs1) \<Rightarrow>
          let i = conf_slot keyhash hash in
          if nd_value (hash ! i) = VALUE_NIL then
            bind_conv (setvalue conv v strs1)
              (\<lambda>x strs2. fillnocolliding conv es arr (hash[i := NODE x key (-1) keyhash kt True]) strs2)
          else fillnocolliding conv es arr hash strs1)"

text \<open>The first empty slot from a position on.\<close>

fun find_empty :: "conf_node list \<Rightarrow> nat \<Rightarrow> nat option" where
  "find_empty [] i = None"
| "find_empty (n # ns) i = (if nd_value n = VALUE_NIL then Some i else find_empty ns (Suc i))"

text \<open>The new node takes over the chain of the main position, which then points to it.\<close>

fun fillcolliding ::
  "(lua_tab \<Rightarrow> stringmap \<Rightarrow> conf_tab conv) \<Rightarrow> (lua_key \<times> lua_val) list \<Rightarrow> nat \<Rightarrow> conf_node list \<Rightarrow> nat \<Rightarrow> stringmap \<Rightarrow>
   conf_node list conv" where
  "fillcolliding conv [] sizearray hash emptyslot strs = Inr (hash, strs)"
| "fillcolliding conv ((k, v) # es) sizearray hash emptyslot strs =
     (case ishashkey sizearray k strs of
        (Inl i, strs1) \<Rightarrow> fillcolliding conv es sizearray hash emptyslot strs1
      | (Inr (key, keyhash, kt), strs1) \<Rightarrow>
          let p = conf_slot keyhash hash; m = hash ! p in
          if nd_keytype m = kt \<and> nd_key m = key then fillcolliding conv es sizearray hash emptyslot strs1
          else
            (case find_empty (drop emptyslot hash) emptyslot of
               None \<Rightarrow> Inl CONF_ABORT
             | Some i \<Rightarrow>
                 let hash1 = hash[p := NODE (nd_value m) (nd_key m) (int i) (nd_keyhash m) (nd_keytype m) False] in
                 bind_conv (setvalue conv v strs1)
                   (\<lambda>x strs2. fillcolliding conv es sizearray
                      (hash1[i := NODE x key (if i = p then int i else nd_next m) keyhash kt False]) (Suc i) strs2)))"

fun raw_geti :: "(lua_key \<times> lua_val) list \<Rightarrow> nat \<Rightarrow> lua_val option" where
  "raw_geti es i = map_of es (LK_INTEGER (of_nat i))"

text \<open>The loop of \<open>convtable\<close> for a table with nothing outside of the array part.\<close>

fun fillarray ::
  "(lua_tab \<Rightarrow> stringmap \<Rightarrow> conf_tab conv) \<Rightarrow> (lua_key \<times> lua_val) list \<Rightarrow> nat list \<Rightarrow> conf_val list \<Rightarrow> stringmap \<Rightarrow>
   conf_val list conv" where
  "fillarray conv es [] arr strs = Inr (arr, strs)"
| "fillarray conv es (i # is) arr strs =
     (case raw_geti es i of
        None \<Rightarrow> fillarray conv es is (arr[i - 1 := VALUE_NIL]) strs
      | Some v \<Rightarrow> bind_conv (setvalue conv v strs) (\<lambda>x strs1. fillarray conv es is (arr[i - 1 := x]) strs1))"

text \<open>An empty slot; the key fields of fresh memory are arbitrary.\<close>

definition empty_node :: "int \<times> int \<times> u32 \<times> keytype \<Rightarrow> conf_node" where
  "empty_node g = (case g of (key, next, keyhash, kt) \<Rightarrow> NODE VALUE_NIL key next keyhash kt False)"

text \<open>
  \<open>convtable\<close>: nested tables are converted by nested calls, whose number Lua limits; beyond it the
  call fails. \<open>g\<close> is the content of fresh memory.
\<close>

primrec convtable :: "(nat \<Rightarrow> int \<times> int \<times> u32 \<times> keytype) \<Rightarrow> nat \<Rightarrow> lua_tab \<Rightarrow> stringmap \<Rightarrow> conf_tab conv" where
  "convtable g 0 t strs = Inl CONF_STACK"
| "convtable g (Suc d) t strs =
     (let sizearray = lt_rawlen t; arr = replicate sizearray VALUE_NIL in
      case countsize sizearray (lt_entries t) of
        Inl e \<Rightarrow> Inl e
      | Inr sizehash \<Rightarrow>
          if sizehash \<noteq> 0 then
            bind_conv (fillnocolliding (convtable g d) (lt_entries t) arr (map (\<lambda>i. empty_node (g i)) [0..<sizehash]) strs)
              (\<lambda>(arr1, hash) strs1.
                 bind_conv (fillcolliding (convtable g d) (lt_entries t) sizearray hash 0 strs1)
                   (\<lambda>hash1 strs2. Inr (CONF arr1 hash1, strs2)))
          else
            bind_conv (fillarray (convtable g d) (lt_entries t) [1..<Suc sizearray] arr strs)
              (\<lambda>arr1 strs1. Inr (CONF arr1 [], strs1)))"

subsection \<open>Reading\<close>

definition conf_string :: "stringmap \<Rightarrow> nat \<Rightarrow> bytes option" where
  "conf_string strs i = (if 2 \<le> i \<and> i - 2 < length strs then Some (strs ! (i - 2)) else None)"

text \<open>What Lua gets: \<open>None\<close> is an access outside of the stack of strings.\<close>

datatype lua_result = RES_NIL | RES_REAL u64 | RES_INTEGER u64 | RES_STRING bytes | RES_BOOLEAN bool | RES_TABLE conf_tab

definition pushvalue :: "stringmap \<Rightarrow> conf_val \<Rightarrow> lua_result option" where
  "pushvalue strs v =
     (case v of
        VALUE_NIL \<Rightarrow> Some RES_NIL
      | VALUE_REAL x \<Rightarrow> Some (RES_REAL x)
      | VALUE_INTEGER i \<Rightarrow> Some (RES_INTEGER i)
      | VALUE_STRING i \<Rightarrow> map_option RES_STRING (conf_string strs i)
      | VALUE_BOOLEAN b \<Rightarrow> Some (RES_BOOLEAN b)
      | VALUE_TABLE t \<Rightarrow> Some (RES_TABLE t))"

text \<open>
  \<open>lookup_key\<close>: the position of the node. The chain is followed by fuel; outside of a chain of nodes
  the result is \<open>None\<close>.
\<close>

definition node_matches :: "stringmap \<Rightarrow> u32 \<Rightarrow> int \<Rightarrow> keytype \<Rightarrow> bytes \<Rightarrow> conf_node \<Rightarrow> bool option" where
  "node_matches strs keyhash key kt str n =
     (if keyhash = nd_keyhash n then
        (case nd_keytype n of
           KEYTYPE_INTEGER \<Rightarrow> Some (kt = KEYTYPE_INTEGER \<and> nd_key n = key)
         | KEYTYPE_STRING \<Rightarrow>
             if kt = KEYTYPE_STRING then do { str2 \<leftarrow> conf_string strs (nat (nd_key n)); Some (str = str2) } else Some False)
      else Some False)"

fun lookup_chain ::
  "nat \<Rightarrow> conf_node list \<Rightarrow> stringmap \<Rightarrow> u32 \<Rightarrow> int \<Rightarrow> keytype \<Rightarrow> bytes \<Rightarrow> nat \<Rightarrow> nat option option" where
  "lookup_chain 0 hash strs keyhash key kt str i = None"
| "lookup_chain (Suc f) hash strs keyhash key kt str i =
     (if length hash \<le> i then None
      else
        do {
          let n = hash ! i;
          hit \<leftarrow> node_matches strs keyhash key kt str n;
          if hit then Some (Some i)
          else if nd_next n < 0 then Some None
          else lookup_chain f hash strs keyhash key kt str (nat (nd_next n))
        })"

definition lookup_key :: "conf_node list \<Rightarrow> stringmap \<Rightarrow> u32 \<Rightarrow> int \<Rightarrow> keytype \<Rightarrow> bytes \<Rightarrow> nat option option" where
  "lookup_key hash strs keyhash key kt str =
     (if hash = [] then Some None
      else
        let i = conf_slot keyhash hash in
        if keyhash \<noteq> nd_keyhash (hash ! i) \<and> nd_nocolliding (hash ! i) then Some None
        else lookup_chain (length hash + 1) hash strs keyhash key kt str i)"

text \<open>The error of \<open>luaL_checklstring\<close> for other keys is \<open>Some (Inl CONF_KEY_TYPE)\<close>.\<close>

definition lindexconf :: "stringmap \<Rightarrow> conf_tab \<Rightarrow> lua_key \<Rightarrow> (conf_error + lua_result) option" where
  "lindexconf strs t k =
     (let by_hash = (\<lambda>keyhash key kt str.
            do {
              r \<leftarrow> lookup_key (cf_hash t) strs keyhash key kt str;
              case r of
                None \<Rightarrow> Some (Inr RES_NIL)
              | Some i \<Rightarrow> map_option Inr (pushvalue strs (nd_value (cf_hash t ! i)))
            }) in
      case k of
        LK_FLOAT x \<Rightarrow> Some (Inl CONF_KEY)
      | LK_INTEGER i \<Rightarrow>
          let key = sint (ucast i :: u32) in
          if 0 < key \<and> key \<le> int (length (cf_array t)) then map_option Inr (pushvalue strs (cf_array t ! (nat key - 1)))
          else by_hash (ucast i) key KEYTYPE_INTEGER []
      | LK_STRING s \<Rightarrow> by_hash (calchash s) 0 KEYTYPE_STRING s
      | _ \<Rightarrow> Some (Inl CONF_KEY_TYPE))"

text \<open>\<open>pushkey\<close> and \<open>lnextkey\<close>: the key after a given one, \<open>None\<close> at the end.\<close>

definition pushkey :: "stringmap \<Rightarrow> conf_node \<Rightarrow> lua_key option" where
  "pushkey strs n =
     (case nd_keytype n of
        KEYTYPE_INTEGER \<Rightarrow> Some (LK_INTEGER (of_int (nd_key n)))
      | KEYTYPE_STRING \<Rightarrow> map_option LK_STRING (conf_string strs (nat (nd_key n))))"

definition pushfirsthash :: "stringmap \<Rightarrow> conf_tab \<Rightarrow> lua_key option option" where
  "pushfirsthash strs t = (case cf_hash t of [] \<Rightarrow> Some None | n # _ \<Rightarrow> map_option Some (pushkey strs n))"

text \<open>The first entry of the array that is not nil, from a position on; then the first of the hash.\<close>

definition array_from :: "stringmap \<Rightarrow> conf_tab \<Rightarrow> nat \<Rightarrow> lua_key option option" where
  "array_from strs t i =
     (case filter (\<lambda>j. cf_array t ! j \<noteq> VALUE_NIL) [i..<length (cf_array t)] of
        j # _ \<Rightarrow> Some (Some (LK_INTEGER (of_nat (j + 1))))
      | [] \<Rightarrow> pushfirsthash strs t)"

definition hash_after :: "stringmap \<Rightarrow> conf_tab \<Rightarrow> u32 \<Rightarrow> int \<Rightarrow> keytype \<Rightarrow> bytes \<Rightarrow> lua_key option option" where
  "hash_after strs t keyhash key kt str =
     do {
       r \<leftarrow> lookup_key (cf_hash t) strs keyhash key kt str;
       case r of
         None \<Rightarrow> Some None
       | Some i \<Rightarrow>
           if i + 1 = length (cf_hash t) then Some None else map_option Some (pushkey strs (cf_hash t ! (i + 1)))
     }"

definition lnextkey :: "stringmap \<Rightarrow> conf_tab \<Rightarrow> lua_key option \<Rightarrow> (conf_error + lua_key option) option" where
  "lnextkey strs t k =
     (case k of
        None \<Rightarrow> map_option Inr (array_from strs t 0)
      | Some (LK_FLOAT x) \<Rightarrow> Some (Inr None)
      | Some (LK_INTEGER i) \<Rightarrow>
          let key = sint (ucast i :: u32) in
          map_option Inr
            (if 0 < key \<and> key \<le> int (length (cf_array t)) then array_from strs t (nat key)
             else hash_after strs t (ucast i) key KEYTYPE_INTEGER [])
      | Some (LK_STRING s) \<Rightarrow> map_option Inr (hash_after strs t (calchash s) 0 KEYTYPE_STRING s)
      | _ \<Rightarrow> Some (Inl CONF_KEY_TYPE))"

definition llen :: "conf_tab \<Rightarrow> nat" where "llen t = length (cf_array t)"

definition lhashlen :: "conf_tab \<Rightarrow> nat" where "lhashlen t = length (cf_hash t)"

subsection \<open>Sharing\<close>

text \<open>
  The state of a converted table, and a box of a service that refers to one table and perhaps to its
  successor; tables by number.
\<close>

record conf_state =
  cs_dirty :: bool
  cs_ref :: int

record conf_box =
  bx_root :: "nat option"
  bx_update :: "nat option"

text \<open>\<open>convert_stringmap\<close> does not set the count (an atomic \<open>int32_t\<close>): it is what the fresh memory holds.\<close>

definition new_state :: "int \<Rightarrow> conf_state" where
  "new_state garbage = \<lparr>cs_dirty = False, cs_ref = garbage\<rparr>"

text \<open>
  \<open>lnewconf\<close> with \<open>pconv\<close> and \<open>convert_stringmap\<close>: the table, its strings at their indices and its state;
  \<open>d\<close> is the limit of nested calls, and memory is assumed not to run out.
\<close>

definition lnewconf ::
  "(nat \<Rightarrow> int \<times> int \<times> u32 \<times> keytype) \<Rightarrow> int \<Rightarrow> nat \<Rightarrow> lua_tab \<Rightarrow> conf_error + conf_tab \<times> stringmap \<times> conf_state" where
  "lnewconf g garbage d t =
     (case convtable g d t [] of Inl e \<Rightarrow> Inl e | Inr (tb, strs) \<Rightarrow> Inr (tb, strs, new_state garbage))"

definition lboxconf :: "nat \<Rightarrow> conf_state \<Rightarrow> conf_box \<times> conf_state" where
  "lboxconf t s = (\<lparr>bx_root = Some t, bx_update = None\<rparr>, s\<lparr>cs_ref := cs_ref s + 1\<rparr>)"

definition releaseobj :: "conf_box \<Rightarrow> conf_state \<Rightarrow> conf_box \<times> conf_state" where
  "releaseobj b s = (\<lparr>bx_root = None, bx_update = None\<rparr>, s\<lparr>cs_ref := cs_ref s - 1\<rparr>)"

definition lmarkdirty :: "conf_state \<Rightarrow> conf_state" where "lmarkdirty s = s\<lparr>cs_dirty := True\<rparr>"

definition lisdirty :: "conf_state \<Rightarrow> bool" where "lisdirty s = cs_dirty s"

definition lgetref :: "conf_state \<Rightarrow> int" where "lgetref s = cs_ref s"

definition lincref :: "conf_state \<Rightarrow> int \<times> conf_state" where
  "lincref s = (cs_ref s + 1, s\<lparr>cs_ref := cs_ref s + 1\<rparr>)"

definition ldecref :: "conf_state \<Rightarrow> int \<times> conf_state" where
  "ldecref s = (cs_ref s - 1, s\<lparr>cs_ref := cs_ref s - 1\<rparr>)"

definition lneedupdate :: "conf_box \<Rightarrow> nat option" where "lneedupdate b = bx_update b"

text \<open>\<open>None\<close> is the error that the new table is the old one.\<close>

definition lupdate :: "conf_box \<Rightarrow> nat \<Rightarrow> conf_box option" where
  "lupdate b n = (if bx_root b = Some n then None else Some (b\<lparr>bx_update := Some n\<rparr>))"

end
