(* ===== verification/Sharedata_Keys.thy ===== *)
theory Sharedata_Keys
  imports Sharedata
begin

text \<open>
  Keys and strings of converted tables: how a key is found again in a node, although the stack of
  strings grows during the conversion.
\<close>

subsection \<open>Strings\<close>

lemma position_nth: "x \<in> set xs \<Longrightarrow> position x xs < length xs \<and> xs ! position x xs = x"
  by (induction xs) auto

lemma position_append: "x \<in> set xs \<Longrightarrow> position x (xs @ ys) = position x xs"
  by (induction xs) auto

lemma position_new: "x \<notin> set xs \<Longrightarrow> position x (xs @ x # ys) = length xs"
  by (induction xs) auto

lemma stringindex_correct:
  "\<exists>ys. stringindex s strs = (position s (strs @ ys) + 2, strs @ ys) \<and> s \<in> set (strs @ ys)"
proof (cases "s \<in> set strs")
  case True
  then show ?thesis by (intro exI [of _ "[]"]) (simp add: stringindex_def)
next
  case False
  then show ?thesis by (intro exI [of _ "[s]"]) (simp add: stringindex_def position_new)
qed

lemma conf_string_position: "s \<in> set strs \<Longrightarrow> conf_string strs (position s strs + 2) = Some s"
  using position_nth [of s strs] by (simp add: conf_string_def)

lemma conf_string_append: "conf_string strs i = Some s \<Longrightarrow> conf_string (strs @ ys) i = Some s"
  by (auto simp: conf_string_def nth_append split: if_splits)

subsection \<open>Keys\<close>

text \<open>The keys that survive the conversion: strings, and integers of 32 bits.\<close>

fun conf_key_ok :: "lua_key \<Rightarrow> bool" where
  "conf_key_ok (LK_INTEGER i) \<longleftrightarrow> - (2 ^ 31) \<le> sint i \<and> sint i < 2 ^ 31"
| "conf_key_ok (LK_STRING s) \<longleftrightarrow> True"
| "conf_key_ok _ \<longleftrightarrow> False"

fun array_key :: "nat \<Rightarrow> lua_key \<Rightarrow> bool" where
  "array_key n (LK_INTEGER i) \<longleftrightarrow> 0 < sint i \<and> sint i \<le> int n"
| "array_key n _ \<longleftrightarrow> False"

fun text_in :: "stringmap \<Rightarrow> lua_key \<Rightarrow> bool" where
  "text_in strs (LK_STRING s) \<longleftrightarrow> s \<in> set strs"
| "text_in strs _ \<longleftrightarrow> True"

fun key_hash :: "lua_key \<Rightarrow> u32" where
  "key_hash (LK_INTEGER i) = ucast i"
| "key_hash k = calchash (key_text k)"

fun key_fields :: "stringmap \<Rightarrow> lua_key \<Rightarrow> int \<times> u32 \<times> keytype" where
  "key_fields strs (LK_INTEGER i) = (sint i, ucast i, KEYTYPE_INTEGER)"
| "key_fields strs k = (int (position (key_text k) strs + 2), calchash (key_text k), KEYTYPE_STRING)"

lemma sint_ucast:
  assumes "- (2 ^ 31) \<le> sint i" "sint i < 2 ^ 31"
  shows "sint (ucast i :: u32) = sint (i :: u64)"
proof -
  have "(ucast i :: u32) = of_int (sint i)"
    by (rule bit_word_eqI) (simp add: bit_ucast_iff bit_signed_iff min_def)
  moreover have "sint (of_int z :: u32) = signed_take_bit 31 z" for z
    by (simp add: signed_of_int)
  moreover have "signed_take_bit 31 (sint i) = sint i"
    using assms by (intro signed_take_bit_int_eq_self) auto
  ultimately show ?thesis by metis
qed

lemma text_in_append: "text_in strs k \<Longrightarrow> text_in (strs @ ys) k"
  by (cases k) auto

lemma key_fields_append: "conf_key_ok k \<Longrightarrow> text_in strs k \<Longrightarrow> key_fields (strs @ ys) k = key_fields strs k"
  by (cases k) (auto simp: key_text_def position_append)

lemma ishashkey_array:
  assumes "conf_key_ok k" "array_key n k"
  obtains i where "k = LK_INTEGER i" "0 < sint i" "sint i \<le> int n" "ishashkey n k strs = (Inl (nat (sint i)), strs)"
  using assms by (cases k) (auto simp: ishashkey_def sint_ucast)

lemma ishashkey_hash:
  assumes "conf_key_ok k" "\<not> array_key n k"
  obtains ys where "ishashkey n k strs = (Inr (key_fields (strs @ ys) k), strs @ ys)" "text_in (strs @ ys) k"
proof (cases k)
  case (LK_INTEGER i)
  then show thesis
    using assms that [of "[]"] by (auto simp: ishashkey_def sint_ucast)
next
  case (LK_STRING s)
  then show thesis
    using stringindex_correct [of s strs] that by (fastforce simp: ishashkey_def key_text_def)
qed (use assms in auto)

lemma key_fields_inj:
  assumes "conf_key_ok k" "conf_key_ok k'" "text_in strs k" "text_in strs k'"
    and "fst (key_fields strs k) = fst (key_fields strs k')" "snd (snd (key_fields strs k)) = snd (snd (key_fields strs k'))"
  shows "k = k'"
proof (cases k)
  case (LK_INTEGER i)
  then show ?thesis using assms by (cases k') (auto dest: signed_word_eqI)
next
  case (LK_STRING s)
  then show ?thesis
    using assms by (cases k') (auto simp: key_text_def dest!: arg_cong [where f = "(!) strs"] simp: position_nth)
qed (use assms in auto)

lemma key_fields_hash: "conf_key_ok k \<Longrightarrow> fst (snd (key_fields strs k)) = key_hash k"
  by (cases k) auto

text \<open>A node that was made for a key.\<close>

definition node_for :: "stringmap \<Rightarrow> lua_key \<Rightarrow> conf_node \<Rightarrow> bool" where
  "node_for strs k nd \<longleftrightarrow> conf_key_ok k \<and> text_in strs k \<and> (nd_key nd, nd_keyhash nd, nd_keytype nd) = key_fields strs k"

lemma node_for_append: "node_for strs k nd \<Longrightarrow> node_for (strs @ ys) k nd"
  by (simp add: node_for_def text_in_append key_fields_append)

text \<open>The arguments of a look-up of a key.\<close>

fun query_text :: "lua_key \<Rightarrow> bytes" where
  "query_text (LK_STRING s) = s"
| "query_text _ = []"

fun query_key :: "lua_key \<Rightarrow> int \<times> keytype" where
  "query_key (LK_INTEGER i) = (sint i, KEYTYPE_INTEGER)"
| "query_key _ = (0, KEYTYPE_STRING)"

abbreviation matches :: "stringmap \<Rightarrow> lua_key \<Rightarrow> conf_node \<Rightarrow> bool option" where
  "matches strs k nd \<equiv> node_matches strs (key_hash k) (fst (query_key k)) (snd (query_key k)) (query_text k) nd"

lemma matches_iff:
  assumes "conf_key_ok k" "node_for strs k' nd"
  shows "matches strs k nd = Some (k = k')"
proof (cases k')
  case (LK_INTEGER i)
  then have nd: "nd_key nd = sint i" "nd_keyhash nd = ucast i" "nd_keytype nd = KEYTYPE_INTEGER"
    using assms(2) by (auto simp: node_for_def)
  show ?thesis
    using assms(1) nd LK_INTEGER by (cases k) (auto simp: node_matches_def dest: signed_word_eqI)
next
  case (LK_STRING s)
  then have nd: "nd_key nd = int (position s strs + 2)" "nd_keyhash nd = calchash s" "nd_keytype nd = KEYTYPE_STRING" "s \<in> set strs"
    using assms(2) by (auto simp: node_for_def key_text_def)
  have "conf_string strs (nat (nd_key nd)) = Some s"
    using conf_string_position [OF nd(4)] unfolding nd(1) by (simp only: nat_int)
  then show ?thesis
    using assms(1) nd(2,3) LK_STRING by (cases k) (auto simp: node_matches_def key_text_def)
qed (use assms(2) in \<open>auto simp: node_for_def\<close>)

end
