(* ===== verification/Sharedata_Hash.thy ===== *)
theory Sharedata_Hash
  imports Sharedata_Keys
begin

text \<open>
  The hash part of a converted table: chains of nodes with a common main position, their growth
  during the two passes of the conversion, and the look-up.
\<close>

subsection \<open>Chains\<close>

fun chain_path :: "conf_node list \<Rightarrow> int \<Rightarrow> nat list \<Rightarrow> bool" where
  "chain_path h n [] \<longleftrightarrow> n < 0"
| "chain_path h n (i # is) \<longleftrightarrow> n = int i \<and> i < length h \<and> chain_path h (nd_next (h ! i)) is"

lemma hash_chain_frame:
  "(\<And>j. j \<in> set is \<Longrightarrow> nd_next (h' ! j) = nd_next (h ! j)) \<Longrightarrow> length h' = length h \<Longrightarrow> chain_path h' n is = chain_path h n is"
  by (induction "is" arbitrary: n) auto

lemma chain_update: "i \<notin> set is \<Longrightarrow> chain_path (h[i := nd]) n is = chain_path h n is"
  by (rule hash_chain_frame) (auto intro!: arg_cong [where f = nd_next] nth_list_update_neq)

lemma chain_suffix: "chain_path h n (xs @ i # ys) \<Longrightarrow> chain_path h (int i) (i # ys)"
  by (induction xs arbitrary: n) auto

lemma chain_next: "chain_path h n (i # is) \<Longrightarrow> nd_next (h ! i) < 0 \<longleftrightarrow> is = []"
  by (cases "is") auto

text \<open>The look-up finds the first node of a chain that matches.\<close>

lemma lookup_chain_find:
  assumes "chain_path h (int i) (i # is)" "length (i # is) \<le> f"
    and "\<And>j. j \<in> set (i # is) \<Longrightarrow> node_matches strs keyhash key kt str (h ! j) = Some (P j)"
  shows "lookup_chain f h strs keyhash key kt str i = Some (List.find P (i # is))"
  using assms
proof (induction "is" arbitrary: i f)
  case Nil
  then show ?case by (cases f) auto
next
  case (Cons j js)
  obtain f' where f: "f = Suc f'" using Cons.prems(2) by (cases f) auto
  have "lookup_chain f' h strs keyhash key kt str j = Some (List.find P (j # js))"
    using Cons.prems f by (intro Cons.IH) auto
  then show ?case
    using Cons.prems f by auto
qed

subsection \<open>The invariant\<close>

definition hslot :: "conf_node list \<Rightarrow> lua_key \<Rightarrow> nat" where
  "hslot h k = unat (key_hash k) mod length h"

text \<open>
  \<open>own\<close> is the entry that each position holds. Good values are given by \<open>good\<close>, which stays true when
  strings are added.
\<close>

type_synonym owners = "nat \<rightharpoonup> lua_key \<times> lua_val"

definition node_ok :: "(stringmap \<Rightarrow> lua_val \<Rightarrow> conf_val \<Rightarrow> bool) \<Rightarrow> stringmap \<Rightarrow> lua_key \<times> lua_val \<Rightarrow> conf_node \<Rightarrow> bool" where
  "node_ok good strs e nd \<longleftrightarrow> node_for strs (fst e) nd \<and> good strs (snd e) (nd_value nd) \<and> nd_value nd \<noteq> VALUE_NIL \<and>
     (nd_nocolliding nd \<longrightarrow> nd_next nd < 0)"

definition members :: "conf_node list \<Rightarrow> owners \<Rightarrow> nat \<Rightarrow> nat set" where
  "members h own p = {i. \<exists>e. own i = Some e \<and> hslot h (fst e) = p}"

definition main_slot :: "conf_node list \<Rightarrow> owners \<Rightarrow> nat \<Rightarrow> bool" where
  "main_slot h own p \<longleftrightarrow> (\<exists>e. own p = Some e \<and> hslot h (fst e) = p)"

definition hash_inv ::
  "(stringmap \<Rightarrow> lua_val \<Rightarrow> conf_val \<Rightarrow> bool) \<Rightarrow> stringmap \<Rightarrow> (lua_key \<times> lua_val) list \<Rightarrow> owners \<Rightarrow> conf_node list \<Rightarrow> bool" where
  "hash_inv good strs hs own h \<longleftrightarrow>
     (\<forall>i<length h. own i = None \<longrightarrow> nd_value (h ! i) = VALUE_NIL) \<and>
     (\<forall>i e. own i = Some e \<longrightarrow> i < length h \<and> e \<in> set hs \<and> node_ok good strs e (h ! i) \<and> main_slot h own (hslot h (fst e))) \<and>
     (\<forall>i j e. own i = Some e \<longrightarrow> own j = Some e \<longrightarrow> i = j) \<and>
     (\<forall>p. main_slot h own p \<longrightarrow> (\<exists>ps. chain_path h (int p) (p # ps) \<and> distinct (p # ps) \<and> set (p # ps) = members h own p))"

lemma memberI: "own i = Some e \<Longrightarrow> hslot h (fst e) = p \<Longrightarrow> i \<in> members h own p"
  by (cases e) (auto simp: members_def)

lemma main_slotI: "own p = Some e \<Longrightarrow> hslot h (fst e) = p \<Longrightarrow> main_slot h own p"
  by (cases e) (auto simp: main_slot_def)

lemma hash_invD:
  assumes "hash_inv good strs hs own h"
  shows "i < length h \<Longrightarrow> own i = None \<Longrightarrow> nd_value (h ! i) = VALUE_NIL"
    and "own i = Some e \<Longrightarrow> i < length h \<and> e \<in> set hs \<and> node_ok good strs e (h ! i) \<and> main_slot h own (hslot h (fst e))"
    and "own i = Some e \<Longrightarrow> own j = Some e \<Longrightarrow> i = j"
    and "main_slot h own p \<Longrightarrow> \<exists>ps. chain_path h (int p) (p # ps) \<and> distinct (p # ps) \<and> set (p # ps) = members h own p"
proof -
  note a = assms [unfolded hash_inv_def]
  show "i < length h \<Longrightarrow> own i = None \<Longrightarrow> nd_value (h ! i) = VALUE_NIL"
    using conjunct1 [OF a] by blast
  show "own i = Some e \<Longrightarrow> i < length h \<and> e \<in> set hs \<and> node_ok good strs e (h ! i) \<and> main_slot h own (hslot h (fst e))"
    using conjunct1 [OF conjunct2 [OF a]] by blast
  show "own i = Some e \<Longrightarrow> own j = Some e \<Longrightarrow> i = j"
    using conjunct1 [OF conjunct2 [OF conjunct2 [OF a]]] by blast
  show "main_slot h own p \<Longrightarrow> \<exists>ps. chain_path h (int p) (p # ps) \<and> distinct (p # ps) \<and> set (p # ps) = members h own p"
    using conjunct2 [OF conjunct2 [OF conjunct2 [OF a]]] by blast
qed

lemma hash_invI:
  assumes "\<And>i. i < length h \<Longrightarrow> own i = None \<Longrightarrow> nd_value (h ! i) = VALUE_NIL"
    and "\<And>i e. own i = Some e \<Longrightarrow> i < length h \<and> e \<in> set hs \<and> node_ok good strs e (h ! i) \<and> main_slot h own (hslot h (fst e))"
    and "\<And>i j e. own i = Some e \<Longrightarrow> own j = Some e \<Longrightarrow> i = j"
    and "\<And>p. main_slot h own p \<Longrightarrow> \<exists>ps. chain_path h (int p) (p # ps) \<and> distinct (p # ps) \<and> set (p # ps) = members h own p"
  shows "hash_inv good strs hs own h"
  unfolding hash_inv_def using assms by (intro conjI allI impI) simp_all

lemma hash_inv_strings:
  assumes "hash_inv good strs hs own h" "\<And>v x. good strs v x \<Longrightarrow> good (strs @ ys) v x"
  shows "hash_inv good (strs @ ys) hs own h"
  using hash_invD [OF assms(1)] assms(2) node_for_append
  by (intro hash_invI) (auto simp: node_ok_def)

lemma hslot_update [simp]: "hslot (h[i := nd]) k = hslot h k"
  by (simp add: hslot_def)

text \<open>The first entry of a main position.\<close>

lemma hash_inv_main:
  assumes inv: "hash_inv good strs hs own h" and p: "p < length h" "own p = None" "hslot h (fst e) = p"
    and e: "e \<in> set hs" "node_ok good strs e nd" "nd_next nd < 0"
    and new: "\<And>j. own j \<noteq> Some e"
  shows "hash_inv good strs hs (own(p \<mapsto> e)) (h[p := nd])"
proof -
  let ?own = "own(p \<mapsto> e)" and ?h = "h[p := nd]"
  note D = hash_invD [OF inv]
  have no: "hslot h (fst e') \<noteq> p" if "own j = Some e'" for j e'
    using D(2) [OF that] p(2) by (auto simp: main_slot_def)
  have main: "main_slot ?h ?own q \<longleftrightarrow> main_slot h own q \<or> q = p" for q
    using p by (cases e) (auto simp: main_slot_def)
  have mem: "members ?h ?own q = (if q = p then {p} else members h own q)" for q
    using p no by (cases e) (auto simp: members_def)
  have chains: "\<exists>ps. chain_path ?h (int q) (q # ps) \<and> distinct (q # ps) \<and> set (q # ps) = members ?h ?own q" if "main_slot ?h ?own q" for q
  proof (cases "q = p")
    case True
    then show ?thesis using p e(3) by (intro exI [of _ "[]"]) (simp add: mem)
  next
    case False
    with that main [of q] have "main_slot h own q" by simp
    from D(4) [OF this] obtain ps where ps: "chain_path h (int q) (q # ps)" "distinct (q # ps)" "set (q # ps) = members h own q"
      by blast
    have "p \<notin> set (q # ps)" using ps(3) p(2) by (auto simp: members_def)
    with ps False show ?thesis by (intro exI [of _ ps]) (simp add: mem chain_update del: chain_path.simps set_simps)
  qed
  show ?thesis
  proof (intro hash_invI)
    fix i e'
    assume i: "?own i = Some e'"
    have "main_slot ?h ?own (hslot ?h (fst e'))"
      unfolding main hslot_update using D(2) [of i e'] p(3) i by (cases "i = p") simp_all
    then show "i < length ?h \<and> e' \<in> set hs \<and> node_ok good strs e' (?h ! i) \<and> main_slot ?h ?own (hslot ?h (fst e'))"
      using D(2) [of i e'] p(1) e(1,2) i by (cases "i = p") simp_all
  next
    fix j
    assume "j < length ?h" "?own j = None"
    then show "nd_value (?h ! j) = VALUE_NIL" using D(1) [of j] by (cases "j = p") simp_all
  next
    fix j k e'
    assume "?own j = Some e'" "?own k = Some e'"
    then show "j = k" using D(3) [of j e' k] new [of j] new [of k] by (cases "j = p"; cases "k = p") auto
  qed (rule chains)
qed

text \<open>A further entry of a main position, linked in after the first.\<close>

lemma hash_inv_collide:
  assumes inv: "hash_inv good strs hs own h" and main_p: "main_slot h own p" "hslot h (fst e) = p"
    and i: "i < length h" "own i = None"
    and e: "e \<in> set hs" "node_ok good strs e (NODE x key n kh kt nc)" "n = nd_next (h ! p)" "\<not> nc"
    and new: "\<And>j. own j \<noteq> Some e"
  shows "hash_inv good strs hs (own(i \<mapsto> e))
    (h[p := NODE (nd_value (h ! p)) (nd_key (h ! p)) (int i) (nd_keyhash (h ! p)) (nd_keytype (h ! p)) False,
       i := NODE x key n kh kt nc])"
proof -
  let ?own = "own(i \<mapsto> e)" and ?m = "NODE (nd_value (h ! p)) (nd_key (h ! p)) (int i) (nd_keyhash (h ! p)) (nd_keytype (h ! p)) False"
  let ?nd = "NODE x key n kh kt nc"
  let ?h = "h[p := ?m, i := ?nd]"
  note D = hash_invD [OF inv]
  obtain ep where ep: "own p = Some ep" "hslot h (fst ep) = p" using main_p(1) by (auto simp: main_slot_def)
  have p: "p < length h" "p \<noteq> i" using D(2) ep(1) i(2) by auto
  have main: "main_slot ?h ?own q \<longleftrightarrow> main_slot h own q" for q
    using i(2) main_p p by (cases e) (auto simp: main_slot_def)
  have mem: "members ?h ?own q = (if q = p then insert i (members h own p) else members h own q)" for q
    using i(2) main_p(2) by (cases e) (auto simp: members_def)
  have chains: "\<exists>ps. chain_path ?h (int q) (q # ps) \<and> distinct (q # ps) \<and> set (q # ps) = members ?h ?own q" if "main_slot ?h ?own q" for q
  proof -
    from that main [of q] have "main_slot h own q" by simp
    from D(4) [OF this] obtain ps where ps: "chain_path h (int q) (q # ps)" "distinct (q # ps)" "set (q # ps) = members h own q"
      by blast
    have ni: "i \<notin> set (q # ps)" using ps(3) i(2) by (auto simp: members_def)
    show ?thesis
    proof (cases "q = p")
      case True
      have np: "p \<notin> set ps" using ps(2) True by simp
      have "chain_path ?h n ps"
        using ps(1) True ni np e(3) by (simp add: chain_update)
      then show ?thesis
        using True ps p i ni by (intro exI [of _ "i # ps"]) (auto simp: mem)
    next
      case False
      have "p \<notin> set (q # ps)" using ps(3) ep False by (auto simp: members_def)
      with ps ni False show ?thesis by (intro exI [of _ ps]) (simp add: mem chain_update del: chain_path.simps set_simps)
    qed
  qed
  show ?thesis
  proof (intro hash_invI)
    fix j e'
    assume j: "?own j = Some e'"
    have m: "node_ok good strs ep ?m"
      using D(2) [OF ep(1)] by (simp add: node_ok_def node_for_def)
    have "main_slot ?h ?own (hslot ?h (fst e'))"
      unfolding main hslot_update using D(2) [of j e'] main_p j by (cases "j = i") simp_all
    then show "j < length ?h \<and> e' \<in> set hs \<and> node_ok good strs e' (?h ! j) \<and> main_slot ?h ?own (hslot ?h (fst e'))"
      using D(2) [of j e'] p i(1) e(1,2) ep(1) j m by (cases "j = i"; cases "j = p") simp_all
  next
    fix j
    assume "j < length ?h" "?own j = None"
    then show "nd_value (?h ! j) = VALUE_NIL" using D(1) [of j] ep(1) by (cases "j = i"; cases "j = p") simp_all
  next
    fix j k e'
    assume "?own j = Some e'" "?own k = Some e'"
    then show "j = k" using D(3) [of j e' k] new [of j] new [of k] by (cases "j = i"; cases "k = i") auto
  qed (rule chains)
qed

subsection \<open>Looking up\<close>

lemma distinct_hd: "distinct (p # ps) \<Longrightarrow> p # ps = xs @ p # ys \<Longrightarrow> xs = []"
  by (cases xs) auto

lemma find_eq:
  "List.find P xs = Some i \<Longrightarrow> i \<in> set xs \<and> P i"
  "List.find P xs = None \<Longrightarrow> i \<in> set xs \<Longrightarrow> \<not> P i"
  by (auto simp: find_Some_iff find_None_iff)

text \<open>From every position that is held, a chain of entries with a common main position.\<close>

lemma chain_from:
  assumes inv: "hash_inv good strs hs own h" and own: "own p = Some ep"
  obtains ys where "chain_path h (int p) (p # ys)" "distinct (p # ys)" "set (p # ys) \<subseteq> {..<length h}"
    "\<And>j. j \<in> set (p # ys) \<Longrightarrow> own j \<noteq> None" "main_slot h own p \<Longrightarrow> set (p # ys) = members h own p"
proof -
  note D = hash_invD [OF inv]
  let ?q = "hslot h (fst ep)"
  obtain ps where ps: "chain_path h (int ?q) (?q # ps)" "distinct (?q # ps)" "set (?q # ps) = members h own ?q"
    using D(4) D(2) [OF own] by blast
  have "p \<in> members h own ?q" using own by (rule memberI) simp
  then obtain xs ys where xy: "?q # ps = xs @ p # ys"
    using ps(3) split_list [of p "?q # ps"] by auto
  have "chain_path h (int p) (p # ys)" using ps(1) unfolding xy by (rule chain_suffix)
  moreover have "distinct (p # ys)" using ps(2) unfolding xy by simp
  moreover have sub: "set (p # ys) \<subseteq> members h own ?q" unfolding ps(3) [symmetric] xy by auto
  moreover have "own j \<noteq> None \<and> j < length h" if "j \<in> members h own ?q" for j
    using that D(2) [of j] by (auto simp: members_def)
  moreover have "set (p # ys) = members h own p" if "main_slot h own p"
  proof -
    have q: "?q = p" using that own by (auto simp: main_slot_def)
    then have "xs = []" using distinct_hd [of p ps xs ys] ps(2) xy by argo
    then show ?thesis using ps(3) xy q by simp
  qed
  ultimately show thesis
    using that [of ys] by blast
qed

lemma lookup_correct:
  assumes inv: "hash_inv good strs hs own h" and full: "\<And>i. i < length h \<Longrightarrow> own i \<noteq> None" and k: "conf_key_ok k" and ne: "h \<noteq> []"
  shows "\<exists>r. lookup_key h strs (key_hash k) (fst (query_key k)) (snd (query_key k)) (query_text k) = Some r \<and>
    (case r of None \<Rightarrow> \<forall>i e. own i = Some e \<longrightarrow> fst e \<noteq> k | Some i \<Rightarrow> \<exists>e. own i = Some e \<and> fst e = k)"
proof -
  note D = hash_invD [OF inv]
  let ?p = "hslot h k"
  have p: "?p < length h" using ne by (simp add: hslot_def)
  then obtain ep where ep: "own ?p = Some ep" using full by blast
  obtain ys where ys: "chain_path h (int ?p) (?p # ys)" "distinct (?p # ys)" "set (?p # ys) \<subseteq> {..<length h}"
    "\<And>j. j \<in> set (?p # ys) \<Longrightarrow> own j \<noteq> None" "main_slot h own ?p \<Longrightarrow> set (?p # ys) = members h own ?p"
    using chain_from [OF inv ep] by blast
  define P where "P j = (k = fst (the (own j)))" for j
  have m: "matches strs k (h ! j) = Some (P j)" if "j \<in> set (?p # ys)" for j
    using ys(4) [OF that] D(2) [of j] matches_iff [OF k] by (auto simp: P_def node_ok_def)
  have "length (?p # ys) \<le> card {..<length h}"
    using ys(2,3) by (metis card_mono distinct_card finite_lessThan)
  then have "lookup_chain (length h + 1) h strs (key_hash k) (fst (query_key k)) (snd (query_key k)) (query_text k) ?p
      = Some (List.find P (?p # ys))"
    by (intro lookup_chain_find ys(1) m) simp_all
  moreover have "List.find P (?p # ys) = None" if "key_hash k \<noteq> nd_keyhash (h ! ?p)" "nd_nocolliding (h ! ?p)"
  proof -
    have nd: "node_ok good strs ep (h ! ?p)" using D(2) [OF ep] by blast
    then have "ys = []" using that(2) chain_next [OF ys(1)] by (simp add: node_ok_def)
    moreover have "nd_keyhash (h ! ?p) = key_hash (fst ep)"
      using nd key_fields_hash [of "fst ep" strs] by (auto simp: node_ok_def node_for_def dest: arg_cong [where f = "fst \<circ> snd"])
    ultimately show ?thesis using that(1) ep by (auto simp: P_def)
  qed
  ultimately have r: "lookup_key h strs (key_hash k) (fst (query_key k)) (snd (query_key k)) (query_text k) = Some (List.find P (?p # ys))"
    using ne by (simp add: lookup_key_def hslot_def Let_def)
  moreover have "fst e \<noteq> k" if "List.find P (?p # ys) = None" "own i = Some e" for i e
  proof
    assume "fst e = k"
    then have "main_slot h own ?p" "i \<in> members h own ?p" using D(2) [OF that(2)] memberI [of own i e h] that(2) by simp_all
    then have "i \<in> set (?p # ys)" using ys(5) by blast
    from find_eq(2) [OF that(1) this] show False using that(2) \<open>fst e = k\<close> by (simp add: P_def)
  qed
  moreover have "\<exists>e. own i = Some e \<and> fst e = k" if "List.find P (?p # ys) = Some i" for i
    using find_eq(1) [OF that] ys(4) [of i] by (auto simp: P_def)
  ultimately show ?thesis
    by (intro exI [of _ "List.find P (?p # ys)"]) (simp split: option.split)
qed

end
