(* ===== verification/Sharedata_Fill.thy ===== *)
theory Sharedata_Fill
  imports Sharedata_Hash
begin

text \<open>The two passes that fill a table, and the array part.\<close>

subsection \<open>Values\<close>

text \<open>
  What the conversion of the values of a table must give: a value that is good, and stays good when
  strings are added.
\<close>

definition values_ok :: "(stringmap \<Rightarrow> lua_val \<Rightarrow> conf_val \<Rightarrow> bool) \<Rightarrow> (lua_tab \<Rightarrow> stringmap \<Rightarrow> conf_tab conv) \<Rightarrow> lua_val set \<Rightarrow> bool" where
  "values_ok good conv V \<longleftrightarrow> (\<forall>strs ys v x. good strs v x \<longrightarrow> good (strs @ ys) v x) \<and>
     (\<forall>v\<in>V. \<forall>strs. \<exists>x ys. setvalue conv v strs = Inr (x, strs @ ys) \<and> good (strs @ ys) v x \<and> x \<noteq> VALUE_NIL)"

lemma values_okD:
  assumes "values_ok good conv V"
  shows "good strs v x \<Longrightarrow> good (strs @ ys) v x"
    and "v \<in> V \<Longrightarrow> \<exists>x ys. setvalue conv v strs = Inr (x, strs @ ys) \<and> good (strs @ ys) v x \<and> x \<noteq> VALUE_NIL"
  using assms unfolding values_ok_def by blast+

abbreviation outer_entries :: "nat \<Rightarrow> (lua_key \<times> lua_val) list \<Rightarrow> (lua_key \<times> lua_val) list" where
  "outer_entries n es \<equiv> filter (\<lambda>e. \<not> array_key n (fst e)) es"

lemma countsize_correct:
  assumes "list_all (\<lambda>e. conf_key_ok (fst e)) es"
  shows "countsize n es = Inr (length (outer_entries n es))"
  using assms
proof (induction es)
  case (Cons e es)
  then show ?case by (cases e; cases "fst e") auto
qed simp

subsection \<open>The array part\<close>

definition array_ok :: "(stringmap \<Rightarrow> lua_val \<Rightarrow> conf_val \<Rightarrow> bool) \<Rightarrow> stringmap \<Rightarrow> (lua_key \<times> lua_val) list \<Rightarrow> conf_val list \<Rightarrow> bool" where
  "array_ok good strs es arr \<longleftrightarrow>
     (\<forall>j<length arr. case map_of es (LK_INTEGER (of_nat (j + 1))) of
        None \<Rightarrow> arr ! j = VALUE_NIL
      | Some v \<Rightarrow> good strs v (arr ! j) \<and> arr ! j \<noteq> VALUE_NIL)"

lemma array_ok_strings:
  assumes "array_ok good strs es arr" "\<And>v x. good strs v x \<Longrightarrow> good (strs @ ys) v x"
  shows "array_ok good (strs @ ys) es arr"
  using assms by (fastforce simp: array_ok_def split: option.splits)

lemma map_of_snoc: "map_of (es @ [(k, v)]) k' = (if k' \<in> fst ` set es then map_of es k' else if k' = k then Some v else None)"
  by (induction es) auto

lemma array_index:
  assumes "0 < sint i" "sint i \<le> int n" "n < 2 ^ 31"
  shows "i = of_nat (nat (sint i) - 1 + 1)" "nat (sint i) - 1 < n"
    and "j < n \<Longrightarrow> LK_INTEGER (of_nat (j + 1)) = LK_INTEGER i \<longleftrightarrow> j = nat (sint i) - 1"
proof -
  have s: "sint (of_nat m :: u64) = int m" if "m \<le> n" for m
  proof -
    have "signed_take_bit 63 (int m) = int m"
      using that assms(3) by (intro signed_take_bit_int_eq_self) auto
    then show ?thesis by (simp add: signed_of_nat)
  qed
  have n: "nat (sint i) \<le> n" using assms(2) by simp
  show i: "i = of_nat (nat (sint i) - 1 + 1)"
    by (rule signed_word_eqI) (use s [OF n] assms(1) in simp)
  show "nat (sint i) - 1 < n" using assms(1,2) by auto
  show "LK_INTEGER (of_nat (j + 1)) = LK_INTEGER i \<longleftrightarrow> j = nat (sint i) - 1" if j: "j < n"
  proof
    assume "LK_INTEGER (of_nat (j + 1)) = LK_INTEGER i"
    then have "int (j + 1) = sint i" using s [of "j + 1"] j by (metis Suc_eq_plus1 Suc_leI lua_key.inject(1))
    then show "j = nat (sint i) - 1" by simp
  qed (use i in metis)
qed

lemma array_ok_insert:
  assumes "array_ok good strs es arr" "length arr < 2 ^ 31" "0 < sint i" "sint i \<le> int (length arr)"
    and "LK_INTEGER i \<notin> fst ` set es" "good strs v x" "x \<noteq> VALUE_NIL"
  shows "array_ok good strs (es @ [(LK_INTEGER i, v)]) (arr[nat (sint i) - 1 := x])"
  unfolding array_ok_def
proof (intro allI impI)
  fix j
  assume j: "j < length (arr[nat (sint i) - 1 := x])"
  note ai = array_index [OF assms(3,4,2)]
  show "case map_of (es @ [(LK_INTEGER i, v)]) (LK_INTEGER (of_nat (j + 1))) of
      None \<Rightarrow> arr[nat (sint i) - 1 := x] ! j = VALUE_NIL
    | Some v \<Rightarrow> good strs v (arr[nat (sint i) - 1 := x] ! j) \<and> arr[nat (sint i) - 1 := x] ! j \<noteq> VALUE_NIL"
  proof (cases "j = nat (sint i) - 1")
    case True
    then have "LK_INTEGER (of_nat (j + 1)) = LK_INTEGER i" using ai(3) [of j] j by simp
    then have "map_of (es @ [(LK_INTEGER i, v)]) (LK_INTEGER (of_nat (j + 1))) = Some v"
      unfolding map_of_snoc using assms(5) by metis
    then show ?thesis using True assms(6,7) ai(2) by simp
  next
    case False
    then have "LK_INTEGER (of_nat (j + 1)) \<noteq> LK_INTEGER i" using ai(3) [of j] j by simp
    moreover have "map_of es (LK_INTEGER (of_nat (j + 1))) = None" if "LK_INTEGER (of_nat (j + 1)) \<notin> fst ` set es"
      using that by (simp add: map_of_eq_None_iff)
    ultimately have "map_of (es @ [(LK_INTEGER i, v)]) (LK_INTEGER (of_nat (j + 1))) = map_of es (LK_INTEGER (of_nat (j + 1)))"
      unfolding map_of_snoc by metis
    moreover have "arr[nat (sint i) - 1 := x] ! j = arr ! j"
      using False by (metis nth_list_update_neq)
    moreover have "case map_of es (LK_INTEGER (of_nat (j + 1))) of None \<Rightarrow> arr ! j = VALUE_NIL
        | Some v \<Rightarrow> good strs v (arr ! j) \<and> arr ! j \<noteq> VALUE_NIL"
      using assms(1) j by (simp add: array_ok_def)
    ultimately show ?thesis by (simp only:)
  qed
qed

lemma array_ok_other:
  assumes "array_ok good strs es arr" "length arr < 2 ^ 31" "\<not> array_key (length arr) k"
  shows "array_ok good strs (es @ [(k, v)]) arr"
  unfolding array_ok_def
proof (intro allI impI)
  fix j
  assume j: "j < length arr"
  have "k \<noteq> LK_INTEGER (of_nat (j + 1))"
  proof
    assume k: "k = LK_INTEGER (of_nat (j + 1))"
    have "signed_take_bit 63 (int (j + 1)) = int (j + 1)"
      using j assms(2) by (intro signed_take_bit_int_eq_self) auto
    then have "sint (of_nat (j + 1) :: u64) = int (j + 1)" unfolding signed_of_nat by simp
    with k assms(3) j show False by simp
  qed
  then have "map_of (es @ [(k, v)]) (LK_INTEGER (of_nat (j + 1))) = map_of es (LK_INTEGER (of_nat (j + 1)))"
    unfolding map_of_snoc by (metis map_of_eq_None_iff)
  then show "case map_of (es @ [(k, v)]) (LK_INTEGER (of_nat (j + 1))) of
      None \<Rightarrow> arr ! j = VALUE_NIL
    | Some v \<Rightarrow> good strs v (arr ! j) \<and> arr ! j \<noteq> VALUE_NIL"
    using assms(1) j by (simp add: array_ok_def)
qed

subsection \<open>The first pass\<close>

text \<open>The entries \<open>es1\<close> of \<open>es\<close> have been seen.\<close>

definition pass1 ::
  "(stringmap \<Rightarrow> lua_val \<Rightarrow> conf_val \<Rightarrow> bool) \<Rightarrow> nat \<Rightarrow> (lua_key \<times> lua_val) list \<Rightarrow> stringmap \<Rightarrow> (lua_key \<times> lua_val) list \<Rightarrow>
   conf_val list \<Rightarrow> conf_node list \<Rightarrow> owners \<Rightarrow> bool" where
  "pass1 good n es strs es1 arr h own \<longleftrightarrow> length arr = n \<and> length h = length (outer_entries n es) \<and>
     array_ok good strs es1 arr \<and> hash_inv good strs (outer_entries n es) own h \<and>
     (\<forall>i e. own i = Some e \<longrightarrow> hslot h (fst e) = i \<and> e \<in> set es1) \<and>
     (\<forall>e\<in>set es1. \<not> array_key n (fst e) \<longrightarrow> main_slot h own (hslot h (fst e)))"

lemma pass1_strings:
  assumes "pass1 good n es strs es1 arr h own" "\<And>v x. good strs v x \<Longrightarrow> good (strs @ ys) v x"
  shows "pass1 good n es (strs @ ys) es1 arr h own"
  using assms hash_inv_strings array_ok_strings unfolding pass1_def by blast

lemma pass1_array:
  assumes "pass1 good n es strs es1 arr h own" "n < 2 ^ 31" "0 < sint i" "sint i \<le> int n"
    and "LK_INTEGER i \<notin> fst ` set es1" "good strs v x" "x \<noteq> VALUE_NIL"
  shows "pass1 good n es strs (es1 @ [(LK_INTEGER i, v)]) (arr[nat (sint i) - 1 := x]) h own"
  using assms array_ok_insert [of good strs es1 arr i v x] unfolding pass1_def by auto

lemma pass1_skip:
  assumes "pass1 good n es strs es1 arr h own" "n < 2 ^ 31" "\<not> array_key n k" "main_slot h own (hslot h k)"
  shows "pass1 good n es strs (es1 @ [(k, v)]) arr h own"
  using assms array_ok_other [of good strs es1 arr k v] unfolding pass1_def by auto

lemma pass1_main:
  assumes p1: "pass1 good n es strs es1 arr h own" "n < 2 ^ 31" "\<not> array_key n k" "own (hslot h k) = None"
    and e: "(k, v) \<in> set es" "k \<notin> fst ` set es1" "node_ok good strs (k, v) nd" "nd_next nd < 0"
  shows "pass1 good n es strs (es1 @ [(k, v)]) arr (h[hslot h k := nd]) (own(hslot h k \<mapsto> (k, v)))"
proof -
  let ?p = "hslot h k" and ?h = "h[hslot h k := nd]" and ?own = "own(hslot h k \<mapsto> (k, v))"
  have mem: "(k, v) \<in> set (outer_entries n es)" using e(1) p1(3) by simp
  then have p: "?p < length h" using p1(1) by (auto simp: pass1_def hslot_def intro!: mod_less_divisor length_pos_if_in_set)
  have new: "own j \<noteq> Some (k, v)" for j using p1(1) e(2) by (force simp: pass1_def)
  have "hash_inv good strs (outer_entries n es) ?own ?h"
    by (rule hash_inv_main) (use p1 p mem e new in \<open>auto simp: pass1_def\<close>)
  moreover have "array_ok good strs (es1 @ [(k, v)]) arr"
    using array_ok_other [of good strs es1 arr k v] p1 by (simp add: pass1_def)
  moreover have "main_slot ?h ?own q" if "main_slot h own q" for q
    using that p1(4) by (auto simp: main_slot_def)
  moreover have "main_slot ?h ?own ?p" by (rule main_slotI [of _ _ "(k, v)"]) simp_all
  ultimately show ?thesis
    using p1(1) unfolding pass1_def by auto
qed

lemma hash_node:
  assumes "conf_key_ok k" "text_in strs k" "key_fields strs k = (key, kh, kt)" "good strs v x" "x \<noteq> VALUE_NIL" "nc \<longrightarrow> nx < 0"
  shows "node_ok good strs (k, v) (NODE x key nx kh kt nc)"
  using assms by (simp add: node_ok_def node_for_def)

lemma fillnocolliding_correct:
  assumes "values_ok good conv (snd ` set es2)" "distinct (map fst (es1 @ es2))" "\<forall>e\<in>set es2. conf_key_ok (fst e)" "n < 2 ^ 31"
    and "pass1 good n es strs es1 arr h own" "set es2 \<subseteq> set es"
  shows "\<exists>arr' h' ys own'. fillnocolliding conv es2 arr h strs = Inr ((arr', h'), strs @ ys) \<and>
    pass1 good n es (strs @ ys) (es1 @ es2) arr' h' own'"
  using assms
proof (induction es2 arbitrary: es1 strs arr h own)
  case Nil
  then show ?case by (metis append_Nil2 fillnocolliding.simps(1))
next
  case (Cons e es2)
  obtain k v where e: "e = (k, v)" by fastforce
  note V = values_okD [OF Cons.prems(1)]
  have V': "values_ok good conv (snd ` set es2)" using Cons.prems(1) by (simp add: values_ok_def)
  have k: "conf_key_ok k" "k \<notin> fst ` set es1" "(k, v) \<in> set es" using Cons.prems e by auto
  have len: "length arr = n" using Cons.prems(5) by (simp add: pass1_def)
  have step: ?case
    if s1: "fillnocolliding conv (e # es2) arr h strs = fillnocolliding conv es2 arr1 h1 (strs @ ys)"
      and s2: "pass1 good n es (strs @ ys) (es1 @ [e]) arr1 h1 own1" for arr1 h1 ys own1
  proof -
    obtain arr' h' zs own' where ih: "fillnocolliding conv es2 arr1 h1 (strs @ ys) = Inr ((arr', h'), (strs @ ys) @ zs)"
        "pass1 good n es ((strs @ ys) @ zs) ((es1 @ [e]) @ es2) arr' h' own'"
      using Cons.IH [OF V' _ _ Cons.prems(4) s2] Cons.prems by auto
    show ?thesis
      by (rule exI [of _ arr'], rule exI [of _ h'], rule exI [of _ "ys @ zs"], rule exI [of _ own'])
        (use ih in \<open>simp add: s1\<close>)
  qed
  show ?case
  proof (cases "array_key n k")
    case True
    obtain i where i: "k = LK_INTEGER i" "0 < sint i" "sint i \<le> int n" "ishashkey n k strs = (Inl (nat (sint i)), strs)"
      using ishashkey_array [OF k(1) True] by blast
    obtain x ys where x: "setvalue conv v strs = Inr (x, strs @ ys)" "good (strs @ ys) v x" "x \<noteq> VALUE_NIL"
      using V(2) [of v strs] e by auto
    show ?thesis
      by (rule step [of "arr[nat (sint i) - 1 := x]" h ys own])
        (use x i len e k pass1_array [OF pass1_strings [OF Cons.prems(5) V(1)] Cons.prems(4)] in \<open>simp_all add: bind_conv_def\<close>)
  next
    case False
    obtain ys where ys: "ishashkey n k strs = (Inr (key_fields (strs @ ys) k), strs @ ys)" "text_in (strs @ ys) k"
      using ishashkey_hash [OF k(1) False] by blast
    obtain key kh kt where kf: "key_fields (strs @ ys) k = (key, kh, kt)" by (cases "key_fields (strs @ ys) k") auto
    have slot: "conf_slot kh h = hslot h k" using key_fields_hash [OF k(1), of "strs @ ys"] kf by (simp add: hslot_def)
    have p1: "pass1 good n es (strs @ ys) es1 arr h own" using pass1_strings [OF Cons.prems(5) V(1)] by blast
    have "(k, v) \<in> set (outer_entries n es)" using k(3) False by simp
    then have p: "hslot h k < length h" using p1 by (auto simp: pass1_def hslot_def intro!: mod_less_divisor length_pos_if_in_set)
    have inv: "hash_inv good (strs @ ys) (outer_entries n es) own h" using p1 by (simp add: pass1_def)
    show ?thesis
    proof (cases "own (hslot h k)")
      case None
      obtain x zs where x: "setvalue conv v (strs @ ys) = Inr (x, strs @ ys @ zs)" "good (strs @ ys @ zs) v x" "x \<noteq> VALUE_NIL"
        using V(2) [of v "strs @ ys"] e by auto
      let ?nd = "NODE x key (- 1) kh kt True"
      have "node_ok good (strs @ ys @ zs) (k, v) ?nd"
        using hash_node [of k "(strs @ ys) @ zs" key kh kt good v x True "- 1"] k(1) ys(2) kf x
        by (simp add: text_in_append key_fields_append flip: append_assoc)
      then have "pass1 good n es (strs @ ys @ zs) (es1 @ [e]) arr (h[hslot h k := ?nd]) (own(hslot h k \<mapsto> (k, v)))"
        using pass1_main [of good n es "strs @ ys @ zs" es1 arr h own k v ?nd] Cons.prems(4) False None k(2,3)
          pass1_strings [OF p1 V(1), of zs] e by simp
      moreover have "nd_value (h ! hslot h k) = VALUE_NIL" using hash_invD(1) [OF inv p None] .
      ultimately show ?thesis
        by (intro step [of arr "h[hslot h k := ?nd]" "ys @ zs"])
          (use x ys kf len e slot in \<open>simp_all add: bind_conv_def Let_def\<close>)
    next
      case (Some ep)
      have "nd_value (h ! hslot h k) \<noteq> VALUE_NIL" using hash_invD(2) [OF inv Some] by (simp add: node_ok_def)
      moreover have "main_slot h own (hslot h k)"
        using Some p1 main_slotI [of own "hslot h k" ep h] by (cases ep) (simp add: pass1_def)
      ultimately show ?thesis
        by (intro step [of arr h ys own])
          (use ys kf len e slot pass1_skip [OF p1 Cons.prems(4) False] in \<open>simp_all add: Let_def\<close>)
    qed
  qed
qed

subsection \<open>The second pass\<close>

definition pass2 ::
  "(stringmap \<Rightarrow> lua_val \<Rightarrow> conf_val \<Rightarrow> bool) \<Rightarrow> nat \<Rightarrow> (lua_key \<times> lua_val) list \<Rightarrow> stringmap \<Rightarrow> (lua_key \<times> lua_val) list \<Rightarrow>
   conf_node list \<Rightarrow> owners \<Rightarrow> nat \<Rightarrow> bool" where
  "pass2 good n es strs es1 h own m \<longleftrightarrow> length h = length (outer_entries n es) \<and>
     hash_inv good strs (outer_entries n es) own h \<and> (\<forall>i<m. own i \<noteq> None) \<and>
     (\<forall>e\<in>set (outer_entries n es). main_slot h own (hslot h (fst e))) \<and>
     (\<forall>e\<in>set es1. \<not> array_key n (fst e) \<longrightarrow> (\<exists>i. own i = Some e)) \<and>
     (\<forall>i e. own i = Some e \<longrightarrow> e \<in> set es1 \<or> hslot h (fst e) = i)"

lemma pass2_strings:
  assumes "pass2 good n es strs es1 h own m" "\<And>v x. good strs v x \<Longrightarrow> good (strs @ ys) v x"
  shows "pass2 good n es (strs @ ys) es1 h own m"
  using assms hash_inv_strings unfolding pass2_def by blast

lemma pass1_pass2:
  assumes "pass1 good n es strs es arr h own"
  shows "pass2 good n es strs [] h own 0"
  using assms by (auto simp: pass1_def pass2_def)

lemma owners_keys:
  assumes "hash_inv good strs (outer_entries n es) own h" "distinct (map fst es)" "own i = Some e" "own j = Some e'" "fst e = fst e'"
  shows "i = j"
proof -
  have "e \<in> set es" "e' \<in> set es" using hash_invD(2) [OF assms(1)] assms(3,4) by auto
  then have "e = e'" using assms(2,5) by (auto simp: distinct_map dest: inj_onD)
  then show ?thesis using hash_invD(3) [OF assms(1)] assms(3,4) by simp
qed

lemma card_positions:
  assumes inv: "hash_inv good strs (outer_entries n es) own h" and d: "distinct (map fst es)"
  shows "card {i. own i \<noteq> None} = card ((fst \<circ> the \<circ> own) ` {i. own i \<noteq> None})"
    and "(fst \<circ> the \<circ> own) ` {i. own i \<noteq> None} \<subseteq> fst ` set (outer_entries n es)"
    and "{i. own i \<noteq> None} \<subseteq> {..<length h}"
    and "card (fst ` set (outer_entries n es)) = length (outer_entries n es)"
proof -
  have "inj_on (fst \<circ> the \<circ> own) {i. own i \<noteq> None}"
    using owners_keys [OF inv d] by (auto simp: inj_on_def)
  then show "card {i. own i \<noteq> None} = card ((fst \<circ> the \<circ> own) ` {i. own i \<noteq> None})"
    by (rule card_image [symmetric])
  show "(fst \<circ> the \<circ> own) ` {i. own i \<noteq> None} \<subseteq> fst ` set (outer_entries n es)"
  proof (rule image_subsetI)
    fix i
    assume "i \<in> {i. own i \<noteq> None}"
    then obtain e where e: "own i = Some e" by blast
    then have "e \<in> set (outer_entries n es)" using hash_invD(2) [OF inv] by blast
    with e show "(fst \<circ> the \<circ> own) i \<in> fst ` set (outer_entries n es)" by (metis comp_apply imageI option.sel)
  qed
  show "{i. own i \<noteq> None} \<subseteq> {..<length h}"
    using hash_invD(2) [OF inv] by auto
  have "distinct (map fst (outer_entries n es))" using d by (simp add: distinct_map_filter)
  then show "card (fst ` set (outer_entries n es)) = length (outer_entries n es)"
    by (metis distinct_card length_map set_map)
qed

lemma empty_position:
  assumes p2: "pass2 good n es strs es1 h own m" and d: "distinct (map fst es)"
    and e: "e \<in> set (outer_entries n es)" "\<And>i. own i \<noteq> Some e"
  shows "\<exists>i<length h. own i = None"
proof (rule ccontr)
  assume "\<not> (\<exists>i<length h. own i = None)"
  then have all: "{..<length h} \<subseteq> {i. own i \<noteq> None}" by auto
  have inv: "hash_inv good strs (outer_entries n es) own h" and len: "length h = length (outer_entries n es)"
    using p2 by (simp_all add: pass2_def)
  note C = card_positions [OF inv d]
  have "fst e \<notin> (fst \<circ> the \<circ> own) ` {i. own i \<noteq> None}"
  proof
    assume "fst e \<in> (fst \<circ> the \<circ> own) ` {i. own i \<noteq> None}"
    then obtain i e' where i: "own i = Some e'" "fst e' = fst e" by auto
    moreover have "e' \<in> set es" "e \<in> set es" using hash_invD(2) [OF inv i(1)] e(1) by auto
    ultimately have "e' = e" using d by (auto simp: distinct_map dest: inj_onD)
    with i e(2) show False by blast
  qed
  then have "(fst \<circ> the \<circ> own) ` {i. own i \<noteq> None} \<subset> fst ` set (outer_entries n es)"
    using C(2) e(1) by blast
  then have "card {i. own i \<noteq> None} < length (outer_entries n es)"
    using C(1,4) psubset_card_mono [of "fst ` set (outer_entries n es)"] by simp
  moreover have "length h \<le> card {i. own i \<noteq> None}"
    using card_mono [OF finite_subset [OF C(3) finite_lessThan] all] by simp
  ultimately show False using len by simp
qed

lemma all_positions:
  assumes p2: "pass2 good n es strs es h own m" and d: "distinct (map fst es)" and i: "i < length h"
  shows "own i \<noteq> None"
proof -
  have inv: "hash_inv good strs (outer_entries n es) own h" and len: "length h = length (outer_entries n es)"
    and ins: "\<And>e. e \<in> set (outer_entries n es) \<Longrightarrow> \<exists>i. own i = Some e"
    using p2 by (auto simp: pass2_def)
  note C = card_positions [OF inv d]
  have "fst ` set (outer_entries n es) \<subseteq> (fst \<circ> the \<circ> own) ` {i. own i \<noteq> None}"
    using ins by force
  then have "(fst \<circ> the \<circ> own) ` {i. own i \<noteq> None} = fst ` set (outer_entries n es)"
    using C(2) by blast
  then have "card {i. own i \<noteq> None} = card {..<length h}"
    using C(1,4) len by simp
  then have "{i. own i \<noteq> None} = {..<length h}"
    using card_subset_eq [OF finite_lessThan C(3)] by blast
  then show ?thesis using i by blast
qed

lemma find_empty_Some:
  "find_empty ns m = Some i \<Longrightarrow>
   \<exists>j<length ns. i = m + j \<and> nd_value (ns ! j) = VALUE_NIL \<and> (\<forall>k<j. nd_value (ns ! k) \<noteq> VALUE_NIL)"
proof (induction ns arbitrary: m)
  case (Cons x ns)
  show ?case
  proof (cases "nd_value x = VALUE_NIL")
    case True
    then show ?thesis using Cons.prems by (intro exI [of _ 0]) simp
  next
    case False
    then obtain j where "j < length ns" "i = Suc m + j" "nd_value (ns ! j) = VALUE_NIL" "\<forall>k<j. nd_value (ns ! k) \<noteq> VALUE_NIL"
      using Cons.prems Cons.IH [of "Suc m"] by auto
    then show ?thesis
      using False by (intro exI [of _ "Suc j"]) (auto simp: less_Suc_eq_0_disj)
  qed
qed simp

lemma find_empty_None: "find_empty ns m = None \<Longrightarrow> nd \<in> set ns \<Longrightarrow> nd_value nd \<noteq> VALUE_NIL"
  by (induction ns arbitrary: m) (auto split: if_splits)

text \<open>Every key that is not there yet finds an empty slot.\<close>

lemma find_empty_inv:
  assumes p2: "pass2 good n es strs es1 h own m" and d: "distinct (map fst es)"
    and e: "e \<in> set (outer_entries n es)" "\<And>i. own i \<noteq> Some e"
  obtains i where "find_empty (drop m h) m = Some i" "i < length h" "own i = None" "\<And>j. j < Suc i \<Longrightarrow> j \<noteq> i \<Longrightarrow> own j \<noteq> None"
proof -
  have inv: "hash_inv good strs (outer_entries n es) own h" and below: "\<And>i. i < m \<Longrightarrow> own i \<noteq> None"
    using p2 by (auto simp: pass2_def)
  have nil: "nd_value (h ! i) = VALUE_NIL \<longleftrightarrow> own i = None" if "i < length h" for i
    using hash_invD(1,2) [OF inv] that by (cases "own i") (auto simp: node_ok_def)
  obtain i0 where i0: "i0 < length h" "own i0 = None" using empty_position [OF assms] by blast
  then have "h ! i0 \<in> set (drop m h)"
    using below [of i0] by (cases "i0 < m") (auto simp: in_set_conv_nth intro!: exI [of _ "i0 - m"])
  then obtain i where i: "find_empty (drop m h) m = Some i"
    using find_empty_None [of "drop m h" m "h ! i0"] nil i0 by (cases "find_empty (drop m h) m") auto
  obtain j where j: "j < length (drop m h)" "i = m + j" "nd_value (drop m h ! j) = VALUE_NIL" "\<forall>k<j. nd_value (drop m h ! k) \<noteq> VALUE_NIL"
    using find_empty_Some [OF i] by blast
  have "own l \<noteq> None" if "l < Suc i" "l \<noteq> i" for l
  proof (cases "l < m")
    case False
    then have "nd_value (drop m h ! (l - m)) \<noteq> VALUE_NIL" using j(2,4) that by simp
    then show ?thesis using nil [of l] that j(1,2) False by simp
  qed (use below in blast)
  then show thesis
    using that [OF i] j nil [of i] by simp
qed

lemma pass2_skip:
  assumes "pass2 good n es strs es1 h own m" "array_key n (fst e) \<or> own i = Some e"
  shows "pass2 good n es strs (es1 @ [e]) h own m"
  using assms unfolding pass2_def by auto

lemma pass2_insert:
  assumes p2: "pass2 good n es strs es1 h own m" and i: "i < length h" "own i = None" "\<And>j. j < Suc i \<Longrightarrow> j \<noteq> i \<Longrightarrow> own j \<noteq> None"
    and e: "e \<in> set (outer_entries n es)" "\<And>j. own j \<noteq> Some e" "node_ok good strs e (NODE x key nx kh kt False)"
    and nx: "nx = nd_next (h ! hslot h (fst e))"
  shows "pass2 good n es strs (es1 @ [e])
    (h[hslot h (fst e) := NODE (nd_value (h ! hslot h (fst e))) (nd_key (h ! hslot h (fst e))) (int i)
         (nd_keyhash (h ! hslot h (fst e))) (nd_keytype (h ! hslot h (fst e))) False,
       i := NODE x key nx kh kt False])
    (own(i \<mapsto> e)) (Suc i)"
proof -
  let ?h = "h[hslot h (fst e) := NODE (nd_value (h ! hslot h (fst e))) (nd_key (h ! hslot h (fst e))) (int i)
         (nd_keyhash (h ! hslot h (fst e))) (nd_keytype (h ! hslot h (fst e))) False, i := NODE x key nx kh kt False]"
  let ?own = "own(i \<mapsto> e)"
  have p: "length h = length (outer_entries n es)" "hash_inv good strs (outer_entries n es) own h"
    "\<And>e'. e' \<in> set (outer_entries n es) \<Longrightarrow> main_slot h own (hslot h (fst e'))"
    "\<And>e'. e' \<in> set es1 \<Longrightarrow> \<not> array_key n (fst e') \<Longrightarrow> \<exists>j. own j = Some e'"
    "\<And>j e'. own j = Some e' \<Longrightarrow> e' \<in> set es1 \<or> hslot h (fst e') = j"
    using p2 unfolding pass2_def by blast+
  have "hash_inv good strs (outer_entries n es) ?own ?h"
    by (rule hash_inv_collide [OF p(2)]) (use p(3) [OF e(1)] i e nx in simp_all)
  moreover have "main_slot ?h ?own q" if "main_slot h own q" for q
    using that i(2) by (auto simp: main_slot_def)
  moreover have "\<exists>j. ?own j = Some e'" if e': "e' \<in> set (es1 @ [e])" "\<not> array_key n (fst e')" for e'
  proof (cases "e' = e")
    case True
    then show ?thesis by (intro exI [of _ i]) simp
  next
    case False
    then obtain j where "own j = Some e'" using p(4) [of e'] e' by auto
    then show ?thesis using i(2) by (intro exI [of _ j]) auto
  qed
  moreover have "e' \<in> set (es1 @ [e]) \<or> hslot ?h (fst e') = j" if "?own j = Some e'" for j e'
    using p(5) [of j e'] that by (auto split: if_splits)
  moreover have "?own j \<noteq> None" if "j < Suc i" for j
    using i(3) [OF that] by (cases "j = i") simp_all
  ultimately show ?thesis
    using p(1,3) unfolding pass2_def by (intro conjI ballI allI impI) simp_all
qed

lemma fillcolliding_correct:
  assumes "values_ok good conv (snd ` set es2)" "distinct (map fst es)" "\<forall>e\<in>set es. conf_key_ok (fst e)" "es = es1 @ es2"
    and "pass2 good n es strs es1 h own m"
  shows "\<exists>h' ys own' m'. fillcolliding conv es2 n h m strs = Inr (h', strs @ ys) \<and> pass2 good n es (strs @ ys) es h' own' m'"
  using assms(1,4,5)
proof (induction es2 arbitrary: es1 strs h own m)
  case Nil
  then show ?case by (metis append_Nil2 fillcolliding.simps(1))
next
  case (Cons e es2)
  obtain k v where e: "e = (k, v)" by fastforce
  note V = values_okD [OF Cons.prems(1)]
  have V': "values_ok good conv (snd ` set es2)" using Cons.prems(1) by (simp add: values_ok_def)
  have k: "conf_key_ok k" using assms(3) Cons.prems(2) e by simp
  have step: ?case
    if s1: "fillcolliding conv (e # es2) n h m strs = fillcolliding conv es2 n h1 m1 (strs @ ys)"
      and s2: "pass2 good n es (strs @ ys) (es1 @ [e]) h1 own1 m1" for h1 m1 ys own1
  proof -
    obtain h' zs own' m' where ih: "fillcolliding conv es2 n h1 m1 (strs @ ys) = Inr (h', (strs @ ys) @ zs)"
        "pass2 good n es ((strs @ ys) @ zs) es h' own' m'"
      using Cons.IH [OF V' _ s2] Cons.prems(2) by auto
    show ?thesis
      by (rule exI [of _ h'], rule exI [of _ "ys @ zs"], rule exI [of _ own'], rule exI [of _ m']) (use ih in \<open>simp add: s1\<close>)
  qed
  show ?case
  proof (cases "array_key n k")
    case True
    obtain i where "ishashkey n k strs = (Inl i, strs)" using ishashkey_array [OF k True] by metis
    then show ?thesis
      by (intro step [of h m "[]" own]) (use True e pass2_skip [OF Cons.prems(3)] in simp_all)
  next
    case False
    obtain ys where ys: "ishashkey n k strs = (Inr (key_fields (strs @ ys) k), strs @ ys)" "text_in (strs @ ys) k"
      using ishashkey_hash [OF k False] by blast
    obtain key kh kt where kf: "key_fields (strs @ ys) k = (key, kh, kt)" by (cases "key_fields (strs @ ys) k") auto
    let ?p = "hslot h k"
    have slot: "conf_slot kh h = ?p" using key_fields_hash [OF k, of "strs @ ys"] kf by (simp add: hslot_def)
    have p2: "pass2 good n es (strs @ ys) es1 h own m" using pass2_strings [OF Cons.prems(3) V(1)] by blast
    have mem: "e \<in> set (outer_entries n es)" using Cons.prems(2) False e by simp
    have inv: "hash_inv good (strs @ ys) (outer_entries n es) own h" using p2 by (simp add: pass2_def)
    have "main_slot h own ?p" using p2 mem e unfolding pass2_def by (metis fst_conv)
    then obtain ep where ep: "own ?p = Some ep" by (auto simp: main_slot_def)
    have nd: "node_for (strs @ ys) (fst ep) (h ! ?p)" using hash_invD(2) [OF inv ep] by (simp add: node_ok_def)
    have same: "nd_keytype (h ! ?p) = kt \<and> nd_key (h ! ?p) = key \<longleftrightarrow> ep = e"
    proof
      assume "nd_keytype (h ! ?p) = kt \<and> nd_key (h ! ?p) = key"
      then have "fst ep = k"
        using nd kf k ys(2) by (intro key_fields_inj [of _ _ "strs @ ys"]) (auto simp: node_for_def dest: sym)
      moreover have "ep \<in> set es" "e \<in> set es" using hash_invD(2) [OF inv ep] mem by auto
      ultimately show "ep = e" using assms(2) e inj_onD [of fst "set es" ep e] by (simp add: distinct_map)
    next
      assume "ep = e"
      then show "nd_keytype (h ! ?p) = kt \<and> nd_key (h ! ?p) = key" using nd kf e by (simp add: node_for_def)
    qed
    show ?thesis
    proof (cases "ep = e")
      case True
      then show ?thesis
        by (intro step [of h m ys own])
          (use ys kf slot same e ep pass2_skip [OF p2, of e ?p] in \<open>simp_all add: Let_def\<close>)
    next
      case neq: False
      have new: "own j \<noteq> Some e" for j
      proof
        assume j: "own j = Some e"
        have "e \<notin> set es1" using assms(2) Cons.prems(2) by auto
        then have "hslot h (fst e) = j" using p2 j unfolding pass2_def by blast
        then show False using j ep e neq by simp
      qed
      obtain i where i: "find_empty (drop m h) m = Some i" "i < length h" "own i = None" "\<And>j. j < Suc i \<Longrightarrow> j \<noteq> i \<Longrightarrow> own j \<noteq> None"
        using find_empty_inv [OF p2 assms(2) mem new] by blast
      obtain x zs where x: "setvalue conv v (strs @ ys) = Inr (x, strs @ ys @ zs)" "good (strs @ ys @ zs) v x" "x \<noteq> VALUE_NIL"
        using V(2) [of v "strs @ ys"] e by auto
      have fe: "fst e = k" by (simp add: e)
      have ip: "i \<noteq> ?p" using i(3) ep by auto
      have node: "node_ok good (strs @ ys @ zs) e (NODE x key (nd_next (h ! hslot h (fst e))) kh kt False)"
      proof -
        have "text_in ((strs @ ys) @ zs) k" "key_fields ((strs @ ys) @ zs) k = (key, kh, kt)"
          using text_in_append [OF ys(2)] key_fields_append [OF k ys(2)] kf by simp_all
        then show ?thesis using hash_node [OF k, of "(strs @ ys) @ zs" key kh kt good v x False] x(2,3) e by simp
      qed
      have "pass2 good n es (strs @ ys @ zs) es1 h own m" using pass2_strings [OF p2 V(1), of zs] by simp
      note pass2_insert [OF this i(2-4) mem new node refl, unfolded fe]
      moreover have "fillcolliding conv (e # es2) n h m strs = fillcolliding conv es2 n
          (h[?p := NODE (nd_value (h ! ?p)) (nd_key (h ! ?p)) (int i) (nd_keyhash (h ! ?p)) (nd_keytype (h ! ?p)) False,
             i := NODE x key (nd_next (h ! ?p)) kh kt False]) (Suc i) (strs @ ys @ zs)"
        using ys(1) kf slot same e neq i(1) x(1) ip by (auto simp: bind_conv_def Let_def)
      ultimately show ?thesis by (intro step [of _ _ "ys @ zs"])
    qed
  qed
qed

subsection \<open>Tables without a hash part\<close>

lemma raw_geti_ok: "raw_geti es (Suc j) = map_of es (LK_INTEGER (of_nat (j + 1)))"
  by simp

lemma fillarray_correct:
  assumes "values_ok good conv (snd ` set es)" "distinct js" "\<forall>j\<in>set js. j < length arr"
    and "\<forall>j<length arr. arr ! j = VALUE_NIL \<or> (\<exists>v. map_of es (LK_INTEGER (of_nat (j + 1))) = Some v \<and> good strs v (arr ! j))"
    and "\<forall>j<length arr. j \<notin> set js \<longrightarrow> (map_of es (LK_INTEGER (of_nat (j + 1))) = None \<longleftrightarrow> arr ! j = VALUE_NIL)"
  shows "\<exists>arr' ys. fillarray conv es (map Suc js) arr strs = Inr (arr', strs @ ys) \<and> length arr' = length arr \<and>
    array_ok good (strs @ ys) es arr'"
  using assms(2-)
proof (induction js arbitrary: arr strs)
  case Nil
  then have "array_ok good strs es arr"
    unfolding array_ok_def by (auto split: option.split) fastforce+
  then show ?case by (intro exI [of _ arr] exI [of _ "[]"]) simp
next
  case (Cons j js)
  note V = values_okD [OF assms(1)]
  have j: "j < length arr" using Cons.prems(2) by simp
  show ?case
  proof (cases "map_of es (LK_INTEGER (of_nat (j + 1)))")
    case None
    have "\<exists>arr' ys. fillarray conv es (map Suc js) (arr[j := VALUE_NIL]) strs = Inr (arr', strs @ ys) \<and>
        length arr' = length (arr[j := VALUE_NIL]) \<and> array_ok good (strs @ ys) es arr'"
      by (rule Cons.IH) (use Cons.prems None in \<open>auto simp: nth_list_update\<close>)
    then show ?thesis using None by simp
  next
    case (Some v)
    then have "v \<in> snd ` set es" by (metis map_of_SomeD image_eqI snd_conv)
    then obtain x ys where x: "setvalue conv v strs = Inr (x, strs @ ys)" "good (strs @ ys) v x" "x \<noteq> VALUE_NIL"
      using V(2) by blast
    have "\<exists>arr' zs. fillarray conv es (map Suc js) (arr[j := x]) (strs @ ys) = Inr (arr', (strs @ ys) @ zs) \<and>
        length arr' = length (arr[j := x]) \<and> array_ok good ((strs @ ys) @ zs) es arr'"
    proof (rule Cons.IH)
      show "\<forall>i<length (arr[j := x]). arr[j := x] ! i = VALUE_NIL \<or>
          (\<exists>v. map_of es (LK_INTEGER (of_nat (i + 1))) = Some v \<and> good (strs @ ys) v (arr[j := x] ! i))"
        using Cons.prems(3) V(1) Some x j by (auto simp: nth_list_update)
      show "\<forall>i<length (arr[j := x]). i \<notin> set js \<longrightarrow> (map_of es (LK_INTEGER (of_nat (i + 1))) = None \<longleftrightarrow> arr[j := x] ! i = VALUE_NIL)"
        using Cons.prems(4) Some x(3) j by (auto simp: nth_list_update)
    qed (use Cons.prems in auto)
    then obtain arr' zs where "fillarray conv es (map Suc js) (arr[j := x]) (strs @ ys) = Inr (arr', strs @ ys @ zs)"
      "length arr' = length arr" "array_ok good (strs @ ys @ zs) es arr'" by auto
    then show ?thesis
      using Some x by (intro exI [of _ arr'] exI [of _ "ys @ zs"]) (simp add: bind_conv_def)
  qed
qed

lemma fillarray_all:
  assumes "values_ok good conv (snd ` set es)"
  shows "\<exists>arr ys. fillarray conv es [1..<Suc n] (replicate n VALUE_NIL) strs = Inr (arr, strs @ ys) \<and> length arr = n \<and>
    array_ok good (strs @ ys) es arr"
proof -
  have "[1..<Suc n] = map Suc [0..<n]" by (simp add: map_Suc_upt)
  then show ?thesis
    using fillarray_correct [OF assms, of "[0..<n]" "replicate n VALUE_NIL" strs] by auto
qed

end
