(* ===== verification/Sharedata_Correct.thy ===== *)
theory Sharedata_Correct
  imports Sharedata_Fill
begin

text \<open>
  A converted table reads like the Lua table it was made from, along every path of keys, and its
  iteration meets every key once.
\<close>

subsection \<open>Reading along a path of keys\<close>

datatype reading = R_NIL | R_REAL u64 | R_INTEGER u64 | R_STRING bytes | R_BOOLEAN bool | R_TABLE | R_OTHER | R_ERROR

fun lua_read :: "lua_val option \<Rightarrow> lua_key list \<Rightarrow> reading" where
  "lua_read None [] = R_NIL"
| "lua_read (Some (LV_REAL x)) [] = R_REAL x"
| "lua_read (Some (LV_INTEGER i)) [] = R_INTEGER i"
| "lua_read (Some (LV_STRING s)) [] = R_STRING s"
| "lua_read (Some (LV_BOOLEAN b)) [] = R_BOOLEAN b"
| "lua_read (Some (LV_TABLE t)) [] = R_TABLE"
| "lua_read (Some LV_OTHER) [] = R_OTHER"
| "lua_read (Some (LV_TABLE t)) (k # ks) = lua_read (map_of (lt_entries t) k) ks"
| "lua_read _ (k # ks) = R_ERROR"

text \<open>The same over a converted table; \<open>None\<close> is a look-up that leaves the table or fails.\<close>

fun conf_read :: "stringmap \<Rightarrow> lua_result \<Rightarrow> lua_key list \<Rightarrow> reading option" where
  "conf_read strs RES_NIL [] = Some R_NIL"
| "conf_read strs (RES_REAL x) [] = Some (R_REAL x)"
| "conf_read strs (RES_INTEGER i) [] = Some (R_INTEGER i)"
| "conf_read strs (RES_STRING s) [] = Some (R_STRING s)"
| "conf_read strs (RES_BOOLEAN b) [] = Some (R_BOOLEAN b)"
| "conf_read strs (RES_TABLE t) [] = Some R_TABLE"
| "conf_read strs (RES_TABLE t) (k # ks) =
     (case lindexconf strs t k of Some (Inr r) \<Rightarrow> conf_read strs r ks | _ \<Rightarrow> None)"
| "conf_read strs _ (k # ks) = Some R_ERROR"

text \<open>A value and its conversion read the same, whatever strings are added later.\<close>

definition reads_same :: "stringmap \<Rightarrow> lua_val \<Rightarrow> conf_val \<Rightarrow> bool" where
  "reads_same strs v x \<longleftrightarrow>
     (\<forall>zs ks. list_all conf_key_ok ks \<longrightarrow>
        (\<exists>r. pushvalue (strs @ zs) x = Some r \<and> conf_read (strs @ zs) r ks = Some (lua_read (Some v) ks)))"

lemma reads_same_append: "reads_same strs v x \<Longrightarrow> reads_same (strs @ ys) v x"
  by (simp add: reads_same_def)

lemma reads_sameD:
  assumes "reads_same strs v x" "list_all conf_key_ok ks"
  obtains r where "pushvalue strs x = Some r" "conf_read strs r ks = Some (lua_read (Some v) ks)"
  using assms by (metis append_Nil2 reads_same_def)

lemma reads_same_leaf:
  assumes "\<And>zs. pushvalue (strs @ zs) x = Some r" "\<And>zs ks. conf_read (strs @ zs) r ks = Some (lua_read (Some v) ks)"
  shows "reads_same strs v x"
  using assms by (simp add: reads_same_def)

lemma reads_same_leaves:
  "reads_same strs (LV_REAL x) (VALUE_REAL x)"
  "reads_same strs (LV_INTEGER i) (VALUE_INTEGER i)"
  "reads_same strs (LV_BOOLEAN b) (VALUE_BOOLEAN b)"
  "conf_string strs j = Some s \<Longrightarrow> reads_same strs (LV_STRING s) (VALUE_STRING j)"
proof -
  have split: "(\<And>k ks'. ks = k # ks' \<Longrightarrow> P ks) \<Longrightarrow> P [] \<Longrightarrow> P ks" for P and ks :: "lua_key list"
    by (cases ks) auto
  show "reads_same strs (LV_REAL x) (VALUE_REAL x)" "reads_same strs (LV_INTEGER i) (VALUE_INTEGER i)"
    "reads_same strs (LV_BOOLEAN b) (VALUE_BOOLEAN b)"
    by (rule reads_same_leaf, simp add: pushvalue_def, rule split, simp_all)+
  show "reads_same strs (LV_STRING s) (VALUE_STRING j)" if "conf_string strs j = Some s"
    by (rule reads_same_leaf, simp add: pushvalue_def conf_string_append [OF that], rule split, simp_all)
qed

subsection \<open>Converted tables\<close>

text \<open>
  Tables that are converted: at most \<open>d\<close> levels, keys that are strings or integers of 32 bits, an
  array part that an \<open>int\<close> can count, and no values of other types.
\<close>

primrec conf_table_ok :: "nat \<Rightarrow> lua_tab \<Rightarrow> bool" where
  "conf_table_ok 0 t \<longleftrightarrow> False"
| "conf_table_ok (Suc d) t \<longleftrightarrow> lt_rawlen t < 2 ^ 31 \<and> distinct (map fst (lt_entries t)) \<and>
     list_all (\<lambda>e. conf_key_ok (fst e) \<and> (case snd e of LV_OTHER \<Rightarrow> False | LV_TABLE t' \<Rightarrow> conf_table_ok d t' | _ \<Rightarrow> True)) (lt_entries t)"

text \<open>\<open>own\<close> says which entry each node of the hash part holds.\<close>

definition conf_ok :: "stringmap \<Rightarrow> lua_tab \<Rightarrow> owners \<Rightarrow> conf_tab \<Rightarrow> bool" where
  "conf_ok strs t own tb \<longleftrightarrow> length (cf_array tb) = lt_rawlen t \<and> lt_rawlen t < 2 ^ 31 \<and>
     distinct (map fst (lt_entries t)) \<and> list_all (\<lambda>e. conf_key_ok (fst e)) (lt_entries t) \<and>
     array_ok reads_same strs (lt_entries t) (cf_array tb) \<and>
     hash_inv reads_same strs (outer_entries (lt_rawlen t) (lt_entries t)) own (cf_hash tb) \<and>
     (\<forall>i<length (cf_hash tb). own i \<noteq> None) \<and>
     (\<forall>e\<in>set (outer_entries (lt_rawlen t) (lt_entries t)). \<exists>i. own i = Some e)"

lemma conf_okD:
  assumes "conf_ok strs t own tb"
  shows "length (cf_array tb) = lt_rawlen t" "lt_rawlen t < 2 ^ 31" "distinct (map fst (lt_entries t))"
    and "e \<in> set (lt_entries t) \<Longrightarrow> conf_key_ok (fst e)"
    and "array_ok reads_same strs (lt_entries t) (cf_array tb)"
    and "hash_inv reads_same strs (outer_entries (lt_rawlen t) (lt_entries t)) own (cf_hash tb)"
    and "i < length (cf_hash tb) \<Longrightarrow> own i \<noteq> None"
    and "e \<in> set (lt_entries t) \<Longrightarrow> \<not> array_key (lt_rawlen t) (fst e) \<Longrightarrow> \<exists>i. own i = Some e"
  using assms unfolding conf_ok_def list_all_iff by (blast, blast, blast, blast, blast, blast, blast, cases e, simp)

lemmas array_same_append = array_ok_strings [of reads_same, OF _ reads_same_append]

lemmas hash_same_append = hash_inv_strings [of reads_same, OF _ reads_same_append]

lemma conf_ok_append: "conf_ok strs t own tb \<Longrightarrow> conf_ok (strs @ ys) t own tb"
  using array_same_append hash_same_append unfolding conf_ok_def by blast

text \<open>Where a key is found.\<close>

lemma lindexconf_array:
  assumes "conf_key_ok k" "array_key (length (cf_array tb)) k"
  obtains j where "j < length (cf_array tb)" "k = LK_INTEGER (of_nat (j + 1))"
    "lindexconf strs tb k = map_option Inr (pushvalue strs (cf_array tb ! j))"
proof -
  obtain i where i: "k = LK_INTEGER i" "0 < sint i" "sint i \<le> int (length (cf_array tb))" using assms(2) by (cases k) auto
  have s: "sint (ucast i :: u32) = sint i" using assms(1) i(1) by (intro sint_ucast) simp_all
  have "nat (sint i) - 1 < length (cf_array tb)" "i = of_nat (nat (sint i) - 1 + 1)"
  proof -
    show "nat (sint i) - 1 < length (cf_array tb)" using i(2,3) by auto
    have "int (nat (sint i) - 1 + 1) = sint i" using i(2) by simp
    then have "(of_int (sint i) :: u64) = of_nat (nat (sint i) - 1 + 1)" by (metis of_int_of_nat_eq)
    then show "i = of_nat (nat (sint i) - 1 + 1)" by simp
  qed
  then show thesis
    using i s by (intro that [of "nat (sint i) - 1"]) (simp_all add: lindexconf_def Let_def)
qed

lemma lindexconf_hash:
  assumes "conf_key_ok k" "\<not> array_key (length (cf_array tb)) k"
    and "lookup_key (cf_hash tb) strs (key_hash k) (fst (query_key k)) (snd (query_key k)) (query_text k) = Some r"
  shows "lindexconf strs tb k =
    (case r of None \<Rightarrow> Some (Inr RES_NIL) | Some i \<Rightarrow> map_option Inr (pushvalue strs (nd_value (cf_hash tb ! i))))"
  using assms by (cases k) (auto simp: lindexconf_def Let_def sint_ucast key_text_def split: option.split)

text \<open>The node that holds a key, with the entries as the reference.\<close>

lemma lookup_entry:
  assumes ok: "conf_ok strs t own tb" and k: "conf_key_ok k" "\<not> array_key (lt_rawlen t) k"
  obtains r where
    "lookup_key (cf_hash tb) strs (key_hash k) (fst (query_key k)) (snd (query_key k)) (query_text k) = Some r"
    "case r of None \<Rightarrow> map_of (lt_entries t) k = None
     | Some i \<Rightarrow> \<exists>v. own i = Some (k, v) \<and> map_of (lt_entries t) k = Some v"
proof -
  note D = conf_okD [OF ok]
  have mem: "(k, v) \<in> set (lt_entries t)" if "own i = Some (k, v)" for i v
    using hash_invD(2) [OF D(6) that] by simp
  have own: "\<exists>i. own i = Some (k, v)" if "map_of (lt_entries t) k = Some v" for v
    using D(8) [of "(k, v)"] map_of_SomeD [OF that] k(2) by simp
  show thesis
  proof (cases "cf_hash tb = []")
    case True
    have "own i = None" for i using hash_invD(2) [OF D(6), of i] True by (cases "own i") auto
    then have "map_of (lt_entries t) k = None" using own by (cases "map_of (lt_entries t) k") auto
    then show thesis using True by (intro that [of None]) (simp_all add: lookup_key_def)
  next
    case False
    obtain r where r: "lookup_key (cf_hash tb) strs (key_hash k) (fst (query_key k)) (snd (query_key k)) (query_text k) = Some r"
      "case r of None \<Rightarrow> \<forall>i e. own i = Some e \<longrightarrow> fst e \<noteq> k | Some i \<Rightarrow> \<exists>e. own i = Some e \<and> fst e = k"
      using lookup_correct [OF D(6) D(7) k(1) False] by blast
    show thesis
    proof (rule that [OF r(1)], cases r)
      case None
      then have "map_of (lt_entries t) k = None" using r(2) own by (cases "map_of (lt_entries t) k") fastforce+
      then show "case r of None \<Rightarrow> map_of (lt_entries t) k = None
        | Some i \<Rightarrow> \<exists>v. own i = Some (k, v) \<and> map_of (lt_entries t) k = Some v" using None by simp
    next
      case (Some i)
      then obtain v where v: "own i = Some (k, v)" using r(2) by auto
      then have "map_of (lt_entries t) k = Some v" using D(3) mem by simp
      then show "case r of None \<Rightarrow> map_of (lt_entries t) k = None
        | Some i \<Rightarrow> \<exists>v. own i = Some (k, v) \<and> map_of (lt_entries t) k = Some v" using Some v by simp
    qed
  qed
qed

text \<open>One look-up gives nil for a key that is not there, and else a value that reads the same.\<close>

lemma lindexconf_correct:
  assumes ok: "conf_ok strs t own tb" and k: "conf_key_ok k"
  shows "case map_of (lt_entries t) k of
      None \<Rightarrow> lindexconf strs tb k = Some (Inr RES_NIL)
    | Some v \<Rightarrow> \<exists>x. reads_same strs v x \<and> lindexconf strs tb k = map_option Inr (pushvalue strs x)"
proof (cases "array_key (lt_rawlen t) k")
  case True
  note D = conf_okD [OF ok]
  have "array_key (length (cf_array tb)) k" using True D(1) by simp
  then obtain j where j: "j < length (cf_array tb)" "k = LK_INTEGER (of_nat (j + 1))"
      "lindexconf strs tb k = map_option Inr (pushvalue strs (cf_array tb ! j))"
    using lindexconf_array [OF k] by metis
  have "case map_of (lt_entries t) k of None \<Rightarrow> cf_array tb ! j = VALUE_NIL
      | Some v \<Rightarrow> reads_same strs v (cf_array tb ! j) \<and> cf_array tb ! j \<noteq> VALUE_NIL"
    using D(5) j(1) unfolding array_ok_def j(2) by blast
  then show ?thesis using j(3) by (auto simp: pushvalue_def split: option.splits)
next
  case False
  note D = conf_okD [OF ok]
  obtain r where r: "lookup_key (cf_hash tb) strs (key_hash k) (fst (query_key k)) (snd (query_key k)) (query_text k) = Some r"
    "case r of None \<Rightarrow> map_of (lt_entries t) k = None
     | Some i \<Rightarrow> \<exists>v. own i = Some (k, v) \<and> map_of (lt_entries t) k = Some v"
    using lookup_entry [OF ok k False] by blast
  have l: "lindexconf strs tb k =
    (case r of None \<Rightarrow> Some (Inr RES_NIL) | Some i \<Rightarrow> map_option Inr (pushvalue strs (nd_value (cf_hash tb ! i))))"
    using lindexconf_hash [OF k _ r(1)] False D(1) by simp
  show ?thesis
  proof (cases r)
    case (Some i)
    then obtain v where v: "own i = Some (k, v)" "map_of (lt_entries t) k = Some v" using r(2) by auto
    then have "reads_same strs v (nd_value (cf_hash tb ! i))" using hash_invD(2) [OF D(6) v(1)] by (simp add: node_ok_def)
    then show ?thesis using l Some v(2) by auto
  qed (use r l in simp)
qed

lemma conf_ok_reads_same:
  assumes "conf_ok strs t own tb"
  shows "reads_same strs (LV_TABLE t) (VALUE_TABLE tb)"
  unfolding reads_same_def
proof (intro allI impI)
  fix zs ks
  assume ks: "list_all conf_key_ok ks"
  let ?S = "strs @ zs"
  have "conf_read ?S (RES_TABLE tb) ks = Some (lua_read (Some (LV_TABLE t)) ks)"
  proof (cases ks)
    case (Cons k ks')
    have l: "case map_of (lt_entries t) k of
        None \<Rightarrow> lindexconf ?S tb k = Some (Inr RES_NIL)
      | Some v \<Rightarrow> \<exists>x. reads_same ?S v x \<and> lindexconf ?S tb k = map_option Inr (pushvalue ?S x)"
      using lindexconf_correct [OF conf_ok_append [OF assms]] ks Cons by simp
    show ?thesis
    proof (cases "map_of (lt_entries t) k")
      case None
      then show ?thesis using l Cons by (cases ks') auto
    next
      case (Some v)
      then obtain x where x: "reads_same ?S v x" "lindexconf ?S tb k = map_option Inr (pushvalue ?S x)" using l by auto
      obtain r where "pushvalue ?S x = Some r" "conf_read ?S r ks' = Some (lua_read (Some v) ks')"
        using reads_sameD [OF x(1), of ks'] ks Cons by auto
      then show ?thesis using x(2) Cons Some by simp
    qed
  qed simp
  then show "\<exists>r. pushvalue ?S (VALUE_TABLE tb) = Some r \<and> conf_read ?S r ks = Some (lua_read (Some (LV_TABLE t)) ks)"
    by (simp add: pushvalue_def)
qed

subsection \<open>The conversion\<close>

lemma setvalue_correct:
  assumes conv: "\<And>t strs. v = LV_TABLE t \<Longrightarrow> \<exists>tb ys own. conv t strs = Inr (tb, strs @ ys) \<and> conf_ok (strs @ ys) t own tb"
    and v: "v \<noteq> LV_OTHER"
  shows "\<exists>x ys. setvalue conv v strs = Inr (x, strs @ ys) \<and> reads_same (strs @ ys) v x \<and> x \<noteq> VALUE_NIL"
proof (cases v)
  case (LV_STRING s)
  obtain ys where ys: "stringindex s strs = (position s (strs @ ys) + 2, strs @ ys)" "s \<in> set (strs @ ys)"
    using stringindex_correct [of s strs] by blast
  then show ?thesis
    using reads_same_leaves(4) [OF conf_string_position [OF ys(2)]] LV_STRING
    by (intro exI [of _ "VALUE_STRING (position s (strs @ ys) + 2)"] exI [of _ ys]) (simp add: setvalue_def)
next
  case (LV_TABLE t)
  obtain tb ys own where tb: "conv t strs = Inr (tb, strs @ ys)" "conf_ok (strs @ ys) t own tb" using conv [OF LV_TABLE] by blast
  then show ?thesis
    using conf_ok_reads_same [OF tb(2)] LV_TABLE
    by (intro exI [of _ "VALUE_TABLE tb"] exI [of _ ys]) (simp add: setvalue_def bind_conv_def)
next
  case (LV_REAL x)
  then show ?thesis
    using reads_same_leaves(1) by (intro exI [of _ "VALUE_REAL x"] exI [of _ "[]"]) (simp add: setvalue_def)
next
  case (LV_INTEGER i)
  then show ?thesis
    using reads_same_leaves(2) by (intro exI [of _ "VALUE_INTEGER i"] exI [of _ "[]"]) (simp add: setvalue_def)
next
  case (LV_BOOLEAN b)
  then show ?thesis
    using reads_same_leaves(3) by (intro exI [of _ "VALUE_BOOLEAN b"] exI [of _ "[]"]) (simp add: setvalue_def)
qed (use v in simp)

lemma fresh_pass1:
  assumes "length h = length (outer_entries n es)" "\<And>nd. nd \<in> set h \<Longrightarrow> nd_value nd = VALUE_NIL"
  shows "pass1 good n es strs [] (replicate n VALUE_NIL) h Map.empty"
proof -
  have "hash_inv good strs (outer_entries n es) Map.empty h"
    by (rule hash_invI) (use assms in \<open>simp_all add: main_slot_def\<close>)
  then show ?thesis
    using assms(1) by (simp add: pass1_def array_ok_def)
qed

lemma convtable_level:
  assumes v: "values_ok reads_same (convtable g d) (snd ` set (lt_entries t))"
    and n: "lt_rawlen t < 2 ^ 31" and dist: "distinct (map fst (lt_entries t))"
    and keys: "list_all (\<lambda>e. conf_key_ok (fst e)) (lt_entries t)"
  shows "\<exists>tb ys own. convtable g (Suc d) t strs = Inr (tb, strs @ ys) \<and> conf_ok (strs @ ys) t own tb"
proof -
  let ?n = "lt_rawlen t" and ?es = "lt_entries t" and ?conv = "convtable g d"
  let ?size = "length (outer_entries ?n ?es)"
  have count: "countsize ?n ?es = Inr ?size" by (rule countsize_correct [OF keys])
  have keys': "\<forall>e\<in>set ?es. conf_key_ok (fst e)" using keys by (simp add: list_all_iff)
  show ?thesis
  proof (cases "?size = 0")
    case True
    obtain arr ys where arr: "fillarray ?conv ?es [1..<Suc ?n] (replicate ?n VALUE_NIL) strs = Inr (arr, strs @ ys)"
        "length arr = ?n" "array_ok reads_same (strs @ ys) ?es arr"
      using fillarray_all [OF v] by blast
    have "hash_inv reads_same (strs @ ys) (outer_entries ?n ?es) Map.empty []"
      by (rule hash_invI) (simp_all add: main_slot_def)
    then have "conf_ok (strs @ ys) t Map.empty (CONF arr [])"
      using arr True n dist keys unfolding conf_ok_def by simp
    moreover have "convtable g (Suc d) t strs = Inr (CONF arr [], strs @ ys)"
      using count True arr(1) by (simp add: bind_conv_def Let_def del: upt_Suc)
    ultimately show ?thesis by blast
  next
    case False
    let ?h0 = "map (\<lambda>i. empty_node (g i)) [0..<?size]"
    have p0: "pass1 reads_same ?n ?es strs [] (replicate ?n VALUE_NIL) ?h0 Map.empty"
      by (rule fresh_pass1) (auto simp: empty_node_def split: prod.splits)
    obtain arr h ys own where f1: "fillnocolliding ?conv ?es (replicate ?n VALUE_NIL) ?h0 strs = Inr ((arr, h), strs @ ys)"
        "pass1 reads_same ?n ?es (strs @ ys) ?es arr h own"
      using fillnocolliding_correct [OF v _ keys' n p0] dist by auto
    obtain h' zs own' m where f2: "fillcolliding ?conv ?es ?n h 0 (strs @ ys) = Inr (h', (strs @ ys) @ zs)"
        "pass2 reads_same ?n ?es ((strs @ ys) @ zs) ?es h' own' m"
      using fillcolliding_correct [OF v dist keys' _ pass1_pass2 [OF f1(2)]] by auto
    have "array_ok reads_same ((strs @ ys) @ zs) ?es arr" "length arr = ?n"
      using f1(2) array_same_append unfolding pass1_def by blast+
    then have "conf_ok ((strs @ ys) @ zs) t own' (CONF arr h')"
      using f2(2) all_positions [OF f2(2) dist] n dist keys unfolding conf_ok_def pass2_def by auto
    moreover have "convtable g (Suc d) t strs = Inr (CONF arr h', strs @ ys @ zs)"
      using count False f1(1) f2(1) by (simp add: bind_conv_def Let_def del: upt_Suc)
    ultimately show ?thesis by (metis append_assoc)
  qed
qed

lemma convtable_correct:
  "conf_table_ok d t \<Longrightarrow> \<exists>tb ys own. convtable g d t strs = Inr (tb, strs @ ys) \<and> conf_ok (strs @ ys) t own tb"
proof (induction d arbitrary: t strs)
  case (Suc d)
  have val: "\<exists>x ys. setvalue (convtable g d) v strs = Inr (x, strs @ ys) \<and> reads_same (strs @ ys) v x \<and> x \<noteq> VALUE_NIL"
    if v: "v \<in> snd ` set (lt_entries t)" for v strs
  proof -
    obtain k where "(k, v) \<in> set (lt_entries t)" using v by auto
    then have "case v of LV_OTHER \<Rightarrow> False | LV_TABLE t' \<Rightarrow> conf_table_ok d t' | _ \<Rightarrow> True"
      using Suc.prems by (fastforce simp: list_all_iff)
    then show ?thesis by (intro setvalue_correct) (use Suc.IH in auto)
  qed
  show ?case
    by (rule convtable_level)
      (use Suc.prems val reads_same_append in \<open>auto simp: values_ok_def list_all_iff\<close>)
qed simp

subsection \<open>Iteration\<close>

text \<open>The loop of a client over the keys; \<open>None\<close> when the fuel is too small or a step fails.\<close>

fun iterate_keys :: "nat \<Rightarrow> stringmap \<Rightarrow> conf_tab \<Rightarrow> lua_key option \<Rightarrow> lua_key list option" where
  "iterate_keys 0 strs tb k = None"
| "iterate_keys (Suc f) strs tb k =
     (case lnextkey strs tb k of
        Some (Inr None) \<Rightarrow> Some []
      | Some (Inr (Some k')) \<Rightarrow> map_option ((#) k') (iterate_keys f strs tb (Some k'))
      | _ \<Rightarrow> None)"

text \<open>The keys in the order of the iteration.\<close>

definition owner_key :: "owners \<Rightarrow> nat \<Rightarrow> lua_key" where
  "owner_key own i = fst (the (own i))"

definition array_keys :: "conf_tab \<Rightarrow> nat \<Rightarrow> lua_key list" where
  "array_keys tb i = map (\<lambda>j. LK_INTEGER (of_nat (j + 1))) (filter (\<lambda>j. cf_array tb ! j \<noteq> VALUE_NIL) [i..<length (cf_array tb)])"

definition hash_keys :: "owners \<Rightarrow> conf_tab \<Rightarrow> nat \<Rightarrow> lua_key list" where
  "hash_keys own tb i = map (owner_key own) [i..<length (cf_hash tb)]"

definition first_key :: "lua_key list \<Rightarrow> lua_key option" where
  "first_key ks = (case ks of [] \<Rightarrow> None | k # _ \<Rightarrow> Some k)"

lemma first_key_simps [simp]: "first_key [] = None" "first_key (k # ks) = Some k"
  by (simp_all add: first_key_def)

lemma owner_facts:
  assumes ok: "conf_ok strs t own tb" and i: "i < length (cf_hash tb)"
  obtains v where "own i = Some (owner_key own i, v)" "(owner_key own i, v) \<in> set (lt_entries t)"
    "conf_key_ok (owner_key own i)" "\<not> array_key (lt_rawlen t) (owner_key own i)" "node_for strs (owner_key own i) (cf_hash tb ! i)"
proof -
  obtain k v where kv: "own i = Some (k, v)" using conf_okD(7) [OF ok i] by auto
  then have "owner_key own i = k" by (simp add: owner_key_def)
  then show thesis
    using hash_invD(2) [OF conf_okD(6) [OF ok] kv] kv by (intro that [of v]) (auto simp: node_ok_def node_for_def)
qed

lemma pushkey_owner:
  assumes "conf_ok strs t own tb" "i < length (cf_hash tb)"
  shows "pushkey strs (cf_hash tb ! i) = Some (owner_key own i)"
proof -
  obtain v where "conf_key_ok (owner_key own i)" and nd: "node_for strs (owner_key own i) (cf_hash tb ! i)"
    using owner_facts [OF assms] by blast
  then show ?thesis
  proof (cases "owner_key own i")
    case (LK_INTEGER w)
    then have "nd_key (cf_hash tb ! i) = sint w" "nd_keytype (cf_hash tb ! i) = KEYTYPE_INTEGER"
      using nd by (simp_all add: node_for_def)
    then show ?thesis using LK_INTEGER by (simp add: pushkey_def)
  next
    case (LK_STRING s)
    then have "nd_key (cf_hash tb ! i) = int (position s strs + 2)" "nd_keytype (cf_hash tb ! i) = KEYTYPE_STRING" "s \<in> set strs"
      using nd by (simp_all add: node_for_def key_text_def)
    then show ?thesis
      using LK_STRING conf_string_position [of s strs] unfolding pushkey_def by (simp only: keytype.case nat_int option.map)
  qed simp_all
qed

lemma hash_keys_first:
  assumes "conf_ok strs t own tb"
  shows "pushfirsthash strs tb = Some (first_key (hash_keys own tb 0))"
proof (cases "cf_hash tb")
  case (Cons nd h)
  then have "pushkey strs nd = Some (owner_key own 0)" using pushkey_owner [OF assms, of 0] by simp
  then show ?thesis using Cons by (simp add: pushfirsthash_def hash_keys_def upt_conv_Cons del: upt_Suc)
qed (simp add: pushfirsthash_def hash_keys_def)

lemma next_hash:
  assumes ok: "conf_ok strs t own tb" and i: "i < length (cf_hash tb)"
  shows "lnextkey strs tb (Some (owner_key own i)) = Some (Inr (first_key (hash_keys own tb (Suc i))))"
proof -
  let ?k = "owner_key own i"
  obtain v where k: "own i = Some (?k, v)" "(?k, v) \<in> set (lt_entries t)" "conf_key_ok ?k" "\<not> array_key (lt_rawlen t) ?k"
    using owner_facts [OF assms] by blast
  obtain r where r: "lookup_key (cf_hash tb) strs (key_hash ?k) (fst (query_key ?k)) (snd (query_key ?k)) (query_text ?k) = Some r"
    "case r of None \<Rightarrow> map_of (lt_entries t) ?k = None
     | Some i \<Rightarrow> \<exists>v. own i = Some (?k, v) \<and> map_of (lt_entries t) ?k = Some v"
    using lookup_entry [OF ok k(3,4)] by blast
  have "map_of (lt_entries t) ?k \<noteq> None" using k(2) conf_okD(3) [OF ok] by simp
  then obtain j w where j: "r = Some j" "own j = Some (?k, w)" using r(2) by (cases r) auto
  have "j = i" using owners_keys [OF conf_okD(6,3) [OF ok] j(2) k(1)] by simp
  have "hash_after strs tb (key_hash ?k) (fst (query_key ?k)) (snd (query_key ?k)) (query_text ?k) =
      Some (first_key (hash_keys own tb (Suc i)))"
    using r(1) j(1) \<open>j = i\<close> pushkey_owner [OF ok, of "Suc i"] i
    by (auto simp: hash_after_def hash_keys_def upt_conv_Cons simp del: upt_Suc)
  moreover have "lnextkey strs tb (Some ?k) =
      map_option Inr (hash_after strs tb (key_hash ?k) (fst (query_key ?k)) (snd (query_key ?k)) (query_text ?k))"
    using k(3,4) conf_okD(1) [OF ok] by (cases ?k) (auto simp: lnextkey_def Let_def sint_ucast key_text_def)
  ultimately show ?thesis by simp
qed

lemma array_from_first:
  assumes "conf_ok strs t own tb"
  shows "array_from strs tb i = Some (first_key (array_keys tb i @ hash_keys own tb 0))"
  using hash_keys_first [OF assms] by (auto simp: array_from_def array_keys_def split: list.split)

lemma small_index:
  assumes "j < n" "n < 2 ^ 31"
  shows "sint (ucast (of_nat (j + 1) :: u64) :: u32) = int (j + 1)" "sint (of_nat (j + 1) :: u64) = int (j + 1)"
proof -
  have "signed_take_bit 63 (int (j + 1)) = int (j + 1)" using assms by (intro signed_take_bit_int_eq_self) auto
  then show s: "sint (of_nat (j + 1) :: u64) = int (j + 1)" unfolding signed_of_nat by simp
  show "sint (ucast (of_nat (j + 1) :: u64) :: u32) = int (j + 1)"
  proof -
    have "- (2 ^ 31) \<le> int (j + 1)" "int (j + 1) < 2 ^ 31" using assms by simp_all
    then show ?thesis using sint_ucast [of "of_nat (j + 1)"] unfolding s by blast
  qed
qed

lemma next_array:
  assumes ok: "conf_ok strs t own tb" and j: "j < length (cf_array tb)"
  shows "lnextkey strs tb (Some (LK_INTEGER (of_nat (j + 1)))) =
    Some (Inr (first_key (array_keys tb (Suc j) @ hash_keys own tb 0)))"
proof -
  have "sint (ucast (of_nat (j + 1) :: u64) :: u32) = int (j + 1)"
    using small_index(1) [OF j] conf_okD(1,2) [OF ok] by simp
  then show ?thesis
    using j array_from_first [OF ok, of "Suc j"] unfolding lnextkey_def Let_def by (simp del: of_nat_Suc)
qed

lemma iterate_hash:
  assumes ok: "conf_ok strs t own tb" and "i \<le> length (cf_hash tb)"
    and "lnextkey strs tb k = Some (Inr (first_key (hash_keys own tb i)))" "length (hash_keys own tb i) < f"
  shows "iterate_keys f strs tb k = Some (hash_keys own tb i)"
  using assms(2-)
proof (induction "length (cf_hash tb) - i" arbitrary: i k f)
  case 0
  then show ?case by (cases f) (simp_all add: hash_keys_def)
next
  case (Suc n)
  then have i: "i < length (cf_hash tb)" by simp
  then have h: "hash_keys own tb i = owner_key own i # hash_keys own tb (Suc i)"
    by (simp add: hash_keys_def upt_conv_Cons)
  obtain f' where f: "f = Suc f'" using Suc.prems(3) by (cases f) auto
  have "iterate_keys f' strs tb (Some (owner_key own i)) = Some (hash_keys own tb (Suc i))"
    using Suc.hyps(2) Suc.prems(3) i h f by (intro Suc.hyps(1) next_hash [OF ok i]) simp_all
  then show ?case using Suc.prems(2) h f by simp
qed

lemma iterate_array:
  assumes ok: "conf_ok strs t own tb" and "i \<le> length (cf_array tb)"
    and "lnextkey strs tb k = Some (Inr (first_key (array_keys tb i @ hash_keys own tb 0)))"
    and "length (array_keys tb i @ hash_keys own tb 0) < f"
  shows "iterate_keys f strs tb k = Some (array_keys tb i @ hash_keys own tb 0)"
  using assms(2-)
proof (induction "length (cf_array tb) - i" arbitrary: i k f)
  case 0
  then have "array_keys tb i = []" by (simp add: array_keys_def)
  then show ?case using 0 iterate_hash [OF ok, of 0 k f] by simp
next
  case (Suc n)
  then have i: "i < length (cf_array tb)" by simp
  show ?case
  proof (cases "cf_array tb ! i = VALUE_NIL")
    case True
    then have "array_keys tb i = array_keys tb (Suc i)" using i by (simp add: array_keys_def upt_conv_Cons)
    then show ?thesis using Suc i by simp
  next
    case False
    then have a: "array_keys tb i = LK_INTEGER (of_nat (i + 1)) # array_keys tb (Suc i)"
      using i by (simp add: array_keys_def upt_conv_Cons)
    obtain f' where f: "f = Suc f'" using Suc.prems(3) by (cases f) auto
    have "iterate_keys f' strs tb (Some (LK_INTEGER (of_nat (i + 1)))) = Some (array_keys tb (Suc i) @ hash_keys own tb 0)"
      using Suc.hyps(2) Suc.prems(3) i a f by (intro Suc.hyps(1) next_array [OF ok i]) simp_all
    then show ?thesis using Suc.prems(2) a f by simp
  qed
qed

text \<open>These are the keys of the Lua table, each of them once.\<close>

lemma array_entry:
  assumes ok: "conf_ok strs t own tb" and j: "j < length (cf_array tb)"
  shows "cf_array tb ! j \<noteq> VALUE_NIL \<longleftrightarrow> map_of (lt_entries t) (LK_INTEGER (of_nat (j + 1))) \<noteq> None"
proof -
  have "case map_of (lt_entries t) (LK_INTEGER (of_nat (j + 1))) of None \<Rightarrow> cf_array tb ! j = VALUE_NIL
      | Some v \<Rightarrow> reads_same strs v (cf_array tb ! j) \<and> cf_array tb ! j \<noteq> VALUE_NIL"
    using conf_okD(5) [OF ok] j unfolding array_ok_def by blast
  then show ?thesis by (auto split: option.splits)
qed

lemma array_keys_set:
  assumes ok: "conf_ok strs t own tb"
  shows "k \<in> set (array_keys tb 0) \<longleftrightarrow> k \<in> fst ` set (lt_entries t) \<and> array_key (lt_rawlen t) k"
proof
  note D = conf_okD [OF ok]
  assume "k \<in> set (array_keys tb 0)"
  then obtain j where j: "j < lt_rawlen t" "cf_array tb ! j \<noteq> VALUE_NIL" "k = LK_INTEGER (of_nat (j + 1))"
    using D(1) unfolding array_keys_def by auto
  then have "map_of (lt_entries t) k \<noteq> None"
    using array_entry [OF ok] D(1) by metis
  moreover have "array_key (lt_rawlen t) k"
    using small_index(2) [OF j(1) D(2)] j(1) unfolding j(3) array_key.simps by simp
  ultimately show "k \<in> fst ` set (lt_entries t) \<and> array_key (lt_rawlen t) k"
    by (simp add: map_of_eq_None_iff)
next
  note D = conf_okD [OF ok]
  assume k: "k \<in> fst ` set (lt_entries t) \<and> array_key (lt_rawlen t) k"
  then have "conf_key_ok k" using D(4) by auto
  then obtain j where j: "j < length (cf_array tb)" "k = LK_INTEGER (of_nat (j + 1))"
    using lindexconf_array [of k tb strs] k D(1) by metis
  have "map_of (lt_entries t) k \<noteq> None" using k by (simp add: map_of_eq_None_iff)
  then have "cf_array tb ! j \<noteq> VALUE_NIL" using array_entry [OF ok j(1)] j(2) by metis
  then have "j \<in> set (filter (\<lambda>j. cf_array tb ! j \<noteq> VALUE_NIL) [0..<length (cf_array tb)])" using j(1) by simp
  then show "k \<in> set (array_keys tb 0)"
    unfolding array_keys_def set_map j(2) by (rule imageI)
qed

lemma hash_keys_set:
  assumes ok: "conf_ok strs t own tb"
  shows "k \<in> set (hash_keys own tb 0) \<longleftrightarrow> k \<in> fst ` set (lt_entries t) \<and> \<not> array_key (lt_rawlen t) k"
proof
  assume "k \<in> set (hash_keys own tb 0)"
  then obtain i where i: "i < length (cf_hash tb)" "k = owner_key own i" unfolding hash_keys_def by auto
  obtain v where "(owner_key own i, v) \<in> set (lt_entries t)" "\<not> array_key (lt_rawlen t) (owner_key own i)"
    using owner_facts [OF ok i(1)] by blast
  then show "k \<in> fst ` set (lt_entries t) \<and> \<not> array_key (lt_rawlen t) k"
    using i(2) by force
next
  assume k: "k \<in> fst ` set (lt_entries t) \<and> \<not> array_key (lt_rawlen t) k"
  then obtain v where v: "(k, v) \<in> set (lt_entries t)" by auto
  then obtain i where i: "own i = Some (k, v)" using conf_okD(8) [OF ok, of "(k, v)"] k by auto
  then have "i < length (cf_hash tb)" "owner_key own i = k"
    using hash_invD(2) [OF conf_okD(6) [OF ok] i] by (simp_all add: owner_key_def)
  then show "k \<in> set (hash_keys own tb 0)" unfolding hash_keys_def by auto
qed

lemma keys_distinct:
  assumes ok: "conf_ok strs t own tb"
  shows "distinct (array_keys tb 0 @ hash_keys own tb 0)"
proof -
  note D = conf_okD [OF ok]
  have a: "inj_on (\<lambda>j. LK_INTEGER (of_nat (j + 1))) {..<lt_rawlen t}"
  proof (rule inj_onI)
    fix i j
    assume ij: "i \<in> {..<lt_rawlen t}" "j \<in> {..<lt_rawlen t}" "LK_INTEGER (of_nat (i + 1)) = LK_INTEGER (of_nat (j + 1))"
    then have "int (i + 1) = int (j + 1)"
      using small_index(2) [OF _ D(2), of i] small_index(2) [OF _ D(2), of j] by (metis lessThan_iff lua_key.inject(1))
    then show "i = j" by simp
  qed
  have "inj_on (\<lambda>j. LK_INTEGER (of_nat (j + 1))) (set (filter (\<lambda>j. cf_array tb ! j \<noteq> VALUE_NIL) [0..<length (cf_array tb)]))"
    by (rule inj_on_subset [OF a]) (use D(1) in auto)
  then have "distinct (array_keys tb 0)"
    unfolding array_keys_def distinct_map by (intro conjI distinct_filter distinct_upt)
  moreover have "distinct (hash_keys own tb 0)"
    unfolding hash_keys_def distinct_map
  proof (intro conjI inj_onI)
    fix i j
    assume "i \<in> set [0..<length (cf_hash tb)]" "j \<in> set [0..<length (cf_hash tb)]" "owner_key own i = owner_key own j"
    moreover from this obtain v w where "own i = Some (owner_key own i, v)" "own j = Some (owner_key own j, w)"
      using owner_facts [OF ok] by (metis atLeastLessThan_iff set_upt)
    ultimately show "i = j" using owners_keys [OF D(6,3)] by simp
  qed simp
  ultimately show ?thesis
    using array_keys_set [OF ok] hash_keys_set [OF ok] by auto
qed

subsection \<open>Keys of more than 32 bits\<close>

text \<open>
  An integer key is cut to an \<open>int\<close> when the table is filled, but counted at its full width: the entry
  of such a key replaces an entry of the array part, and its node stays empty.
\<close>

lemma wide_key_replaces_entry:
  "convtable g (Suc d) (LT 1 [(LK_INTEGER 1, LV_INTEGER 10), (LK_INTEGER 4294967297, LV_INTEGER 20)]) strs =
   Inr (CONF [VALUE_INTEGER 20] [empty_node (g 0)], strs)"
  by (simp add: ishashkey_def setvalue_def bind_conv_def)

subsection \<open>Theorems\<close>


text \<open>The conversion and a path through a nested table, on a small configuration.\<close>

definition demo_conf :: lua_tab where
  "demo_conf = LT 2 [(LK_INTEGER 1, LV_INTEGER 10), (LK_INTEGER 2, LV_STRING [104, 105]), (LK_STRING [97], LV_BOOLEAN True),
     (LK_INTEGER 7, LV_TABLE (LT 0 [(LK_STRING [97], LV_REAL 5), (LK_STRING [98], LV_STRING [97])]))]"

lemma demo_conf_ok: "conf_table_ok 2 demo_conf"
proof -
  have "conf_table_ok (Suc (Suc 0)) demo_conf" by (simp add: demo_conf_def)
  then show ?thesis by (simp only: numeral_2_eq_2)
qed



lemma demo_conf_keys:
  "length (lt_entries demo_conf) + 1 = 5"
  "fst ` set (lt_entries demo_conf) = {LK_INTEGER 1, LK_INTEGER 2, LK_STRING [97], LK_INTEGER 7}"
  by (simp_all add: demo_conf_def)


end
