(* ===== verification/Spec2Isabelle.thy ===== *)
theory Spec2Isabelle
  imports Scheduler Dispatch Service_Command Sha1 Socket_Faults Node_Socket Lua_Seri_Theorems Crypt_Dh Crypt_Des Crypt_Hash
    Recv_Buffer_Correct Cluster_Correct Stm_Correct Mod_Manager Sharedata_Correct
begin

text \<open>
  Verification of the core of skynet, a framework for servers made of many small services that
  exchange messages (C++ and C under \<open>src/\<close>; paths below are relative to it).

  \<^bold>\<open>The program.\<close> A node runs services. Each service has a context with a private message queue
  (\<open>skynet-src/mq\<close>, \<open>skynet-src/service\<close>). Worker threads take a queue from the global queue,
  run the callback of its service on a share of the messages and give the queue back
  (\<open>skynet-src/node/node.cpp\<close>). A timer thread advances a timing wheel and posts the timeouts
  (\<open>skynet-src/timer\<close>). A socket thread owns the sockets; workers write directly when nothing is
  queued and otherwise send it control commands through a pipe (\<open>skynet-src/socket\<close>). Services
  are written in Lua over C libraries (\<open>luaclib-src\<close>), among them the framing of packages and
  SHA-1.

  \<^bold>\<open>Theories and what they model.\<close>

  \<^item> \<open>Skynet_Prelude\<close>: widths of integers, failures as options, lemmas on ring buffers and words.
    \<open>C_Text\<close>: printing and reading of numbers (\<open>snprintf\<close>, \<open>strtol\<close>, \<open>strtoul\<close>) with round trips.
  \<^item> \<open>Mq\<close>: the private queue (\<open>mq_private.cpp\<close>): ring, expansion, overload mark. Locale
    \<open>message_queue\<close> (a FIFO list), interpreted on the ring. \<open>Mq_Global\<close>: the linked global queue
    and the operations that cross both (\<open>mq_global.cpp\<close>, \<open>push\<close>, \<open>mark_release\<close>, \<open>release\<close>).
    \<open>Scheduler\<close>: workers and senders as a step relation; exclusive dispatch, no queue forgotten, no
    assertion fails, by induction over reachable states.
  \<^item> \<open>Timer\<close>, \<open>Timer_Run\<close>: the wheel (\<open>timer_manager.cpp\<close>): lists per level, \<open>add_node\<close>, \<open>timer_shift\<close>,
    \<open>timer_execute\<close>, \<open>update_time\<close>; invariant that every node is where \<open>add_node\<close> would put it now,
    exact dispatch across the wrap of the 32-bit clock. Locale \<open>timeout_service\<close>, interpreted on the
    wheel. \<open>Timer_Service\<close>: \<open>timeout\<close> and delivery to the inbox.
  \<^item> \<open>Name_Table\<close>, \<open>Registry\<close>, \<open>Delivery\<close>, \<open>Service_Manager\<close>: the service manager
    (\<open>service_manager.cpp\<close>): sorted names with bisection (locale \<open>name_service\<close>), the hash of slots
    with growth, contexts with reference counts, sending (locale \<open>message_delivery\<close>), creating and
    retiring services, and the log (\<open>log.cpp\<close>).
  \<^item> \<open>Dispatch\<close>: \<open>dispatch_message\<close> of a worker, the mail of dead services, the monitor and the
    callback of the logger service. \<open>Node_Env\<close>: settings and the configuration table.
    \<open>Service_Command\<close>: the text commands of \<open>service_command.cpp\<close>.
  \<^item> \<open>Socket_Object\<close>, \<open>Ctrl_Cmd\<close>, \<open>Socket_Server\<close>, \<open>Socket_Commands\<close>: socket objects, pool, lock,
    addresses; the packages on the pipe; the write path; the calls of the workers and the handlers
    of the socket thread (\<open>socket_server.cpp\<close>). \<open>Socket_Stream\<close>: a connection is a faithful byte
    stream. \<open>Socket_Faults\<close>: typing of the commands, and three defects. \<open>Socket_Events\<close>: reading,
    accepting, finishing connects, the event loop \<open>poll_socket_event\<close>; \<open>Socket_Loop\<close>: the loop ends
    and reading loses nothing; \<open>Socket_Udp\<close>: datagrams and their answers. \<open>Node_Socket\<close>: the events
    become messages to services (\<open>node_socket.cpp\<close>) and are read back by \<open>l_unpack\<close>.
  \<^item> \<open>Netpack\<close>: \<open>lua-netpack.cpp\<close>; its hash table of partial packages and its ring refine the
    framing of the byte streams. \<open>Little_Endian\<close>: integers in memory. \<open>Lua_Seri\<close> (model),
    \<open>Lua_Seri_Correct\<close> (the writer), \<open>Lua_Seri_Roundtrip\<close> (the reader on what was written),
    \<open>Lua_Seri_Theorems\<close>: the serialisation of Lua values (\<open>lua-seri.cpp\<close>).
  \<^item> \<open>Recv_Buffer\<close>, \<open>Recv_Buffer_Correct\<close>: the receive buffers of \<open>lua-socket.cpp\<close>, linked blocks whose
    nodes come from a shared pool; they refine a queue of bytes. \<open>Cluster\<close>: the
    packages between nodes (\<open>lua-cluster.cpp\<close>), the sender, the agent and the channel that put the
    parts of long messages together. \<open>Cluster_Parts\<close>: the contract of such a receiver (locale
    \<open>reassembly\<close>) and the parts of a message; \<open>Cluster_Correct\<close>: its two interpretations, on requests
    and on responses, and their end-to-end theorems.
  \<^item> \<open>Stm\<close>, \<open>Stm_Correct\<close>: values shared between services by reference counts (\<open>lua-stm.cpp\<close>), as
    interleaved steps that refine a register with a history. \<open>Step_Run\<close>: sequences of operations and
    the contract of an implementation (locale \<open>step_refinement\<close>), interpreted on the receive buffers
    and on the shared values. \<open>Mod_Manager\<close>: the loader of plug-ins (\<open>skynet-src/mod\<close>).
  \<^item> \<open>Sharedata\<close>: configuration tables shared by all services (\<open>lua-sharedata.cpp\<close>), converted from
    Lua tables in two passes, first the keys at their main positions and then the colliding ones.
    \<open>Sharedata_Keys\<close>: keys and strings. \<open>Sharedata_Hash\<close>: the chains of the hash part and the look-up.
    \<open>Sharedata_Fill\<close>: the invariants of the two passes. \<open>Sharedata_Correct\<close>: a converted table reads like
    the Lua table along every path of keys, and its iteration meets every key once.
  \<^item> Cryptography: \<open>Sha1\<close>: \<open>lsha1.c\<close>, equal to FIPS 180 and RFC 2104. \<open>Crypt_Base\<close>, \<open>Crypt_Dh\<close>,
    \<open>Crypt_Des\<close>, \<open>Crypt_Text\<close>, \<open>Crypt_Hash\<close>: \<open>lua-crypt.cpp\<close> (key exchange, DES with its paddings
    as a locale \<open>block_padding\<close> interpreted on both, hexadecimal, base64, message codes). \<open>Md5\<close>:
    \<open>lua-md5\<close>, equal to RFC 1321, and its stream cipher.

  \<^bold>\<open>State and correspondence.\<close> A class is a record with the members of the source; a pointer to a
  queue or context is a number into a heap; a pointer to data is the data (\<open>None\<close> is null). An
  operation takes the state and returns the new one; it returns \<open>None\<close> where the process aborts or
  its behaviour is undefined (a failed assertion, a null or unset function pointer, an access out
  of a block), so that every theorem that gives a result also says that this does not happen.
  Mutexes make operations atomic; where the code releases one in the middle (the timer) or
  competes for one (direct writes) the interleaving is explicit in the steps.

  \<^bold>\<open>Bounds.\<close> Loops are structural recursions or functions with a measure. \<open>pop_loop\<close> of \<open>Netpack\<close> and
  the draining loops of the queues have fuel; the capacity of a ring exceeds the number of its
  entries, and the theorems show that this fuel suffices. The reader of \<open>Lua_Seri\<close> has the length of
  the buffer as its fuel, since every value takes a byte. The kernel answers the writes of
  \<open>Socket_Server\<close> from a finite list and with \<open>EAGAIN\<close> after it; this excludes only an endless
  sequence of interrupted calls. A run of a connection is bounded by the 16-bit sending count,
  at which the code itself would spin.

  \<^bold>\<open>Parameters.\<close> The kernel (clock, sockets, poller, names), the callbacks of services, the plug-ins
  and the Lua interpreter are arguments of the definitions that use them.

  \<^bold>\<open>Not modelled.\<close> Start-up and shut-down of threads, daemon and signal helpers
  (thin wrappers of system calls); socket information for the console; the Lua bindings that only
  pass arguments on; trace tags of cluster requests; vendored libraries and Lua code, except the
  receiving loop of the gate and the two ends of a cluster connection.
\<close>

lemma gate_of_one_socket:
  assumes "[] \<notin> set ds" and "those (map l_pack msgs) = Some wire" and "concat ds = concat wire"
  shows "\<exists>out L. gate_messages None (map (\<lambda>d. data_message (s, d)) ds) = Some (out, L) \<and>
    of_socket s out = msgs \<and> leftover L s = []"
proof -
  have frames: "split_frames (concat ds) = (msgs, [])"
    using split_frames_packed [OF assms(2), of "[]"] by (simp add: assms(3) split_frames_short)
  have ne: "\<forall>sc \<in> set (map (Pair s) ds). snd sc \<noteq> []"
    using assms(1) by auto
  have rest: "split_frames (leftover None t) = ([], leftover None t)" for t
    by (simp add: initial_queue(3) split_frames_short)
  obtain out L where "gate_messages None (map data_message (map (Pair s) ds)) = Some (out, L)"
    and "split_frames (leftover None s @ concat (of_socket s (map (Pair s) ds))) = (of_socket s out, leftover L s)"
    using gate_stream [OF initial_queue(1,2) ne rest] by blast
  then show ?thesis
    using frames by (intro exI [of _ out] exI [of _ L]) (simp add: initial_queue(3) comp_def)
qed



end
